(* ===== verification/GoPrelude.thy ===== *)
theory GoPrelude
  imports
    Main
    "HOL-Library.Word"
    "HOL-Library.Sublist"
    "HOL-Library.Char_ord"
    "HOL-Library.List_Lexorder"
begin

text \<open>
  What every component of the development shares: the machine types of the Go code, byte lists as
  big-endian numbers, the passage between bytes and characters, sequencing of fallible calls, and
  the interface of a self-delimiting codec (\<open>prefix_codec\<close>), which the wire formats of the
  repository interpret.

  Go's \<open>byte\<close>, \<open>uint64\<close> and \<open>int64\<close> are words of that width, so that shifts and additions wrap as
  they do in the code; \<open>int64\<close> is read with \<open>sint\<close>. A Go \<open>string\<close> is a sequence of bytes and is a
  list of the 8-bit characters of HOL.
\<close>

unbundle bit_operations_syntax

type_synonym byte = "8 word"
type_synonym u16 = "16 word"
type_synonym u32 = "32 word"
type_synonym u64 = "64 word"

named_theorems codec_simps \<open>round-trip equations of the codecs\<close>
named_theorems shrink_intros \<open>a successful read leaves a shorter input\<close>

subsection \<open>Fallible calls\<close>

text \<open>
  A Go call that returns a value and an error is a sum, \<open>Inl\<close> the error. \<open>and_then\<close> is the code's
  \<open>if err != nil { return err }\<close>.
\<close>

definition and_then :: "'e + 'a \<Rightarrow> ('a \<Rightarrow> 'e + 'b) \<Rightarrow> 'e + 'b" where
  "and_then r f = (case r of Inl e \<Rightarrow> Inl e | Inr x \<Rightarrow> f x)"

lemma and_then_simps [simp]:
  "and_then (Inl e) f = Inl e"
  "and_then (Inr x) f = f x"
  by (simp_all add: and_then_def)

lemma and_then_Inr_iff:
  "and_then r f = Inr y \<longleftrightarrow> (\<exists>x. r = Inr x \<and> f x = Inr y)"
  by (cases r) simp_all

lemma and_then_cong [fundef_cong]:
  "r = r' \<Longrightarrow> (\<And>x. r' = Inr x \<Longrightarrow> f x = g x) \<Longrightarrow> and_then r f = and_then r' g"
  by (cases r') simp_all

subsection \<open>Bytes and characters\<close>

lemma unat_byte_less: "unat (b :: byte) < 256"
  using unsigned_less [of b, where ?'a = nat] by simp

definition byte_of_char :: "char \<Rightarrow> byte" where
  "byte_of_char c = of_char c"

definition char_of_byte :: "byte \<Rightarrow> char" where
  "char_of_byte b = char_of (unat b)"

text \<open>The conversions \<open>[]byte(s)\<close> and \<open>string(b)\<close>.\<close>

definition bytes_of :: "string \<Rightarrow> byte list" where
  "bytes_of s = map byte_of_char s"

definition string_of :: "byte list \<Rightarrow> string" where
  "string_of bs = map char_of_byte bs"

lemma unat_byte_of_char: "unat (byte_of_char c) = of_char c"
proof -
  have "(of_char c :: byte) = word_of_nat (of_char c)"
    by (simp add: of_nat_of_char)
  moreover have "(of_char c :: nat) < 256"
    by simp
  ultimately show ?thesis
    by (simp add: byte_of_char_def unat_of_nat)
qed

lemma char_of_byte_of_char [simp]: "char_of_byte (byte_of_char c) = c"
  by (simp add: char_of_byte_def unat_byte_of_char)

lemma byte_of_char_of_byte [simp]: "byte_of_char (char_of_byte b) = b"
proof -
  have "unat (byte_of_char (char_of_byte b)) = unat b"
    by (simp add: unat_byte_of_char char_of_byte_def unat_byte_less)
  then show ?thesis by (simp only: word_unat_eq_iff)
qed

lemma string_of_bytes_of [simp]: "string_of (bytes_of s) = s"
  by (simp add: string_of_def bytes_of_def comp_def)

lemma bytes_of_string_of [simp]: "bytes_of (string_of bs) = bs"
  by (simp add: string_of_def bytes_of_def comp_def)

lemma length_bytes_of [simp]: "length (bytes_of s) = length s"
  by (simp add: bytes_of_def)

lemma bytes_of_eq_Nil [simp]: "bytes_of s = [] \<longleftrightarrow> s = []"
  by (simp add: bytes_of_def)

lemma unat_uminus_byte: "(l :: byte) \<noteq> 0 \<Longrightarrow> unat (- l) = 256 - unat l"
proof -
  assume "l \<noteq> 0"
  then have pos: "0 < unat l" by (simp add: unat_gt_0)
  have "l + word_of_nat (256 - unat l) = word_of_nat (unat l + (256 - unat l))"
    by (simp only: of_nat_add) simp
  also have "unat l + (256 - unat l) = 256" using unat_byte_less [of l] by simp
  finally have neg: "- l = word_of_nat (256 - unat l)" by (intro minus_unique) simp
  have "unat (word_of_nat k :: byte) = k" if "k < 256" for k
    using that by (simp add: unat_of_nat)
  moreover have "256 - unat l < 256" using pos by simp
  ultimately show ?thesis by (simp only: neg)
qed

subsection \<open>Big-endian numbers\<close>

text \<open>
  The value of a byte list, most significant byte first, and the \<open>n\<close> low bytes of a number in that
  order. \<open>be_fold\<close> is the loop \<open>uvalue = uvalue << 8 | uint64(b)\<close> that the decoders run.
\<close>

definition be_fold :: "u64 \<Rightarrow> byte list \<Rightarrow> u64" where
  "be_fold acc bs = foldl (\<lambda>u b. (push_bit 8 u) OR ucast b) acc bs"

definition be_value :: "byte list \<Rightarrow> nat" where
  "be_value bs = foldl (\<lambda>u b. 256 * u + unat b) 0 bs"

definition be_bytes :: "nat \<Rightarrow> u64 \<Rightarrow> byte list" where
  "be_bytes n v = map (\<lambda>i. ucast (drop_bit (8 * i) v)) (rev [0..<n])"

lemma length_be_bytes [simp]: "length (be_bytes n v) = n"
  by (simp add: be_bytes_def)

lemma be_bytes_0 [simp]: "be_bytes 0 v = []"
  by (simp add: be_bytes_def)

lemma be_bytes_Suc: "be_bytes (Suc n) v = ucast (drop_bit (8 * n) v) # be_bytes n v"
  by (simp add: be_bytes_def)

lemma be_value_snoc [simp]: "be_value (bs @ [b]) = 256 * be_value bs + unat b"
  by (simp add: be_value_def)

lemma be_value_Nil [simp]: "be_value [] = 0"
  by (simp add: be_value_def)

lemma base256_less: "a < p \<Longrightarrow> b < 256 \<Longrightarrow> 256 * a + b < 256 * (p :: nat)"
  by linarith

lemma be_value_bound: "be_value bs < 256 ^ length bs"
proof (induction bs rule: rev_induct)
  case Nil
  then show ?case by simp
next
  case (snoc b bs)
  from snoc.IH unat_byte_less [of b] show ?case
    by (simp add: base256_less)
qed

lemma unat_shift_or_byte:
  assumes "unat u < 2 ^ 56"
  shows "unat ((push_bit 8 u :: u64) OR ucast (b :: byte)) = 256 * unat u + unat b"
proof -
  have disj: "push_bit 8 u AND (ucast b :: u64) = 0"
    by (rule bit_eqI) (auto simp: bit_simps dest: bit_imp_le_length)
  have blt: "unat b < 256" by (rule unat_byte_less)
  then have b: "unat (ucast b :: u64) = unat b"
    by (simp add: unsigned_ucast_eq take_bit_nat_eq_self_iff)
  have u: "unat (push_bit 8 u) = 256 * unat u"
    using assms by (simp add: push_bit_eq_mult unat_word_ariths)
  have "push_bit 8 u OR ucast b = push_bit 8 u + (ucast b :: u64)"
    using disj by (simp add: disjunctive_add_eq_or)
  moreover have "unat (push_bit 8 u) + unat (ucast b :: u64) < 2 ^ 64"
    using assms u b blt by simp
  ultimately show ?thesis
    using u b by (simp add: unat_word_ariths)
qed

lemma unat_be_fold: "length bs \<le> 8 \<Longrightarrow> unat (be_fold 0 bs) = be_value bs"
proof (induction bs rule: rev_induct)
  case Nil
  then show ?case by (simp add: be_fold_def)
next
  case (snoc b bs)
  then have ih: "unat (be_fold 0 bs) = be_value bs" and len: "length bs \<le> 7" by simp_all
  have "be_value bs < 256 ^ length bs" by (rule be_value_bound)
  also have "(256 :: nat) ^ length bs \<le> 256 ^ 7" using len by (rule power_increasing) simp
  finally have "unat (be_fold 0 bs) < 2 ^ 56" using ih by simp
  then show ?case using ih by (simp add: be_fold_def unat_shift_or_byte)
qed

lemma be_value_Cons: "be_value (b # bs) = unat b * 256 ^ length bs + be_value bs"
  by (induction bs rule: rev_induct) (simp_all add: be_value_def algebra_simps)

lemma be_value_be_bytes: "be_value (be_bytes n v) = unat v mod 256 ^ n"
proof (induction n)
  case 0
  then show ?case by simp
next
  case (Suc n)
  have "unat (drop_bit (8 * n) v) = drop_bit (8 * n) (unat v)"
    by (rule unat_drop_bit_eq)
  also have "\<dots> = unat v div 256 ^ n"
    by (simp add: drop_bit_eq_div power_mult)
  finally have "unat (ucast (drop_bit (8 * n) v) :: byte) = unat v div 256 ^ n mod 256"
    by (simp add: unsigned_ucast_eq take_bit_eq_mod)
  then have "be_value (be_bytes (Suc n) v)
      = (unat v div 256 ^ n mod 256) * 256 ^ n + unat v mod 256 ^ n"
    using Suc.IH by (simp add: be_bytes_Suc be_value_Cons)
  also have "\<dots> = unat v mod 256 ^ Suc n"
    using mod_mult2_eq [of "unat v" "256 ^ n" 256] by (simp add: mult.commute)
  finally show ?case .
qed

lemma be_fold_be_bytes:
  assumes "n \<le> 8" "unat v < 256 ^ n"
  shows "be_fold 0 (be_bytes n v) = v"
proof -
  have "unat (be_fold 0 (be_bytes n v)) = unat v"
    using assms by (simp add: unat_be_fold be_value_be_bytes)
  then show ?thesis by (simp only: word_unat_eq_iff)
qed

lemma be_value_inject:
  "length as = length bs \<Longrightarrow> be_value as = be_value bs \<Longrightarrow> as = bs"
proof (induction as arbitrary: bs rule: rev_induct)
  case Nil
  then show ?case by simp
next
  case (snoc a as)
  then obtain b bs' where bs: "bs = bs' @ [b]" and len: "length as = length bs'"
    by (cases bs rule: rev_cases) auto
  with snoc.prems have eq: "256 * be_value as + unat a = 256 * be_value bs' + unat b" by simp
  have "be_value as = be_value bs'"
    using arg_cong [OF eq, of "\<lambda>n. n div 256"] by (simp add: unat_byte_less)
  moreover from this eq have "a = b" by (simp add: word_unat_eq_iff)
  ultimately show ?case using snoc.IH [OF len] bs by simp
qed

lemma be_bytes_be_fold: "length bs \<le> 8 \<Longrightarrow> be_bytes (length bs) (be_fold 0 bs) = bs"
  by (rule be_value_inject) (simp_all add: be_value_be_bytes unat_be_fold be_value_bound)

end
