(* ===== verification/ContextTree.thy ===== *)
theory ContextTree
  imports GoPrelude "HOL-Library.Multiset"
begin

text \<open>
  Package context: the values a context carries, and the cancellation of a tree of contexts by goroutines that
  run concurrently.

  A context is immutable and is modelled as a value. The shared state is in the cells (\<open>cancelState\<close>), in the
  timers and in the goroutines. A function of the package is a sequence of instructions, one for each section
  that it runs under a lock, for starting or stopping a timer, and for returning to the caller; between two
  instructions any other goroutine may run. The loop of \<open>cancel\<close> over the children of a cell, in the
  arbitrary order of a Go map, pushes one instruction per child on the goroutine's stack.
\<close>

subsection \<open>Contexts\<close>

type_synonym cs_id = nat

datatype ctx_err = Canceled | DeadlineExceeded

datatype 'k ctx_key = rootKey | cancelKey | deadlineKey | UserKey 'k

text \<open>A \<open>deadlineState\<close> is the deadline; its timer is known by the cell that it cancels.\<close>

datatype 'v ctx_value = VCancel cs_id | VDeadline int | VUser 'v

text \<open>\<open>key\<close> and \<open>value\<close> are \<open>None\<close> for a nil interface.\<close>

datatype ('k, 'v, 'l) T = T
  (tparent: "('k, 'v, 'l) T option") (logger: 'l) (ctxLogger: 'l) (tkey: "'k ctx_key option") (tvalue: "'v ctx_value option")

datatype ctx_panic = UninitializedContext | NilKey

definition WithLogger :: "('k, 'v, 'l) T \<Rightarrow> 'l \<Rightarrow> ('k, 'v, 'l) T" where
  "WithLogger parent lg = (case parent of T p _ cl k v \<Rightarrow> T p lg cl k v)"

definition WithContextLogger :: "('k, 'v, 'l) T \<Rightarrow> 'l \<Rightarrow> ('k, 'v, 'l) T" where
  "WithContextLogger parent lg = (case parent of T p l _ k v \<Rightarrow> T p l lg k v)"

definition LoggerImplementation :: "('k, 'v, 'l) T \<Rightarrow> 'l" where
  "LoggerImplementation t = logger t"

definition Initialized :: "('k, 'v, 'l) T option \<Rightarrow> bool" where
  "Initialized t \<longleftrightarrow> (case t of None \<Rightarrow> False | Some t \<Rightarrow> tkey t \<noteq> None)"

fun Value :: "('k, 'v, 'l) T option \<Rightarrow> 'k ctx_key option \<Rightarrow> 'v ctx_value option" where
  "Value None key = None"
| "Value (Some (T p l cl k v)) key = (if key = k then v else Value p key)"

definition WithValue :: "('k, 'v, 'l) T option \<Rightarrow> 'k ctx_key option \<Rightarrow> 'v ctx_value option \<Rightarrow> ctx_panic + ('k, 'v, 'l) T" where
  "WithValue parent key val =
     (case parent of
        None \<Rightarrow> Inl UninitializedContext
      | Some p \<Rightarrow>
          if \<not> Initialized parent then Inl UninitializedContext
          else if key = None then Inl NilKey
          else Inr (T parent (logger p) (ctxLogger p) key val))"

definition Deadline :: "('k, 'v, 'l) T option \<Rightarrow> int option" where
  "Deadline t = (case Value t (Some deadlineKey) of Some (VDeadline d) \<Rightarrow> Some d | _ \<Rightarrow> None)"

text \<open>The cell of a context, as \<open>Err\<close>, \<open>Done\<close> and \<open>withCancelState\<close> find it.\<close>

definition cancel_of :: "('k, 'v, 'l) T option \<Rightarrow> cs_id option" where
  "cancel_of t = (case Value t (Some cancelKey) of Some (VCancel c) \<Rightarrow> Some c | _ \<Rightarrow> None)"

text \<open>The loop of \<open>WithRootCancel\<close>: the cell of the outermost ancestor that has one as its value.\<close>

fun root_loop :: "cs_id option \<Rightarrow> ('k, 'v, 'l) T option \<Rightarrow> cs_id option" where
  "root_loop root None = root"
| "root_loop root (Some (T p l cl k v)) = root_loop (case v of Some (VCancel cs) \<Rightarrow> Some cs | _ \<Rightarrow> root) p"

subsection \<open>Cells\<close>

record cancelState =
  done_closed :: bool
  cs_err :: "ctx_err option"
  children :: "cs_id list"

definition new_cell :: cancelState where
  "new_cell = \<lparr>done_closed = False, cs_err = None, children = []\<rparr>"

text \<open>What a \<open>CancelFunc\<close> captures; \<open>cl_timer\<close> says whether it has a timer to stop.\<close>

record closure =
  cl_cs :: cs_id
  cl_parent :: "cs_id option"
  cl_timer :: bool
  cl_err :: ctx_err

datatype ('k, 'v, 'l) instr =
    AddChild cs_id cs_id
  | RemoveChild cs_id cs_id
  | StopTimer cs_id
  | Cancel cs_id ctx_err
  | AfterFunc cs_id int closure
  | Return "('k, 'v, 'l) T" closure

text \<open>
  The shared state. \<open>timers\<close> holds the timers that have not fired and are not stopped, with the time at
  which they fire and their function; \<open>returned\<close> the contexts and cancel functions that callers have.
\<close>

record ('k, 'v, 'l) sys =
  cells :: "cs_id \<Rightarrow> cancelState option"
  timers :: "cs_id \<Rightarrow> (int \<times> closure) option"
  clock :: int
  stacks :: "nat \<Rightarrow> ('k, 'v, 'l) instr list"
  contexts :: "('k, 'v, 'l) T set"
  funcs :: "closure set"
  panicked :: bool

definition makeCancelFunc :: "closure \<Rightarrow> ('k, 'v, 'l) instr list" where
  "makeCancelFunc cl =
     (case cl_parent cl of Some p \<Rightarrow> [RemoveChild p (cl_cs cl)] | None \<Rightarrow> [])
     @ (if cl_timer cl then [StopTimer (cl_cs cl)] else [])
     @ [Cancel (cl_cs cl) (cl_err cl)]"

text \<open>The sections under a lock: the instructions to run next, and the cell after it.\<close>

definition addChild_section :: "cs_id \<Rightarrow> cancelState \<Rightarrow> ('k, 'v, 'l) instr list \<times> cancelState" where
  "addChild_section child c =
     (case cs_err c of
        Some err \<Rightarrow> ([Cancel child err], c)
      | None \<Rightarrow> ([], c\<lparr>children := List.insert child (children c)\<rparr>))"

definition removeChild_section :: "cs_id \<Rightarrow> cancelState \<Rightarrow> cancelState" where
  "removeChild_section child c = c\<lparr>children := removeAll child (children c)\<rparr>"

text \<open>Closing a closed channel would panic; the third component says so.\<close>

definition cancel_section :: "ctx_err \<Rightarrow> cancelState \<Rightarrow> cs_id list \<times> cancelState \<times> bool" where
  "cancel_section err c =
     (case cs_err c of
        None \<Rightarrow> (children c, \<lparr>done_closed = True, cs_err = Some err, children = []\<rparr>, done_closed c)
      | Some _ \<Rightarrow> ([], c, False))"

subsection \<open>The steps of the goroutines\<close>

abbreviation set_stack :: "nat \<Rightarrow> ('k, 'v, 'l) instr list \<Rightarrow> ('k, 'v, 'l) sys \<Rightarrow> ('k, 'v, 'l) sys" where
  "set_stack g is s \<equiv> s\<lparr>stacks := (stacks s)(g := is)\<rparr>"

abbreviation set_cell :: "cs_id \<Rightarrow> cancelState \<Rightarrow> ('k, 'v, 'l) sys \<Rightarrow> ('k, 'v, 'l) sys" where
  "set_cell c x s \<equiv> s\<lparr>cells := (cells s)(c \<mapsto> x)\<rparr>"

text \<open>The next instruction of a goroutine.\<close>

inductive exec :: "nat \<Rightarrow> ('k, 'v, 'l) sys \<Rightarrow> ('k, 'v, 'l) sys \<Rightarrow> bool" for g where
  addChild: "stacks s g = AddChild p c # is \<Longrightarrow> cells s p = Some cell \<Longrightarrow> addChild_section c cell = (js, cell') \<Longrightarrow>
    exec g s (set_stack g (js @ is) (set_cell p cell' s))"
| removeChild: "stacks s g = RemoveChild p c # is \<Longrightarrow> cells s p = Some cell \<Longrightarrow>
    exec g s (set_stack g is (set_cell p (removeChild_section c cell) s))"
| stopTimer: "stacks s g = StopTimer c # is \<Longrightarrow>
    exec g s (set_stack g is (s\<lparr>timers := (timers s)(c := None)\<rparr>))"
| cancel: "stacks s g = Cancel c err # is \<Longrightarrow> cells s c = Some cell \<Longrightarrow> cancel_section err cell = (ks, cell', panic) \<Longrightarrow>
    mset js = mset ks \<Longrightarrow>
    exec g s (set_stack g (map (\<lambda>k. Cancel k err) js @ is) (set_cell c cell' (s\<lparr>panicked := panicked s \<or> panic\<rparr>)))"
| afterFunc: "stacks s g = AfterFunc c timeout cl # is \<Longrightarrow>
    exec g s (set_stack g is (s\<lparr>timers := (timers s)(c \<mapsto> (clock s + timeout, cl))\<rparr>))"
| return: "stacks s g = Return t cl # is \<Longrightarrow>
    exec g s (set_stack g is (s\<lparr>contexts := insert t (contexts s), funcs := insert cl (funcs s)\<rparr>))"

text \<open>
  The calls of the package. The new cell is fresh; \<open>addParent\<close> is the rest of \<open>withCancelState\<close> and
  \<open>WithRootCancel\<close> when there is a cell above. A call starts on a goroutine that has nothing to do.
\<close>

definition addParent :: "cs_id option \<Rightarrow> cs_id \<Rightarrow> ('k, 'v, 'l) instr list" where
  "addParent p c = (case p of Some p \<Rightarrow> [AddChild p c] | None \<Rightarrow> [])"

definition cancel_closure :: "cs_id \<Rightarrow> cs_id option \<Rightarrow> closure" where
  "cancel_closure c p = \<lparr>cl_cs = c, cl_parent = p, cl_timer = False, cl_err = Canceled\<rparr>"

definition WithCancel :: "('k, 'v, 'l) T \<Rightarrow> cs_id \<Rightarrow> ctx_panic + ('k, 'v, 'l) instr list" where
  "WithCancel parent c =
     (let p = cancel_of (Some parent) in
      and_then (WithValue (Some parent) (Some cancelKey) (Some (VCancel c))) (\<lambda>t.
        Inr (addParent p c @ [Return t (cancel_closure c p)])))"

definition withDeadlineState :: "('k, 'v, 'l) T \<Rightarrow> cs_id \<Rightarrow> int \<Rightarrow> int \<Rightarrow> ctx_panic + ('k, 'v, 'l) instr list" where
  "withDeadlineState parent c deadline timeout =
     (let p = cancel_of (Some parent) in
      and_then (WithValue (Some parent) (Some cancelKey) (Some (VCancel c))) (\<lambda>t.
      and_then (WithValue (Some t) (Some deadlineKey) (Some (VDeadline deadline))) (\<lambda>t'.
        Inr (addParent p c
             @ [AfterFunc c timeout \<lparr>cl_cs = c, cl_parent = p, cl_timer = False, cl_err = DeadlineExceeded\<rparr>,
                Return t' \<lparr>cl_cs = c, cl_parent = p, cl_timer = True, cl_err = Canceled\<rparr>]))))"

definition WithDeadline :: "('k, 'v, 'l) T \<Rightarrow> cs_id \<Rightarrow> int \<Rightarrow> int \<Rightarrow> ctx_panic + ('k, 'v, 'l) instr list" where
  "WithDeadline parent c now deadline = withDeadlineState parent c deadline (deadline - now)"

definition WithTimeout :: "('k, 'v, 'l) T \<Rightarrow> cs_id \<Rightarrow> int \<Rightarrow> int \<Rightarrow> ctx_panic + ('k, 'v, 'l) instr list" where
  "WithTimeout parent c now timeout = withDeadlineState parent c (now + timeout) timeout"

definition WithRootCancel :: "('k, 'v, 'l) T \<Rightarrow> cs_id \<Rightarrow> ctx_panic + ('k, 'v, 'l) instr list" where
  "WithRootCancel parent c =
     (let root = root_loop None (Some parent) in
      and_then (WithValue (Some parent) (Some cancelKey) (Some (VCancel c))) (\<lambda>t.
        Inr (addParent root c @ [Return t (cancel_closure c root)])))"

definition RootContext :: "'l \<Rightarrow> 'l \<Rightarrow> cs_id \<Rightarrow> ctx_panic + ('k, 'v, 'l) instr list" where
  "RootContext discard nil c = WithCancel (T None discard nil (Some rootKey) None) c"

text \<open>The program of a call that makes a cell, with the cell above it and the deadline, if any.\<close>

inductive makes_cell :: "('k, 'v, 'l) sys \<Rightarrow> cs_id \<Rightarrow> cs_id option \<Rightarrow> int option \<Rightarrow> ('k, 'v, 'l) instr list \<Rightarrow> bool" for s c where
  root: "RootContext discard nil c = Inr is \<Longrightarrow> makes_cell s c None None is"
| with_cancel: "t \<in> contexts s \<Longrightarrow> WithCancel t c = Inr is \<Longrightarrow> makes_cell s c (cancel_of (Some t)) None is"
| with_deadline: "t \<in> contexts s \<Longrightarrow> WithDeadline t c (clock s) deadline = Inr is \<Longrightarrow>
    makes_cell s c (cancel_of (Some t)) (Some deadline) is"
| with_timeout: "t \<in> contexts s \<Longrightarrow> WithTimeout t c (clock s) timeout = Inr is \<Longrightarrow>
    makes_cell s c (cancel_of (Some t)) (Some (clock s + timeout)) is"
| with_root_cancel: "t \<in> contexts s \<Longrightarrow> WithRootCancel t c = Inr is \<Longrightarrow> makes_cell s c (root_loop None (Some t)) None is"

text \<open>The events of a run. A new cell is reported with the cell above it and its deadline.\<close>

datatype ctx_event =
    Exec nat
  | Call nat cs_id "cs_id option" "int option"
  | CallCancel nat closure
  | Fire nat cs_id closure
  | Derive
  | Tick

inductive step :: "ctx_event \<Rightarrow> ('k, 'v, 'l) sys \<Rightarrow> ('k, 'v, 'l) sys \<Rightarrow> bool" where
  exec: "exec g s s' \<Longrightarrow> step (Exec g) s s'"
| call: "stacks s g = [] \<Longrightarrow> cells s c = None \<Longrightarrow> makes_cell s c p d is \<Longrightarrow>
    step (Call g c p d) s (set_stack g is (set_cell c new_cell s))"
| call_cancel: "stacks s g = [] \<Longrightarrow> cl \<in> funcs s \<Longrightarrow> step (CallCancel g cl) s (set_stack g (makeCancelFunc cl) s)"
| fire: "stacks s g = [] \<Longrightarrow> timers s c = Some (time, cl) \<Longrightarrow> time \<le> clock s \<Longrightarrow>
    step (Fire g c cl) s (set_stack g (makeCancelFunc cl) (s\<lparr>timers := (timers s)(c := None)\<rparr>))"
| derive: "t \<in> contexts s \<Longrightarrow> WithValue (Some t) (Some (UserKey key)) (map_option VUser val) = Inr t' \<Longrightarrow>
    step Derive s (s\<lparr>contexts := insert t' (contexts s)\<rparr>)"
| derive_logger: "t \<in> contexts s \<Longrightarrow> t' = WithLogger t lg \<or> t' = WithContextLogger t lg \<Longrightarrow>
    step Derive s (s\<lparr>contexts := insert t' (contexts s)\<rparr>)"
| tick: "clock s \<le> time \<Longrightarrow> step Tick s (s\<lparr>clock := time\<rparr>)"

definition start :: "int \<Rightarrow> ('k, 'v, 'l) sys" where
  "start time = \<lparr>cells = Map.empty, timers = Map.empty, clock = time, stacks = (\<lambda>_. []), contexts = {}, funcs = {}, panicked = False\<rparr>"

text \<open>The states after a trace of events, the last event first.\<close>

inductive run :: "int \<Rightarrow> ctx_event list \<Rightarrow> ('k, 'v, 'l) sys \<Rightarrow> bool" for time where
  empty: "run time [] (start time)"
| more: "run time tr s \<Longrightarrow> step e s s' \<Longrightarrow> run time (e # tr) s'"

inductive_cases run_Cons: "run time (e # tr) s"

text \<open>What \<open>Err\<close> and \<open>Done\<close> of a context report.\<close>

definition Err :: "('k, 'v, 'l) sys \<Rightarrow> ('k, 'v, 'l) T option \<Rightarrow> ctx_err option" where
  "Err s t = (case cancel_of t of None \<Rightarrow> None | Some c \<Rightarrow> (case cells s c of None \<Rightarrow> None | Some x \<Rightarrow> cs_err x))"

definition Done :: "('k, 'v, 'l) sys \<Rightarrow> ('k, 'v, 'l) T option \<Rightarrow> bool option" where
  "Done s t = (case cancel_of t of None \<Rightarrow> None | Some c \<Rightarrow> map_option done_closed (cells s c))"

subsection \<open>What a trace says\<close>

definition par :: "ctx_event list \<Rightarrow> (cs_id \<times> cs_id) set" where
  "par tr = {(p, c). \<exists>g d. Call g c (Some p) d \<in> set tr}"

text \<open>A cancel function of cell \<open>a\<close> with error \<open>e\<close> has been called, by a caller or by a timer.\<close>

definition requested :: "ctx_event list \<Rightarrow> cs_id \<Rightarrow> ctx_err \<Rightarrow> bool" where
  "requested tr a e \<longleftrightarrow> (\<exists>g c cl. (CallCancel g cl \<in> set tr \<or> Fire g c cl \<in> set tr) \<and> cl_cs cl = a \<and> cl_err cl = e)"

type_synonym store = "cs_id \<Rightarrow> cancelState option"

definition err_of :: "store \<Rightarrow> cs_id \<Rightarrow> ctx_err option" where
  "err_of m c = (case m c of None \<Rightarrow> None | Some x \<Rightarrow> cs_err x)"

definition kids :: "store \<Rightarrow> cs_id \<Rightarrow> cs_id set" where
  "kids m c = (case m c of None \<Rightarrow> {} | Some x \<Rightarrow> set (children x))"

text \<open>The instructions that the goroutines still have to run.\<close>

definition pending :: "(nat \<Rightarrow> 'i list) \<Rightarrow> 'i set" where
  "pending st = (\<Union>g. set (st g))"

lemma kids_upd [simp]: "kids (m(c \<mapsto> x)) = (kids m)(c := set (children x))"
  by (auto simp: kids_def fun_eq_iff)

lemma err_of_upd [simp]: "err_of (m(c \<mapsto> x)) = (err_of m)(c := cs_err x)"
  by (auto simp: err_of_def fun_eq_iff)

lemma par_Cons [simp]:
  "par (e # tr) = (case e of Call g c (Some p) d \<Rightarrow> insert (p, c) (par tr) | _ \<Rightarrow> par tr)"
  by (auto simp: par_def split: ctx_event.split option.split)

lemma par_Nil [simp]: "par [] = {}"
  by (simp add: par_def)

lemma requested_Nil [simp]: "\<not> requested [] a e"
  by (simp add: requested_def)

lemma requested_Cons [simp]:
  "requested (ev # tr) a e \<longleftrightarrow>
     (case ev of CallCancel g cl \<Rightarrow> cl_cs cl = a \<and> cl_err cl = e
      | Fire g c cl \<Rightarrow> cl_cs cl = a \<and> cl_err cl = e | _ \<Rightarrow> False) \<or> requested tr a e"
  by (auto simp: requested_def split: ctx_event.split)

lemma pending_iff: "i \<in> pending st \<longleftrightarrow> (\<exists>g. i \<in> set (st g))"
  by (simp add: pending_def)

lemma pending_set: "i \<in> pending (st(g := is)) \<longleftrightarrow> i \<in> set is \<or> (\<exists>h. h \<noteq> g \<and> i \<in> set (st h))"
  unfolding pending_def by (auto split: if_splits)

lemma pending_pop:
  assumes "st g = i # is"
  shows "k \<in> pending (st(g := js @ is)) \<Longrightarrow> k \<in> pending st \<or> k \<in> set js"
    and "k \<in> pending st \<Longrightarrow> k = i \<or> k \<in> pending (st(g := js @ is))"
proof -
  assume "k \<in> pending (st(g := js @ is))"
  then consider "k \<in> set js" | "k \<in> set (st g)" | h where "k \<in> set (st h)"
    using assms by (auto simp: pending_set)
  then show "k \<in> pending st \<or> k \<in> set js" by cases (auto simp: pending_iff)
next
  assume "k \<in> pending st"
  then obtain h where h: "k \<in> set (st h)" by (auto simp: pending_iff)
  then show "k = i \<or> k \<in> pending (st(g := js @ is))"
    using assms by (cases "h = g") (auto simp: pending_set)
qed

lemma pending_push:
  assumes "st g = []"
  shows "k \<in> pending (st(g := is)) \<longleftrightarrow> k \<in> pending st \<or> k \<in> set is"
proof -
  have "k \<in> pending st \<longleftrightarrow> (\<exists>h. h \<noteq> g \<and> k \<in> set (st h))"
    unfolding pending_iff using assms by (metis empty_iff list.set(1))
  then show ?thesis by (auto simp: pending_set)
qed

text \<open>The next instruction of a stack is pending.\<close>

lemma pending_hd: "st g = i # is \<Longrightarrow> i \<in> pending st"
  by (auto simp: pending_iff intro: exI [of _ g])

lemma makes_cell_shape:
  assumes "makes_cell s c p d is"
  obtains t cl where "d = None" "is = addParent p c @ [Return t cl]" "cl = cancel_closure c p"
  | t timeout cl cl' where "is = addParent p c @ [AfterFunc c timeout cl, Return t cl']" "d = Some (clock s + timeout)"
      "cl = \<lparr>cl_cs = c, cl_parent = p, cl_timer = False, cl_err = DeadlineExceeded\<rparr>"
      "cl' = \<lparr>cl_cs = c, cl_parent = p, cl_timer = True, cl_err = Canceled\<rparr>"
  using assms
proof (cases rule: makes_cell.cases)
  case root
  then show ?thesis
    by (auto simp: RootContext_def WithCancel_def WithValue_def Initialized_def and_then_Inr_iff cancel_of_def Let_def intro: that)
qed (auto simp: WithCancel_def WithDeadline_def WithTimeout_def withDeadlineState_def WithRootCancel_def and_then_Inr_iff Let_def
      intro: that)

subsection \<open>Invariants\<close>

fun ctx_cells :: "('k, 'v, 'l) T option \<Rightarrow> cs_id set" where
  "ctx_cells None = {}"
| "ctx_cells (Some (T p l cl k v)) = (case v of Some (VCancel c) \<Rightarrow> {c} | _ \<Rightarrow> {}) \<union> ctx_cells p"

definition closure_ok :: "store \<Rightarrow> ctx_event list \<Rightarrow> closure \<Rightarrow> bool" where
  "closure_ok m tr cl \<longleftrightarrow> m (cl_cs cl) \<noteq> None \<and> (\<forall>p. cl_parent cl = Some p \<longleftrightarrow> (p, cl_cs cl) \<in> par tr)"

definition instr_ok :: "store \<Rightarrow> ctx_event list \<Rightarrow> ('k, 'v, 'l) instr \<Rightarrow> bool" where
  "instr_ok m tr i =
     (case i of
        AddChild p c \<Rightarrow> (p, c) \<in> par tr
      | RemoveChild p c \<Rightarrow> (p, c) \<in> par tr
      | StopTimer c \<Rightarrow> m c \<noteq> None
      | Cancel c e \<Rightarrow> m c \<noteq> None
      | AfterFunc c timeout cl \<Rightarrow> closure_ok m tr cl \<and> cl_cs cl = c \<and> cl_err cl = DeadlineExceeded
      | Return t cl \<Rightarrow> closure_ok m tr cl \<and> cl_err cl = Canceled \<and> ctx_cells (Some t) \<subseteq> dom m)"

text \<open>Whatever is referred to exists, and what the closures captured is what the trace says.\<close>

definition refs_ok :: "('k, 'v, 'l) sys \<Rightarrow> ctx_event list \<Rightarrow> bool" where
  "refs_ok s tr \<longleftrightarrow>
     finite (dom (cells s)) \<and>
     (\<forall>p c. (p, c) \<in> par tr \<longrightarrow> cells s p \<noteq> None \<and> cells s c \<noteq> None) \<and>
     (\<forall>p q c. (p, c) \<in> par tr \<longrightarrow> (q, c) \<in> par tr \<longrightarrow> p = q) \<and>
     (\<forall>i \<in> pending (stacks s). instr_ok (cells s) tr i) \<and>
     (\<forall>cl \<in> funcs s. closure_ok (cells s) tr cl \<and> cl_err cl = Canceled) \<and>
     (\<forall>c time cl. timers s c = Some (time, cl) \<longrightarrow>
        closure_ok (cells s) tr cl \<and> cl_cs cl = c \<and> cl_err cl = DeadlineExceeded) \<and>
     (\<forall>t \<in> contexts s. ctx_cells (Some t) \<subseteq> dom (cells s)) \<and>
     (\<forall>c k. k \<in> kids (cells s) c \<longrightarrow> (c, k) \<in> par tr)"

lemma refs_okD:
  assumes "refs_ok s tr"
  shows "finite (dom (cells s))"
    and "(p, c) \<in> par tr \<Longrightarrow> cells s p \<noteq> None" "(p, c) \<in> par tr \<Longrightarrow> cells s c \<noteq> None"
    and "(p, c) \<in> par tr \<Longrightarrow> (q, c) \<in> par tr \<Longrightarrow> p = q"
    and "i \<in> pending (stacks s) \<Longrightarrow> instr_ok (cells s) tr i"
    and "cl \<in> funcs s \<Longrightarrow> closure_ok (cells s) tr cl \<and> cl_err cl = Canceled"
    and "timers s c = Some (time, cl) \<Longrightarrow> closure_ok (cells s) tr cl \<and> cl_cs cl = c \<and> cl_err cl = DeadlineExceeded"
    and "t \<in> contexts s \<Longrightarrow> ctx_cells (Some t) \<subseteq> dom (cells s)"
    and "k \<in> kids (cells s) c \<Longrightarrow> (c, k) \<in> par tr"
  using assms unfolding refs_ok_def by blast+

lemma Value_in_cells: "Value t key = Some (VCancel c) \<Longrightarrow> c \<in> ctx_cells t"
  by (induction t key rule: Value.induct) (auto split: if_splits)

lemma cancel_of_in_cells: "cancel_of t = Some c \<Longrightarrow> c \<in> ctx_cells t"
  by (auto simp: cancel_of_def dest: Value_in_cells split: option.splits ctx_value.splits)

lemma root_loop_in_cells: "root_loop root t = Some c \<Longrightarrow> c \<in> ctx_cells t \<or> root = Some c"
  by (induction root t rule: root_loop.induct) (auto split: option.splits ctx_value.splits)

lemma WithValue_cells: "WithValue t k v = Inr t' \<Longrightarrow>
    ctx_cells (Some t') = (case v of Some (VCancel c) \<Rightarrow> {c} | _ \<Rightarrow> {}) \<union> ctx_cells t"
  by (auto simp: WithValue_def split: option.splits if_splits)

lemma logger_cells [simp]:
  "ctx_cells (Some (WithLogger t lg)) = ctx_cells (Some t)"
  "ctx_cells (Some (WithContextLogger t lg)) = ctx_cells (Some t)"
  by (simp_all add: WithLogger_def WithContextLogger_def split: T.split)

text \<open>The program of a call refers to the new cell and to cells of known contexts.\<close>

lemma makes_cell_refs:
  assumes "makes_cell s c p d is" "\<forall>t \<in> contexts s. ctx_cells (Some t) \<subseteq> dom (cells s)"
  shows "(\<forall>q. p = Some q \<longrightarrow> q \<in> dom (cells s)) \<and>
    (\<forall>t cl. Return t cl \<in> set is \<longrightarrow> ctx_cells (Some t) \<subseteq> insert c (dom (cells s)))"
proof -
  have sub: "ctx_cells (Some t) \<subseteq> dom (cells s)" if "t \<in> contexts s" for t using assms(2) that by blast
  have above: "q \<in> dom (cells s)" if "t \<in> contexts s" "cancel_of (Some t) = Some q \<or> root_loop None (Some t) = Some q" for t q
    using sub [OF that(1)] that(2) cancel_of_in_cells [of "Some t" q] root_loop_in_cells [of None "Some t" q] by blast
  show ?thesis
    using assms(1)
  proof (cases rule: makes_cell.cases)
    case root
    then show ?thesis
      by (auto simp: RootContext_def WithCancel_def and_then_Inr_iff Let_def addParent_def cancel_of_def dest!: WithValue_cells)
  qed (auto simp: WithCancel_def WithDeadline_def WithTimeout_def withDeadlineState_def WithRootCancel_def
      and_then_Inr_iff Let_def addParent_def split: option.splits dest!: WithValue_cells dest: above subsetD [OF sub])
qed

lemma same_dom: "dom f = dom g \<Longrightarrow> (f x = None) = (g x = None)"
  by (metis domIff)

text \<open>A change that makes no cell: everything in the new state was known before.\<close>

lemma refs_ok_same_cells:
  assumes ok: "refs_ok s tr" and dom: "dom (cells s') = dom (cells s)" and par: "par tr' = par tr"
    and new: "\<And>i. i \<in> pending (stacks s') \<Longrightarrow> i \<in> pending (stacks s) \<or> instr_ok (cells s) tr i"
    and funcs: "\<And>cl. cl \<in> funcs s' \<Longrightarrow> cl \<in> funcs s \<or> (\<exists>t. Return t cl \<in> pending (stacks s))"
    and timers: "\<And>c time cl. timers s' c = Some (time, cl) \<Longrightarrow>
        timers s c = Some (time, cl) \<or> (\<exists>timeout. AfterFunc c timeout cl \<in> pending (stacks s))"
    and contexts: "\<And>t. t \<in> contexts s' \<Longrightarrow> ctx_cells (Some t) \<subseteq> dom (cells s)"
    and kids: "\<And>c k. k \<in> kids (cells s') c \<Longrightarrow> (c, k) \<in> par tr"
  shows "refs_ok s' tr'"
proof -
  note D = refs_okD [OF ok]
  have closure_par: "closure_ok (cells s') tr' cl = closure_ok (cells s) tr cl" for cl
    by (simp only: closure_ok_def par same_dom [OF dom])
  then have instr_par: "instr_ok (cells s') tr' i = instr_ok (cells s) tr i" for i
    by (simp only: instr_ok_def par dom same_dom [OF dom])
  show ?thesis
    unfolding refs_ok_def closure_par instr_par par
  proof (intro conjI allI impI ballI)
    fix cl assume "cl \<in> funcs s'"
    then show "closure_ok (cells s) tr cl" "cl_err cl = Canceled"
      using funcs [of cl] D(5) [of "Return _ cl"] D(6) by (auto simp: instr_ok_def)
  next
    fix c time cl assume t: "timers s' c = Some (time, cl)"
    consider "timers s c = Some (time, cl)" | timeout where "AfterFunc c timeout cl \<in> pending (stacks s)"
      using timers [OF t] by blast
    then have "closure_ok (cells s) tr cl \<and> cl_cs cl = c \<and> cl_err cl = DeadlineExceeded"
      by cases (use D(7) D(5) in \<open>force simp: instr_ok_def\<close>)+
    then show "closure_ok (cells s) tr cl" "cl_cs cl = c" "cl_err cl = DeadlineExceeded" by simp_all
  next
    show "finite (dom (cells s'))" using D(1) dom by simp
    show "instr_ok (cells s) tr i" if "i \<in> pending (stacks s')" for i using new [OF that] D(5) by blast
    show "ctx_cells (Some t) \<subseteq> dom (cells s')" if "t \<in> contexts s'" for t using contexts [OF that] dom by simp
    show "cells s' p \<noteq> None" "cells s' c \<noteq> None" if "(p, c) \<in> par tr" for p c
      using D(2,3) that unfolding same_dom [OF dom] by blast+
    show "p = q" if "(p, c) \<in> par tr" "(q, c) \<in> par tr" for p q c using D(4) that by blast
    show "(c, k) \<in> par tr" if "k \<in> kids (cells s') c" for c k using kids [OF that] .
  qed
qed

lemma dom_upd: "m c = Some x \<Longrightarrow> dom (m(c \<mapsto> y)) = dom m"
  by auto

lemma kids_self: "m c = Some x \<Longrightarrow> kids m c = set (children x)"
  by (simp add: kids_def)

text \<open>
  The cases of \<open>exec\<close> in the form in which the invariants use them: the instruction at the head of the stack
  is replaced by those that it leaves to do.
\<close>

lemma exec_elim [consumes 1, case_names addChild refused removeChild stopTimer cancel cancelled afterFunc return]:
  assumes "exec g s s'"
  obtains
    p c "is" x where "stacks s g = AddChild p c # is" "cells s p = Some x" "cs_err x = None"
      "s' = set_stack g is (set_cell p (x\<lparr>children := List.insert c (children x)\<rparr>) s)"
  | p c "is" x e where "stacks s g = AddChild p c # is" "cells s p = Some x" "cs_err x = Some e"
      "s' = set_stack g (Cancel c e # is) s"
  | p c "is" x where "stacks s g = RemoveChild p c # is" "cells s p = Some x"
      "s' = set_stack g is (set_cell p (x\<lparr>children := removeAll c (children x)\<rparr>) s)"
  | c "is" where "stacks s g = StopTimer c # is" "s' = set_stack g is (s\<lparr>timers := (timers s)(c := None)\<rparr>)"
  | c e "is" x js where "stacks s g = Cancel c e # is" "cells s c = Some x" "cs_err x = None" "set js = set (children x)"
      "s' = set_stack g (map (\<lambda>k. Cancel k e) js @ is)
        (set_cell c \<lparr>done_closed = True, cs_err = Some e, children = []\<rparr> (s\<lparr>panicked := panicked s \<or> done_closed x\<rparr>))"
  | c e "is" x where "stacks s g = Cancel c e # is" "cells s c = Some x" "cs_err x \<noteq> None"
      "s' = set_stack g is s"
  | c timeout cl "is" where "stacks s g = AfterFunc c timeout cl # is"
      "s' = set_stack g is (s\<lparr>timers := (timers s)(c \<mapsto> (clock s + timeout, cl))\<rparr>)"
  | t cl "is" where "stacks s g = Return t cl # is"
      "s' = set_stack g is (s\<lparr>contexts := insert t (contexts s), funcs := insert cl (funcs s)\<rparr>)"
  using assms
proof (cases rule: exec.cases)
  case (addChild p c "is" cell js cell')
  then have "set_cell p cell s = s" by (simp add: fun_upd_idem)
  with addChild show ?thesis using that(1,2) by (auto simp: addChild_section_def split: option.splits)
next
  case (removeChild p c "is" cell)
  then show ?thesis using that(3) by (simp add: removeChild_section_def)
next
  case (cancel c err "is" cell ks cell' panic js)
  have "set js = set ks" using cancel(5) by (rule mset_eq_setD)
  moreover have "set_cell c cell s = s" using cancel by (simp add: fun_upd_idem)
  ultimately show ?thesis using cancel that(5,6) by (cases "cs_err cell") (auto simp: cancel_section_def)
qed (use that(4,7,8) in blast)+

lemma err_self: "m c = Some x \<Longrightarrow> err_of m c = cs_err x"
  by (simp add: err_of_def)

lemma exec_refs:
  assumes "exec g s s'" and ok: "refs_ok s tr"
  shows "refs_ok s' (Exec g # tr)"
proof -
  note D = refs_okD [OF ok]
  have ctx: "\<exists>y. cells s a = Some y" if "t \<in> contexts s" "a \<in> ctx_cells (Some t)" for t a using D(8) that by blast
  have hd: "instr_ok (cells s) tr i" if "stacks s g = i # is" for i "is" using D(5) pending_hd [of "stacks s" g, OF that] by simp
  have pend: "i \<in> pending (stacks s) \<or> i \<in> set js" if "stacks s g = j # is" "i \<in> pending ((stacks s)(g := js @ is))" for i j js "is"
    using pending_pop(1) [of "stacks s" g, OF that] .
  note pop = pend [where js = "[]", simplified] and push = pend [where js = "[_]", simplified]
  show ?thesis
    using assms(1)
  proof (cases rule: exec_elim)
    case (addChild p c "is" x)
    then show ?thesis
      using hd [OF addChild(1)] D(9) [of _ p] kids_self [of "cells s" p, OF addChild(2)]
      by (intro refs_ok_same_cells [OF ok]) (auto simp: dom_upd instr_ok_def D(9) intro: ctx dest: pop split: if_splits)
  next
    case (refused p c "is" x e)
    then show ?thesis
      using hd [OF refused(1)] D(9) [of _ p] kids_self [of "cells s" p, OF refused(2)]
      by (intro refs_ok_same_cells [OF ok]) (auto simp: dom_upd instr_ok_def D(3,9) intro: ctx dest: push split: if_splits)
  next
    case (removeChild p c "is" x)
    then show ?thesis
      using D(9) [of _ p] kids_self [of "cells s" p, OF removeChild(2)]
      by (intro refs_ok_same_cells [OF ok]) (auto simp: dom_upd D(9) intro: ctx dest: pop split: if_splits)
  next
    case (stopTimer c "is")
    then show ?thesis
      by (intro refs_ok_same_cells [OF ok]) (auto simp: D(9) intro: ctx dest: pop split: if_splits)
  next
    case (cancel c e "is" x js)
    have "cells s k \<noteq> None" if "k \<in> set js" for k
      using D(3) [OF D(9) [of k c]] cancel(4) kids_self [of "cells s" c, OF cancel(2)] that by simp
    then show ?thesis
      using cancel(1-3,5)
      by (intro refs_ok_same_cells [OF ok]) (auto simp: dom_upd instr_ok_def D(9) intro: ctx dest!: pend split: if_splits)
  next
    case (cancelled c e "is" x)
    then show ?thesis
      using D(9) [of _ c] kids_self [of "cells s" c, OF cancelled(2)]
      by (intro refs_ok_same_cells [OF ok]) (auto simp: dom_upd D(9) intro: ctx dest: pop split: if_splits)
  next
    case (afterFunc c timeout cl "is")
    then show ?thesis
      using pending_hd [of "stacks s" g, OF afterFunc(1)]
      by (intro refs_ok_same_cells [OF ok]) (auto simp: D(9) intro: ctx dest: pop split: if_splits)
  next
    case (return t cl "is")
    then show ?thesis
      using pending_hd [of "stacks s" g, OF return(1)] hd [OF return(1)]
      by (intro refs_ok_same_cells [OF ok]) (auto simp: instr_ok_def D(9) intro: ctx dest: pop split: if_splits)
  qed
qed

lemma makeCancelFunc_ok:
  assumes "closure_ok m tr cl" "i \<in> set (makeCancelFunc cl)"
  shows "instr_ok m tr i"
  using assms by (auto simp: makeCancelFunc_def instr_ok_def closure_ok_def split: option.splits if_splits)

lemma call_refs:
  assumes "stacks s g = []" "cells s c = None" "makes_cell s c p d is" and ok: "refs_ok s tr"
  shows "refs_ok (set_stack g is (set_cell c new_cell s)) (Call g c p d # tr)"
proof -
  note D = refs_okD [OF ok]
  let ?m = "(cells s)(c \<mapsto> new_cell)" and ?tr = "Call g c p d # tr"
  have fresh: "(q, c) \<notin> par tr" "(c, q) \<notin> par tr" for q using D(2) [of c q] D(3) [of q c] assms(2) by auto
  have ctx: "\<exists>y. cells s a = Some y" if "t \<in> contexts s" "a \<in> ctx_cells (Some t)" for t a using D(8) that by blast
  have refs: "(\<forall>q. p = Some q \<longrightarrow> cells s q \<noteq> None) \<and>
      (\<forall>t cl. Return t cl \<in> set is \<longrightarrow> ctx_cells (Some t) \<subseteq> insert c (dom (cells s)))"
    using makes_cell_refs [OF assms(3)] D(8) by (auto simp: domIff)
  have closure: "closure_ok ?m ?tr cl" if "closure_ok (cells s) tr cl" for cl
  proof -
    have "cl_cs cl \<noteq> c" using that assms(2) by (auto simp: closure_ok_def)
    then show ?thesis using that by (cases p) (simp_all add: closure_ok_def)
  qed
  have new: "closure_ok ?m ?tr cl" if "cl_cs cl = c" "cl_parent cl = p" for cl
    using that fresh by (cases p) (auto simp: closure_ok_def)
  have old_instr: "instr_ok ?m ?tr i" if "instr_ok (cells s) tr i" for i
    using that by (auto simp: instr_ok_def intro: closure split: instr.splits option.split)
  have new_instr: "instr_ok ?m ?tr i" if "i \<in> set is" for i
    using assms(3)
  proof (cases rule: makes_cell_shape)
    case (1 t cl)
    then have "closure_ok ?m ?tr cl" by (intro new) (simp_all add: cancel_closure_def)
    moreover have "ctx_cells (Some t) \<subseteq> insert c (dom (cells s))" using refs 1 by auto
    ultimately show ?thesis using that 1(2) 1(3)
      by (cases p) (auto simp: addParent_def instr_ok_def cancel_closure_def)
  next
    case (2 t timeout cl cl')
    then have "closure_ok ?m ?tr cl" "closure_ok ?m ?tr cl'" by (intro new; simp)+
    moreover have "ctx_cells (Some t) \<subseteq> insert c (dom (cells s))" using refs 2 by auto
    ultimately show ?thesis using that 2(1,3,4)
      by (cases p) (auto simp: addParent_def instr_ok_def)
  qed
  show ?thesis
    unfolding refs_ok_def
  proof (intro conjI allI impI ballI)
    show "instr_ok (cells (set_stack g is (set_cell c new_cell s))) ?tr i"
      if "i \<in> pending (stacks (set_stack g is (set_cell c new_cell s)))" for i
      using that pending_push [of "stacks s" g, OF assms(1)] old_instr new_instr D(5) by auto
    show "(b, k) \<in> par ?tr" if "k \<in> kids (cells (set_stack g is (set_cell c new_cell s))) b" for b k
      using that D(9) [of k b] by (auto simp: new_cell_def split: if_splits option.split)
  next
    fix q k assume "(q, k) \<in> par ?tr"
    then have "(q, k) \<in> par tr \<or> p = Some q \<and> k = c" by (auto split: option.splits)
    then show "cells (set_stack g is (set_cell c new_cell s)) q \<noteq> None" "cells (set_stack g is (set_cell c new_cell s)) k \<noteq> None"
      using D(2,3) [of q k] refs by auto
  next
    fix q r k assume "(q, k) \<in> par ?tr" "(r, k) \<in> par ?tr"
    then show "q = r" using D(4) [of q k r] fresh by (auto split: option.splits)
  next
    show "finite (dom (cells (set_stack g is (set_cell c new_cell s))))" using D(1) by simp
    show "ctx_cells (Some t) \<subseteq> dom (cells (set_stack g is (set_cell c new_cell s)))"
      if "t \<in> contexts (set_stack g is (set_cell c new_cell s))" for t
      using that ctx [of t] by (auto simp del: ctx_cells.simps)
  next
    fix cl assume "cl \<in> funcs (set_stack g is (set_cell c new_cell s))"
    then show "closure_ok (cells (set_stack g is (set_cell c new_cell s))) ?tr cl" "cl_err cl = Canceled"
      using D(6) [of cl] closure [of cl] by simp_all
  next
    fix k time cl assume "timers (set_stack g is (set_cell c new_cell s)) k = Some (time, cl)"
    then show "closure_ok (cells (set_stack g is (set_cell c new_cell s))) ?tr cl" "cl_cs cl = k" "cl_err cl = DeadlineExceeded"
      using D(7) [of k time cl] closure [of cl] by simp_all
  qed
qed

lemma step_refs:
  assumes "step ev s s'" and ok: "refs_ok s tr"
  shows "refs_ok s' (ev # tr)"
proof -
  note D = refs_okD [OF ok]
  have ctx: "\<exists>y. cells s a = Some y" if "t \<in> contexts s" "a \<in> ctx_cells (Some t)" for t a using D(8) that by blast
  show ?thesis
    using assms(1)
  proof (cases rule: step.cases)
    case (exec g)
    then show ?thesis using exec_refs ok by blast
  next
    case (call g c p d "is")
    then show ?thesis using call_refs ok by blast
  next
    case (call_cancel g cl)
    then have "instr_ok (cells s) tr i" if "i \<in> set (makeCancelFunc cl)" for i
      using D(6) that by (blast intro: makeCancelFunc_ok)
    then show ?thesis using call_cancel
      by (intro refs_ok_same_cells [OF ok]) (auto simp: D(9) pending_push intro: ctx)
  next
    case (fire g c time cl)
    then have "instr_ok (cells s) tr i" if "i \<in> set (makeCancelFunc cl)" for i
      using D(7) that by (blast intro: makeCancelFunc_ok)
    then show ?thesis using fire
      by (intro refs_ok_same_cells [OF ok]) (auto simp: D(9) pending_push intro: ctx split: if_splits)
  next
    case (derive t key val t')
    then show ?thesis
      by (intro refs_ok_same_cells [OF ok])
        (auto simp: D(9) simp del: ctx_cells.simps dest!: WithValue_cells intro: ctx split: option.splits)
  next
    case (derive_logger t t' lg)
    then show ?thesis
      by (intro refs_ok_same_cells [OF ok]) (auto simp: D(9) simp del: ctx_cells.simps intro: ctx)
  next
    case (tick time)
    then show ?thesis by (intro refs_ok_same_cells [OF ok]) (auto simp: D(9) intro: ctx)
  qed
qed

lemma run_refs: "run time tr s \<Longrightarrow> refs_ok s tr"
proof (induction rule: run.induct)
  case empty
  then show ?case by (simp add: start_def refs_ok_def pending_def kids_def)
qed (rule step_refs)

text \<open>The cells themselves; in particular no channel is closed twice, which would panic.\<close>

definition cell_ok :: "cancelState \<Rightarrow> bool" where
  "cell_ok x \<longleftrightarrow> done_closed x = (cs_err x \<noteq> None) \<and> (cs_err x \<noteq> None \<longrightarrow> children x = []) \<and> distinct (children x)"

definition shape_ok :: "('k, 'v, 'l) sys \<Rightarrow> bool" where
  "shape_ok s \<longleftrightarrow> \<not> panicked s \<and> (\<forall>c x. cells s c = Some x \<longrightarrow> cell_ok x)"

lemma exec_shape:
  assumes "exec g s s'" "shape_ok s"
  shows "shape_ok s'"
  using assms(1)
proof (cases rule: exec_elim)
  case (addChild p c "is" x)
  moreover have "cell_ok x" using addChild(2) assms(2) by (auto simp: shape_ok_def)
  ultimately show ?thesis using assms(2) by (auto simp: shape_ok_def cell_ok_def)
next
  case (removeChild p c "is" x)
  moreover have "cell_ok x" using removeChild(2) assms(2) by (auto simp: shape_ok_def)
  ultimately show ?thesis using assms(2) by (auto simp: shape_ok_def cell_ok_def distinct_removeAll)
next
  case (cancel c e "is" x js)
  moreover have "cell_ok x" using cancel(2) assms(2) by (auto simp: shape_ok_def)
  ultimately show ?thesis using assms(2) by (auto simp: shape_ok_def cell_ok_def)
qed (use assms(2) in \<open>auto simp: shape_ok_def\<close>)

lemma step_shape: "step ev s s' \<Longrightarrow> shape_ok s \<Longrightarrow> shape_ok s'"
  by (induction rule: step.induct) (auto simp: shape_ok_def cell_ok_def new_cell_def dest: exec_shape [unfolded shape_ok_def])

text \<open>A cell is doomed when it is cancelled, or a call to cancel it is pending; this is for good.\<close>

definition doomed :: "('k, 'v, 'l) sys \<Rightarrow> cs_id \<Rightarrow> bool" where
  "doomed s c \<longleftrightarrow> (\<exists>e. Cancel c e \<in> pending (stacks s)) \<or> err_of (cells s) c \<noteq> None"

lemma exec_pop:
  assumes "exec g s s'"
  obtains i "is" js where "stacks s g = i # is" "stacks s' = (stacks s)(g := js @ is)"
    "\<And>c e. i = Cancel c e \<Longrightarrow> err_of (cells s') c \<noteq> None"
    "\<And>c. err_of (cells s) c \<noteq> None \<Longrightarrow> err_of (cells s') c = err_of (cells s) c"
  using assms
proof (cases rule: exec_elim)
  case (addChild p c "is" x)
  then show ?thesis using that [of _ "is" "[]"] by (auto simp: err_of_def)
next
  case (refused p c "is" x e)
  then show ?thesis using that [of _ "is" "[Cancel c e]"] by (auto simp: err_of_def)
next
  case (removeChild p c "is" x)
  then show ?thesis using that [of _ "is" "[]"] by (auto simp: err_of_def)
next
  case (cancel c e "is" x js)
  moreover have "err_of (cells s) c = None" using cancel(2,3) by (simp add: err_of_def)
  ultimately show ?thesis by (intro that [of "Cancel c e" "is" "map (\<lambda>k. Cancel k e) js"]) (auto split: if_splits)
next
  case (cancelled c e "is" x)
  then show ?thesis using that [of _ "is" "[]"] by (auto simp: err_of_def)
qed (use that [where js = "[]"] in auto)

lemma exec_doomed:
  assumes "exec g s s'" "doomed s c"
  shows "doomed s' c"
proof -
  obtain i "is" js where x: "stacks s g = i # is" "stacks s' = (stacks s)(g := js @ is)"
    "\<And>c e. i = Cancel c e \<Longrightarrow> err_of (cells s') c \<noteq> None"
    "\<And>c. err_of (cells s) c \<noteq> None \<Longrightarrow> err_of (cells s') c = err_of (cells s) c"
    using exec_pop [OF assms(1)] by metis
  from assms(2) consider e where "Cancel c e \<in> pending (stacks s)" | "err_of (cells s) c \<noteq> None"
    by (auto simp: doomed_def)
  then show ?thesis
  proof cases
    case (1 e)
    from pending_pop(2) [of "stacks s" g, OF x(1) this, of js] x(2,3) show ?thesis by (auto simp: doomed_def)
  next
    case 2
    then show ?thesis using x(4) by (simp add: doomed_def)
  qed
qed

lemma step_doomed:
  assumes "step ev s s'" "doomed s c"
  shows "doomed s' c"
  using assms(1)
proof (cases rule: step.cases)
  case (exec g)
  then show ?thesis using exec_doomed assms(2) by blast
qed (use assms(2) in \<open>auto simp: doomed_def pending_push err_of_def new_cell_def\<close>)

text \<open>
  How cancellation spreads: a child is known to its parent, or it will be added to it, or it is doomed; a
  cell is doomed once one of its cancel functions has been called. A goroutine that has yet to remove a child
  from its parent will cancel it afterwards.
\<close>

fun removals_ok :: "('k, 'v, 'l) instr list \<Rightarrow> bool" where
  "removals_ok [] = True"
| "removals_ok (RemoveChild p c # is) = ((\<exists>e. Cancel c e \<in> set is) \<and> removals_ok is)"
| "removals_ok (_ # is) = removals_ok is"

definition spread_ok :: "('k, 'v, 'l) sys \<Rightarrow> ctx_event list \<Rightarrow> bool" where
  "spread_ok s tr \<longleftrightarrow>
     (\<forall>g. removals_ok (stacks s g)) \<and>
     (\<forall>p c. (p, c) \<in> par tr \<longrightarrow> AddChild p c \<in> pending (stacks s) \<or> c \<in> kids (cells s) p \<or> doomed s c) \<and>
     (\<forall>a e. requested tr a e \<longrightarrow> doomed s a)"

lemma removals_ok_Cons: "removals_ok (i # is) \<Longrightarrow> removals_ok is"
  by (cases i) auto

lemma removals_ok_cancels [simp]: "removals_ok (map (\<lambda>k. Cancel k e) js @ is) = removals_ok is"
  by (induction js) auto

lemma makeCancelFunc_removals: "removals_ok (makeCancelFunc cl)"
  by (auto simp: makeCancelFunc_def split: option.split)

lemma makeCancelFunc_cancels: "Cancel (cl_cs cl) (cl_err cl) \<in> set (makeCancelFunc cl)"
  by (simp add: makeCancelFunc_def)

lemma makes_cell_removals: "makes_cell s c p d is \<Longrightarrow> removals_ok is"
  by (erule makes_cell_shape) (auto simp: addParent_def split: option.split)

lemma exec_removals: "exec g s s' \<Longrightarrow> \<forall>h. removals_ok (stacks s h) \<Longrightarrow> removals_ok (stacks s' h)"
  by (induction rule: exec.induct)
    (auto simp: addChild_section_def split: option.splits dest: spec [of _ g])

lemma exec_spread:
  assumes "exec g s s'" and ok: "spread_ok s tr"
  shows "spread_ok s' (Exec g # tr)"
proof -
  have up: "doomed s c \<Longrightarrow> doomed s' c" for c using exec_doomed [OF assms(1)] .
  have rem: "removals_ok (stacks s h)" for h using ok by (simp add: spread_ok_def)
  have keep: "AddChild q k \<in> pending (stacks s') \<or> k \<in> kids (cells s') q \<or> doomed s' k"
    if qk: "AddChild q k \<in> pending (stacks s) \<or> k \<in> kids (cells s) q" for q k
    using assms(1)
  proof (cases rule: exec_elim)
    case (addChild p c "is" x)
    then show ?thesis
      using qk pending_pop(2) [of "stacks s" g, OF addChild(1), of _ "[]"] kids_self [of "cells s" p, OF addChild(2)] by auto
  next
    case (refused p c "is" x e)
    then have "Cancel c e \<in> pending (stacks s')" by (simp add: pending_set)
    then show ?thesis
      using refused qk pending_pop(2) [of "stacks s" g, OF refused(1), of _ "[Cancel c e]"]
        kids_self [of "cells s" p, OF refused(2)] by (auto simp: doomed_def)
  next
    case (removeChild p c "is" x)
    have "removals_ok (RemoveChild p c # is)" using rem [of g] removeChild(1) by simp
    then obtain e where "Cancel c e \<in> set is" by auto
    then have "doomed s' c" using removeChild by (auto simp: doomed_def pending_set)
    then show ?thesis
      using removeChild qk pending_pop(2) [of "stacks s" g, OF removeChild(1), of _ "[]"]
        kids_self [of "cells s" p, OF removeChild(2)] by auto
  next
    case (cancel c e "is" x js)
    then have "Cancel k e \<in> pending (stacks s')" if "k \<in> kids (cells s) c" for k
      using that kids_self [of "cells s" c, OF cancel(2)] by (simp add: pending_set)
    then show ?thesis
      using cancel qk pending_pop(2) [of "stacks s" g, OF cancel(1), of _ "map (\<lambda>k. Cancel k e) js"]
      by (auto simp: doomed_def)
  next
    case (cancelled c e "is" x)
    then show ?thesis
      using qk pending_pop(2) [of "stacks s" g, OF cancelled(1), of _ "[]"] kids_self [of "cells s" c, OF cancelled(2)] by auto
  next
    case (stopTimer c "is")
    then show ?thesis using qk pending_pop(2) [of "stacks s" g, OF stopTimer(1), of _ "[]"] by auto
  next
    case (afterFunc c timeout cl "is")
    then show ?thesis using qk pending_pop(2) [of "stacks s" g, OF afterFunc(1), of _ "[]"] by auto
  next
    case (return t cl "is")
    then show ?thesis using qk pending_pop(2) [of "stacks s" g, OF return(1), of _ "[]"] by auto
  qed
  show ?thesis
    using ok keep up exec_removals [OF assms(1)] unfolding spread_ok_def by simp blast
qed

lemma spread_okI:
  assumes old: "spread_ok s tr" and rem: "\<And>h. removals_ok (stacks s h) \<Longrightarrow> removals_ok (stacks s' h)"
    and pend: "\<And>q k. AddChild q k \<in> pending (stacks s) \<Longrightarrow> AddChild q k \<in> pending (stacks s')"
    and kids: "\<And>q. kids (cells s') q = kids (cells s) q" and up: "\<And>c. doomed s c \<Longrightarrow> doomed s' c"
    and par: "\<And>q k. (q, k) \<in> par tr' \<Longrightarrow> (q, k) \<in> par tr \<or> AddChild q k \<in> pending (stacks s')"
    and req: "\<And>a e. requested tr' a e \<Longrightarrow> requested tr a e \<or> doomed s' a"
  shows "spread_ok s' tr'"
proof -
  have "AddChild q k \<in> pending (stacks s') \<or> k \<in> kids (cells s') q \<or> doomed s' k" if "(q, k) \<in> par tr'" for q k
  proof (cases "(q, k) \<in> par tr")
    case True
    then have "AddChild q k \<in> pending (stacks s) \<or> k \<in> kids (cells s) q \<or> doomed s k" using old by (simp add: spread_ok_def)
    then show ?thesis using up kids pend by blast
  next
    case False
    then show ?thesis using par [OF that] by blast
  qed
  moreover have "doomed s' a" if "requested tr' a e" for a e
    using req [OF that] old up by (auto simp: spread_ok_def)
  ultimately show ?thesis using old rem by (auto simp: spread_ok_def)
qed

lemma step_spread:
  assumes "step ev s s'" and ok: "spread_ok s tr"
  shows "spread_ok s' (ev # tr)"
proof -
  have up: "doomed s c \<Longrightarrow> doomed s' c" for c using step_doomed [OF assms(1)] .
  show ?thesis
    using assms(1)
  proof (cases rule: step.cases)
    case (exec g)
    then show ?thesis using exec_spread ok by blast
  next
    case (call g c p d "is")
    have "AddChild q c \<in> set is" if "p = Some q" for q
      using call(5) that by (auto elim!: makes_cell_shape simp: addParent_def)
    moreover have "kids (cells s) c = {}" using call(4) by (simp add: kids_def)
    ultimately show ?thesis
      using call makes_cell_removals [OF call(5)]
      by (intro spread_okI [OF ok _ _ _ up]) (auto simp: pending_push new_cell_def split: option.splits)
  next
    case (call_cancel g cl)
    then have "doomed s' (cl_cs cl)" by (auto simp: doomed_def pending_push intro: makeCancelFunc_cancels)
    then show ?thesis
      using call_cancel makeCancelFunc_removals by (intro spread_okI [OF ok _ _ _ up]) (auto simp: pending_push)
  next
    case (fire g c time cl)
    then have "doomed s' (cl_cs cl)" by (auto simp: doomed_def pending_push intro: makeCancelFunc_cancels)
    then show ?thesis
      using fire makeCancelFunc_removals by (intro spread_okI [OF ok _ _ _ up]) (auto simp: pending_push)
  qed (intro spread_okI [OF ok _ _ _ up]; simp)+
qed

text \<open>
  Why a cell is cancelled: one of its own cancel functions or one of a cell above has been called, with the
  same error; a call by a timer comes after the deadline.
\<close>

definition due :: "ctx_event list \<Rightarrow> int \<Rightarrow> cs_id \<Rightarrow> bool" where
  "due tr now c \<longleftrightarrow> (\<exists>g p d. Call g c p (Some d) \<in> set tr \<and> d \<le> now)"

definition cause_ok :: "('k, 'v, 'l) sys \<Rightarrow> ctx_event list \<Rightarrow> bool" where
  "cause_ok s tr \<longleftrightarrow>
     (\<forall>c e. Cancel c e \<in> pending (stacks s) \<or> err_of (cells s) c = Some e \<longrightarrow> (\<exists>a. (a, c) \<in> (par tr)\<^sup>* \<and> requested tr a e)) \<and>
     (\<forall>c timeout cl. AfterFunc c timeout cl \<in> pending (stacks s) \<longrightarrow> due tr (clock s + timeout) c) \<and>
     (\<forall>c time cl. timers s c = Some (time, cl) \<longrightarrow> due tr time c) \<and>
     (\<forall>a. requested tr a DeadlineExceeded \<longrightarrow> due tr (clock s) a)"

lemma cause_okD:
  assumes "cause_ok s tr"
  shows "AfterFunc c timeout cl \<in> pending (stacks s) \<Longrightarrow> due tr (clock s + timeout) c"
    and "timers s c = Some (time, cl) \<Longrightarrow> due tr time c"
    and "requested tr a DeadlineExceeded \<Longrightarrow> due tr (clock s) a"
    and "err_of (cells s) c = Some e \<Longrightarrow> \<exists>a. (a, c) \<in> (par tr)\<^sup>* \<and> requested tr a e"
  using assms unfolding cause_ok_def by blast+

lemma due_later: "due tr t c \<Longrightarrow> t \<le> u \<Longrightarrow> due (ev # tr) u c"
  by (fastforce simp: due_def)

lemma par_mono: "(a, c) \<in> (par tr)\<^sup>* \<Longrightarrow> (a, c) \<in> (par (ev # tr))\<^sup>*"
  by (rule subsetD [OF rtrancl_mono]) (auto simp: par_def)

lemma requested_mono: "requested tr a e \<Longrightarrow> requested (ev # tr) a e"
  by simp

lemma cause_okI:
  assumes ok: "cause_ok s tr" and clock: "clock s \<le> clock s'"
    and cancels: "\<And>c e. Cancel c e \<in> pending (stacks s') \<or> err_of (cells s') c = Some e \<Longrightarrow>
        (\<exists>b. (b, c) \<in> (par (ev # tr))\<^sup>* \<and> (Cancel b e \<in> pending (stacks s) \<or> err_of (cells s) b = Some e \<or> requested (ev # tr) b e))"
    and after: "\<And>c timeout cl. AfterFunc c timeout cl \<in> pending (stacks s') \<Longrightarrow>
        AfterFunc c timeout cl \<in> pending (stacks s) \<or> due (ev # tr) (clock s' + timeout) c"
    and timers: "\<And>c time cl. timers s' c = Some (time, cl) \<Longrightarrow> timers s c = Some (time, cl) \<or> due (ev # tr) time c"
    and req: "\<And>a. requested (ev # tr) a DeadlineExceeded \<Longrightarrow> requested tr a DeadlineExceeded \<or> due (ev # tr) (clock s') a"
  shows "cause_ok s' (ev # tr)"
proof -
  have "\<exists>a. (a, c) \<in> (par (ev # tr))\<^sup>* \<and> requested (ev # tr) a e"
    if c: "Cancel c e \<in> pending (stacks s') \<or> err_of (cells s') c = Some e" for c e
  proof -
    obtain b where b: "(b, c) \<in> (par (ev # tr))\<^sup>*"
      "Cancel b e \<in> pending (stacks s) \<or> err_of (cells s) b = Some e \<or> requested (ev # tr) b e"
      using cancels [OF c] by blast
    show ?thesis
    proof (cases "requested (ev # tr) b e")
      case True
      then show ?thesis using b(1) by blast
    next
      case False
      then obtain a where a: "(a, b) \<in> (par tr)\<^sup>*" "requested tr a e" using b(2) ok unfolding cause_ok_def by blast
      then have "(a, c) \<in> (par (ev # tr))\<^sup>*" using b(1) by (blast intro: rtrancl_trans par_mono)
      then show ?thesis using a(2) requested_mono by blast
    qed
  qed
  moreover have "due (ev # tr) (clock s' + timeout) c" if "AfterFunc c timeout cl \<in> pending (stacks s')" for c timeout cl
    using after [OF that]
  proof
    assume "AfterFunc c timeout cl \<in> pending (stacks s)"
    then have "due tr (clock s + timeout) c" by (rule cause_okD(1) [OF ok])
    then show ?thesis by (rule due_later) (use clock in simp)
  qed
  moreover have "due (ev # tr) time c" if "timers s' c = Some (time, cl)" for c time cl
    using timers [OF that] due_later [OF cause_okD(2) [OF ok]] by blast
  moreover have "due (ev # tr) (clock s') a" if "requested (ev # tr) a DeadlineExceeded" for a
    using req [OF that] due_later [OF cause_okD(3) [OF ok] clock] by blast
  ultimately show ?thesis unfolding cause_ok_def by blast
qed

lemma exec_cause:
  assumes "exec g s s'" and ok: "cause_ok s tr" and refs: "refs_ok s tr"
  shows "cause_ok s' (Exec g # tr)"
proof -
  note D = refs_okD [OF refs]
  have pop: "i \<in> pending (stacks s) \<or> i \<in> set js"
    if "stacks s g = j # is" "i \<in> pending ((stacks s)(g := js @ is))" for i j js "is"
    using pending_pop(1) [of "stacks s" g, OF that] .
  note pop0 = pop [where js = "[]", simplified]
  have up: "(a, c) \<in> (par tr)\<^sup>*" if "(a, c) \<in> par tr" for a c using that by blast
  show ?thesis
    using assms(1)
  proof (cases rule: exec_elim)
    case (addChild p c "is" x)
    then have "err_of (cells s') = err_of (cells s)" by (auto simp: err_of_def fun_eq_iff)
    then show ?thesis using addChild by (intro cause_okI [OF ok]) (auto dest: pop0 [OF addChild(1)])
  next
    case (refused p c "is" x e)
    then have "err_of (cells s') = err_of (cells s)" "err_of (cells s) p = Some e" by (auto simp: err_of_def fun_eq_iff)
    moreover have "(p, c) \<in> (par tr)\<^sup>*"
      using D(5) [OF pending_hd [of "stacks s" g, OF refused(1)]] by (auto simp: instr_ok_def)
    ultimately show ?thesis
      using refused by (intro cause_okI [OF ok]) (auto dest!: pop [OF refused(1), where js = "[Cancel c e]", simplified])
  next
    case (removeChild p c "is" x)
    then have "err_of (cells s') = err_of (cells s)" by (auto simp: err_of_def fun_eq_iff)
    then show ?thesis using removeChild by (intro cause_okI [OF ok]) (auto dest: pop0 [OF removeChild(1)])
  next
    case (cancel c e "is" x js)
    have c: "Cancel c e \<in> pending (stacks s)" by (rule pending_hd [of "stacks s" g, OF cancel(1)])
    have kids: "(c, k) \<in> (par tr)\<^sup>*" if "k \<in> set js" for k
      using D(9) [of k c] cancel(4) kids_self [of "cells s" c, OF cancel(2)] that by auto
    then have why: "\<exists>b. (b, k) \<in> (par tr)\<^sup>* \<and> (Cancel b e \<in> pending (stacks s) \<or> P b)" if "k \<in> set js" for k P
      using c that by blast
    show ?thesis
      using cancel(5) c
      by (intro cause_okI [OF ok]) (auto dest!: pop [OF cancel(1)] intro: why split: if_splits)
  next
    case (cancelled c e "is" x)
    then have "err_of (cells s') = err_of (cells s)" by (auto simp: err_of_def fun_eq_iff)
    then show ?thesis using cancelled by (intro cause_okI [OF ok]) (auto dest: pop0 [OF cancelled(1)])
  next
    case (stopTimer c "is")
    then show ?thesis by (intro cause_okI [OF ok]) (auto dest: pop0 [OF stopTimer(1)] split: if_splits)
  next
    case (afterFunc c timeout cl "is")
    have "due tr (clock s + timeout) c" by (rule cause_okD(1) [OF ok pending_hd [of "stacks s" g, OF afterFunc(1)]])
    then have "due (Exec g # tr) (clock s + timeout) c" by (rule due_later) simp
    then show ?thesis using afterFunc by (intro cause_okI [OF ok]) (auto dest: pop0 [OF afterFunc(1)] split: if_splits)
  next
    case (return t cl "is")
    then show ?thesis by (intro cause_okI [OF ok]) (auto dest: pop0 [OF return(1)])
  qed
qed

lemma step_cause:
  assumes "step ev s s'" and ok: "cause_ok s tr" and refs: "refs_ok s tr"
  shows "cause_ok s' (ev # tr)"
  using assms(1)
proof (cases rule: step.cases)
  case (exec g)
  then show ?thesis using exec_cause ok refs by blast
next
  case (call g c p d "is")
  have "Cancel k e \<notin> set is" for k e using call(5) by (auto elim!: makes_cell_shape simp: addParent_def split: option.splits)
  moreover have "due (ev # tr) (clock s + timeout) k" if "AfterFunc k timeout cl \<in> set is" for k timeout cl
    using call(5)
  proof (cases rule: makes_cell_shape)
    case 2
    with that call(1) show ?thesis by (auto simp: addParent_def due_def split: option.splits)
  qed (use that in \<open>auto simp: addParent_def split: option.splits\<close>)
  ultimately show ?thesis
    using call by (intro cause_okI [OF ok]) (auto simp: pending_push new_cell_def split: if_splits)
next
  case (call_cancel g cl)
  then have "cl_err cl = Canceled" using refs by (simp add: refs_ok_def)
  then show ?thesis
    using call_cancel by (intro cause_okI [OF ok]) (auto simp: pending_push makeCancelFunc_def split: option.splits if_splits)
next
  case (fire g c time cl)
  then have cl: "cl_cs cl = c" "cl_err cl = DeadlineExceeded" using refs_okD(7) [OF refs] by auto
  have "due tr time c" by (rule cause_okD(2) [OF ok fire(4)])
  then have "due (ev # tr) (clock s) c" by (rule due_later) (use fire in simp)
  then show ?thesis
    using fire cl by (intro cause_okI [OF ok]) (auto simp: pending_push makeCancelFunc_def split: option.splits if_splits)
qed (intro cause_okI [OF ok]; auto)+

text \<open>
  No cell keeps a cancelled child: a child leaves its parent before it is cancelled by a cancel function of its
  own. While a call is about to add a new cell to its parent, nobody else knows the cell.
\<close>

fun mentions :: "cs_id \<Rightarrow> ('k, 'v, 'l) instr \<Rightarrow> bool" where
  "mentions c (AddChild p k) = (k = c)"
| "mentions c (RemoveChild p k) = (k = c)"
| "mentions c (StopTimer k) = (k = c)"
| "mentions c (Cancel k e) = (k = c)"
| "mentions c (AfterFunc k timeout cl) = (k = c \<or> cl_cs cl = c)"
| "mentions c (Return t cl) = (cl_cs cl = c)"

fun ends_call :: "('k, 'v, 'l) instr \<Rightarrow> bool" where
  "ends_call (AfterFunc c timeout cl) = True"
| "ends_call (Return t cl) = True"
| "ends_call _ = False"

definition private_to :: "('k, 'v, 'l) sys \<Rightarrow> nat \<Rightarrow> cs_id \<Rightarrow> cs_id \<Rightarrow> bool" where
  "private_to s g p c \<longleftrightarrow>
     (\<exists>tl. stacks s g = AddChild p c # tl \<and> list_all ends_call tl) \<and>
     (\<forall>h. h \<noteq> g \<longrightarrow> \<not> list_ex (mentions c) (stacks s h)) \<and>
     (\<forall>cl \<in> funcs s. cl_cs cl \<noteq> c) \<and> timers s c = None \<and> err_of (cells s) c = None \<and> (\<forall>q. c \<notin> kids (cells s) q)"

definition private_ok :: "('k, 'v, 'l) sys \<Rightarrow> bool" where
  "private_ok s \<longleftrightarrow> (\<forall>g p c. AddChild p c \<in> set (stacks s g) \<longrightarrow> private_to s g p c)"

fun guarded :: "cs_id \<Rightarrow> cs_id \<Rightarrow> ('k, 'v, 'l) instr list \<Rightarrow> bool" where
  "guarded p c [] = True"
| "guarded p c (i # is) \<longleftrightarrow> i = RemoveChild p c \<or> ((\<forall>e. i \<noteq> Cancel c e) \<and> guarded p c is)"

definition live_ok :: "('k, 'v, 'l) sys \<Rightarrow> bool" where
  "live_ok s \<longleftrightarrow> (\<forall>p c. c \<in> kids (cells s) p \<longrightarrow> err_of (cells s) c = None \<and> (\<forall>g. guarded p c (stacks s g)))"

lemma guarded_no_cancel: "(\<And>e. Cancel c e \<notin> set is) \<Longrightarrow> guarded p c is"
  by (induction "is") auto

lemma guarded_unmentioned: "\<not> list_ex (mentions c) is \<Longrightarrow> guarded p c is"
  by (rule guarded_no_cancel) (auto simp: list_ex_iff)

lemma guarded_ends_call: "list_all ends_call is \<Longrightarrow> guarded p c is"
  by (rule guarded_no_cancel) (auto simp: list_all_iff)

lemma guarded_cancels: "c \<notin> set js \<Longrightarrow> guarded p c is \<Longrightarrow> guarded p c (map (\<lambda>k. Cancel k e) js @ is)"
  by (induction js) auto

lemma guarded_makeCancelFunc:
  "(cl_cs cl = c \<Longrightarrow> cl_parent cl = Some p) \<Longrightarrow> guarded p c (makeCancelFunc cl)"
  by (cases "cl_cs cl = c") (auto simp: makeCancelFunc_def split: option.split)

lemma private_toD:
  assumes "private_to s g p c"
  shows "h \<noteq> g \<Longrightarrow> i \<in> set (stacks s h) \<Longrightarrow> \<not> mentions c i"
  using assms by (auto simp: private_to_def list_ex_iff)

lemma exec_private:
  assumes "exec g s s'" and ok: "private_ok s"
  shows "private_ok s'"
  unfolding private_ok_def
proof (intro allI impI)
  fix h p c assume h: "AddChild p c \<in> set (stacks s' h)"
  have no_add: "AddChild p c \<in> set (stacks s h)"
    using assms(1) h by (cases rule: exec_elim) (auto split: if_splits)
  then have priv: "private_to s h p c" using ok by (simp add: private_ok_def)
  have "h \<noteq> g"
  proof
    assume "h = g"
    with priv obtain tl where tl: "stacks s g = AddChild p c # tl" "list_all ends_call tl" by (auto simp: private_to_def)
    have e: "\<not> ends_call (AddChild p c)" by simp
    show False using assms(1) e h \<open>h = g\<close> tl by (cases rule: exec_elim) (auto simp: list_all_iff)
  qed
  have quiet: "\<not> mentions c i" if "i \<in> set (stacks s g)" for i using private_toD [OF priv, of g i] \<open>h \<noteq> g\<close> that by simp
  show "private_to s' h p c"
    using assms(1)
  proof (cases rule: exec_elim)
    case (addChild q k "is" x)
    then show ?thesis
      using priv quiet [of "AddChild q k"] \<open>h \<noteq> g\<close> kids_self [of "cells s" q, OF addChild(2)] err_self [of "cells s" q, OF addChild(2)]
      by (auto simp: private_to_def list_ex_iff dest: quiet)
  next
    case (refused q k "is" x e)
    then show ?thesis
      using priv quiet [of "AddChild q k"] \<open>h \<noteq> g\<close>
      by (auto simp: private_to_def list_ex_iff dest: quiet)
  next
    case (removeChild q k "is" x)
    then show ?thesis
      using priv \<open>h \<noteq> g\<close> kids_self [of "cells s" q, OF removeChild(2)] err_self [of "cells s" q, OF removeChild(2)]
      by (auto simp: private_to_def list_ex_iff dest: quiet)
  next
    case (cancel k e "is" x js)
    then have "c \<noteq> k" using quiet [of "Cancel k e"] by auto
    moreover have "c \<notin> set js"
      using priv cancel(4) kids_self [of "cells s" k, OF cancel(2)] by (auto simp: private_to_def)
    ultimately show ?thesis
      using cancel priv \<open>h \<noteq> g\<close> by (auto simp: private_to_def list_ex_iff dest: quiet)
  next
    case (cancelled k e "is" x)
    then show ?thesis
      using priv \<open>h \<noteq> g\<close> by (auto simp: private_to_def list_ex_iff err_of_def dest: quiet)
  next
    case (stopTimer k "is")
    then show ?thesis using priv \<open>h \<noteq> g\<close> by (auto simp: private_to_def list_ex_iff dest: quiet)
  next
    case (afterFunc k timeout cl "is")
    then show ?thesis
      using priv quiet [of "AfterFunc k timeout cl"] \<open>h \<noteq> g\<close> by (auto simp: private_to_def list_ex_iff dest: quiet)
  next
    case (return t cl "is")
    then show ?thesis
      using priv quiet [of "Return t cl"] \<open>h \<noteq> g\<close> by (auto simp: private_to_def list_ex_iff dest: quiet)
  qed
qed

lemma exec_live:
  assumes "exec g s s'" and ok: "live_ok s" and priv: "private_ok s" and refs: "refs_ok s tr"
  shows "live_ok s'"
  unfolding live_ok_def
proof (intro allI impI)
  fix p c assume c: "c \<in> kids (cells s') p"
  note D = refs_okD [OF refs]
  have live: "err_of (cells s) k = None" "guarded q k (stacks s h)" if "k \<in> kids (cells s) q" for q k h
    using ok that by (auto simp: live_ok_def)
  have tail: "guarded q k is" if "k \<in> kids (cells s) q" "stacks s g = i # is" "i \<noteq> RemoveChild q k" for q k i "is"
    using live(2) [OF that(1), of g] that(2,3) by auto
  show "err_of (cells s') c = None \<and> (\<forall>h. guarded p c (stacks s' h))"
    using assms(1)
  proof (cases rule: exec_elim)
    case (addChild q k "is" x)
    then have pr: "private_to s g q k" using priv by (auto simp: private_ok_def)
    show ?thesis
    proof (cases "p = q \<and> c = k")
      case True
      have "guarded q k is" using pr addChild(1) by (auto simp: private_to_def intro: guarded_ends_call)
      moreover have "guarded q k (stacks s h)" if "h \<noteq> g" for h
        using pr that by (auto simp: private_to_def intro: guarded_unmentioned)
      moreover have "err_of (cells s) k = None" using pr by (simp add: private_to_def)
      ultimately show ?thesis using True addChild err_self [of "cells s" q, OF addChild(2)] by auto
    next
      case False
      then have "c \<in> kids (cells s) p"
        using c addChild(4) kids_self [of "cells s" q, OF addChild(2)] by (auto split: if_splits)
      then show ?thesis
        using live [of c p] tail [of c p, OF _ addChild(1)] addChild(4) err_self [of "cells s" q, OF addChild(2)] by auto
    qed
  next
    case (refused q k "is" x e)
    then have kid: "c \<in> kids (cells s) p" using c by simp
    have "private_to s g q k" using priv refused(1) by (auto simp: private_ok_def)
    then have "k \<noteq> c" using kid by (auto simp: private_to_def)
    with kid show ?thesis using live [of c p] tail [of c p, OF _ refused(1)] refused(4) by auto
  next
    case (removeChild q k "is" x)
    then have kid: "c \<in> kids (cells s) p" "RemoveChild q k \<noteq> RemoveChild p c"
      using c kids_self [of "cells s" q, OF removeChild(2)] by (auto split: if_splits)
    then show ?thesis
      using live [of c p] tail [of c p, OF _ removeChild(1)] removeChild(3) err_self [of "cells s" q, OF removeChild(2)] by auto
  next
    case (cancel k e "is" x js)
    then have kid: "c \<in> kids (cells s) p" "p \<noteq> k" using c by (auto split: if_splits)
    have "guarded p c (Cancel k e # is)" using live(2) [OF kid(1), of g] cancel(1) by simp
    then have "c \<noteq> k" "guarded p c is" by auto
    moreover have "c \<notin> set js"
    proof
      assume "c \<in> set js"
      then have "c \<in> kids (cells s) k" using cancel(4) kids_self [of "cells s" k, OF cancel(2)] by simp
      then show False using D(4) [OF D(9) D(9)] kid by blast
    qed
    ultimately show ?thesis using live [OF kid(1)] cancel(5) by (auto intro: guarded_cancels)
  next
    case (cancelled k e "is" x)
    then have kid: "c \<in> kids (cells s) p" using c by simp
    then show ?thesis using live [of c p] tail [of c p, OF _ cancelled(1)] cancelled(4) by auto
  next
    case (stopTimer k "is")
    then have kid: "c \<in> kids (cells s) p" using c by simp
    then show ?thesis using live [of c p] tail [of c p, OF _ stopTimer(1)] stopTimer(2) by auto
  next
    case (afterFunc k timeout cl "is")
    then have kid: "c \<in> kids (cells s) p" using c by simp
    then show ?thesis using live [of c p] tail [of c p, OF _ afterFunc(1)] afterFunc(2) by auto
  next
    case (return t cl "is")
    then have kid: "c \<in> kids (cells s) p" using c by simp
    then show ?thesis using live [of c p] tail [of c p, OF _ return(1)] return(2) by auto
  qed
qed

lemma mentioned_allocated:
  assumes "instr_ok m tr i" "mentions c i" "\<And>p k. (p, k) \<in> par tr \<Longrightarrow> m k \<noteq> None"
  shows "m c \<noteq> None"
  using assms by (cases i) (auto simp: instr_ok_def closure_ok_def)

lemma step_private:
  assumes "step ev s s'" and ok: "private_ok s" and refs: "refs_ok s tr"
  shows "private_ok s'"
proof -
  note D = refs_okD [OF refs]
  have alloc: "cells s c \<noteq> None" if "AddChild p c \<in> set (stacks s h)" for p c h
    using D(5) [of "AddChild p c"] D(3) that by (auto simp: pending_iff instr_ok_def)
  have old: "private_to s h p c" if "AddChild p c \<in> set (stacks s h)" for h p c using ok that by (simp add: private_ok_def)
  show ?thesis
    using assms(1)
  proof (cases rule: step.cases)
    case (exec g)
    then show ?thesis using exec_private ok by blast
  next
    case (call g c p d "is")
    have unmentioned: "\<not> list_ex (mentions c) (stacks s h)" for h
      using D(5) D(3) mentioned_allocated [of "cells s" tr _ c] call(4) by (fastforce simp: list_ex_iff pending_iff)
    have prog: "list_all (\<lambda>i. \<forall>k. mentions k i \<longrightarrow> k = c) is" "\<And>q k. AddChild q k \<in> set is \<Longrightarrow>
        p = Some q \<and> k = c \<and> (\<exists>tl. is = AddChild q c # tl \<and> list_all ends_call tl)"
      using call(5) by (auto elim!: makes_cell_shape simp: addParent_def cancel_closure_def split: option.splits)
    have "cl_cs cl \<noteq> c" if "cl \<in> funcs s" for cl using D(6) [OF that] call(4) by (auto simp: closure_ok_def)
    moreover have "timers s c = None"
      using D(7) [of c] call(4) by (cases "timers s c") (auto simp: closure_ok_def)
    moreover have "c \<notin> kids (cells s) q" for q using D(3) [OF D(9), of c q] call(4) by auto
    ultimately have new: "private_to s' g q k" if "AddChild q k \<in> set is" for q k
      using prog(2) [OF that] call unmentioned by (auto simp: private_to_def new_cell_def)
    have "private_to s' h q k" if "AddChild q k \<in> set (stacks s h)" for h q k
    proof -
      have "h \<noteq> g" "k \<noteq> c" using that call(3,4) alloc [OF that] by auto
      then show ?thesis
        using old [OF that] call(2) prog(1) by (auto simp: private_to_def new_cell_def list_ex_iff list_all_iff)
    qed
    with new show ?thesis using call(2) by (auto simp: private_ok_def split: if_splits)
  next
    case (call_cancel g cl)
    have "private_to s' h q k" if "AddChild q k \<in> set (stacks s h)" for h q k
    proof -
      have "h \<noteq> g" "k \<noteq> cl_cs cl" using that call_cancel old [OF that] by (auto simp: private_to_def)
      then show ?thesis using old [OF that] call_cancel(2)
        by (auto simp: private_to_def makeCancelFunc_def split: option.split)
    qed
    then show ?thesis using call_cancel(2) by (auto simp: private_ok_def makeCancelFunc_def split: if_splits option.splits)
  next
    case (fire g c time cl)
    have "cl_cs cl = c" using D(7) [OF fire(4)] by simp
    then have "private_to s' h q k" if "AddChild q k \<in> set (stacks s h)" for h q k
    proof -
      have "h \<noteq> g" "k \<noteq> c" using that fire old [OF that] by (auto simp: private_to_def)
      then show ?thesis using old [OF that] fire(2) \<open>cl_cs cl = c\<close>
        by (auto simp: private_to_def makeCancelFunc_def split: option.split)
    qed
    then show ?thesis using fire(2) by (auto simp: private_ok_def makeCancelFunc_def split: if_splits option.splits)
  qed (use ok in \<open>auto simp: private_ok_def private_to_def\<close>)
qed

lemma step_live:
  fixes s :: "('k, 'v, 'l) sys"
  assumes "step ev s s'" and ok: "live_ok s" and priv: "private_ok s" and refs: "refs_ok s tr"
  shows "live_ok s'"
proof -
  note D = refs_okD [OF refs]
  have live: "err_of (cells s) k = None \<and> (\<forall>h. guarded q k (stacks s h))" if "k \<in> kids (cells s) q" for q k
    using ok that by (auto simp: live_ok_def)
  have func: "guarded q k (makeCancelFunc cl :: ('k, 'v, 'l) instr list)" if "k \<in> kids (cells s) q" "closure_ok (cells s) tr cl" for q k cl
    using D(9) [OF that(1)] that(2) by (intro guarded_makeCancelFunc) (auto simp: closure_ok_def)
  show ?thesis
    using assms(1)
  proof (cases rule: step.cases)
    case (exec g)
    then show ?thesis using exec_live ok priv refs by blast
  next
    case (call g c p d "is")
    have prog: "guarded q k is" for q k
      using call(5) by (auto elim!: makes_cell_shape simp: addParent_def split: option.split)
    have kid: "k \<in> kids (cells s) q \<and> k \<noteq> c" if "k \<in> kids (cells s') q" for k q
      using that call D(3) [OF D(9), of k q] by (auto simp: new_cell_def split: if_splits)
    have "err_of (cells s') k = None \<and> (\<forall>h. guarded q k (stacks s' h))" if "k \<in> kids (cells s') q" for k q
      using live [of k q] kid [OF that] prog call(2) by simp
    then show ?thesis unfolding live_ok_def by blast
  next
    case (call_cancel g cl)
    then show ?thesis using live func D(6) by (auto simp: live_ok_def)
  next
    case (fire g c time cl)
    then show ?thesis using live func D(7) [OF fire(4)] by (auto simp: live_ok_def)
  qed (use ok in \<open>auto simp: live_ok_def\<close>)
qed

text \<open>All invariants together.\<close>

lemma run_invariants:
  "run time tr s \<Longrightarrow> refs_ok s tr \<and> shape_ok s \<and> spread_ok s tr \<and> cause_ok s tr \<and> private_ok s \<and> live_ok s"
proof (induction rule: run.induct)
  case empty
  show ?case
    by (intro conjI) (simp_all add: start_def refs_ok_def shape_ok_def spread_ok_def cause_ok_def private_ok_def live_ok_def
        pending_def kids_def err_of_def)
next
  case (more tr s e s')
  then have ok: "refs_ok s tr" "shape_ok s" "spread_ok s tr" "cause_ok s tr" "private_ok s" "live_ok s" by simp_all
  note s = more.hyps(2)
  show ?case
    using step_refs [OF s ok(1)] step_shape [OF s ok(2)] step_spread [OF s ok(3)] step_cause [OF s ok(4,1)]
      step_private [OF s ok(5,1)] step_live [OF s ok(6,5,1)] by simp
qed

subsection \<open>Cancelling ends\<close>

definition idle :: "('k, 'v, 'l) sys \<Rightarrow> bool" where
  "idle s \<longleftrightarrow> (\<forall>g. stacks s g = [])"

definition busy :: "('k, 'v, 'l) sys \<Rightarrow> nat set" where
  "busy s = {g. stacks s g \<noteq> []}"

text \<open>
  The weight of what is left to do. Cancelling a live cell may leave any number of children to do, but makes
  the number of live cells smaller.
\<close>

fun weight :: "('k, 'v, 'l) instr \<Rightarrow> nat" where
  "weight (AddChild p c) = 2"
| "weight _ = 1"

definition load :: "('k, 'v, 'l) sys \<Rightarrow> nat" where
  "load s = (\<Sum>g \<in> busy s. sum_list (map weight (stacks s g)))"

definition live_cells :: "('k, 'v, 'l) sys \<Rightarrow> cs_id set" where
  "live_cells s = {c. cells s c \<noteq> None \<and> err_of (cells s) c = None}"

lemma load_less:
  assumes "finite (busy s)" "stacks s g = i # is" "stacks s' = (stacks s)(g := js @ is)"
    and "sum_list (map weight js) < weight i"
  shows "load s' < load s"
proof -
  have g: "g \<in> busy s" using assms(2) by (simp add: busy_def)
  have sub: "busy s' \<subseteq> busy s" using assms(2,3) by (auto simp: busy_def)
  have "load s' = (\<Sum>h \<in> busy s. sum_list (map weight (stacks s' h)))"
    unfolding load_def by (rule sum.mono_neutral_left [OF assms(1) sub]) (auto simp: busy_def)
  also have "\<dots> < load s"
    unfolding load_def by (rule sum_strict_mono_ex1 [OF assms(1)]) (use assms(2-4) g in \<open>auto intro!: bexI [of _ g]\<close>)
  finally show ?thesis .
qed

lemma step_busy: "step ev s s' \<Longrightarrow> finite (busy s) \<Longrightarrow> finite (busy s')"
proof -
  assume step: "step ev s s'" and fin: "finite (busy s)"
  have "busy s' \<subseteq> insert (case ev of Exec g \<Rightarrow> g | Call g c p d \<Rightarrow> g | CallCancel g cl \<Rightarrow> g | Fire g c cl \<Rightarrow> g | _ \<Rightarrow> 0) (busy s)"
    using step
  proof (cases rule: step.cases)
    case (exec g)
    then obtain i "is" js where "stacks s' = (stacks s)(g := js @ is)" using exec_pop [OF exec(2)] by metis
    then show ?thesis using exec(1) by (auto simp: busy_def)
  qed (auto simp: busy_def split: if_splits)
  then show ?thesis using fin finite_subset by blast
qed

lemma run_busy: "run time tr s \<Longrightarrow> finite (busy s)"
  by (induction rule: run.induct) (auto simp: start_def busy_def intro: step_busy [unfolded busy_def])

definition settle_order :: "(('k, 'v, 'l) sys \<times> ('k, 'v, 'l) sys) set" where
  "settle_order = inv_image (less_than <*lex*> less_than) (\<lambda>s. (card (live_cells s), load s))"

lemma wf_settle_order: "wf settle_order"
  unfolding settle_order_def by (intro wf_inv_image wf_lex_prod wf_less_than)

lemma exec_smaller:
  assumes "exec g s s'" and fin: "finite (dom (cells s))" "finite (busy s)"
  shows "(s', s) \<in> settle_order"
proof -
  have smaller: ?thesis
    if "live_cells s' = live_cells s" "stacks s g = i # is" "stacks s' = (stacks s)(g := js @ is)"
      "sum_list (map weight js) < weight i" for i js "is"
    using that load_less [OF fin(2) that(2-4)] by (simp add: settle_order_def)
  show ?thesis
    using assms(1)
  proof (cases rule: exec_elim)
    case (addChild p c "is" x)
    then show ?thesis
      using err_self [of "cells s" p, OF addChild(2)]
      by (intro smaller [where js = "[]", OF _ addChild(1)]) (auto simp: live_cells_def split: if_splits)
  next
    case (refused p c "is" x e)
    then show ?thesis by (intro smaller [where js = "[Cancel c e]", OF _ refused(1)]) (auto simp: live_cells_def)
  next
    case (removeChild p c "is" x)
    then show ?thesis
      using err_self [of "cells s" p, OF removeChild(2)]
      by (intro smaller [where js = "[]", OF _ removeChild(1)]) (auto simp: live_cells_def split: if_splits)
  next
    case (cancel c e "is" x js)
    have "live_cells s' = live_cells s - {c}" using cancel(5) by (auto simp: live_cells_def)
    moreover have "c \<in> live_cells s" using cancel(2,3) err_self [of "cells s" c, OF cancel(2)] by (simp add: live_cells_def)
    moreover have "finite (live_cells s)" by (rule finite_subset [OF _ fin(1)]) (auto simp: live_cells_def)
    ultimately have "card (live_cells s') < card (live_cells s)" by (metis card_Diff1_less)
    then show ?thesis by (simp add: settle_order_def)
  next
    case (cancelled c e "is" x)
    then show ?thesis by (intro smaller [where js = "[]", OF _ cancelled(1)]) (auto simp: live_cells_def)
  next
    case (stopTimer c "is")
    then show ?thesis by (intro smaller [where js = "[]", OF _ stopTimer(1)]) (auto simp: live_cells_def)
  next
    case (afterFunc c timeout cl "is")
    then show ?thesis by (intro smaller [where js = "[]", OF _ afterFunc(1)]) (auto simp: live_cells_def)
  next
    case (return t cl "is")
    then show ?thesis by (intro smaller [where js = "[]", OF _ return(1)]) (auto simp: live_cells_def)
  qed
qed

lemma exec_progress:
  assumes "refs_ok s tr" "\<not> idle s"
  shows "\<exists>g s'. exec g s s'"
proof -
  obtain g i "is" where g: "stacks s g = i # is" using assms(2) by (auto simp: idle_def neq_Nil_conv)
  have "instr_ok (cells s) tr i" using refs_okD(5) [OF assms(1) pending_hd [of "stacks s" g, OF g]] .
  moreover note P = refs_okD(2) [OF assms(1)]
  ultimately show ?thesis
  proof (cases i)
    case (AddChild p c)
    then obtain x where "cells s p = Some x" using \<open>instr_ok (cells s) tr i\<close> P [of p c] by (auto simp: instr_ok_def)
    then show ?thesis using exec.addChild [of s g p c "is"] g AddChild by (cases "addChild_section c x :: ('a, 'b, 'c) instr list \<times> _") blast
  next
    case (RemoveChild p c)
    then obtain x where "cells s p = Some x" using \<open>instr_ok (cells s) tr i\<close> P [of p c] by (auto simp: instr_ok_def)
    then show ?thesis using exec.removeChild [of s g p c "is"] g RemoveChild by blast
  next
    case (Cancel c e)
    then obtain x where "cells s c = Some x" using \<open>instr_ok (cells s) tr i\<close> by (auto simp: instr_ok_def)
    then show ?thesis using exec.cancel [of s g c e "is"] g Cancel by (cases "cancel_section e x") blast
  next
    case (StopTimer c)
    then show ?thesis using exec.stopTimer g by blast
  next
    case (AfterFunc c timeout cl)
    then show ?thesis using exec.afterFunc g by blast
  next
    case (Return t cl)
    then show ?thesis using exec.return g by blast
  qed
qed

text \<open>
  Every way of running the goroutines to their end, with no new calls, ends, and in a state with \<open>P\<close>.
\<close>

inductive settles :: "(('k, 'v, 'l) sys \<Rightarrow> bool) \<Rightarrow> ('k, 'v, 'l) sys \<Rightarrow> bool" for P where
  settled: "(idle s \<Longrightarrow> P s) \<Longrightarrow> (\<not> idle s \<Longrightarrow> \<exists>g s'. exec g s s') \<Longrightarrow> (\<And>g s'. exec g s s' \<Longrightarrow> settles P s') \<Longrightarrow> settles P s"

lemma run_settles:
  assumes "run time tr s" and final: "\<And>tr' s'. run time tr' s' \<Longrightarrow> idle s' \<Longrightarrow> par tr' = par tr \<Longrightarrow>
      requested tr' = requested tr \<Longrightarrow> P s'"
  shows "settles P s"
  using wf_settle_order assms
proof (induction s arbitrary: tr rule: wf_induct_rule)
  case (less s)
  note refs = run_refs [OF less.prems(1)]
  show ?case
  proof (rule settled)
    show "P s" if "idle s" using less.prems that by blast
    show "\<exists>g s'. exec g s s'" if "\<not> idle s" using exec_progress [OF refs that] .
    show "settles P s'" if "exec g s s'" for g s'
    proof (rule less.IH)
      show "(s', s) \<in> settle_order"
        using exec_smaller [OF that] refs_okD(1) [OF refs] run_busy [OF less.prems(1)] by blast
      show "run time (Exec g # tr) s'" using less.prems(1) that by (intro run.more step.exec)
      show "P s''" if "run time tr' s''" "idle s''" "par tr' = par (Exec g # tr)" "requested tr' = requested (Exec g # tr)" for tr' s''
        using that less.prems(2) by (auto simp: fun_eq_iff)
    qed
  qed
qed

subsection \<open>Properties\<close>

definition closed_done :: "('k, 'v, 'l) sys \<Rightarrow> cs_id \<Rightarrow> bool" where
  "closed_done s c \<longleftrightarrow> (\<exists>x. cells s c = Some x \<and> done_closed x)"

lemma closed_done_iff: "shape_ok s \<Longrightarrow> closed_done s c \<longleftrightarrow> err_of (cells s) c \<noteq> None"
  by (cases "cells s c") (auto simp: closed_done_def shape_ok_def cell_ok_def err_of_def)

lemma idle_pending [simp]: "idle s \<Longrightarrow> pending (stacks s) = {}"
  by (auto simp: idle_def pending_def)

lemma idle_spread:
  assumes "idle s" "spread_ok s tr" "shape_ok s" "(a, c) \<in> (par tr)\<^sup>*" "requested tr a e"
  shows "err_of (cells s) c \<noteq> None"
  using assms(4)
proof (induction rule: rtrancl_induct)
  case base
  then show ?case using assms(1,2,5) by (auto simp: spread_ok_def doomed_def)
next
  case (step p c)
  then obtain x where x: "cells s p = Some x" "cs_err x \<noteq> None" by (auto simp: err_of_def split: option.splits)
  then have "children x = []" using assms(3) by (auto simp: shape_ok_def cell_ok_def)
  then have "c \<notin> kids (cells s) p" using kids_self [of "cells s" p, OF x(1)] by simp
  then show ?case using step.hyps(2) assms(1,2) by (auto simp: spread_ok_def doomed_def)
qed

text \<open>C21: 
  Cancellation reaches the whole subtree: once a cancel function of a cell has been called, by its owner or by
  its timer, every way of running the goroutines to their end ends, whatever they interleave, and it ends with the
  channels of the cell and of all cells below it closed. In such an end no cell keeps a cancelled child, so that
  what is cancelled can be collected.
\<close>

theorem cancellation_reaches_descendants:
  assumes "run time tr s" "requested tr a e" "(a, c) \<in> (par tr)\<^sup>*"
  shows "settles (\<lambda>s'. closed_done s' c \<and> kids (cells s') p \<inter> {k. closed_done s' k} = {}) s"
proof (rule run_settles [OF assms(1)])
  fix tr' s' assume run: "run time tr' s'" and "idle s'" "par tr' = par tr" "requested tr' = requested tr"
  then have ok: "shape_ok s'" "spread_ok s' tr'" "live_ok s'" "(a, c) \<in> (par tr')\<^sup>*" "requested tr' a e"
    using run_invariants [OF run] assms(2,3) by simp_all
  have "closed_done s' c" using idle_spread [OF \<open>idle s'\<close> ok(2,1,4,5)] closed_done_iff [OF ok(1)] by simp
  moreover have "\<not> closed_done s' k" if "k \<in> kids (cells s') p" for k
    using ok(3) that closed_done_iff [OF ok(1)] by (auto simp: live_ok_def)
  ultimately show "closed_done s' c \<and> kids (cells s') p \<inter> {k. closed_done s' k} = {}" by blast
qed

text \<open>C22: 
  A context is only cancelled from above or by itself: the error of a cell is the error of a cancel function that
  has been called for the cell or for one that its creation put it under, and it is \<open>DeadlineExceeded\<close> only after
  the deadline of such a cell. An error once set does not change, whatever happens next.
\<close>

theorem cancelled_for_a_reason:
  assumes "run time tr s" "err_of (cells s) c = Some e"
  shows "(\<exists>a. (a, c) \<in> (par tr)\<^sup>* \<and> requested tr a e \<and> (if e = DeadlineExceeded then due tr (clock s) a else True)) \<and>
    (\<forall>ev s'. step ev s s' \<longrightarrow> err_of (cells s') c = Some e)"
proof (intro conjI allI impI)
  have ok: "cause_ok s tr" using run_invariants [OF assms(1)] by simp
  show "\<exists>a. (a, c) \<in> (par tr)\<^sup>* \<and> requested tr a e \<and> (if e = DeadlineExceeded then due tr (clock s) a else True)"
    using cause_okD(4) [OF ok assms(2)] cause_okD(3) [OF ok] by auto
  fix ev s' assume "step ev s s'"
  then show "err_of (cells s') c = Some e"
  proof (cases rule: step.cases)
    case (exec g)
    then show ?thesis using exec_pop [OF exec(2)] assms(2) by (metis option.distinct(1))
  next
    case (call g k p d "is")
    then show ?thesis using assms(2) by (auto simp: err_of_def)
  qed (use assms(2) in simp_all)
qed

text \<open>Every context that a caller has is governed by a cell.\<close>

definition governed_ok :: "('k, 'v, 'l) sys \<Rightarrow> bool" where
  "governed_ok s \<longleftrightarrow> (\<forall>t \<in> contexts s. cancel_of (Some t) \<noteq> None) \<and>
     (\<forall>t cl. Return t cl \<in> pending (stacks s) \<longrightarrow> cancel_of (Some t) = Some (cl_cs cl))"

lemma cancel_of_WithValue:
  "WithValue p k v = Inr t \<Longrightarrow> cancel_of (Some t) =
     (if k = Some cancelKey then (case v of Some (VCancel c) \<Rightarrow> Some c | _ \<Rightarrow> None) else cancel_of p)"
  by (auto simp: WithValue_def cancel_of_def split: option.splits if_splits)

lemma cancel_of_logger [simp]:
  "cancel_of (Some (WithLogger t lg)) = cancel_of (Some t)"
  "cancel_of (Some (WithContextLogger t lg)) = cancel_of (Some t)"
  by (cases t; simp add: WithLogger_def WithContextLogger_def cancel_of_def)+

lemma makes_cell_governed: "makes_cell s c p d is \<Longrightarrow> Return t cl \<in> set is \<Longrightarrow> cancel_of (Some t) = Some (cl_cs cl)"
  by (cases rule: makes_cell.cases, assumption)
    (auto simp: RootContext_def WithCancel_def WithDeadline_def WithTimeout_def withDeadlineState_def WithRootCancel_def
      and_then_Inr_iff Let_def addParent_def cancel_closure_def cancel_of_WithValue split: option.splits)

lemma step_governed:
  assumes "step ev s s'" "governed_ok s"
  shows "governed_ok s'"
  using assms(1)
proof (cases rule: step.cases)
  case (exec g)
  have pop: "i \<in> pending (stacks s) \<or> i \<in> set js"
    if "stacks s g = j # is" "i \<in> pending ((stacks s)(g := js @ is))" for i j js "is"
    using pending_pop(1) [of "stacks s" g, OF that] .
  note pop0 = pop [where js = "[]", simplified]
  show ?thesis
    using exec(2)
  proof (cases rule: exec_elim)
    case (refused p c "is" x e)
    then show ?thesis using assms(2) by (auto simp: governed_ok_def dest!: pop [OF refused(1), where js = "[Cancel c e]", simplified])
  next
    case (cancel c e "is" x js)
    then show ?thesis using assms(2) by (auto simp: governed_ok_def dest!: pop [OF cancel(1)])
  next
    case (return t cl "is")
    then show ?thesis
      using assms(2) pending_hd [of "stacks s" g, OF return(1)] pop0 [OF return(1)] by (auto simp: governed_ok_def)
  qed (use assms(2) in \<open>auto simp: governed_ok_def dest: pop0\<close>)
next
  case (call g c p d "is")
  then show ?thesis using assms(2) makes_cell_governed [OF call(5)] by (auto simp: governed_ok_def pending_push)
next
  case (derive t key val t')
  then show ?thesis using assms(2) cancel_of_WithValue [OF derive(4)] by (auto simp: governed_ok_def)
qed (use assms(2) in \<open>auto simp: governed_ok_def pending_push makeCancelFunc_def split: option.splits if_splits\<close>)

text \<open>C23: 
  In every reachable state no channel has been closed twice, which would panic; the channel of a cell is closed exactly
  when it has an error, and then it has no children; no cell is listed twice or under two cells; every context
  that a caller has got reports its state by \<open>Done\<close>, and \<open>Err\<close> is set exactly when \<open>Done\<close> is closed.
\<close>

theorem context_invariant:
  assumes "run time tr s"
  shows "\<not> panicked s \<and>
    (cells s c = Some x \<longrightarrow> cell_ok x) \<and>
    (k \<in> kids (cells s) p \<and> k \<in> kids (cells s) q \<longrightarrow> p = q) \<and>
    (t \<in> contexts s \<longrightarrow> Done s (Some t) = Some (Err s (Some t) \<noteq> None))"
proof (intro conjI impI)
  have ok: "shape_ok s" "refs_ok s tr" using run_invariants [OF assms] by simp_all
  show "\<not> panicked s" "cells s c = Some x \<Longrightarrow> cell_ok x" using ok(1) by (auto simp: shape_ok_def)
  show "p = q" if "k \<in> kids (cells s) p \<and> k \<in> kids (cells s) q" using that refs_okD(4) [OF ok(2)] refs_okD(9) [OF ok(2)] by blast
  assume t: "t \<in> contexts s"
  have "governed_ok s"
    using assms
  proof (induction rule: run.induct)
    case empty
    show ?case by (simp add: start_def governed_ok_def pending_def)
  qed (rule step_governed)
  then obtain c where c: "cancel_of (Some t) = Some c" using t by (auto simp: governed_ok_def)
  then have "c \<in> dom (cells s)" using cancel_of_in_cells refs_okD(8) [OF ok(2) t] by blast
  then obtain x where x: "cells s c = Some x" by blast
  then have "cell_ok x" using ok(1) by (auto simp: shape_ok_def)
  then show "Done s (Some t) = Some (Err s (Some t) \<noteq> None)" by (simp add: Done_def Err_def c x cell_ok_def)
qed

lemma Deadline_WithValue:
  "WithValue p k v = Inr t \<Longrightarrow> Deadline (Some t) =
     (if k = Some deadlineKey then (case v of Some (VDeadline d) \<Rightarrow> Some d | _ \<Rightarrow> None) else Deadline p)"
  by (auto simp: WithValue_def Deadline_def split: option.splits if_splits)

text \<open>
  The deadline that a derived context reports is the one given last. \<open>WithDeadline\<close> under a context with an earlier
  deadline reports its own, later one, although the earlier one cancels it; a context of \<open>WithRootCancel\<close> reports the
  deadline of the context it is detached from, although that does not cancel it, since its cell is put under the
  outermost one.
\<close>

theorem Deadline_reports_the_last:
  assumes "WithDeadline t c now d = Inr ds" "WithTimeout t c now timeout = Inr ts" "WithCancel t c = Inr cs"
    "WithRootCancel t c = Inr rs" "r = root_loop None (Some t)"
  shows "(\<exists>cl t' cl'. ds = addParent (cancel_of (Some t)) c @ [AfterFunc c (d - now) cl, Return t' cl'] \<and>
        Deadline (Some t') = Some d \<and> cancel_of (Some t') = Some c) \<and>
    (\<exists>cl t' cl'. ts = addParent (cancel_of (Some t)) c @ [AfterFunc c timeout cl, Return t' cl'] \<and>
        Deadline (Some t') = Some (now + timeout) \<and> cancel_of (Some t') = Some c) \<and>
    (\<exists>t'. cs = addParent (cancel_of (Some t)) c @ [Return t' (cancel_closure c (cancel_of (Some t)))] \<and>
        Deadline (Some t') = Deadline (Some t) \<and> cancel_of (Some t') = Some c) \<and>
    (\<exists>t'. rs = addParent r c @ [Return t' (cancel_closure c r)] \<and>
        Deadline (Some t') = Deadline (Some t) \<and> cancel_of (Some t') = Some c)"
proof (intro conjI)
  show "\<exists>cl t' cl'. ds = addParent (cancel_of (Some t)) c @ [AfterFunc c (d - now) cl, Return t' cl'] \<and>
        Deadline (Some t') = Some d \<and> cancel_of (Some t') = Some c"
    using assms(1) by (auto simp: WithDeadline_def withDeadlineState_def and_then_Inr_iff Let_def Deadline_WithValue cancel_of_WithValue)
  show "\<exists>cl t' cl'. ts = addParent (cancel_of (Some t)) c @ [AfterFunc c timeout cl, Return t' cl'] \<and>
        Deadline (Some t') = Some (now + timeout) \<and> cancel_of (Some t') = Some c"
    using assms(2) by (auto simp: WithTimeout_def withDeadlineState_def and_then_Inr_iff Let_def Deadline_WithValue cancel_of_WithValue)
  show "\<exists>t'. cs = addParent (cancel_of (Some t)) c @ [Return t' (cancel_closure c (cancel_of (Some t)))] \<and>
        Deadline (Some t') = Deadline (Some t) \<and> cancel_of (Some t') = Some c"
    using assms(3) by (auto simp: WithCancel_def and_then_Inr_iff Let_def Deadline_WithValue cancel_of_WithValue)
  show "\<exists>t'. rs = addParent r c @ [Return t' (cancel_closure c r)] \<and>
        Deadline (Some t') = Deadline (Some t) \<and> cancel_of (Some t') = Some c"
    using assms(4,5) by (auto simp: WithRootCancel_def and_then_Inr_iff Let_def Deadline_WithValue cancel_of_WithValue)
qed

theorem Deadline_reports_the_last_witness:
  "\<exists>t' cl. WithRootCancel (T (Some (T (Some (T None () () (Some (rootKey :: unit ctx_key)) None)) () () (Some cancelKey) (Some (VCancel 0))))
       () () (Some deadlineKey) (Some (VDeadline 10 :: unit ctx_value))) 1 = Inr [AddChild 0 1, Return t' cl] \<and> Deadline (Some t') = Some 10"
proof -
  let ?t = "T (Some (T (Some (T None () () (Some (rootKey :: unit ctx_key)) None)) () () (Some cancelKey) (Some (VCancel 0))))
       () () (Some deadlineKey) (Some (VDeadline 10 :: unit ctx_value))"
  have "\<exists>ds ts cs rs. WithDeadline ?t 1 0 20 = Inr ds \<and> WithTimeout ?t 1 0 20 = Inr ts \<and> WithCancel ?t 1 = Inr cs \<and> WithRootCancel ?t 1 = Inr rs"
    by (simp add: WithDeadline_def WithTimeout_def withDeadlineState_def WithCancel_def WithRootCancel_def WithValue_def Initialized_def Let_def)
  then obtain ds ts cs rs where *: "WithDeadline ?t 1 0 20 = Inr ds" "WithTimeout ?t 1 0 20 = Inr ts" "WithCancel ?t 1 = Inr cs"
    "WithRootCancel ?t 1 = Inr rs" by blast
  have "root_loop None (Some ?t) = Some 0" "Deadline (Some ?t) = Some 10" by (simp_all add: Deadline_def)
  with Deadline_reports_the_last [OF * refl] *(4) show ?thesis by (auto simp: addParent_def)
qed

text \<open>A run for the witnesses: a root, a child of it, and the root's cancel function called while the child is live.\<close>

definition root_T :: "(unit, unit, unit) T" where
  "root_T = T (Some (T None () () (Some rootKey) None)) () () (Some cancelKey) (Some (VCancel 0))"

definition child_T :: "(unit, unit, unit) T" where
  "child_T = T (Some root_T) () () (Some cancelKey) (Some (VCancel 1))"

definition sample_trace :: "ctx_event list" where
  "sample_trace = [Exec 0, Exec 0, CallCancel 0 (cancel_closure 0 None), Exec 1, Exec 1, Call 1 1 (Some 0) None, Exec 0, Call 0 0 None None]"

definition sample_cells :: "cs_id \<Rightarrow> cancelState option" where
  "sample_cells = [0 \<mapsto> \<lparr>done_closed = True, cs_err = Some Canceled, children = []\<rparr>,
     1 \<mapsto> \<lparr>done_closed = True, cs_err = Some Canceled, children = []\<rparr>]"

lemma run_exec: "run time tr s \<Longrightarrow> exec g s s' \<Longrightarrow> run time (Exec g # tr) s'"
  by (rule run.more [OF _ step.exec])

text \<open>The states of the run, by their cells, stacks, contexts and functions.\<close>

definition sample_sys where
  "sample_sys m st ts fs = (\<lparr>cells = m, timers = Map.empty, clock = 0, stacks = st, contexts = ts, funcs = fs, panicked = False\<rparr>
     :: (unit, unit, unit) sys)"

lemma sample_sys_simps [simp]:
  "cells (sample_sys m st ts fs) = m" "stacks (sample_sys m st ts fs) = st" "contexts (sample_sys m st ts fs) = ts"
  "funcs (sample_sys m st ts fs) = fs" "panicked (sample_sys m st ts fs) = False"
  "sample_sys m st ts fs\<lparr>cells := m'\<rparr> = sample_sys m' st ts fs" "sample_sys m st ts fs\<lparr>stacks := st'\<rparr> = sample_sys m st' ts fs"
  "sample_sys m st ts fs\<lparr>contexts := ts'\<rparr> = sample_sys m st ts' fs" "sample_sys m st ts fs\<lparr>funcs := fs'\<rparr> = sample_sys m st ts fs'"
  "sample_sys m st ts fs\<lparr>panicked := False\<rparr> = sample_sys m st ts fs"
  "start 0 = sample_sys Map.empty (\<lambda>_. []) {} {}"
  by (simp_all add: sample_sys_def start_def)

lemma sample_run: "\<exists>s :: (unit, unit, unit) sys. run 0 sample_trace s \<and> cells s = sample_cells \<and> contexts s = {root_T, child_T}"
proof -
  let ?c0 = "cancel_closure 0 None" and ?c1 = "cancel_closure 1 (Some 0)"
  let ?E = "\<lambda>_ :: nat. [] :: (unit, unit, unit) instr list"
  let ?parent = "\<lparr>done_closed = False, cs_err = None, children = [1]\<rparr>"
  let ?dead = "\<lparr>done_closed = True, cs_err = Some Canceled, children = []\<rparr>"
  let ?s1 = "sample_sys [0 \<mapsto> new_cell] (?E(0 := [Return root_T ?c0])) {} {}"
  let ?s2 = "sample_sys [0 \<mapsto> new_cell] (?E(0 := [])) {root_T} {?c0}"
  let ?s3 = "sample_sys [0 \<mapsto> new_cell, 1 \<mapsto> new_cell] (?E(0 := [], 1 := [AddChild 0 1, Return child_T ?c1])) {root_T} {?c0}"
  let ?s4 = "sample_sys [0 \<mapsto> ?parent, 1 \<mapsto> new_cell] (?E(0 := [], 1 := [Return child_T ?c1])) {root_T} {?c0}"
  let ?s5 = "sample_sys [0 \<mapsto> ?parent, 1 \<mapsto> new_cell] (?E(0 := [], 1 := [])) {child_T, root_T} {?c1, ?c0}"
  let ?s6 = "sample_sys [0 \<mapsto> ?parent, 1 \<mapsto> new_cell] (?E(0 := [Cancel 0 Canceled], 1 := [])) {child_T, root_T} {?c1, ?c0}"
  let ?s7 = "sample_sys [0 \<mapsto> ?dead, 1 \<mapsto> new_cell] (?E(0 := [Cancel 1 Canceled], 1 := [])) {child_T, root_T} {?c1, ?c0}"
  let ?s8 = "sample_sys [0 \<mapsto> ?dead, 1 \<mapsto> ?dead] (?E(0 := [], 1 := [])) {child_T, root_T} {?c1, ?c0}"
  have "RootContext () () 0 = Inr [Return root_T ?c0]"
    by (simp add: RootContext_def WithCancel_def WithValue_def Initialized_def cancel_of_def addParent_def root_T_def)
  then have m: "makes_cell (sample_sys Map.empty ?E {} {}) 0 None None [Return root_T ?c0]" by (rule makes_cell.root)
  have "step (Call 0 0 None None) (start 0) ?s1" using step.call [of "start 0" 0 0, OF _ _ m [folded sample_sys_simps(11)]] by simp
  note r1 = run.more [OF run.empty this]
  have "exec 0 ?s1 ?s2" using exec.return [of ?s1 0 root_T ?c0 "[]"] by simp
  note r2 = run_exec [OF r1 this]
  have "WithCancel root_T 1 = Inr [AddChild 0 1, Return child_T ?c1]"
    by (simp add: WithCancel_def WithValue_def Initialized_def cancel_of_def addParent_def root_T_def child_T_def)
  then have "makes_cell ?s2 1 (cancel_of (Some root_T)) None [AddChild 0 1, Return child_T ?c1]"
    by (rule makes_cell.with_cancel [rotated]) simp
  then have m: "makes_cell ?s2 1 (Some 0) None [AddChild 0 1, Return child_T ?c1]" by (simp add: cancel_of_def root_T_def)
  have "step (Call 1 1 (Some 0) None) ?s2 ?s3" using step.call [OF _ _ m, of 1] by simp
  note r3 = run.more [OF r2 this]
  have "exec 1 ?s3 ?s4"
    using exec.addChild [of ?s3 1 0 1 "[Return child_T ?c1]" new_cell "[]" ?parent]
    by (simp add: addChild_section_def new_cell_def fun_upd_twist)
  note r4 = run_exec [OF r3 this]
  have "exec 1 ?s4 ?s5" using exec.return [of ?s4 1 child_T ?c1 "[]"] by simp
  note r5 = run_exec [OF r4 this]
  have "step (CallCancel 0 ?c0) ?s5 ?s6"
    using step.call_cancel [of ?s5 0 ?c0] by (simp add: makeCancelFunc_def cancel_closure_def fun_upd_twist)
  note r6 = run.more [OF r5 this]
  have "exec 0 ?s6 ?s7"
    using exec.cancel [of ?s6 0 0 Canceled "[]" ?parent "[1]" ?dead False "[1]"] by (simp add: cancel_section_def fun_upd_twist)
  note r7 = run_exec [OF r6 this]
  have "exec 0 ?s7 ?s8"
    using exec.cancel [of ?s7 0 1 Canceled "[]" new_cell "[]" ?dead False "[]"]
    by (simp add: cancel_section_def new_cell_def fun_upd_twist)
  note r8 = run_exec [OF r7 this]
  have "cells ?s8 = sample_cells" "contexts ?s8 = {root_T, child_T}" by (auto simp: sample_cells_def)
  then show ?thesis using r8 unfolding sample_trace_def by blast
qed

theorem cancellation_reaches_descendants_witness:
  "\<exists>s :: (unit, unit, unit) sys. run 0 (tl (tl sample_trace)) s \<and>
     settles (\<lambda>s'. closed_done s' 1 \<and> kids (cells s') 0 \<inter> {k. closed_done s' k} = {}) s"
proof -
  obtain s8 :: "(unit, unit, unit) sys" where "run 0 sample_trace s8" using sample_run by blast
  then obtain s7 :: "(unit, unit, unit) sys" where "run 0 (tl sample_trace) s7"
    unfolding sample_trace_def by (auto elim: run_Cons)
  then obtain s :: "(unit, unit, unit) sys" where s: "run 0 (tl (tl sample_trace)) s"
    unfolding sample_trace_def by (auto elim: run_Cons)
  moreover have "requested (tl (tl sample_trace)) 0 Canceled" "(0, 1) \<in> par (tl (tl sample_trace))"
    by (simp_all add: sample_trace_def cancel_closure_def)
  ultimately show ?thesis using cancellation_reaches_descendants [OF s _ r_into_rtrancl] by blast
qed

theorem cancelled_for_a_reason_witness:
  "\<exists>(s :: (unit, unit, unit) sys) a. run 0 sample_trace s \<and> err_of (cells s) 1 = Some Canceled \<and>
     (a, 1) \<in> (par sample_trace)\<^sup>* \<and> requested sample_trace a Canceled"
proof -
  obtain s :: "(unit, unit, unit) sys" where s: "run 0 sample_trace s" "cells s = sample_cells" using sample_run by blast
  then have "err_of (cells s) 1 = Some Canceled" by (simp add: sample_cells_def err_of_def)
  with cancelled_for_a_reason [OF s(1) this] s(1) show ?thesis by auto
qed

theorem context_invariant_witness:
  "\<exists>s :: (unit, unit, unit) sys. run 0 sample_trace s \<and> \<not> panicked s \<and> Done s (Some child_T) = Some True"
proof -
  obtain s :: "(unit, unit, unit) sys" where s: "run 0 sample_trace s" "cells s = sample_cells" "contexts s = {root_T, child_T}"
    using sample_run by blast
  have "Err s (Some child_T) = Some Canceled" by (simp add: Err_def s(2) cancel_of_def child_T_def sample_cells_def)
  with context_invariant [OF s(1), of _ _ _ _ _ child_T] s show ?thesis by auto
qed

end
