(* ===== verification/GoStrings.thy ===== *)
theory GoStrings
  imports GoPrelude
begin

text \<open>
  The functions of Go's \<open>strings\<close> package that the modelled code calls, and the laws their callers
  use. \<open>strings.HasPrefix s p\<close> is \<open>prefix p s\<close>, \<open>strings.HasSuffix s p\<close> is \<open>suffix p s\<close> and
  \<open>strings.Contains s p\<close> is \<open>sublist p s\<close> of HOL-Library.Sublist; comparison of strings is the
  lexicographic order on characters, as in Go.
\<close>

named_theorems split_join \<open>splitting a joined list and joining a split string\<close>

lemma prefix_char_iff: "prefix [c] s \<longleftrightarrow> (\<exists>t. s = c # t)"
  by (auto simp: prefix_def)

lemma prefix_two_iff: "prefix [c, d] s \<longleftrightarrow> (\<exists>t. s = c # d # t)"
  by (auto simp: prefix_def)

lemma suffix_char_iff: "suffix [c] s \<longleftrightarrow> s \<noteq> [] \<and> last s = c"
  by (cases s rule: rev_cases) (auto simp: suffix_def)

subsection \<open>Trimming\<close>

definition trim_suffix :: "string \<Rightarrow> string \<Rightarrow> string" where
  "trim_suffix s suf = (if suffix suf s then take (length s - length suf) s else s)"

definition trim_prefix :: "string \<Rightarrow> string \<Rightarrow> string" where
  "trim_prefix s pre = (if prefix pre s then drop (length pre) s else s)"

text \<open>\<open>strings.TrimLeft\<close> with a one-character cut set.\<close>

definition trim_left :: "string \<Rightarrow> char \<Rightarrow> string" where
  "trim_left s c = dropWhile (\<lambda>x. x = c) s"

lemma trim_suffix_append [simp]: "trim_suffix (s @ suf) suf = s"
  by (simp add: trim_suffix_def suffix_def)

lemma trim_prefix_append [simp]: "trim_prefix (pre @ s) pre = s"
  by (simp add: trim_prefix_def)

lemma trim_suffix_snoc: "trim_suffix (s @ [d]) [c] = (if d = c then s else s @ [d])"
  by (simp add: trim_suffix_def suffix_def)

lemma trim_suffix_char_Cons:
  "s \<noteq> [] \<Longrightarrow> trim_suffix (x # s) [c] = x # trim_suffix s [c]"
  using trim_suffix_snoc [of "x # butlast s" "last s" c] trim_suffix_snoc [of "butlast s" "last s" c]
  by simp

lemma trim_suffix_not: "\<not> suffix suf s \<Longrightarrow> trim_suffix s suf = s"
  by (simp add: trim_suffix_def)

subsection \<open>Splitting at one character\<close>

text \<open>\<open>strings.Split\<close> and \<open>strings.Join\<close> with a one-character separator.\<close>

fun split_on :: "char \<Rightarrow> string \<Rightarrow> string list" where
  "split_on c [] = [[]]"
| "split_on c (x # xs) =
     (if x = c then [] # split_on c xs
      else (x # hd (split_on c xs)) # tl (split_on c xs))"

fun join :: "string \<Rightarrow> string list \<Rightarrow> string" where
  "join sep [] = []"
| "join sep (x # xs) = (if xs = [] then x else x @ sep @ join sep xs)"

lemma split_on_neq_Nil [simp]: "split_on c s \<noteq> []"
  by (cases s) auto

lemma length_split_on [simp]: "length (split_on c s) = Suc (count_list s c)"
  by (induction s) (auto simp: length_tl)

lemma join_single [simp]: "join sep [x] = x"
  by simp

lemma join_Cons: "xs \<noteq> [] \<Longrightarrow> join sep (x # xs) = x @ sep @ join sep xs"
  by simp

lemma join_append:
  "xs \<noteq> [] \<Longrightarrow> ys \<noteq> [] \<Longrightarrow> join sep (xs @ ys) = join sep xs @ sep @ join sep ys"
  by (induction xs) auto

lemma join_Cons_hd: "xs \<noteq> [] \<Longrightarrow> join sep ((x # hd xs) # tl xs) = x # join sep xs"
  by (cases xs) auto

lemma join_split_on [split_join]: "join [c] (split_on c s) = s"
  by (induction s) (simp_all add: join_Cons join_Cons_hd del: join.simps(2))

lemma split_on_no_sep: "c \<notin> set s \<Longrightarrow> split_on c s = [s]"
  by (induction s) auto

lemma split_on_append: "c \<notin> set a \<Longrightarrow> split_on c (a @ c # s) = a # split_on c s"
  by (induction a) auto

lemma split_on_join [split_join]:
  "xs \<noteq> [] \<Longrightarrow> list_all (\<lambda>x. c \<notin> set x) xs \<Longrightarrow> split_on c (join [c] xs) = xs"
  by (induction xs) (auto simp: split_on_no_sep split_on_append)

lemma split_on_parts: "x \<in> set (split_on c s) \<Longrightarrow> c \<notin> set x"
proof (induction s arbitrary: x)
  case (Cons a s)
  then show ?case by (cases "split_on c s") (auto split: if_splits)
qed simp

lemma list_all_split_on: "list_all (\<lambda>x. c \<notin> set x) (split_on c s)"
  by (auto simp: list_all_iff dest: split_on_parts)

lemma split_on_append_sep: "split_on c (s @ c # t) = split_on c s @ split_on c t"
  by (induction s) (auto simp: hd_append)

lemma split_on_inject: "split_on c s = split_on c t \<Longrightarrow> s = t"
  by (metis join_split_on)

lemma join_eq_Nil: "join [c] xs = [] \<longleftrightarrow> xs = [] \<or> xs = [[]]"
  by (cases xs) auto

lemma set_join: "x \<in> set (join sep xs) \<Longrightarrow> x \<in> set sep \<or> (\<exists>y \<in> set xs. x \<in> set y)"
  by (induction xs) (auto split: if_splits)

subsection \<open>Splitting at the first occurrence of a separator\<close>

text \<open>\<open>strings.SplitN(s, sep, 2)\<close>: \<open>None\<close> when the separator does not occur.\<close>

fun split_once :: "string \<Rightarrow> string \<Rightarrow> (string \<times> string) option" where
  "split_once sep [] = (if sep = [] then Some ([], []) else None)"
| "split_once sep (c # s) =
     (if prefix sep (c # s) then Some ([], drop (length sep) (c # s))
      else map_option (\<lambda>(a, b). (c # a, b)) (split_once sep s))"

text \<open>\<open>strings.SplitN(s, sep, n)\<close> for \<open>n > 0\<close>: at most \<open>n\<close> parts, the last one unsplit.\<close>

fun split_n :: "nat \<Rightarrow> char \<Rightarrow> string \<Rightarrow> string list" where
  "split_n 0 c s = []"
| "split_n (Suc 0) c s = [s]"
| "split_n (Suc (Suc n)) c s =
     (case split_once [c] s of
        None \<Rightarrow> [s]
      | Some (a, b) \<Rightarrow> a # split_n (Suc n) c b)"

lemma split_once_SomeD: "split_once sep s = Some (a, b) \<Longrightarrow> s = a @ sep @ b"
  by (induction s arbitrary: a) (auto split: if_splits simp: prefix_def)

lemma split_once_None: "split_once sep s = None \<longleftrightarrow> \<not> sublist sep s"
  by (induction s) (auto simp: sublist_Cons_right)

lemma split_once_None_char: "split_once [c] s = None \<longleftrightarrow> c \<notin> set s"
proof -
  have "sublist [c] s \<longleftrightarrow> c \<in> set s" by (induction s) (auto simp: sublist_Cons_right)
  then show ?thesis by (simp only: split_once_None)
qed

lemma split_once_char: "c \<notin> set a \<Longrightarrow> split_once [c] (a @ c # b) = Some (a, b)"
  by (induction a) auto

lemma split_once_char_notin: "split_once [c] s = Some (a, b) \<Longrightarrow> c \<notin> set a"
  by (induction s arbitrary: a) (auto split: if_splits)

lemma split_n_2:
  "split_n 2 c s = (case split_once [c] s of None \<Rightarrow> [s] | Some (a, b) \<Rightarrow> [a, b])"
  by (cases "split_once [c] s") (auto simp: numeral_2_eq_2)

lemma split_once_sep:
  "sep \<noteq> [] \<Longrightarrow> \<not> sublist sep (a @ butlast sep) \<Longrightarrow> split_once sep (a @ sep @ b) = Some (a, b)"
proof (induction a)
  case Nil
  then show ?case by (cases sep) auto
next
  case (Cons x a)
  have "\<not> prefix sep (x # a @ sep @ b)"
  proof
    assume "prefix sep (x # a @ sep @ b)"
    then have "sep = take (length sep) (x # a @ sep @ b)"
      by (metis append_eq_conv_conj prefix_def)
    also have "\<dots> = take (length sep) (x # a @ butlast sep)"
      using Cons.prems(1) by (cases sep rule: rev_cases) (auto simp: take_append)
    finally have "sublist sep (x # a @ butlast sep)"
      by (metis sublist_take)
    then show False using Cons.prems(2) by simp
  qed
  moreover have "split_once sep (a @ sep @ b) = Some (a, b)"
    using Cons.prems by (intro Cons.IH) (auto simp: sublist_Cons_right)
  ultimately show ?case by simp
qed

lemma split_once_append:
  assumes "split_once sep a = Some (x, y)"
  shows "split_once sep (a @ b) = Some (x, y @ b)"
  using assms
proof (induction a arbitrary: x)
  case Nil
  then show ?case by (cases b) (auto split: if_splits)
next
  case (Cons c a)
  show ?case
  proof (cases "prefix sep (c # a)")
    case True
    then have "length sep \<le> length (c # a)" by (rule prefix_length_le)
    moreover have "prefix sep (c # a @ b)"
      using True by (metis append_Cons prefix_prefix)
    moreover from calculation have "drop (length sep) (c # a @ b) = drop (length sep) (c # a) @ b"
      by (simp flip: append_Cons)
    ultimately show ?thesis using True Cons.prems by auto
  next
    case False
    with Cons.prems obtain x' where x': "split_once sep a = Some (x', y)" "x = c # x'"
      by (auto split: if_splits)
    from split_once_SomeD [OF x'(1)] have "length sep \<le> length (c # a)" by simp
    with False have "\<not> prefix sep (c # a @ b)"
      using prefix_length_prefix [of sep "c # a @ b" "c # a"] by auto
    with Cons.IH [OF x'(1)] x'(2) show ?thesis by simp
  qed
qed

subsection \<open>Replacing all occurrences\<close>

text \<open>\<open>strings.Replace(s, old, new, -1)\<close> for a non-empty \<open>old\<close>: left to right, without overlap.\<close>

fun replace_all :: "string \<Rightarrow> string \<Rightarrow> string \<Rightarrow> string" where
  "replace_all old new [] = []"
| "replace_all old new (c # s) =
     (if prefix old (c # s) then new @ replace_all old new (drop (length old - 1) s)
      else c # replace_all old new s)"

end
