(* ===== verification/NamingParse.thy ===== *)
theory NamingParse
  imports GoStrings
begin

text \<open>
  Object names: naming/parse.go. \<open>Clean\<close>, the joining and splitting of addresses and names, the
  removal of suffixes, and the percent escaping of name elements.

  The specification of \<open>Clean\<close> is \<open>canonical\<close>: the non-empty components of the name joined by
  single slashes, behind one leading slash when the name is rooted. Escaping and unescaping are
  inverse for every set of special characters.
\<close>

subsection \<open>Clean\<close>

text \<open>
  The loop \<open>for strings.Contains(name, "//")\<close>, whose body shortens the name.
\<close>

abbreviation halve_slashes :: "string \<Rightarrow> string" where
  "halve_slashes s \<equiv> replace_all ''//'' ''/'' s"

lemma length_halve_slashes: "length (halve_slashes s) \<le> length s"
  by (induction "''//''" "''/''" s rule: replace_all.induct) (auto simp: prefix_Cons)

lemma halve_slashes_shrinks: "sublist ''//'' s \<Longrightarrow> length (halve_slashes s) < length s"
proof (induction "''//''" "''/''" s rule: replace_all.induct)
  case (2 c s)
  then show ?case
    using length_halve_slashes [of "drop 1 s"]
    by (auto simp: prefix_Cons prefix_char_iff sublist_Cons_right)
qed simp

function collapse_slashes :: "string \<Rightarrow> string" where
  "collapse_slashes name =
     (if sublist ''//'' name then collapse_slashes (halve_slashes name) else name)"
  by pat_completeness auto
termination
  by (relation "measure length") (simp_all add: halve_slashes_shrinks)

declare collapse_slashes.simps [simp del]

definition Clean :: "string \<Rightarrow> string" where
  "Clean name =
     (let name' = collapse_slashes name
      in if name' = ''/'' then name' else trim_suffix name' ''/'')"

definition Rooted :: "string \<Rightarrow> bool" where
  "Rooted name = prefix ''/'' name"

subsection \<open>The canonical form of a name\<close>

definition components :: "string \<Rightarrow> string list" where
  "components s = filter (\<lambda>x. x \<noteq> []) (split_on (CHR ''/'') s)"

definition canonical :: "string \<Rightarrow> string" where
  "canonical s = (if Rooted s then ''/'' else []) @ join ''/'' (components s)"

lemma Rooted_simps [simp]:
  "\<not> Rooted []"
  "Rooted (c # s) \<longleftrightarrow> c = CHR ''/''"
  by (auto simp: Rooted_def)

lemma components_Nil [simp]: "components [] = []"
  by (simp add: components_def)

lemma components_slash [simp]: "components (CHR ''/'' # s) = components s"
  by (simp add: components_def)

lemma components_cong:
  assumes "hd (split_on (CHR ''/'') s) = hd (split_on (CHR ''/'') t)"
    and "filter (\<lambda>x. x \<noteq> []) (tl (split_on (CHR ''/'') s))
       = filter (\<lambda>x. x \<noteq> []) (tl (split_on (CHR ''/'') t))"
  shows "components s = components t"
  using assms by (cases "split_on (CHR ''/'') s"; cases "split_on (CHR ''/'') t")
    (auto simp: components_def)

lemma halve_slashes_parts:
  "hd (split_on (CHR ''/'') (halve_slashes s)) = hd (split_on (CHR ''/'') s) \<and>
   filter (\<lambda>x. x \<noteq> []) (tl (split_on (CHR ''/'') (halve_slashes s)))
   = filter (\<lambda>x. x \<noteq> []) (tl (split_on (CHR ''/'') s))"
proof (induction "''//''" "''/''" s rule: replace_all.induct)
  case (2 c s)
  show ?case
  proof (cases "prefix ''//'' (c # s)")
    case True
    then obtain s' where s: "c = CHR ''/''" "s = CHR ''/'' # s'"
      by (auto simp: prefix_char_iff)
    with 2(1) True have "components (halve_slashes s') = components s'"
      by (intro components_cong) auto
    with s show ?thesis by (simp add: components_def)
  next
    case False
    show ?thesis
    proof (cases "c = CHR ''/''")
      case True
      from False 2(2) have "components (halve_slashes s) = components s"
        by (intro components_cong) auto
      with True False show ?thesis by (simp add: components_def)
    qed (use False 2(2) in auto)
  qed
qed simp

lemma components_halve_slashes: "components (halve_slashes s) = components s"
  using halve_slashes_parts [of s] by (intro components_cong) auto

lemma Rooted_halve_slashes: "Rooted (halve_slashes s) = Rooted s"
  by (cases s) (auto simp: prefix_Cons)

lemma collapse_slashes_facts:
  "components (collapse_slashes s) = components s \<and> (Rooted (collapse_slashes s) = Rooted s)
   \<and> \<not> sublist ''//'' (collapse_slashes s)"
proof (induction s rule: collapse_slashes.induct)
  case (1 name)
  then show ?case
    by (cases "sublist ''//'' name")
      (simp_all add: collapse_slashes.simps [of name] components_halve_slashes Rooted_halve_slashes)
qed

lemma trim_collapsed:
  "\<not> sublist ''//'' s \<Longrightarrow> (if s = ''/'' then s else trim_suffix s ''/'') = canonical s"
proof (induction s)
  case Nil
  then show ?case by (simp add: canonical_def trim_suffix_def)
next
  case (Cons c s)
  then have ns: "\<not> sublist ''//'' s" and ih: "(if s = ''/'' then s else trim_suffix s ''/'') = canonical s"
    by (auto simp: sublist_Cons_right)
  show ?case
  proof (cases s)
    case Nil
    then show ?thesis by (simp add: canonical_def components_def trim_suffix_def suffix_char_iff)
  next
    case s: (Cons d t)
    show ?thesis
    proof (cases "c = CHR ''/''")
      case True
      with Cons.prems s have "d \<noteq> CHR ''/''" by (auto simp: sublist_Cons_right)
      with True ih s show ?thesis
        by (auto simp: canonical_def trim_suffix_char_Cons)
    next
      case c: False
      show ?thesis
      proof (cases "d = CHR ''/''")
        case True
        have "components t \<noteq> []" if "t \<noteq> []"
          using that ns s True
          by (cases t) (auto simp: sublist_Cons_right components_def)
        with c True ih s show ?thesis
          using trim_suffix_append [of "[c]" "''/''"]
          by (cases "t = []") (simp_all add: canonical_def trim_suffix_char_Cons components_def)
      next
        case False
        with c ih s show ?thesis
          by (auto simp: canonical_def trim_suffix_char_Cons components_def)
      qed
    qed
  qed
qed

lemma Clean_canonical: "Clean s = canonical s"
  using trim_collapsed [of "collapse_slashes s"] collapse_slashes_facts [of s]
  by (simp add: Clean_def Let_def canonical_def)

text \<open>Lists of name elements, and the canonical names they stand for.\<close>

definition elements :: "string list \<Rightarrow> bool" where
  "elements xs = list_all (\<lambda>x. x \<noteq> [] \<and> CHR ''/'' \<notin> set x) xs"

lemma elements_components [simp]: "elements (components s)"
  by (auto simp: elements_def components_def list_all_iff dest: split_on_parts)

lemma elements_append [simp]: "elements (xs @ ys) \<longleftrightarrow> elements xs \<and> elements ys"
  by (simp add: elements_def)

lemma components_join: "elements xs \<Longrightarrow> components (join ''/'' xs) = xs"
proof (cases "xs = []")
  case False
  assume *: "elements xs"
  then have "split_on (CHR ''/'') (join ''/'' xs) = xs"
    using False by (intro split_on_join) (auto simp: elements_def list_all_iff)
  moreover have "filter (\<lambda>x. x \<noteq> []) xs = xs"
    using * by (simp add: elements_def list_all_iff)
  ultimately show ?thesis by (simp add: components_def)
qed simp

lemma not_Rooted_join: "elements xs \<Longrightarrow> \<not> Rooted (join ''/'' xs)"
  by (cases xs) (auto simp: elements_def neq_Nil_conv)

lemma components_append_slash: "components (s @ CHR ''/'' # t) = components s @ components t"
  by (simp add: components_def split_on_append_sep)

lemma Rooted_append [simp]: "Rooted (s @ t) \<longleftrightarrow> (if s = [] then Rooted t else Rooted s)"
  by (cases s) auto

lemma canonical_canonical [simp]: "canonical (canonical s) = canonical s"
  using components_join [OF elements_components, of s] not_Rooted_join [OF elements_components, of s]
  by (simp add: canonical_def)

lemma Clean_idem [simp]: "Clean (Clean s) = Clean s"
  by (simp add: Clean_canonical)

lemma components_Clean [simp]: "components (Clean s) = components s"
  by (simp add: Clean_canonical canonical_def components_join)

lemma Rooted_Clean [simp]: "Rooted (Clean s) = Rooted s"
  using not_Rooted_join [OF elements_components, of s]
  by (simp add: Clean_canonical canonical_def)

lemma Clean_eqI: "components s = components t \<Longrightarrow> Rooted s = Rooted t \<Longrightarrow> Clean s = Clean t"
  by (simp add: Clean_canonical canonical_def)

text \<open>Clean relative names are the joined lists of elements.\<close>

lemma clean_relative_iff:
  "Clean s = s \<and> \<not> Rooted s \<longleftrightarrow> s = join ''/'' (components s)"
  by (metis Clean_canonical append_Nil canonical_def elements_components not_Rooted_join)

lemma length_Clean: "length (Clean n) \<le> length n"
proof (induction n rule: collapse_slashes.induct)
  case (1 n)
  then show ?case
    using length_halve_slashes [of n]
    by (cases "sublist ''//'' n")
      (fastforce simp: Clean_def Let_def collapse_slashes.simps [of n] trim_suffix_def)+
qed

lemma clean_no_double_slash: "Clean s = s \<Longrightarrow> \<not> sublist ''//'' s"
proof
  assume s: "Clean s = s" and "sublist ''//'' s"
  then obtain a b where ab: "s = a @ CHR ''/'' # CHR ''/'' # b" by (auto simp: sublist_def)
  have "components s = components (a @ CHR ''/'' # b)"
    by (simp add: ab components_append_slash)
  moreover have "Rooted s = Rooted (a @ CHR ''/'' # b)"
    by (simp add: ab)
  ultimately have "Clean s = Clean (a @ CHR ''/'' # b)" by (rule Clean_eqI)
  moreover note length_Clean
  ultimately have "length s \<le> length (a @ CHR ''/'' # b)" using s by metis
  with ab show False by simp
qed

lemma clean_no_trailing_slash: "Clean (a @ ''/'') = a @ ''/'' \<Longrightarrow> a = []"
proof (rule ccontr)
  assume c: "Clean (a @ ''/'') = a @ ''/''" and "a \<noteq> []"
  then have "Clean (a @ ''/'') = Clean a"
    using components_append_slash [of a "[]"] by (intro Clean_eqI) simp_all
  with c length_Clean [of a] show False by simp
qed

subsection \<open>Addresses and names\<close>

definition splitIntoTwo :: "string \<Rightarrow> string \<Rightarrow> string \<times> string" where
  "splitIntoTwo str separator =
     (case split_once separator str of None \<Rightarrow> (str, []) | Some (a, b) \<Rightarrow> (a, b))"

definition SplitAddressName :: "string \<Rightarrow> string \<times> string" where
  "SplitAddressName name0 =
     (let name = Clean name0 in
      if \<not> Rooted name then ([], name)
      else let name = tl name in
      if name = [] then ([], [])
      else if prefix ''@'' name then
        (let (addr, suf) = splitIntoTwo name ''@@/''
         in (if suf \<noteq> [] then addr @ ''@@'' else addr, suf))
      else if prefix ''('' name then
        (let (_, tmp) = splitIntoTwo name '')@'';
             (_, suf) = splitIntoTwo tmp ''/''
         in (trim_suffix name (''/'' @ suf), suf))
      else splitIntoTwo name ''/'')"

definition JoinAddressName :: "string \<Rightarrow> string \<Rightarrow> string" where
  "JoinAddressName address0 name =
     (let address = trim_left address0 (CHR ''/'') in
      if address = [] then Clean name
      else if name = [] then Clean (''/'' @ address)
      else Clean (''/'' @ address @ ''/'' @ name))"

definition Join :: "string list \<Rightarrow> string" where
  "Join elems = Clean (join ''/'' (dropWhile (\<lambda>e. e = []) elems))"

definition NameTrimSuffix :: "string \<Rightarrow> string \<Rightarrow> string" where
  "NameTrimSuffix name0 suffix0 =
     (let name = Clean name0; suf = Clean suffix0 in
      if name = suf then []
      else if length name \<le> length suf then name
      else if prefix ''/'' suf then name
      else if suffix suf name then
        (let pre = trim_suffix name suf in
         if suffix ''/'' pre then
           (if length pre = 1 then name else trim_suffix pre ''/'')
         else name)
      else name)"

definition ReservedNamePrefix :: string where
  "ReservedNamePrefix = ''__''"

definition IsReserved :: "string \<Rightarrow> bool" where
  "IsReserved name = prefix ReservedNamePrefix name"

definition StripReserved :: "string \<Rightarrow> string" where
  "StripReserved name = (if IsReserved name then drop (length ReservedNamePrefix) name else name)"

text \<open>
  The addresses that \<open>SplitAddressName\<close> gives back: an endpoint \<open>@...@@\<close>, a host and port behind a
  parenthesised blessing, or a plain host and port.
\<close>

definition address_ok :: "string \<Rightarrow> bool" where
  "address_ok a \<longleftrightarrow>
     a \<noteq> [] \<and> Clean a = a \<and> \<not> Rooted a \<and>
     (if prefix ''@'' a then suffix ''@@'' a \<and> \<not> sublist ''@@/'' a
      else if prefix ''('' a then
        (case split_once '')@'' a of None \<Rightarrow> False | Some (_, host) \<Rightarrow> CHR ''/'' \<notin> set host)
      else CHR ''/'' \<notin> set a)"

definition relative_name :: "string \<Rightarrow> bool" where
  "relative_name n \<longleftrightarrow> Clean n = n \<and> \<not> Rooted n"

lemma trim_left_relative: "\<not> Rooted a \<Longrightarrow> trim_left a (CHR ''/'') = a"
  by (cases a) (auto simp: trim_left_def)

lemma relative_name_join: "relative_name n \<longleftrightarrow> n = join ''/'' (components n)"
  by (simp add: relative_name_def clean_relative_iff)

lemma JoinAddressName_rooted:
  assumes "relative_name a" "a \<noteq> []" "relative_name n"
  shows "JoinAddressName a n = ''/'' @ a @ (if n = [] then [] else ''/'' @ n)"
proof -
  have a: "a = join ''/'' (components a)" and n: "n = join ''/'' (components n)"
    using assms(1,3) by (simp_all only: relative_name_join [symmetric])
  have ca: "components a \<noteq> []" using a assms(2) by auto
  have cn: "components n \<noteq> []" if "n \<noteq> []" using n that by auto
  have "join ''/'' (components a @ components n) = a @ ''/'' @ n" if "n \<noteq> []"
    using a n ca cn [OF that] by (simp add: join_append)
  then show ?thesis
    using a assms trim_left_relative [of a]
    by (simp add: JoinAddressName_def Let_def Clean_canonical canonical_def
        components_append_slash [of a n, simplified] relative_name_def)
qed

lemma Clean_JoinAddressName [simp]: "Clean (JoinAddressName a n) = JoinAddressName a n"
  by (simp add: JoinAddressName_def Let_def)

lemma splitIntoTwo_slash:
  "CHR ''/'' \<notin> set a \<Longrightarrow> splitIntoTwo (a @ (if n = [] then [] else ''/'' @ n)) ''/'' = (a, n)"
  using split_once_char [of "CHR ''/''" a n] split_once_None_char [of "CHR ''/''" a]
  by (auto simp: splitIntoTwo_def split: option.split)

lemma splitIntoTwo_endpoint:
  assumes "suffix ''@@'' a" "\<not> sublist ''@@/'' a"
  shows "(let (addr, suf) = splitIntoTwo (a @ (if n = [] then [] else ''/'' @ n)) ''@@/''
          in (if suf \<noteq> [] then addr @ ''@@'' else addr, suf)) = (a, n)"
proof (cases "n = []")
  case True
  then show ?thesis
    using assms split_once_None [of "''@@/''" a] by (simp add: splitIntoTwo_def)
next
  case False
  from assms(1) obtain b where b: "a = b @ ''@@''" by (auto simp: suffix_def)
  then have "split_once ''@@/'' (b @ ''@@/'' @ n) = Some (b, n)"
    using assms(2) by (intro split_once_sep) auto
  with False b show ?thesis by (simp add: splitIntoTwo_def)
qed

lemma split_blessing_address:
  assumes "split_once '')@'' a = Some (x, host)" "CHR ''/'' \<notin> set host" "relative_name a"
  shows "(let (_, tmp) = splitIntoTwo (a @ (if n = [] then [] else ''/'' @ n)) '')@'';
              (_, suf) = splitIntoTwo tmp ''/''
          in (trim_suffix (a @ (if n = [] then [] else ''/'' @ n)) (''/'' @ suf), suf)) = (a, n)"
proof -
  let ?n = "if n = [] then [] else ''/'' @ n"
  have "splitIntoTwo (a @ ?n) '')@'' = (x, host @ ?n)"
    using split_once_append [OF assms(1), of ?n] by (simp only: splitIntoTwo_def) simp
  moreover have "splitIntoTwo (host @ ?n) ''/'' = (host, n)"
    using assms(2) by (rule splitIntoTwo_slash)
  moreover have "trim_suffix a ''/'' = a"
  proof (rule trim_suffix_not)
    show "\<not> suffix ''/'' a"
      using split_once_SomeD [OF assms(1)] assms(2)
      by (auto simp: suffix_char_iff last_append dest: last_in_set)
  qed
  ultimately show ?thesis
    using trim_suffix_append [of a "''/'' @ n"] by (cases "n = []") simp_all
qed

lemma SplitAddressName_join:
  assumes "address_ok a" "relative_name n"
  shows "SplitAddressName (JoinAddressName a n) = (a, n)"
proof -
  have a: "relative_name a" "a \<noteq> []" using assms(1) by (simp_all add: address_ok_def relative_name_def)
  let ?m = "a @ (if n = [] then [] else ''/'' @ n)"
  have j: "JoinAddressName a n = ''/'' @ ?m"
    using a assms(2) by (simp add: JoinAddressName_rooted)
  have "Clean (''/'' @ ?m) = ''/'' @ ?m"
    using Clean_JoinAddressName [of a n] by (simp only: j)
  then have s: "SplitAddressName (JoinAddressName a n) =
      (if prefix ''@'' a then
        (let (addr, suf) = splitIntoTwo ?m ''@@/''
         in (if suf \<noteq> [] then addr @ ''@@'' else addr, suf))
      else if prefix ''('' a then
        (let (_, tmp) = splitIntoTwo ?m '')@'';
             (_, suf) = splitIntoTwo tmp ''/''
         in (trim_suffix ?m (''/'' @ suf), suf))
      else splitIntoTwo ?m ''/'')"
    using a(2) by (auto simp: j SplitAddressName_def Let_def neq_Nil_conv)
  show ?thesis
    unfolding s using assms(1) a(1) splitIntoTwo_endpoint [of a n] splitIntoTwo_slash [of a n]
      split_blessing_address [of a _ _ n]
    by (auto simp: address_ok_def split: if_splits option.splits)
qed

lemma splitIntoTwo_parts:
  "splitIntoTwo s sep = (a, b) \<Longrightarrow> s = a \<and> b = [] \<or> s = a @ sep @ b"
  by (auto simp: splitIntoTwo_def split: option.splits dest: split_once_SomeD)

text \<open>What \<open>SplitAddressName\<close> makes of a rooted name: a non-empty address, and what follows it.\<close>

lemma SplitAddressName_parts:
  assumes "Clean name = CHR ''/'' # m" "m \<noteq> []" "SplitAddressName name = (a, n)"
  shows "a \<noteq> [] \<and> (n = [] \<and> m = a \<or> n \<noteq> [] \<and> m = a @ ''/'' @ n)"
proof -
  have clean: "Clean (CHR ''/'' # m) = CHR ''/'' # m" using assms(1) Clean_idem [of name] by simp
  have ends: "m \<noteq> x @ ''/''" for x
    using clean_no_trailing_slash [of "CHR ''/'' # x"] clean by auto
  have starts: "\<not> Rooted m"
    using clean_no_double_slash [OF clean] by (cases m) (auto simp: sublist_Cons_right)
  have split: "SplitAddressName name =
      (if prefix ''@'' m then
        (let (addr, suf) = splitIntoTwo m ''@@/'' in (if suf \<noteq> [] then addr @ ''@@'' else addr, suf))
      else if prefix ''('' m then
        (let (_, tmp) = splitIntoTwo m '')@''; (_, suf) = splitIntoTwo tmp ''/''
         in (trim_suffix m (''/'' @ suf), suf))
      else splitIntoTwo m ''/'')"
    using assms(1,2) by (simp add: SplitAddressName_def Let_def)
  consider (ep) "prefix ''@'' m" | (bl) "\<not> prefix ''@'' m" "prefix ''('' m"
    | (host) "\<not> prefix ''@'' m" "\<not> prefix ''('' m" by blast
  then show ?thesis
  proof cases
    case ep
    obtain x y where xy: "splitIntoTwo m ''@@/'' = (x, y)" by (cases "splitIntoTwo m ''@@/''")
    with splitIntoTwo_parts [OF xy] ends [of "x @ ''@@''"] assms(2,3) ep show ?thesis
      by (auto simp: split split: if_splits)
  next
    case bl
    obtain x tmp where xt: "splitIntoTwo m '')@'' = (x, tmp)" by (cases "splitIntoTwo m '')@''")
    obtain host y where hy: "splitIntoTwo tmp ''/'' = (host, y)" by (cases "splitIntoTwo tmp ''/''")
    have a: "a = trim_suffix m (''/'' @ y)" and n: "n = y"
      using assms(3) bl xt hy by (auto simp: split)
    show ?thesis
    proof (cases "y = []")
      case True
      have "\<not> suffix ''/'' m" using ends by (auto simp: suffix_def)
      with True a n assms(2) show ?thesis by (simp add: trim_suffix_not)
    next
      case False
      then have tmp: "tmp = host @ ''/'' @ y" using splitIntoTwo_parts [OF hy] by auto
      then have "m = x @ '')@'' @ tmp" using splitIntoTwo_parts [OF xt] by auto
      then have m: "m = (x @ '')@'' @ host) @ ''/'' @ y" using tmp by simp
      then have "a = x @ '')@'' @ host" unfolding a by (simp only: trim_suffix_append)
      with m n False show ?thesis by simp
    qed
  next
    case host
    then have "splitIntoTwo m ''/'' = (a, n)" using assms(3) by (simp add: split)
    from splitIntoTwo_parts [OF this] starts ends [of a] assms(2) show ?thesis by (auto split: if_splits)
  qed
qed

lemma JoinAddressName_SplitAddressName:
  assumes "Clean name \<noteq> ''/''"
  shows "(case SplitAddressName name of (a, n) \<Rightarrow> JoinAddressName a n) = Clean name"
proof (cases "Rooted (Clean name)")
  case False
  then have "SplitAddressName name = ([], Clean name)" by (simp add: SplitAddressName_def Let_def)
  then show ?thesis by (simp add: JoinAddressName_def trim_left_def)
next
  case True
  with assms obtain m where m: "Clean name = CHR ''/'' # m" "m \<noteq> []" by (cases "Clean name") auto
  obtain a n where an: "SplitAddressName name = (a, n)" by (cases "SplitAddressName name")
  note parts = SplitAddressName_parts [OF m an]
  have clean: "Clean (CHR ''/'' # m) = CHR ''/'' # m" using m(1) Clean_idem [of name] by simp
  have "\<not> Rooted m"
    using clean_no_double_slash [OF clean] by (cases m) (auto simp: sublist_Cons_right)
  with parts have "trim_left a (CHR ''/'') = a" by (intro trim_left_relative) auto
  with parts m an clean show ?thesis by (auto simp: JoinAddressName_def)
qed

lemma components_Join: "components (Join elems) = concat (map components elems)"
proof -
  have "components (join ''/'' xs) = concat (map components xs)" for xs
    by (induction xs) (simp_all add: components_append_slash)
  moreover have "concat (map components (dropWhile (\<lambda>e. e = []) elems)) = concat (map components elems)"
    by (induction elems) simp_all
  ultimately show ?thesis by (simp add: Join_def)
qed

lemma NameTrimSuffix_suffix:
  assumes "Clean name = a @ ''/'' @ Clean suf" "a \<noteq> []" "\<not> Rooted suf"
  shows "NameTrimSuffix name suf = a"
proof -
  have "trim_suffix (Clean name) (Clean suf) = a @ ''/''"
    using trim_suffix_append [of "a @ ''/''" "Clean suf"] assms(1) by simp
  moreover have "suffix (Clean suf) (Clean name)" "\<not> prefix ''/'' (Clean suf)"
    using assms Rooted_Clean [of suf] by (auto simp: suffix_def Rooted_def simp del: Rooted_Clean)
  ultimately show ?thesis
    using assms(1,2) trim_suffix_append [of a "''/''"]
    by (simp add: NameTrimSuffix_def suffix_char_iff)
qed

lemma NameTrimSuffix_other:
  assumes "Clean name \<noteq> Clean suf" "\<And>a. a \<noteq> [] \<Longrightarrow> Clean name \<noteq> a @ ''/'' @ Clean suf"
  shows "NameTrimSuffix name suf = Clean name"
proof -
  have "length pre = 1" if "suffix (Clean suf) (Clean name)" "pre = trim_suffix (Clean name) (Clean suf)"
    "suffix ''/'' pre" for pre
  proof -
    from that obtain b where "Clean name = b @ ''/'' @ Clean suf" "pre = b @ ''/''"
      using trim_suffix_append [of pre "Clean suf"]
      by (auto simp: suffix_def trim_suffix_def)
    with assms(2) show ?thesis by (cases "b = []") auto
  qed
  with assms(1) show ?thesis
    by (auto simp: NameTrimSuffix_def Let_def)
qed

subsection \<open>Escaping\<close>

definition hex_digits :: string where
  "hex_digits = ''0123456789ABCDEF''"

definition escape_char :: "char \<Rightarrow> string" where
  "escape_char c =
     (let b = byte_of_char c
      in [CHR ''%'', hex_digits ! unat (drop_bit 4 b), hex_digits ! unat (b AND 15)])"

definition Escape :: "string \<Rightarrow> string \<Rightarrow> string" where
  "Escape s special0 =
     (let special = special0 @ ''%'' in
      if \<not> list_ex (\<lambda>c. c \<in> set special) s then s
      else concat (map (\<lambda>c. if c \<in> set special then escape_char c else [c]) s))"

definition EncodeAsNameElement :: "string \<Rightarrow> string" where
  "EncodeAsNameElement s = Escape s ''/''"

definition isHex :: "char \<Rightarrow> bool" where
  "isHex c \<longleftrightarrow> (CHR ''0'' \<le> c \<and> c \<le> CHR ''9'') \<or> (CHR ''a'' \<le> c \<and> c \<le> CHR ''f'')
     \<or> (CHR ''A'' \<le> c \<and> c \<le> CHR ''F'')"

definition unHex :: "char \<Rightarrow> byte" where
  "unHex c =
     (if CHR ''0'' \<le> c \<and> c \<le> CHR ''9'' then byte_of_char c - byte_of_char (CHR ''0'')
      else if CHR ''a'' \<le> c \<and> c \<le> CHR ''f'' then byte_of_char c - byte_of_char (CHR ''a'') + 10
      else if CHR ''A'' \<le> c \<and> c \<le> CHR ''F'' then byte_of_char c - byte_of_char (CHR ''A'') + 10
      else 0)"

text \<open>The scanning loop of \<open>Unescape\<close>; \<open>None\<close> is its \<open>return s, false\<close>.\<close>

fun unescape_loop :: "string \<Rightarrow> string option" where
  "unescape_loop [] = Some []"
| "unescape_loop (c # s) =
     (if c \<noteq> CHR ''%'' then map_option (Cons c) (unescape_loop s)
      else case s of
        a # b # rest \<Rightarrow>
          (if isHex a \<and> isHex b
           then map_option (Cons (char_of_byte (push_bit 4 (unHex a) OR unHex b))) (unescape_loop rest)
           else None)
      | _ \<Rightarrow> None)"

definition Unescape :: "string \<Rightarrow> string \<times> bool" where
  "Unescape s =
     (if CHR ''%'' \<notin> set s then (s, True)
      else case unescape_loop s of None \<Rightarrow> (s, False) | Some t \<Rightarrow> (t, True))"

definition DecodeFromNameElement :: "string \<Rightarrow> string \<times> bool" where
  "DecodeFromNameElement s = Unescape s"

lemma hex_digits_all:
  "list_all (\<lambda>n. isHex (hex_digits ! n) \<and> unat (unHex (hex_digits ! n)) = n) [0..<16]"
  by code_simp

lemma hex_digit_facts:
  assumes "n < 16"
  shows "isHex (hex_digits ! n)" "unat (unHex (hex_digits ! n)) = n"
    "hex_digits ! n \<in> set hex_digits"
proof -
  show "isHex (hex_digits ! n)" "unat (unHex (hex_digits ! n)) = n"
    using hex_digits_all assms by (simp_all add: list_all_iff)
  have "length hex_digits = 16" by (simp add: hex_digits_def)
  then show "hex_digits ! n \<in> set hex_digits"
    using assms by simp
qed

lemma nibbles_of_byte: "(push_bit 4 (drop_bit 4 b) :: byte) OR (b AND 15) = b"
proof -
  have m: "(15 :: byte) = mask 4" by (simp add: mask_eq_exp_minus_1)
  show ?thesis unfolding m by (rule bit_eqI) (auto simp: bit_simps)
qed

lemma nibble_less: "unat (drop_bit 4 (b :: byte)) < 16" "unat (b AND 15) < 16"
proof -
  have "unat (drop_bit 4 b) = unat b div 16"
    by (simp only: unat_drop_bit_eq) (simp add: drop_bit_eq_div)
  then show "unat (drop_bit 4 b) < 16"
    using unat_byte_less [of b] by simp
  show "unat (b AND 15) < 16"
    using word_and_le1 [of b 15] by (simp add: word_le_nat_alt)
qed

lemma unescape_loop_escape_char: "unescape_loop (escape_char c @ s) = map_option (Cons c) (unescape_loop s)"
proof -
  define b where "b = byte_of_char c"
  note nib = nibble_less [of b]
  have "unHex (hex_digits ! unat (drop_bit 4 b)) = drop_bit 4 b"
    "unHex (hex_digits ! unat (b AND 15)) = b AND 15"
    using nib by (simp_all only: word_unat_eq_iff hex_digit_facts)
  then have "char_of_byte (push_bit 4 (unHex (hex_digits ! unat (drop_bit 4 b)))
      OR unHex (hex_digits ! unat (b AND 15))) = c"
    by (simp add: nibbles_of_byte) (simp add: b_def)
  then show ?thesis
    using nib by (simp add: escape_char_def Let_def hex_digit_facts flip: b_def)
qed

lemma unescape_loop_plain: "CHR ''%'' \<notin> set s \<Longrightarrow> unescape_loop s = Some s"
  by (induction s) auto

lemma unescape_loop_escaped:
  "CHR ''%'' \<in> set special \<Longrightarrow>
   unescape_loop (concat (map (\<lambda>c. if c \<in> set special then escape_char c else [c]) s)) = Some s"
  by (induction s) (auto simp: unescape_loop_escape_char)

lemma Unescape_loop_eq: "Unescape s = (case unescape_loop s of None \<Rightarrow> (s, False) | Some t \<Rightarrow> (t, True))"
  by (simp add: Unescape_def unescape_loop_plain)

lemma Unescape_Escape_pair: "Unescape (Escape s special) = (s, True)"
proof (cases "list_ex (\<lambda>c. c \<in> set (special @ ''%'')) s")
  case True
  then have "Escape s special
      = concat (map (\<lambda>c. if c \<in> set (special @ ''%'') then escape_char c else [c]) s)"
    by (simp add: Escape_def Let_def)
  then show ?thesis
    using unescape_loop_escaped [of "special @ ''%''" s] by (simp only: Unescape_loop_eq) simp
next
  case False
  then have "Escape s special = s" "CHR ''%'' \<notin> set s"
    by (auto simp: Escape_def Let_def list_ex_iff)
  then show ?thesis by (simp add: Unescape_def)
qed

text \<open>An escaped string holds none of the special characters that are not hexadecimal digits.\<close>

lemma set_escape_char: "set (escape_char c) \<subseteq> insert (CHR ''%'') (set hex_digits)"
  using nibble_less [of "byte_of_char c", THEN hex_digit_facts(3)]
  by (simp add: escape_char_def Let_def)

lemma set_Escape:
  "set (Escape s special) \<subseteq> insert (CHR ''%'') (set hex_digits) \<union> (set s - set special)"
proof -
  have "set (concat (map (\<lambda>c. if c \<in> set (special @ ''%'') then escape_char c else [c]) s))
      \<subseteq> insert (CHR ''%'') (set hex_digits) \<union> (set s - set special)"
    using set_escape_char by (induction s) auto
  then show ?thesis by (auto simp: Escape_def list_ex_iff Let_def split: if_splits)
qed

lemma Escape_avoids:
  "x \<in> set special \<or> x \<notin> set s \<Longrightarrow> x \<notin> set hex_digits \<Longrightarrow> x \<noteq> CHR ''%'' \<Longrightarrow> x \<notin> set (Escape s special)"
  using set_Escape [of s special] by blast

lemma Escape_eq_Nil [simp]: "Escape s special = [] \<longleftrightarrow> s = []"
  by (cases s) (simp_all add: Escape_def escape_char_def Let_def)

subsection \<open>Properties\<close>

text \<open>C4: Clean computes the canonical form of a name, by halving double slashes and trimming one
  trailing slash: the non-empty components joined by single slashes, rooted as the name was. It is
  idempotent, and no clean name but the root has a double or a trailing slash.\<close>

theorem Clean_correct:
  "Clean name = (if Rooted name then ''/'' else []) @ join ''/'' (components name) \<and>
   Clean (Clean name) = Clean name \<and>
   \<not> sublist ''//'' (Clean name) \<and>
   (suffix ''/'' (Clean name) \<longleftrightarrow> Clean name = ''/'')"
proof -
  have "Clean name = ''/''" if "suffix ''/'' (Clean name)"
  proof -
    from that obtain a where a: "Clean name = a @ ''/''" by (auto simp: suffix_def)
    then have "a = []" using clean_no_trailing_slash [of a] Clean_idem [of name] by simp
    with a show ?thesis by simp
  qed
  moreover have "suffix ''/'' (''/'' :: string)" by simp
  moreover have "\<not> sublist ''//'' (Clean name)" by (rule clean_no_double_slash) simp
  moreover have "Clean name = (if Rooted name then ''/'' else []) @ join ''/'' (components name)"
    by (simp add: Clean_canonical canonical_def)
  ultimately show ?thesis by (metis Clean_idem)
qed

text \<open>C3: SplitAddressName takes apart what JoinAddressName put together, for the three forms of an
  address: an endpoint in at signs, a host and port behind a parenthesised blessing, and a plain host
  and port.\<close>

theorem SplitAddressName_JoinAddressName:
  assumes "address_ok a" "relative_name n"
  shows "SplitAddressName (JoinAddressName a n) = (a, n)"
  using assms by (rule SplitAddressName_join)

theorem SplitAddressName_JoinAddressName_witness:
  "SplitAddressName (JoinAddressName ''(dev.v.io)@host:80'' ''a/b'') = (''(dev.v.io)@host:80'', ''a/b'')"
proof (rule SplitAddressName_JoinAddressName)
  show "address_ok ''(dev.v.io)@host:80''" by code_simp
  show "relative_name ''a/b''" by code_simp
qed

text \<open>Conversely, joining the two parts that SplitAddressName returns for any name but the root gives
  the clean form of the name back: nothing of a name is lost.\<close>

theorem JoinAddressName_of_split:
  assumes "Clean name \<noteq> ''/''" "SplitAddressName name = (a, n)"
  shows "JoinAddressName a n = Clean name"
  using JoinAddressName_SplitAddressName [OF assms(1)] assms(2) by simp

theorem JoinAddressName_of_split_witness:
  "JoinAddressName ''@6@tcp@h:1@@@@m@@@'' ''x'' = Clean ''//@6@tcp@h:1@@@@m@@@//x/''"
proof (rule JoinAddressName_of_split)
  show "Clean ''//@6@tcp@h:1@@@@m@@@//x/'' \<noteq> ''/''" by code_simp
  show "SplitAddressName ''//@6@tcp@h:1@@@@m@@@//x/'' = (''@6@tcp@h:1@@@@m@@@'', ''x'')" by code_simp
qed

text \<open>Escape and Unescape are inverse for every set of special characters, and an escaped name
  element has no slash, so it stays one component of the name it is put in.\<close>

theorem DecodeFromNameElement_Encode:
  "Unescape (Escape s special) = (s, True) \<and>
   DecodeFromNameElement (EncodeAsNameElement s) = (s, True) \<and>
   CHR ''/'' \<notin> set (EncodeAsNameElement s)"
proof -
  have "CHR ''/'' \<notin> set hex_digits" by (simp add: hex_digits_def)
  then have "CHR ''/'' \<notin> set (EncodeAsNameElement s)"
    unfolding EncodeAsNameElement_def by (intro Escape_avoids) auto
  then show ?thesis
    by (simp add: Unescape_Escape_pair DecodeFromNameElement_def EncodeAsNameElement_def)
qed

text \<open>Join concatenates the components of its arguments, and trimming the joined suffix off a joined
  name gives the name's front back.\<close>

theorem Join_components:
  assumes "components front \<noteq> []" "components back \<noteq> []" "\<not> Rooted front" "\<not> Rooted back"
  shows "components (Join [front, back]) = components front @ components back \<and>
         NameTrimSuffix (Join [front, back]) back = Clean front"
proof
  show "components (Join [front, back]) = components front @ components back"
    by (simp add: components_Join)
  have ne: "front \<noteq> []" "back \<noteq> []" using assms(1,2) by auto
  have "Clean (Join [front, back]) = join ''/'' (components front @ components back)"
    using assms(3) ne not_Rooted_join [of "components front @ components back"]
    by (simp add: Clean_canonical canonical_def components_Join Join_def
        components_append_slash components_join)
  also have "\<dots> = Clean front @ ''/'' @ Clean back"
    using assms by (simp add: join_append Clean_canonical canonical_def)
  finally show "NameTrimSuffix (Join [front, back]) back = Clean front"
  proof (rule NameTrimSuffix_suffix)
    show "Clean front \<noteq> []" using assms(1) by (metis components_Clean components_Nil)
    show "\<not> Rooted back" by (rule assms(4))
  qed
qed

theorem Join_components_witness:
  "NameTrimSuffix (Join [''a//b'', ''__debug/'']) ''__debug/'' = ''a/b''"
proof -
  have "Clean ''a//b'' = ''a/b''" by code_simp
  moreover have "components ''a//b'' \<noteq> []" "components ''__debug/'' \<noteq> []"
    "\<not> Rooted ''a//b''" "\<not> Rooted ''__debug/''" by code_simp+
  ultimately show ?thesis using Join_components [of "''a//b''" "''__debug/''"] by simp
qed

end
