(* ===== verification/NamingEndpoint.thy ===== *)
theory NamingEndpoint
  imports NamingParse
begin

text \<open>
  Endpoints and routing ids: naming/endpoint.go, naming/routingid.go and naming/util.go.

  An \<open>Endpoint\<close> is a record with the fields of the Go struct; nil and empty slices are both the
  empty list, which no operation of these files distinguishes. A routing id is a list of 16 bytes.
  \<open>ParseEndpoint\<close> is translated with its regular expression
  \<open>^(?:\((.*)\)@)?([^@]+)$\<close> written out: the last group has no \<open>@\<close>, so the optional blessing group
  takes part exactly when the string has an \<open>@\<close>, and ends at the last one.
\<close>

subsection \<open>Routing ids\<close>

datatype RoutingID = RoutingID (rid_value: "byte list")

definition routingIDLength :: nat where
  "routingIDLength = 16"

definition firstUnreservedRoutingID :: u16 where
  "firstUnreservedRoutingID = 1024"

definition rid_ok :: "RoutingID \<Rightarrow> bool" where
  "rid_ok rid \<longleftrightarrow> length (rid_value rid) = routingIDLength"

definition FixedRoutingID :: "u64 \<Rightarrow> RoutingID" where
  "FixedRoutingID i = RoutingID (replicate 8 0 @ be_bytes 8 i)"

definition NullRoutingID :: RoutingID where
  "NullRoutingID = FixedRoutingID 0"

definition isZero :: "byte list \<Rightarrow> bool" where
  "isZero buf = list_all (\<lambda>b. b = 0) buf"

text \<open>
  \<open>binary.BigEndian.Uint16\<close> reads the elements 0 and 1 of the slice and panics, \<open>None\<close>, when there
  are fewer.
\<close>

definition isLessThan :: "byte list \<Rightarrow> u16 \<Rightarrow> bool option" where
  "isLessThan buf j =
     (case buf of
        b0 # b1 # _ \<Rightarrow> Some (((push_bit 8 (ucast b0)) OR ucast b1) < j)
      | _ \<Rightarrow> None)"

text \<open>\<open>IsReserved\<close>: the slice \<open>value[15:16]\<close> has one element.\<close>

definition rid_IsReserved :: "RoutingID \<Rightarrow> bool option" where
  "rid_IsReserved rid =
     (if isZero (take 14 (rid_value rid))
      then isLessThan (take 1 (drop 15 (rid_value rid))) firstUnreservedRoutingID
      else Some False)"

datatype 'e draw = DrawOk "byte list" | DrawErr 'e

text \<open>
  \<open>NewRoutingID\<close> draws 16 random bytes until they are not reserved. The argument is what the random
  source delivers; \<open>NewRidWaiting\<close> is the loop after all of these draws.
\<close>

datatype 'e new_rid = NewRid RoutingID | NewRidErr 'e | NewRidPanic | NewRidWaiting

fun NewRoutingID :: "'e draw list \<Rightarrow> 'e new_rid" where
  "NewRoutingID [] = NewRidWaiting"
| "NewRoutingID (DrawErr e # ds) = NewRidErr e"
| "NewRoutingID (DrawOk bs # ds) =
     (case rid_IsReserved (RoutingID bs) of
        None \<Rightarrow> NewRidPanic
      | Some True \<Rightarrow> NewRoutingID ds
      | Some False \<Rightarrow> NewRid (RoutingID bs))"

text \<open>\<open>hex.EncodeToString\<close> and \<open>hex.DecodeString\<close>.\<close>

definition lower_hex_digits :: string where
  "lower_hex_digits = ''0123456789abcdef''"

definition hex_encode :: "byte list \<Rightarrow> string" where
  "hex_encode bs =
     concat (map (\<lambda>b. [lower_hex_digits ! unat (drop_bit 4 b), lower_hex_digits ! unat (b AND 15)]) bs)"

fun hex_decode :: "string \<Rightarrow> byte list option" where
  "hex_decode [] = Some []"
| "hex_decode [c] = None"
| "hex_decode (a # b # s) =
     (if isHex a \<and> isHex b
      then map_option (Cons (push_bit 4 (unHex a) OR unHex b)) (hex_decode s)
      else None)"

definition rid_String :: "RoutingID \<Rightarrow> string" where
  "rid_String rid = hex_encode (rid_value rid)"

datatype rid_error = BadHex | InvalidString

definition rid_FromString :: "string \<Rightarrow> rid_error + RoutingID" where
  "rid_FromString s =
     (if s = [] then Inr NullRoutingID
      else case hex_decode s of
        None \<Rightarrow> Inl BadHex
      | Some b \<Rightarrow> if length b \<noteq> routingIDLength then Inl InvalidString else Inr (RoutingID b))"

lemma lower_hex_digits_all:
  "list_all (\<lambda>n. isHex (lower_hex_digits ! n) \<and> unat (unHex (lower_hex_digits ! n)) = n
     \<and> lower_hex_digits ! n \<in> set lower_hex_digits) [0..<16]"
  by code_simp

lemma lower_hex_facts:
  assumes "n < 16"
  shows "isHex (lower_hex_digits ! n)" "unat (unHex (lower_hex_digits ! n)) = n"
    "lower_hex_digits ! n \<in> set lower_hex_digits"
  using lower_hex_digits_all assms by (simp_all add: list_all_iff)

lemma hex_decode_encode: "hex_decode (hex_encode bs) = Some bs"
proof (induction bs)
  case Nil
  then show ?case by (simp add: hex_encode_def)
next
  case (Cons b bs)
  note nib = nibble_less [of b]
  have "unHex (lower_hex_digits ! unat (drop_bit 4 b)) = drop_bit 4 b"
    "unHex (lower_hex_digits ! unat (b AND 15)) = b AND 15"
    using nib by (simp_all only: word_unat_eq_iff lower_hex_facts)
  then have "push_bit 4 (unHex (lower_hex_digits ! unat (drop_bit 4 b)))
      OR unHex (lower_hex_digits ! unat (b AND 15)) = b"
    by (simp add: nibbles_of_byte)
  with Cons.IH nib show ?case by (simp add: hex_encode_def lower_hex_facts)
qed

lemma set_hex_encode: "set (hex_encode bs) \<subseteq> set lower_hex_digits"
proof -
  have "set [lower_hex_digits ! unat (drop_bit 4 b), lower_hex_digits ! unat (b AND 15)]
      \<subseteq> set lower_hex_digits" for b :: byte
    using nibble_less [of b, THEN lower_hex_facts(3)] by simp
  then show ?thesis by (induction bs) (auto simp: hex_encode_def)
qed

lemma hex_encode_eq_Nil [simp]: "hex_encode bs = [] \<longleftrightarrow> bs = []"
  by (cases bs) (simp_all add: hex_encode_def)

lemma rid_FromString_String: "rid_ok rid \<Longrightarrow> rid_FromString (rid_String rid) = Inr rid"
  by (cases rid) (auto simp: rid_ok_def routingIDLength_def rid_FromString_def rid_String_def hex_decode_encode)

lemma rid_FromString_ok: "rid_FromString s = Inr rid \<Longrightarrow> rid_ok rid"
  by (auto simp: rid_FromString_def rid_ok_def routingIDLength_def NullRoutingID_def FixedRoutingID_def
      split: if_splits option.splits)

subsection \<open>Endpoints\<close>

record Endpoint =
  Protocol :: string
  Address :: string
  RoutingId :: RoutingID
  routes :: "string list"
  blessingNames :: "string list"
  ServesMountTable :: bool

datatype ep_error =
    InvalidEndpointString
  | InvalidVersion
  | BadEscapeAddress string
  | BadEscapeRoute string
  | InvalidRoutingID rid_error
  | InvalidMountTableFlag string

definition zero_Endpoint :: Endpoint where
  "zero_Endpoint =
     \<lparr>Protocol = [], Address = [], RoutingId = RoutingID (replicate 16 0), routes = [],
      blessingNames = [], ServesMountTable = False\<rparr>"

text \<open>The two strings around the last occurrence of a character.\<close>

definition split_last :: "char \<Rightarrow> string \<Rightarrow> (string \<times> string) option" where
  "split_last c s = map_option (\<lambda>(a, b). (rev b, rev a)) (split_once [c] (rev s))"

text \<open>The submatches of \<open>hostportEP\<close>; \<open>.\<close> does not match a newline.\<close>

definition hostport_match :: "string \<Rightarrow> (string \<times> string) option" where
  "hostport_match s =
     (case split_last (CHR ''@'') s of
        None \<Rightarrow> (if s = [] then None else Some ([], s))
      | Some (p, host) \<Rightarrow>
          (if host \<noteq> [] \<and> 2 \<le> length p \<and> hd p = CHR ''('' \<and> last p = CHR '')''
              \<and> CHR 0x0A \<notin> set (butlast (tl p))
           then Some (butlast (tl p), host) else None))"

text \<open>Whether \<open>net.SplitHostPort\<close> returns no error.\<close>

definition SplitHostPort_ok :: "string \<Rightarrow> bool" where
  "SplitHostPort_ok hp =
     (case split_last (CHR '':'') hp of
        None \<Rightarrow> False
      | Some (host, port) \<Rightarrow>
          if prefix ''['' hp then
            (case split_once '']'' hp of
               None \<Rightarrow> False
             | Some (a, b) \<Rightarrow> b = CHR '':'' # port \<and> CHR ''['' \<notin> set (tl hp) \<and> CHR '']'' \<notin> set b)
          else CHR '':'' \<notin> set host \<and> CHR ''['' \<notin> set hp \<and> CHR '']'' \<notin> set hp)"

definition UnknownProtocol :: string where
  "UnknownProtocol = []"

definition parseHostPort :: "string \<Rightarrow> string \<Rightarrow> ep_error + Endpoint" where
  "parseHostPort blessing hostport =
     (if \<not> SplitHostPort_ok hostport then Inl InvalidEndpointString
      else
        (let (hp, mt) =
           (if suffix ''#'' hostport then (trim_suffix hostport ''#'', False) else (hostport, True))
         in Inr \<lparr>Protocol = UnknownProtocol, Address = hp, RoutingId = NullRoutingID, routes = [],
                 blessingNames = (if blessing \<noteq> [] then [blessing] else []),
                 ServesMountTable = mt\<rparr>))"

text \<open>\<open>strconv.ParseUint(s, 10, 16)\<close>.\<close>

definition ParseUint16 :: "string \<Rightarrow> nat option" where
  "ParseUint16 s =
     (if s = [] \<or> \<not> list_all (\<lambda>c. CHR ''0'' \<le> c \<and> c \<le> CHR ''9'') s then None
      else let n = foldl (\<lambda>n c. 10 * n + (of_char c - of_char (CHR ''0''))) 0 s
           in if n < 2 ^ 16 then Some n else None)"

text \<open>The loop over the routes: the first bad escape ends it.\<close>

fun unescape_routes :: "string list \<Rightarrow> ep_error + string list" where
  "unescape_routes [] = Inr []"
| "unescape_routes (r # rs) =
     (case Unescape r of
        (r', True) \<Rightarrow> and_then (unescape_routes rs) (\<lambda>rs'. Inr (r' # rs'))
      | (r', False) \<Rightarrow> Inl (BadEscapeRoute r'))"

definition parseV6 :: "string list \<Rightarrow> ep_error + Endpoint" where
  "parseV6 parts =
     (if length parts < 6 then Inl InvalidEndpointString
      else
        (let protocol = (if parts ! 1 = [] then UnknownProtocol else parts ! 1) in
         case Unescape (parts ! 2) of
           (_, False) \<Rightarrow> Inl (BadEscapeAddress (parts ! 2))
         | (addr, True) \<Rightarrow>
             (let address = (if addr = [] then '':0'' else addr) in
              and_then (if parts ! 3 = [] then Inr []
                        else unescape_routes (split_on (CHR '','') (parts ! 3))) (\<lambda>rs.
                case rid_FromString (parts ! 4) of
                  Inl e \<Rightarrow> Inl (InvalidRoutingID e)
                | Inr rid \<Rightarrow>
                    and_then (if parts ! 5 = [] \<or> parts ! 5 = ''m'' then Inr True
                              else if parts ! 5 = ''s'' \<or> parts ! 5 = ''l'' then Inr False
                              else Inl (InvalidMountTableFlag (parts ! 5))) (\<lambda>mt.
                      (let str = join ''@'' (drop 6 parts)
                       in Inr \<lparr>Protocol = protocol, Address = address, RoutingId = rid, routes = rs,
                               blessingNames = (if str = [] then [] else split_on (CHR '','') str),
                               ServesMountTable = mt\<rparr>))))))"

definition ParseEndpoint :: "string \<Rightarrow> ep_error + Endpoint" where
  "ParseEndpoint input =
     (case hostport_match input of
        Some (blessing, hostport) \<Rightarrow> parseHostPort blessing hostport
      | None \<Rightarrow>
          (let parts = split_on (CHR ''@'') (trim_prefix (trim_suffix input ''@@'') ''@'') in
           case ParseUint16 (hd parts) of
             None \<Rightarrow> Inl InvalidVersion
           | Some version \<Rightarrow>
               if version = 6 then parseV6 parts else Inl InvalidEndpointString))"

definition WithBlessingNames :: "Endpoint \<Rightarrow> string list \<Rightarrow> Endpoint" where
  "WithBlessingNames e names = e\<lparr>blessingNames := names\<rparr>"

definition WithRoutes :: "Endpoint \<Rightarrow> string list \<Rightarrow> Endpoint" where
  "WithRoutes e rs = e\<lparr>routes := rs\<rparr>"

definition ep_IsZero :: "Endpoint \<Rightarrow> bool" where
  "ep_IsZero e \<longleftrightarrow>
     Protocol e = [] \<and> Address e = [] \<and> RoutingId e = RoutingID (replicate 16 0) \<and>
     length (routes e) = 0 \<and> length (blessingNames e) = 0 \<and> \<not> ServesMountTable e"

definition DefaultEndpointVersion :: int where
  "DefaultEndpointVersion = 6"

function VersionedString :: "Endpoint \<Rightarrow> int \<Rightarrow> string" where
  "VersionedString e version =
     (if version = 6 then
        (let mt = (if ServesMountTable e then ''m'' else ''s'');
             blessings = join '','' (blessingNames e);
             escaped = map (\<lambda>r. Escape r '','') (routes e);
             rts = join '','' escaped
         in ''@6@'' @ Protocol e @ ''@'' @ Escape (Address e) ''@'' @ ''@'' @ rts @ ''@''
            @ rid_String (RoutingId e) @ ''@'' @ mt @ ''@'' @ blessings @ ''@@'')
      else VersionedString e DefaultEndpointVersion)"
  by pat_completeness auto
termination
  by (relation "measure (\<lambda>(e, v). if v = 6 then 0 else 1)") (simp_all add: DefaultEndpointVersion_def)

declare VersionedString.simps [simp del]

definition ep_String :: "Endpoint \<Rightarrow> string" where
  "ep_String e = VersionedString e DefaultEndpointVersion"

definition ep_Name :: "Endpoint \<Rightarrow> string" where
  "ep_Name e = JoinAddressName (ep_String e) []"

datatype EndpointOpt =
    RoutingIDOpt RoutingID
  | ServesMountTableOpt bool
  | RouteOpt string
  | BlessingOpt string

text \<open>\<open>FormatEndpoint\<close>: the loop collects the options; later routing ids and flags replace earlier ones.\<close>

fun format_opts :: "EndpointOpt list \<Rightarrow> string \<times> string list \<times> string list \<times> string
    \<Rightarrow> string \<times> string list \<times> string list \<times> string" where
  "format_opts [] st = st"
| "format_opts (RoutingIDOpt v # os) (rid, bs, rs, mt) = format_opts os (rid_String v, bs, rs, mt)"
| "format_opts (ServesMountTableOpt v # os) (rid, bs, rs, mt) =
     format_opts os (rid, bs, rs, if v then ''m'' else ''s'')"
| "format_opts (RouteOpt v # os) (rid, bs, rs, mt) = format_opts os (rid, bs, rs @ [v], mt)"
| "format_opts (BlessingOpt v # os) (rid, bs, rs, mt) = format_opts os (rid, bs @ [v], rs, mt)"

definition FormatEndpoint :: "string \<Rightarrow> string \<Rightarrow> EndpointOpt list \<Rightarrow> string" where
  "FormatEndpoint network address opts =
     (case format_opts opts ([], [], [], []) of
        (rid, bs, rs, mt) \<Rightarrow>
          ''@6@'' @ network @ ''@'' @ address @ ''@'' @ join '','' rs @ ''@'' @ rid @ ''@'' @ mt @ ''@''
          @ join '','' bs @ ''@@'')"

subsection \<open>Parsing what was printed\<close>

lemma split_last_append: "c \<notin> set b \<Longrightarrow> split_last c (a @ c # b) = Some (a, b)"
  using split_once_char [of c "rev b" "rev a"] by (simp add: split_last_def)

lemma split_last_None: "split_last c s = None \<longleftrightarrow> c \<notin> set s"
  using split_once_None_char [of c "rev s"] by (simp add: split_last_def)

lemma split_last_SomeD: "split_last c s = Some (a, b) \<Longrightarrow> s = a @ c # b \<and> c \<notin> set b"
  using split_once_SomeD [of "[c]" "rev s" "rev b" "rev a"] split_once_char_notin [of c "rev s" "rev b" "rev a"]
  by (auto simp: split_last_def rev_swap)

definition v6_string :: "string \<Rightarrow> string \<Rightarrow> string \<Rightarrow> string \<Rightarrow> string \<Rightarrow> string \<Rightarrow> string" where
  "v6_string p a r rid mt bl =
     ''@6@'' @ p @ ''@'' @ a @ ''@'' @ r @ ''@'' @ rid @ ''@'' @ mt @ ''@'' @ bl @ ''@@''"

lemma ep_String_v6:
  "ep_String e = v6_string (Protocol e) (Escape (Address e) ''@'')
     (join '','' (map (\<lambda>r. Escape r '','') (routes e))) (rid_String (RoutingId e))
     (if ServesMountTable e then ''m'' else ''s'') (join '','' (blessingNames e))"
  by (simp add: ep_String_def v6_string_def VersionedString.simps DefaultEndpointVersion_def)

lemma ParseUint16_6: "ParseUint16 ''6'' = Some 6"
  by (simp add: ParseUint16_def less_eq_char_def)

lemma ParseEndpoint_v6:
  assumes "CHR ''@'' \<notin> set p" "CHR ''@'' \<notin> set a" "CHR ''@'' \<notin> set r" "CHR ''@'' \<notin> set rid" "CHR ''@'' \<notin> set mt"
  shows "ParseEndpoint (v6_string p a r rid mt bl)
    = parseV6 ([''6'', p, a, r, rid, mt] @ split_on (CHR ''@'') bl)"
proof -
  define body where
    "body = ''6@'' @ p @ ''@'' @ a @ ''@'' @ r @ ''@'' @ rid @ ''@'' @ mt @ ''@'' @ bl"
  have s: "v6_string p a r rid mt bl = (''@'' @ body) @ ''@@''"
    by (simp add: v6_string_def body_def)
  have "hostport_match (v6_string p a r rid mt bl) = None"
    using split_last_append [of "CHR ''@''" "[]" "''@'' @ body @ ''@''"]
    by (simp add: s hostport_match_def)
  moreover have "trim_prefix (trim_suffix (v6_string p a r rid mt bl) ''@@'') ''@'' = body"
    using trim_prefix_append [of "''@''" body] by (simp only: s trim_suffix_append)
  moreover have "split_on (CHR ''@'') body = [''6'', p, a, r, rid, mt] @ split_on (CHR ''@'') bl"
    using assms by (simp add: body_def split_on_append)
  ultimately show ?thesis
    by (simp add: ParseEndpoint_def ParseUint16_6)
qed

text \<open>\<open>parseV6\<close> on the parts by name, with the blessings part as one string.\<close>

lemma parseV6_parts:
  assumes "Unescape a = (addr, True)" "addr \<noteq> []" "rid_FromString rid = Inr i"
    "(if r = [] then Inr [] else unescape_routes (split_on (CHR '','') r)) = Inr rs"
  shows "parseV6 ([v, p, a, r, rid, if mt then ''m'' else ''s''] @ split_on (CHR ''@'') bl)
    = Inr \<lparr>Protocol = p, Address = addr, RoutingId = i, routes = rs,
           blessingNames = (if bl = [] then [] else split_on (CHR '','') bl), ServesMountTable = mt\<rparr>"
proof -
  let ?parts = "[v, p, a, r, rid, if mt then ''m'' else ''s''] @ split_on (CHR ''@'') bl"
  have nths: "?parts ! 1 = p" "?parts ! 2 = a" "?parts ! 3 = r" "?parts ! 4 = rid"
    "?parts ! 5 = (if mt then ''m'' else ''s'')"
    by (simp_all add: numeral_eq_Suc)
  have rest: "join ''@'' (drop 6 ?parts) = bl"
    by (simp add: numeral_eq_Suc join_split_on)
  have "\<not> length ?parts < 6" by simp
  then show ?thesis
    unfolding parseV6_def nths rest using assms by (simp add: UnknownProtocol_def Let_def)
qed

lemma unescape_routes_Escape: "unescape_routes (map (\<lambda>r. Escape r sp) rs) = Inr rs"
  by (induction rs) (simp_all add: Unescape_Escape_pair)

text \<open>The endpoints that their string determines.\<close>

definition list_printable :: "char \<Rightarrow> string list \<Rightarrow> bool" where
  "list_printable c xs \<longleftrightarrow> xs \<noteq> [[]] \<and> list_all (\<lambda>x. c \<notin> set x) xs"

definition endpoint_ok :: "Endpoint \<Rightarrow> bool" where
  "endpoint_ok e \<longleftrightarrow>
     CHR ''@'' \<notin> set (Protocol e) \<and> Address e \<noteq> [] \<and> rid_ok (RoutingId e) \<and>
     routes e \<noteq> [[]] \<and> list_all (\<lambda>r. CHR ''@'' \<notin> set r) (routes e) \<and>
     list_printable (CHR '','') (blessingNames e)"

lemma split_join_printable:
  "list_printable c xs \<Longrightarrow> (if join [c] xs = [] then [] else split_on c (join [c] xs)) = xs"
  by (auto simp: list_printable_def join_eq_Nil split_on_join)

lemma char_not_hex: "c \<notin> set lower_hex_digits \<Longrightarrow> c \<notin> set (rid_String rid)"
  using set_hex_encode by (auto simp: rid_String_def)

lemma special_not_hex:
  "CHR '','' \<notin> set hex_digits" "CHR ''@'' \<notin> set hex_digits" "CHR ''@'' \<notin> set lower_hex_digits"
  by (simp_all add: hex_digits_def lower_hex_digits_def)

lemma escaped_routes_facts:
  assumes "routes e \<noteq> [[]]" "list_all (\<lambda>r. CHR ''@'' \<notin> set r) (routes e)"
  defines "esc \<equiv> map (\<lambda>r. Escape r '','') (routes e)"
  shows "CHR ''@'' \<notin> set (join '','' esc)" "list_printable (CHR '','') esc"
proof -
  have "CHR ''@'' \<notin> set (Escape r '','')" if "r \<in> set (routes e)" for r
    using that assms(2) special_not_hex by (intro Escape_avoids) (auto simp: list_all_iff)
  then show "CHR ''@'' \<notin> set (join '','' esc)"
    using set_join [of "CHR ''@''" "'',''" esc] by (auto simp: esc_def)
  have "CHR '','' \<notin> set (Escape r '','')" for r
    using special_not_hex by (intro Escape_avoids) auto
  moreover have "esc \<noteq> [[]]"
    using assms(1) by (auto simp: esc_def map_eq_Cons_conv)
  ultimately show "list_printable (CHR '','') esc"
    by (simp add: list_printable_def esc_def list_all_iff)
qed

lemma ParseEndpoint_ep_String:
  assumes "endpoint_ok e"
  shows "ParseEndpoint (ep_String e) = Inr e"
proof -
  define r where "r = join '','' (map (\<lambda>r. Escape r '','') (routes e))"
  define bl where "bl = join '','' (blessingNames e)"
  have ok: "CHR ''@'' \<notin> set (Protocol e)" "Address e \<noteq> []" "rid_ok (RoutingId e)" "routes e \<noteq> [[]]"
    "list_all (\<lambda>r. CHR ''@'' \<notin> set r) (routes e)" "list_printable (CHR '','') (blessingNames e)"
    using assms by (simp_all add: endpoint_ok_def)
  have esc: "CHR ''@'' \<notin> set r" "list_printable (CHR '','') (map (\<lambda>r. Escape r '','') (routes e))"
    unfolding r_def by (rule escaped_routes_facts [OF ok(4,5)])+
  have addr: "CHR ''@'' \<notin> set (Escape (Address e) ''@'')"
    using special_not_hex by (intro Escape_avoids) auto
  have rid: "CHR ''@'' \<notin> set (rid_String (RoutingId e))"
    using special_not_hex by (intro char_not_hex)
  have rs: "(if r = [] then Inr [] else unescape_routes (split_on (CHR '','') r)) = Inr (routes e)"
    using split_join_printable [OF esc(2), folded r_def] unescape_routes_Escape [of "'',''" "routes e"]
    by (auto split: if_splits)
  have bs: "(if bl = [] then [] else split_on (CHR '','') bl) = blessingNames e"
    using split_join_printable [OF ok(6)] by (simp only: bl_def)
  have "ParseEndpoint (ep_String e) = parseV6 ([''6'', Protocol e, Escape (Address e) ''@'', r,
      rid_String (RoutingId e), if ServesMountTable e then ''m'' else ''s''] @ split_on (CHR ''@'') bl)"
    unfolding ep_String_v6 r_def [symmetric] bl_def [symmetric]
    by (rule ParseEndpoint_v6) (use ok(1) esc(1) addr rid in auto)
  also have "\<dots> = Inr e"
    using parseV6_parts [OF Unescape_Escape_pair ok(2) rid_FromString_String [OF ok(3)] rs] bs by simp
  finally show ?thesis .
qed

subsection \<open>What the parser returns\<close>

lemma unescape_loop_eq_Nil: "unescape_loop s = Some [] \<longleftrightarrow> s = []"
  by (cases s) (auto split: list.splits)

lemma Unescape_eq_Nil: "Unescape s = ([], True) \<longleftrightarrow> s = []"
  using unescape_loop_eq_Nil [of s] by (auto simp: Unescape_loop_eq split: option.splits)

lemma unescape_routes_Inr:
  "unescape_routes rs = Inr rs' \<Longrightarrow> list_all2 (\<lambda>r r'. Unescape r = (r', True)) rs rs'"
  by (induction rs arbitrary: rs') (auto simp: and_then_Inr_iff split: prod.splits bool.splits)

lemma unescape_routes_not_empty:
  assumes "unescape_routes (split_on c s) = Inr rs" "s \<noteq> []"
  shows "rs \<noteq> [[]]"
proof
  assume "rs = [[]]"
  with unescape_routes_Inr [OF assms(1)] have "split_on c s = [[]]"
    by (auto simp: list_all2_Cons2 Unescape_eq_Nil)
  then have "s = []" using join_split_on [of c s] by simp
  with assms(2) show False ..
qed

lemma split_on_not_empty: "s \<noteq> [] \<Longrightarrow> split_on c s \<noteq> [[]]"
  using join_split_on [of c s] by auto

lemma SplitHostPort_ok_colon: "SplitHostPort_ok hp \<Longrightarrow> CHR '':'' \<in> set hp"
  using split_last_None [of "CHR '':''" hp] by (auto simp: SplitHostPort_ok_def split: option.splits)

lemma parseHostPort_shape:
  assumes "parseHostPort blessing hp = Inr e"
  shows "Protocol e = [] \<and> Address e \<noteq> [] \<and> rid_ok (RoutingId e) \<and> routes e = [] \<and> blessingNames e \<noteq> [[]]"
proof -
  from assms have "CHR '':'' \<in> set hp"
    by (intro SplitHostPort_ok_colon) (simp add: parseHostPort_def split: if_splits)
  then have "trim_suffix hp ''#'' \<noteq> []" "hp \<noteq> []"
    using trim_suffix_append [of "[]" "''#''"]
    by (auto simp: trim_suffix_def suffix_def)
  then show ?thesis using assms
    by (auto simp: parseHostPort_def Let_def UnknownProtocol_def NullRoutingID_def FixedRoutingID_def
        rid_ok_def routingIDLength_def split: if_splits)
qed

lemma parseV6_shape:
  assumes "parseV6 parts = Inr e" "list_all (\<lambda>x. CHR ''@'' \<notin> set x) parts"
  shows "CHR ''@'' \<notin> set (Protocol e) \<and> Address e \<noteq> [] \<and> rid_ok (RoutingId e) \<and> routes e \<noteq> [[]]
    \<and> blessingNames e \<noteq> [[]]"
proof -
  from assms(1) have len: "6 \<le> length parts" by (simp add: parseV6_def split: if_splits)
  then have p: "CHR ''@'' \<notin> set (parts ! 1)" using assms(2) by (simp add: list_all_length)
  obtain addr where addr: "Unescape (parts ! 2) = (addr, True)"
    using assms(1) len
    by (cases "Unescape (parts ! 2)"; cases "snd (Unescape (parts ! 2))") (auto simp: parseV6_def Let_def)
  with assms(1) len obtain rs where
    rs: "(if parts ! 3 = [] then Inr [] else unescape_routes (split_on (CHR '','') (parts ! 3))) = Inr rs"
    by (auto simp: parseV6_def Let_def and_then_Inr_iff simp del: if_split)
  with addr assms(1) len obtain rid where rid: "rid_FromString (parts ! 4) = Inr rid"
    by (cases "rid_FromString (parts ! 4)") (auto simp: parseV6_def Let_def simp del: if_split)
  from assms(1) len addr rs rid obtain mt where
    e: "e = \<lparr>Protocol = (if parts ! 1 = [] then UnknownProtocol else parts ! 1),
        Address = (if addr = [] then '':0'' else addr), RoutingId = rid, routes = rs,
        blessingNames = (if join ''@'' (drop 6 parts) = [] then []
          else split_on (CHR '','') (join ''@'' (drop 6 parts))), ServesMountTable = mt\<rparr>"
    by (auto simp: parseV6_def Let_def and_then_Inr_iff simp del: if_split)
  from rs have "rs \<noteq> [[]]" by (auto split: if_splits dest: unescape_routes_not_empty)
  with p rid show ?thesis
    by (simp add: e UnknownProtocol_def rid_FromString_ok split_on_not_empty)
qed

lemma ParseEndpoint_ok:
  assumes "ParseEndpoint s = Inr e"
    and "list_all (\<lambda>r. CHR ''@'' \<notin> set r) (routes e)"
    and "list_all (\<lambda>b. CHR '','' \<notin> set b) (blessingNames e)"
  shows "endpoint_ok e"
proof (cases "hostport_match s")
  case None
  with assms(1) have "parseV6 (split_on (CHR ''@'') (trim_prefix (trim_suffix s ''@@'') ''@'')) = Inr e"
    by (simp add: ParseEndpoint_def Let_def split: option.splits if_splits)
  from parseV6_shape [OF this list_all_split_on] assms(2,3) show ?thesis
    by (simp add: endpoint_ok_def list_printable_def)
next
  case (Some m)
  with assms(1) have "parseHostPort (fst m) (snd m) = Inr e"
    by (simp add: ParseEndpoint_def split_beta)
  from parseHostPort_shape [OF this] assms(2,3) show ?thesis
    by (simp add: endpoint_ok_def list_printable_def)
qed

lemma isLessThan_one: "isLessThan [b] j = None" "isLessThan [] j = None"
  by (simp_all add: isLessThan_def)

lemma rid_IsReserved_eq:
  "rid_IsReserved rid = (if isZero (take 14 (rid_value rid)) then None else Some False)"
proof -
  have "take 1 (drop 15 v) = [] \<or> (\<exists>b. take 1 (drop 15 v) = [b])" for v :: "byte list"
    by (cases "drop 15 v") auto
  then have "isLessThan (take 1 (drop 15 (rid_value rid))) j = None" for j
    by (metis isLessThan_one)
  then show ?thesis by (simp only: rid_IsReserved_def)
qed

text \<open>An endpoint with an at sign in a route, and the way it prints.\<close>

definition at_route_endpoint :: Endpoint where
  "at_route_endpoint =
     \<lparr>Protocol = ''tcp'', Address = ''h:1'', RoutingId = NullRoutingID, routes = [''r@x''],
      blessingNames = [], ServesMountTable = True\<rparr>"

lemma rid_String_Null: "rid_String NullRoutingID = replicate 32 CHR ''0''" by code_simp
lemma parsed_at_route: "ParseEndpoint ''@6@tcp@h:1@r%40x@@m@@@'' = Inr at_route_endpoint"
proof -
  have "''@6@tcp@h:1@r%40x@@m@@@'' = v6_string ''tcp'' ''h:1'' ''r%40x'' [] ''m'' []" by (simp add: v6_string_def)
  moreover have "unescape_routes (split_on (CHR '','') ''r%40x'') = Inr [''r@x'']" by code_simp
  moreover have "Unescape ''h:1'' = (''h:1'', True)" by code_simp
  ultimately show ?thesis
    using parseV6_parts [of "''h:1''" "''h:1''" "[]" NullRoutingID "''r%40x''" "[''r@x'']" "''6''" "''tcp''" True "[]"]
    by (simp add: ParseEndpoint_v6 rid_FromString_def at_route_endpoint_def)
qed
lemma reparsed_at_route: "ParseEndpoint (ep_String at_route_endpoint) = Inl (InvalidRoutingID BadHex)"
proof -
  have "Escape ''h:1'' ''@'' = ''h:1''" "Escape ''r@x'' '','' = ''r@x''" by code_simp+
  then have "ep_String at_route_endpoint = v6_string ''tcp'' ''h:1'' ''r'' ''x'' (replicate 32 CHR ''0'') ''m@''"
    by (simp add: ep_String_v6 rid_String_Null v6_string_def at_route_endpoint_def)
  moreover have "CHR ''@'' \<notin> set (replicate 32 CHR ''0'')" by simp
  moreover have "parseV6 ([''6'', ''tcp'', ''h:1'', ''r'', ''x'', replicate 32 CHR ''0''] @ split_on (CHR ''@'') ''m@'')
      = Inl (InvalidRoutingID BadHex)" by code_simp
  ultimately show ?thesis by (simp add: ParseEndpoint_v6 del: split_on.simps replicate.simps)
qed

subsection \<open>Properties\<close>

text \<open>C2: An endpoint survives printing and parsing: String escapes the address against the separator
  and the routes against the comma, and ParseEndpoint inverts both. The condition excludes what the
  format cannot carry: an at sign in the protocol or in a route, an empty address, a comma in a
  blessing name, and a single empty route or blessing name.\<close>

theorem ParseEndpoint_String:
  assumes "endpoint_ok e"
  shows "ParseEndpoint (ep_String e) = Inr e"
  using assms by (rule ParseEndpoint_ep_String)

definition sample_endpoint :: Endpoint where
  "sample_endpoint =
     \<lparr>Protocol = ''tcp'', Address = ''h@x:1'', RoutingId = FixedRoutingID 0xdead, routes = [''a,b'', ''c''],
      blessingNames = [''dev:alice'', ''dev:bob''], ServesMountTable = True\<rparr>"

lemma sample_endpoint_ok: "endpoint_ok sample_endpoint"
  by (simp add: endpoint_ok_def sample_endpoint_def rid_ok_def FixedRoutingID_def routingIDLength_def
      list_printable_def)

theorem ParseEndpoint_String_witness: "ParseEndpoint (ep_String sample_endpoint) = Inr sample_endpoint"
  by (rule ParseEndpoint_String [OF sample_endpoint_ok])

text \<open>Whatever string an endpoint was parsed from, its own string parses to the same endpoint again
  (printing normalises), provided no route came to hold an at sign and no blessing name a comma.\<close>

theorem ParseEndpoint_reprint:
  assumes "ParseEndpoint s = Inr e"
    and "list_all (\<lambda>r. CHR ''@'' \<notin> set r) (routes e)"
    and "list_all (\<lambda>b. CHR '','' \<notin> set b) (blessingNames e)"
  shows "ParseEndpoint (ep_String e) = Inr e"
  using ParseEndpoint_ok [OF assms] by (rule ParseEndpoint_ep_String)

lemma parsed_host_port:
  "ParseEndpoint ''(dev:a)@h:1'' = Inr \<lparr>Protocol = [], Address = ''h:1'', RoutingId = NullRoutingID,
     routes = [], blessingNames = [''dev:a''], ServesMountTable = True\<rparr>"
  by code_simp

theorem ParseEndpoint_reprint_witness:
  "ParseEndpoint (ep_String \<lparr>Protocol = [], Address = ''h:1'', RoutingId = NullRoutingID,
     routes = [], blessingNames = [''dev:a''], ServesMountTable = True\<rparr>)
   = Inr \<lparr>Protocol = [], Address = ''h:1'', RoutingId = NullRoutingID,
     routes = [], blessingNames = [''dev:a''], ServesMountTable = True\<rparr>"
  by (rule ParseEndpoint_reprint [OF parsed_host_port]) simp_all

text \<open>The restriction on routes is needed: String escapes a route against the comma only, so an
  endpoint whose route holds an at sign, which ParseEndpoint produces from an escaped one, prints to a
  string that no longer parses.\<close>

theorem route_with_separator_lost:
  "ParseEndpoint ''@6@tcp@h:1@r%40x@@m@@@'' = Inr at_route_endpoint \<and>
   ParseEndpoint (ep_String at_route_endpoint) = Inl (InvalidRoutingID BadHex)"
  by (intro conjI parsed_at_route reparsed_at_route)


text \<open>A routing id that starts with 14 zero bytes, as every reserved one and the null id do, makes
  IsReserved panic, since it hands a slice of one byte to a 16-bit read; on all others it returns
  false. NewRoutingID therefore never draws a second id: it returns the first one or panics.\<close>

theorem IsReserved_panics:
  "(rid_IsReserved rid = None \<longleftrightarrow> isZero (take 14 (rid_value rid))) \<and>
   rid_IsReserved rid \<noteq> Some True \<and> rid_IsReserved NullRoutingID = None \<and>
   NewRoutingID (DrawOk bs # ds) = (if isZero (take 14 bs) then NewRidPanic else NewRid (RoutingID bs))"
proof -
  have "isZero (take 14 (rid_value NullRoutingID))" by code_simp
  then show ?thesis by (simp add: rid_IsReserved_eq)
qed

end
