(* ===== verification/WireCodec.thy ===== *)
theory WireCodec
  imports GoPrelude
begin

text \<open>
  The interface of the repository's wire formats and their common building block.

  \<open>prefix_codec\<close> is what a reader relies on: decoding an encoding followed by anything returns the
  value and exactly what followed. \<open>consuming_codec\<close> adds that a successful decode uses up a
  non-empty prefix of its input, which is why the readers' loops end. Both are interpreted by the
  message codec (theory FlowMessage) and by the VOM primitives (theory VomBinary).

  \<open>varint\<close> is the specification of the variable-length unsigned integers that
  flow/message/message.go and vom/binary_util.go each implement on their own: one byte up to 0x7f,
  and above it the negated byte count followed by the big-endian bytes of the number, as few as
  possible.
\<close>

subsection \<open>Self-delimiting codecs\<close>

locale prefix_codec =
  fixes enc :: "'a \<Rightarrow> 'b list"
    and dec :: "'b list \<Rightarrow> ('a \<times> 'b list) option"
    and ok :: "'a \<Rightarrow> bool"
  assumes dec_enc: "ok x \<Longrightarrow> dec (enc x @ rest) = Some (x, rest)"
begin

lemma enc_append_inject:
  assumes "ok x" "ok y" "enc x @ r = enc y @ s"
  shows "x = y \<and> r = s"
proof -
  have "Some (x, r) = dec (enc x @ r)" by (simp only: dec_enc [OF assms(1)])
  also have "\<dots> = dec (enc y @ s)" by (simp only: assms(3))
  also have "\<dots> = Some (y, s)" by (rule dec_enc [OF assms(2)])
  finally show ?thesis by simp
qed

lemma enc_inject: "ok x \<Longrightarrow> ok y \<Longrightarrow> enc x = enc y \<longleftrightarrow> x = y"
  by (metis append_Nil2 enc_append_inject)

lemma enc_prefix_free:
  assumes "ok x" "ok y" "prefix (enc x) (enc y)"
  shows "x = y"
proof -
  from assms(3) obtain r where "enc y = enc x @ r" by (auto simp: prefix_def)
  then show ?thesis using enc_append_inject [OF assms(1,2), of r "[]"] by simp
qed

lemma concat_enc_inject:
  assumes nonempty: "\<And>x. ok x \<Longrightarrow> enc x \<noteq> []"
  shows "list_all ok xs \<Longrightarrow> list_all ok ys \<Longrightarrow> concat (map enc xs) = concat (map enc ys) \<Longrightarrow> xs = ys"
proof (induction xs arbitrary: ys)
  case Nil
  then show ?case by (cases ys) (auto simp: nonempty)
next
  case (Cons x xs)
  show ?case
  proof (cases ys)
    case Nil
    then show ?thesis using Cons.prems by (auto simp: nonempty)
  next
    case (Cons y ys')
    from Cons.prems Cons have "x = y \<and> concat (map enc xs) = concat (map enc ys')"
      by (intro enc_append_inject) auto
    then show ?thesis using Cons.prems Cons Cons.IH [of ys'] by auto
  qed
qed

end

locale consuming_codec = prefix_codec +
  assumes dec_consumes: "dec bs = Some (x, rest) \<Longrightarrow> \<exists>pre. bs = pre @ rest \<and> pre \<noteq> []"
begin

lemma dec_shorter: "dec bs = Some (x, rest) \<Longrightarrow> length rest < length bs"
  using dec_consumes by fastforce

lemma dec_Nil: "dec [] = None"
  using dec_shorter [of "[]"] by (cases "dec []") auto

lemma enc_nonempty:
  assumes "ok x"
  shows "enc x \<noteq> []"
proof
  assume "enc x = []"
  then have "dec [] = Some (x, [])" using dec_enc [OF assms, of "[]"] by simp
  then show False by (simp add: dec_Nil)
qed

lemma concat_enc_unique:
  "list_all ok xs \<Longrightarrow> list_all ok ys \<Longrightarrow> concat (map enc xs) = concat (map enc ys) \<Longrightarrow> xs = ys"
  using concat_enc_inject enc_nonempty by blast

end

subsection \<open>The number of bytes of an unsigned integer\<close>

fun byte_count :: "nat \<Rightarrow> nat" where
  "byte_count n = (if n = 0 then 0 else Suc (byte_count (n div 256)))"

declare byte_count.simps [simp del]

lemma byte_count_0 [simp]: "byte_count 0 = 0"
  by (simp add: byte_count.simps)

lemma byte_count_pos: "0 < n \<Longrightarrow> byte_count n = Suc (byte_count (n div 256))"
  by (simp add: byte_count.simps [of n])

lemma byte_count_eq: "256 ^ k \<le> n \<Longrightarrow> n < 256 ^ Suc k \<Longrightarrow> byte_count n = Suc k"
proof (induction k arbitrary: n)
  case 0
  then show ?case by (simp add: byte_count_pos)
next
  case (Suc k)
  have "(1 :: nat) \<le> 256 ^ Suc k" by simp
  with Suc.prems(1) have "0 < n" by linarith
  moreover have "256 ^ k \<le> n div 256" and "n div 256 < 256 ^ Suc k"
    using Suc.prems by (simp_all add: less_eq_div_iff_mult_less_eq div_less_iff_less_mult mult.commute)
  ultimately show ?case using Suc.IH by (simp add: byte_count_pos)
qed

lemma less_byte_count: "n < 256 ^ byte_count n"
proof (induction n rule: byte_count.induct)
  case (1 n)
  show ?case
  proof (cases "n = 0")
    case False
    with 1 have "n div 256 < 256 ^ byte_count (n div 256)" by simp
    then show ?thesis using False
      by (simp add: byte_count_pos div_less_iff_less_mult mult.commute)
  qed simp
qed

lemma byte_count_le: "n < 256 ^ k \<Longrightarrow> byte_count n \<le> k"
proof (induction k arbitrary: n)
  case 0
  then show ?case by simp
next
  case (Suc k)
  then have "n div 256 < 256 ^ k" by (simp add: div_less_iff_less_mult mult.commute)
  then have "byte_count (n div 256) \<le> k" by (rule Suc.IH)
  then show ?case by (cases "n = 0") (simp_all add: byte_count_pos)
qed

lemma unat_u64_less: "unat (v :: u64) < 256 ^ 8"
  using unsigned_less [of v, where ?'a = nat] by simp

lemma byte_count_u64: "byte_count (unat (v :: u64)) \<le> 8"
  using unat_u64_less by (rule byte_count_le)

subsection \<open>The variable-length unsigned integer\<close>

definition varint :: "u64 \<Rightarrow> byte list" where
  "varint v =
     (if v \<le> 0x7f then [ucast v]
      else - word_of_nat (byte_count (unat v)) # be_bytes (byte_count (unat v)) v)"

definition varint_dec :: "byte list \<Rightarrow> (u64 \<times> byte list) option" where
  "varint_dec bs =
     (case bs of
        [] \<Rightarrow> None
      | b # bs' \<Rightarrow>
          if b \<le> 0x7f then Some (ucast b, bs')
          else let n = 256 - unat b in
            if n \<le> 8 \<and> n \<le> length bs' then Some (be_fold 0 (take n bs'), drop n bs') else None)"

lemma unat_neg_byte: "0 < n \<Longrightarrow> n \<le> 8 \<Longrightarrow> unat (- word_of_nat n :: byte) = 256 - n"
  by (simp add: unat_uminus_byte unat_of_nat word_unat_eq_iff)

lemma unat_ucast_byte [simp]: "unat (ucast (b :: byte) :: u64) = unat b"
  using unat_byte_less [of b]
  by (simp add: unsigned_ucast_eq take_bit_nat_eq_self_iff)

lemma u64_le_7f: "v \<le> (0x7f :: u64) \<longleftrightarrow> unat v \<le> 127"
  by (simp add: word_le_nat_alt)

lemma byte_le_7f: "b \<le> (0x7f :: byte) \<longleftrightarrow> unat b \<le> 127"
  by (simp add: word_le_nat_alt)

lemma unat_ucast_small: "unat (v :: u64) < 256 \<Longrightarrow> unat (ucast v :: byte) = unat v"
  by (simp add: unsigned_ucast_eq take_bit_nat_eq_self_iff)

lemma varint_dec_varint: "varint_dec (varint v @ rest) = Some (v, rest)"
proof (cases "v \<le> 0x7f")
  case True
  then have small: "unat (ucast v :: byte) = unat v"
    by (intro unat_ucast_small) (simp add: u64_le_7f)
  then have "(ucast (ucast v :: byte) :: u64) = v"
    by (simp add: word_unat_eq_iff)
  then show ?thesis
    using True small by (simp add: varint_def varint_dec_def byte_le_7f u64_le_7f)
next
  case False
  define n where "n = byte_count (unat v)"
  have n: "0 < n" "n \<le> 8"
    using False byte_count_u64 [of v] by (auto simp: n_def u64_le_7f byte_count_pos)
  then have u: "unat (- word_of_nat n :: byte) = 256 - n"
    by (rule unat_neg_byte)
  have "be_fold 0 (be_bytes n v) = v"
    using n less_byte_count [of "unat v"] by (intro be_fold_be_bytes) (simp_all add: n_def)
  moreover have "\<not> 256 - n \<le> 127" using n by simp
  ultimately show ?thesis
    using False n u by (simp add: varint_def varint_dec_def Let_def byte_le_7f flip: n_def)
qed

lemma varint_dec_SomeD:
  assumes "varint_dec bs = Some (v, rest)"
  shows "\<exists>pre. bs = pre @ rest \<and> pre \<noteq> [] \<and> length pre \<le> 9"
proof (cases bs)
  case Nil
  with assms show ?thesis by (simp add: varint_dec_def)
next
  case (Cons b bs')
  then show ?thesis
    using assms append_take_drop_id [of "256 - unat b" bs']
    by (auto simp: varint_dec_def Let_def split: if_splits intro!: exI [of _ "b # take (256 - unat b) bs'"])
qed

interpretation varint: consuming_codec varint varint_dec "\<lambda>_. True"
  by unfold_locales (auto simp: varint_dec_varint dest: varint_dec_SomeD)

lemma length_varint: "length (varint v) \<le> 9" "0 < length (varint v)"
  using byte_count_u64 [of v] by (simp_all add: varint_def)

end
