(* ===== verification/FlowVarint.thy ===== *)
theory FlowVarint
  imports WireCodec
begin

text \<open>
  The primitive encodings at the end of flow/message/message.go: variable-length unsigned integers,
  written by two loops over a shift that counts down, and byte strings behind their length. They
  implement \<open>varint\<close> of theory WireCodec and interpret its codec interface.
\<close>

subsection \<open>writeVarUint64 and readVarUint64\<close>

text \<open>
  The first loop skips the leading zero bytes; the shift is a Go \<open>int\<close> and ends at \<open>-8\<close> when all
  bytes are zero. The second loop appends the bytes from the shift down.
\<close>

function skip_zero_bytes :: "u64 \<Rightarrow> int \<Rightarrow> byte \<Rightarrow> int \<times> byte" where
  "skip_zero_bytes u shift l =
     (if 0 \<le> shift \<and> (drop_bit (nat shift) u) AND 0xff = 0
      then skip_zero_bytes u (shift - 8) (l - 1) else (shift, l))"
  by pat_completeness auto
termination
  by (relation "measure (\<lambda>(u, shift, l). nat (shift + 8))") auto

function emit_bytes :: "u64 \<Rightarrow> int \<Rightarrow> byte list \<Rightarrow> byte list" where
  "emit_bytes u shift buf =
     (if 0 \<le> shift
      then emit_bytes u (shift - 8) (buf @ [ucast (drop_bit (nat shift) u) AND 0xff]) else buf)"
  by pat_completeness auto
termination
  by (relation "measure (\<lambda>(u, shift, buf). nat (shift + 8))") auto

declare skip_zero_bytes.simps [simp del] emit_bytes.simps [simp del]

definition writeVarUint64 :: "u64 \<Rightarrow> byte list \<Rightarrow> byte list" where
  "writeVarUint64 u buf =
     (if u \<le> 0x7f then buf @ [ucast u]
      else case skip_zero_bytes u 56 7 of (shift, l) \<Rightarrow> emit_bytes u shift (buf @ [0xff - l]))"

text \<open>
  \<open>readVarUint64\<close> returns the value, the rest and whether the read was valid. \<open>l\<close> is a byte, so
  \<open>0xff - l + 1\<close> is its negation.
\<close>

definition readVarUint64 :: "byte list \<Rightarrow> u64 \<times> byte list \<times> bool" where
  "readVarUint64 data =
     (case data of
        [] \<Rightarrow> (0, data, False)
      | l # rest \<Rightarrow>
          if l \<le> 0x7f then (ucast l, rest, True)
          else let n = 0xff - l + 1 in
            if 8 < n \<or> length data - 1 < unat n then (0, data, False)
            else (be_fold 0 (take (unat n) rest), drop (unat (n + 1)) data, True))"

definition appendLenBytes :: "byte list \<Rightarrow> byte list \<Rightarrow> byte list" where
  "appendLenBytes b buf = writeVarUint64 (word_of_nat (length b)) buf @ b"

definition readLenBytes :: "byte list \<Rightarrow> byte list \<times> byte list \<times> bool" where
  "readLenBytes data0 =
     (case readVarUint64 data0 of (l, data, valid) \<Rightarrow>
        if \<not> valid \<or> length data < unat l then ([], data, False)
        else if 0 < l then (take (unat l) data, drop (unat l) data, True)
        else ([], data, True))"

text \<open>A validity flag read as an option.\<close>

definition valid_result :: "'a \<times> byte list \<times> bool \<Rightarrow> ('a \<times> byte list) option" where
  "valid_result r = (case r of (v, rest, valid) \<Rightarrow> if valid then Some (v, rest) else None)"

lemma valid_result_Some: "valid_result r = Some (v, rest) \<longleftrightarrow> r = (v, rest, True)"
  by (auto simp: valid_result_def split: prod.splits if_splits)

subsection \<open>Both implement varint\<close>

lemma and_ff: "(w :: u64) AND 0xff = 0 \<longleftrightarrow> unat w mod 256 = 0"
proof -
  have "(0xff :: u64) = mask 8" by (simp add: mask_eq_exp_minus_1)
  then have "w AND 0xff = take_bit 8 w" by (simp only: take_bit_eq_mask)
  then have "unat (w AND 0xff) = unat w mod 256"
    by (simp only: unsigned_take_bit_eq) (simp add: take_bit_eq_mod)
  then show ?thesis by (metis unat_eq_zero)
qed

lemma byte_and_ff [simp]: "(b :: byte) AND 0xff = b"
proof -
  have "(0xff :: byte) = - 1" by simp
  then show ?thesis by (simp only: and.right_neutral)
qed

lemma unat_drop_bytes: "unat (drop_bit (8 * n) (u :: u64)) = unat u div 256 ^ n"
  by (simp only: unat_drop_bit_eq) (simp add: drop_bit_eq_div power_mult)

lemma skip_zero_bytes_eq:
  "unat u < 256 ^ n \<Longrightarrow> skip_zero_bytes u (8 * int n - 8) (word_of_nat n - 1)
     = (8 * int (byte_count (unat u)) - 8, word_of_nat (byte_count (unat u)) - 1)"
proof (induction n)
  case 0
  then show ?case by (simp add: skip_zero_bytes.simps)
next
  case (Suc n)
  have shift: "nat (8 * int (Suc n) - 8) = 8 * n" by simp
  show ?case
  proof (cases "unat u < 256 ^ n")
    case True
    then have "drop_bit (8 * n) u AND 0xff = 0" by (simp only: and_ff unat_drop_bytes) simp
    with Suc.IH [OF True] show ?thesis
      by (subst skip_zero_bytes.simps) (simp only: shift, simp)
  next
    case False
    have "unat u div 256 ^ n < 256" using Suc.prems by (simp add: div_less_iff_less_mult mult.commute)
    moreover have "0 < unat u div 256 ^ n" using False by (simp add: div_greater_zero_iff)
    ultimately have "drop_bit (8 * n) u AND 0xff \<noteq> 0" by (simp only: and_ff unat_drop_bytes) simp
    moreover have "byte_count (unat u) = Suc n"
      using False Suc.prems by (intro byte_count_eq) auto
    ultimately show ?thesis
      by (subst skip_zero_bytes.simps) (simp only: shift, simp)
  qed
qed

lemma emit_bytes_eq: "emit_bytes u (8 * int n - 8) buf = buf @ be_bytes n u"
proof (induction n arbitrary: buf)
  case 0
  then show ?case by (simp add: emit_bytes.simps)
next
  case (Suc n)
  have "nat (8 * int (Suc n) - 8) = 8 * n" by simp
  with Suc.IH show ?case
    by (subst emit_bytes.simps) (simp add: be_bytes_Suc)
qed

lemma writeVarUint64_eq: "writeVarUint64 u buf = buf @ varint u"
proof (cases "u \<le> 0x7f")
  case True
  then show ?thesis by (simp add: writeVarUint64_def varint_def)
next
  case False
  have "skip_zero_bytes u 56 7
      = (8 * int (byte_count (unat u)) - 8, word_of_nat (byte_count (unat u)) - 1)"
    using skip_zero_bytes_eq [OF unat_u64_less, of u] by simp
  moreover have "0xff - (word_of_nat k - 1 :: byte) = - word_of_nat k" for k
    by simp
  ultimately show ?thesis
    using False by (simp add: writeVarUint64_def varint_def emit_bytes_eq)
qed

lemma unat_byte_plus1: "unat (x :: byte) \<le> 8 \<Longrightarrow> unat (x + 1) = Suc (unat x)"
  by (simp add: unat_word_ariths)

lemma valid_readVarUint64: "valid_result (readVarUint64 data) = varint_dec data"
proof (cases data)
  case Nil
  then show ?thesis by (simp add: readVarUint64_def varint_dec_def valid_result_def)
next
  case (Cons l rest)
  show ?thesis
  proof (cases "l \<le> 0x7f")
    case True
    with Cons show ?thesis by (simp add: readVarUint64_def varint_dec_def valid_result_def)
  next
    case False
    define n where "n = 0xff - l + 1"
    have "n = - l" by (simp add: n_def)
    moreover have "l \<noteq> 0" using False by auto
    ultimately have n: "unat n = 256 - unat l" using unat_uminus_byte [of l] by simp
    have n1: "unat (n + 1) = Suc (unat n)" if "unat n \<le> 8"
      using that by (rule unat_byte_plus1)
    have "readVarUint64 data =
        (if 8 < n \<or> length rest < unat n then (0, data, False)
         else (be_fold 0 (take (unat n) rest), drop (unat (n + 1)) data, True))"
      using Cons False by (simp add: readVarUint64_def Let_def n_def)
    then show ?thesis
      using Cons False n n1
      by (auto simp: varint_dec_def valid_result_def Let_def word_less_nat_alt)
  qed
qed

lemma readVarUint64_iff: "readVarUint64 data = (v, rest, True) \<longleftrightarrow> varint_dec data = Some (v, rest)"
  by (metis valid_readVarUint64 valid_result_Some)

lemma readVarUint64_write [codec_simps]: "readVarUint64 (varint v @ rest) = (v, rest, True)"
  by (simp add: readVarUint64_iff varint_dec_varint)

lemma readVarUint64_shorter [shrink_intros]:
  "readVarUint64 data = (v, rest, True) \<Longrightarrow> length rest < length data"
  by (simp add: readVarUint64_iff varint.dec_shorter)

interpretation flow_varint:
  consuming_codec "\<lambda>u. writeVarUint64 u []" "\<lambda>data. valid_result (readVarUint64 data)" "\<lambda>_. True"
  by unfold_locales
    (auto simp: writeVarUint64_eq valid_readVarUint64 varint_dec_varint dest: varint.dec_consumes)

subsection \<open>Byte strings behind their length\<close>

definition len_bytes :: "byte list \<Rightarrow> byte list" where
  "len_bytes b = varint (word_of_nat (length b)) @ b"

text \<open>A byte string whose length fits an unsigned 64-bit integer, as every Go slice's does.\<close>

definition slice_ok :: "'a list \<Rightarrow> bool" where
  "slice_ok b \<longleftrightarrow> length b < 2 ^ 63"

lemma appendLenBytes_eq: "appendLenBytes b buf = buf @ len_bytes b"
  by (simp add: appendLenBytes_def writeVarUint64_eq len_bytes_def)

lemma unat_length: "slice_ok b \<Longrightarrow> unat (word_of_nat (length b) :: u64) = length b"
  by (simp add: slice_ok_def unat_of_nat)

lemma readLenBytes_len_bytes [codec_simps]:
  "slice_ok b \<Longrightarrow> readLenBytes (len_bytes b @ rest) = (b, rest, True)"
  by (auto simp: readLenBytes_def len_bytes_def readVarUint64_write unat_length word_less_nat_alt)

lemma readLenBytes_consumes:
  assumes "readLenBytes data = (b, rest, True)"
  shows "\<exists>pre. data = pre @ rest \<and> pre \<noteq> []"
proof -
  from assms obtain l d where r: "readVarUint64 data = (l, d, True)"
    and rest: "rest = d \<or> rest = drop (unat l) d"
    by (auto simp: readLenBytes_def split: prod.splits if_splits)
  from r obtain pre where pre: "data = pre @ d" "pre \<noteq> []"
    using varint.dec_consumes by (fastforce simp: readVarUint64_iff)
  have "d = take (unat l) d @ drop (unat l) d" by simp
  with pre rest show ?thesis by (metis append.assoc append_is_Nil_conv)
qed

interpretation flow_bytes:
  consuming_codec "\<lambda>b. appendLenBytes b []" "\<lambda>data. valid_result (readLenBytes data)" slice_ok
  by unfold_locales
    (auto simp: appendLenBytes_eq valid_result_Some readLenBytes_len_bytes dest: readLenBytes_consumes)

lemma readLenBytes_shorter [shrink_intros]:
  "readLenBytes data = (b, rest, True) \<Longrightarrow> length rest < length data"
  using flow_bytes.dec_shorter by (simp add: valid_result_Some)

end
