(* ===== verification/SecurityWire.thy ===== *)
theory SecurityWire
  imports GoPrelude
begin

text \<open>
  Signatures, caveats and certificates: security/signature.go, security/ecdsa.go, the digests of
  security/caveat.go and security/certificate.go, and the types of security/types.vdl.

  The cryptography of the standard library is a parameter: a record \<open>crypto\<close> with the SHA functions, the
  DER coding of public keys, the size of a key's curve, and ECDSA verification, and for a private key a
  record \<open>signer\<close>. What is relied on is stated as hypotheses: \<open>keys_ok\<close>, that decoding a key inverts
  encoding it, and \<open>signer_ok\<close>, that a signature verifies under the signer's key. A nil byte slice is
  the empty list, which is how the code uses it, but for the result of \<open>Hash.sum\<close>, where nil is tested.
\<close>

datatype hash_alg = SHA1 | SHA256 | SHA384 | SHA512

record 'k crypto =
  sha :: "hash_alg \<Rightarrow> byte list \<Rightarrow> byte list"
  parse_key :: "byte list \<Rightarrow> 'k option"
  marshal_key :: "'k \<Rightarrow> byte list option"
  key_bits :: "'k \<Rightarrow> nat"
  ecdsa_verify :: "'k \<Rightarrow> byte list \<Rightarrow> nat \<Rightarrow> nat \<Rightarrow> bool"

record 'k signer =
  signer_key :: 'k
  signer_sign :: "byte list \<Rightarrow> (nat \<times> nat) option"

definition keys_ok :: "'k crypto \<Rightarrow> bool" where
  "keys_ok cr \<longleftrightarrow> (\<forall>k b. marshal_key cr k = Some b \<longrightarrow> parse_key cr b = Some k)"

definition signer_ok :: "'k crypto \<Rightarrow> 'k signer \<Rightarrow> bool" where
  "signer_ok cr sg \<longleftrightarrow> (\<forall>m r s. signer_sign sg m = Some (r, s) \<longrightarrow> ecdsa_verify cr (signer_key sg) m r s)"

subsection \<open>Hashes and signatures\<close>

definition SHA1Hash :: string where "SHA1Hash = ''SHA1''"
definition SHA256Hash :: string where "SHA256Hash = ''SHA256''"
definition SHA384Hash :: string where "SHA384Hash = ''SHA384''"
definition SHA512Hash :: string where "SHA512Hash = ''SHA512''"

lemmas hash_defs = SHA1Hash_def SHA256Hash_def SHA384Hash_def SHA512Hash_def

definition hash_sum :: "'k crypto \<Rightarrow> string \<Rightarrow> byte list \<Rightarrow> byte list option" where
  "hash_sum cr hash data =
     (if hash = SHA1Hash then Some (sha cr SHA1 data)
      else if hash = SHA256Hash then Some (sha cr SHA256 data)
      else if hash = SHA384Hash then Some (sha cr SHA384 data)
      else if hash = SHA512Hash then Some (sha cr SHA512 data)
      else None)"

definition nil_bytes :: "byte list option \<Rightarrow> byte list" where
  "nil_bytes b = (case b of None \<Rightarrow> [] | Some x \<Rightarrow> x)"

abbreviation hsum :: "'k crypto \<Rightarrow> string \<Rightarrow> byte list \<Rightarrow> byte list" where
  "hsum cr hash data \<equiv> nil_bytes (hash_sum cr hash data)"

definition key_hash :: "'k crypto \<Rightarrow> 'k \<Rightarrow> string" where
  "key_hash cr pk =
     (let nbits = key_bits cr pk in
      if nbits \<le> 160 then SHA1Hash
      else if nbits \<le> 256 then SHA256Hash
      else if nbits \<le> 384 then SHA384Hash
      else SHA512Hash)"

record Signature =
  sigPurpose :: "byte list"
  sigHash :: string
  sigR :: "byte list"
  sigS :: "byte list"

definition zero_Signature :: Signature where
  "zero_Signature = \<lparr>sigPurpose = [], sigHash = [], sigR = [], sigS = []\<rparr>"

definition messageDigest :: "'k crypto \<Rightarrow> string \<Rightarrow> byte list \<Rightarrow> byte list \<Rightarrow> 'k \<Rightarrow> byte list option" where
  "messageDigest cr hash purpose message key =
     (case marshal_key cr key of
        None \<Rightarrow> None
      | Some keybytes \<Rightarrow>
          (case (hash_sum cr hash keybytes, hash_sum cr hash message, hash_sum cr hash purpose) of
             (Some a, Some b, Some c) \<Rightarrow> hash_sum cr hash (a @ b @ c)
           | _ \<Rightarrow> None))"

text \<open>\<open>big.Int.SetBytes\<close> and \<open>big.Int.Bytes\<close>.\<close>

definition set_bytes :: "byte list \<Rightarrow> nat" where
  "set_bytes bs = be_value bs"

fun int_bytes :: "nat \<Rightarrow> byte list" where
  "int_bytes n = (if n = 0 then [] else int_bytes (n div 256) @ [word_of_nat (n mod 256)])"

declare int_bytes.simps [simp del]

definition key_verify :: "'k crypto \<Rightarrow> 'k \<Rightarrow> byte list \<Rightarrow> Signature \<Rightarrow> bool" where
  "key_verify cr pk digest sig = ecdsa_verify cr pk digest (set_bytes (sigR sig)) (set_bytes (sigS sig))"

definition sig_Verify :: "'k crypto \<Rightarrow> Signature \<Rightarrow> 'k \<Rightarrow> byte list \<Rightarrow> bool" where
  "sig_Verify cr sig key message =
     (case messageDigest cr (sigHash sig) (sigPurpose sig) message key of
        None \<Rightarrow> False
      | Some m \<Rightarrow> key_verify cr key m sig)"

definition sig_digest :: "'k crypto \<Rightarrow> string \<Rightarrow> Signature \<Rightarrow> byte list" where
  "sig_digest cr hashfn sig =
     hsum cr hashfn
       (hsum cr hashfn (bytes_of (sigHash sig)) @ hsum cr hashfn (sigPurpose sig) @
        hsum cr hashfn (bytes_of ''ECDSA'') @ hsum cr hashfn (sigR sig) @ hsum cr hashfn (sigS sig))"

definition signer_Sign :: "'k crypto \<Rightarrow> 'k signer \<Rightarrow> byte list \<Rightarrow> byte list \<Rightarrow> Signature option" where
  "signer_Sign cr c purpose message =
     (let hash = key_hash cr (signer_key c) in
      case messageDigest cr hash purpose message (signer_key c) of
        None \<Rightarrow> None
      | Some m \<Rightarrow>
          (case signer_sign c m of
             None \<Rightarrow> None
           | Some (r, s) \<Rightarrow>
               Some \<lparr>sigPurpose = purpose, sigHash = hash, sigR = int_bytes r, sigS = int_bytes s\<rparr>))"

lemma set_bytes_int_bytes: "set_bytes (int_bytes n) = n"
proof (induction n rule: int_bytes.induct)
  case (1 n)
  show ?case
  proof (cases "n = 0")
    case False
    have "unat (word_of_nat (n mod 256) :: byte) = n mod 256" by (simp add: unat_of_nat)
    with False 1 show ?thesis by (simp add: int_bytes.simps [of n] set_bytes_def)
  qed (simp add: int_bytes.simps set_bytes_def)
qed

lemma key_hash_known: "hash_sum cr (key_hash cr pk) data \<noteq> None"
  by (simp add: hash_sum_def key_hash_def Let_def)

text \<open>A signature names the purpose and the hash it was made for, and verifies.\<close>

lemma signer_Sign_verifies:
  assumes "signer_ok cr sg" "signer_Sign cr sg purpose message = Some sig"
  shows "sigPurpose sig = purpose" "sigHash sig = key_hash cr (signer_key sg)"
    "sig_Verify cr sig (signer_key sg) message"
proof -
  from assms(2) obtain m r s where d: "messageDigest cr (key_hash cr (signer_key sg)) purpose message (signer_key sg) = Some m"
    and rs: "signer_sign sg m = Some (r, s)"
    and sig: "sig = \<lparr>sigPurpose = purpose, sigHash = key_hash cr (signer_key sg), sigR = int_bytes r, sigS = int_bytes s\<rparr>"
    by (auto simp: signer_Sign_def Let_def split: option.splits)
  show "sigPurpose sig = purpose" "sigHash sig = key_hash cr (signer_key sg)" by (simp_all add: sig)
  show "sig_Verify cr sig (signer_key sg) message"
    using d rs assms(1) by (simp add: sig_Verify_def sig key_verify_def set_bytes_int_bytes signer_ok_def)
qed

subsection \<open>Caveats and certificates\<close>

record Caveat =
  cavId :: "byte list"
  ParamVom :: "byte list"

record Certificate =
  Extension :: string
  certPublicKey :: "byte list"
  Caveats :: "Caveat list"
  certSignature :: Signature

definition cav_digest :: "'k crypto \<Rightarrow> string \<Rightarrow> Caveat \<Rightarrow> byte list" where
  "cav_digest cr hash c = hsum cr hash (hsum cr hash (cavId c) @ hsum cr hash (ParamVom c))"

definition contentDigest :: "'k crypto \<Rightarrow> string \<Rightarrow> Certificate \<Rightarrow> byte list" where
  "contentDigest cr hashfn c =
     hsum cr hashfn
       (hsum cr hashfn (certPublicKey c) @ hsum cr hashfn (bytes_of (Extension c)) @
        concat (map (cav_digest cr hashfn) (Caveats c)))"

text \<open>The digest and the content digest of a certificate chained to a chain with a given digest.\<close>

definition chainedDigests :: "'k crypto \<Rightarrow> string \<Rightarrow> Certificate \<Rightarrow> byte list \<Rightarrow> byte list \<times> byte list" where
  "chainedDigests cr hashfn c chain =
     (let content = contentDigest cr hashfn c;
          digest = hsum cr hashfn (content @ sig_digest cr hashfn (certSignature c))
      in if 0 < length chain
         then (hsum cr hashfn (hsum cr hashfn chain @ digest), hsum cr hashfn (hsum cr hashfn chain @ content))
         else (digest, content))"

text \<open>The content digest does not depend on the signature.\<close>

lemma snd_chainedDigests_signature [simp]:
  "snd (chainedDigests cr h (c\<lparr>certSignature := sig\<rparr>) d) = snd (chainedDigests cr h c d)"
  by (simp add: chainedDigests_def Let_def contentDigest_def)

end
