(* ===== verification/FlowMessage.thy ===== *)
theory FlowMessage
  imports FlowVarint NamingEndpoint SecurityWire
begin

text \<open>
  The low-level messages of a connection: flow/message/message.go. One group of definitions per
  message type, its \<open>append\<close> and its \<open>read\<close>, then \<open>Append\<close> and \<open>Read\<close>, which dispatch on the type
  byte. The Go interface \<open>Message\<close> is the locale \<open>wire_message\<close>, interpreted for every message type.

  A Go map is iterated in an arbitrary order, so \<open>append\<close> of a \<open>Release\<close> takes the order in which the
  runtime visits the flow ids.
\<close>

subsection \<open>Types, options and flags\<close>

definition invalidType :: byte where "invalidType = 0x7f"
definition setupType :: byte where "setupType = 0x7f - 1"
definition tearDownType :: byte where "tearDownType = 0x7f - 2"
definition enterLameDuckType :: byte where "enterLameDuckType = 0x7f - 3"
definition ackLameDuckType :: byte where "ackLameDuckType = 0x7f - 4"
definition authType :: byte where "authType = 0x7f - 5"
definition openFlowType :: byte where "openFlowType = 0x7f - 6"
definition releaseType :: byte where "releaseType = 0x7f - 7"
definition dataType :: byte where "dataType = 0x7f - 8"
definition multiProxyType :: byte where "multiProxyType = 0x7f - 9"
definition proxyServerType :: byte where "proxyServerType = 0x7f - 10"
definition proxyResponseType :: byte where "proxyResponseType = 0x7f - 11"
definition healthCheckRequestType :: byte where "healthCheckRequestType = 0x7f - 12"
definition healthCheckResponseType :: byte where "healthCheckResponseType = 0x7f - 13"
definition proxyErrorReponseType :: byte where "proxyErrorReponseType = 0x7f - 14"

lemmas type_defs =
  invalidType_def setupType_def tearDownType_def enterLameDuckType_def ackLameDuckType_def
  authType_def openFlowType_def releaseType_def dataType_def multiProxyType_def proxyServerType_def
  proxyResponseType_def healthCheckRequestType_def healthCheckResponseType_def
  proxyErrorReponseType_def

definition invalidOption :: u64 where "invalidOption = 0"
definition peerNaClPublicKeyOption :: u64 where "peerNaClPublicKeyOption = 1"
definition peerRemoteEndpointOption :: u64 where "peerRemoteEndpointOption = 2"
definition peerLocalEndpointOption :: u64 where "peerLocalEndpointOption = 3"
definition mtuOption :: u64 where "mtuOption = 4"
definition sharedTokensOption :: u64 where "sharedTokensOption = 5"

lemmas option_defs =
  invalidOption_def peerNaClPublicKeyOption_def peerRemoteEndpointOption_def
  peerLocalEndpointOption_def mtuOption_def sharedTokensOption_def

definition CloseFlag :: u64 where "CloseFlag = 1"
definition DisableEncryptionFlag :: u64 where "DisableEncryptionFlag = 2"
definition SideChannelFlag :: u64 where "SideChannelFlag = 4"

datatype msg_error =
    InvalidMsg byte nat nat "msg_error option"
  | InvalidSetupOption u64 nat
  | UnknownMsg byte
  | MissingBlessings byte
  | BadEndpoint ep_error

subsection \<open>The interface of a message\<close>

text \<open>
  \<open>append\<close> only extends its buffer, by the type byte and a body; \<open>read\<close> of the body of a message
  gives the message back in the normal form \<open>norm\<close> of its type.
\<close>

locale wire_message =
  fixes append :: "'m \<Rightarrow> byte list \<Rightarrow> byte list"
    and read :: "byte list \<Rightarrow> msg_error + 'm"
    and tag :: byte
    and ok :: "'m \<Rightarrow> bool"
    and norm :: "'m \<Rightarrow> 'm"
  assumes append_body: "\<exists>body. \<forall>data. append m data = data @ tag # body"
    and read_append: "ok m \<Longrightarrow> append m [] = tag # body \<Longrightarrow> read body = Inr (norm m)"
begin

lemma append_extends: "append m data = data @ append m []"
proof -
  obtain body where "\<And>data. append m data = data @ tag # body" using append_body [of m] by auto
  then show ?thesis by simp
qed

lemma append_Cons_tag: "append m [] = tag # tl (append m [])"
proof -
  obtain body where "\<And>data. append m data = data @ tag # body" using append_body [of m] by auto
  then show ?thesis by simp
qed

lemma read_tl_append: "ok m \<Longrightarrow> read (tl (append m [])) = Inr (norm m)"
  by (rule read_append [OF _ append_Cons_tag])

lemma norm_determined:
  "ok m \<Longrightarrow> ok m' \<Longrightarrow> append m [] = append m' [] \<Longrightarrow> norm m = norm m'"
  using read_tl_append [of m] read_tl_append [of m'] by simp

end

subsection \<open>Setup\<close>

record Setup =
  vMin :: u32
  vMax :: u32
  PeerNaClPublicKey :: "byte list option"
  PeerRemoteEndpoint :: Endpoint
  PeerLocalEndpoint :: Endpoint
  Mtu :: u64
  SharedTokens :: u64
  uninterpretedOptions :: "(u64 \<times> byte list) list"

definition zero_Setup :: Setup where
  "zero_Setup =
     \<lparr>vMin = 0, vMax = 0, PeerNaClPublicKey = None, PeerRemoteEndpoint = zero_Endpoint,
      PeerLocalEndpoint = zero_Endpoint, Mtu = 0, SharedTokens = 0, uninterpretedOptions = []\<rparr>"

definition appendSetupOption :: "u64 \<Rightarrow> byte list \<Rightarrow> byte list \<Rightarrow> byte list" where
  "appendSetupOption option payload buf = appendLenBytes payload (writeVarUint64 option buf)"

definition readSetupOption :: "byte list \<Rightarrow> msg_error + u64 \<times> byte list \<times> byte list" where
  "readSetupOption orig =
     (case readVarUint64 orig of
        (opt, d, False) \<Rightarrow> Inl (InvalidSetupOption invalidOption 0)
      | (opt, d, True) \<Rightarrow>
          (case readLenBytes d of
             (p, d', False) \<Rightarrow> Inl (InvalidSetupOption opt 1)
           | (p, d', True) \<Rightarrow> Inr (opt, p, d')))"

definition setup_append :: "Setup \<Rightarrow> byte list \<Rightarrow> byte list" where
  "setup_append m data0 =
     (let data = data0 @ [setupType];
          data = writeVarUint64 (ucast (vMin m)) data;
          data = writeVarUint64 (ucast (vMax m)) data;
          data = (case PeerNaClPublicKey m of None \<Rightarrow> data
                  | Some k \<Rightarrow> appendSetupOption peerNaClPublicKeyOption k data);
          data = (if \<not> ep_IsZero (PeerRemoteEndpoint m)
                  then appendSetupOption peerRemoteEndpointOption
                         (bytes_of (ep_String (PeerRemoteEndpoint m))) data else data);
          data = (if \<not> ep_IsZero (PeerLocalEndpoint m)
                  then appendSetupOption peerLocalEndpointOption
                         (bytes_of (ep_String (PeerLocalEndpoint m))) data else data);
          data = (if Mtu m \<noteq> 0
                  then appendSetupOption mtuOption (writeVarUint64 (Mtu m) []) data else data);
          data = (if SharedTokens m \<noteq> 0
                  then appendSetupOption sharedTokensOption (writeVarUint64 (SharedTokens m) []) data
                  else data)
      in foldl (\<lambda>data (opt, payload). appendSetupOption opt payload data) data (uninterpretedOptions m))"

text \<open>\<open>copy(m.PeerNaClPublicKey[:], payload)\<close> into a fresh array of 32 zero bytes.\<close>

definition copy_key :: "byte list \<Rightarrow> byte list" where
  "copy_key payload = take 32 payload @ replicate (32 - length payload) 0"

text \<open>The switch over the option in the loop of \<open>read\<close>; \<open>sz\<close> is \<open>len(orig)\<close>.\<close>

definition setup_option :: "nat \<Rightarrow> nat \<Rightarrow> u64 \<Rightarrow> byte list \<Rightarrow> Setup \<Rightarrow> msg_error + Setup" where
  "setup_option sz field opt payload m =
     (if opt = peerNaClPublicKeyOption then Inr (m\<lparr>PeerNaClPublicKey := Some (copy_key payload)\<rparr>)
      else if opt = peerRemoteEndpointOption then
        (case ParseEndpoint (string_of payload) of
           Inl e \<Rightarrow> Inl (InvalidMsg setupType sz field (Some (BadEndpoint e)))
         | Inr ep \<Rightarrow> Inr (m\<lparr>PeerRemoteEndpoint := ep\<rparr>))
      else if opt = peerLocalEndpointOption then
        (case ParseEndpoint (string_of payload) of
           Inl e \<Rightarrow> Inl (InvalidMsg setupType sz field (Some (BadEndpoint e)))
         | Inr ep \<Rightarrow> Inr (m\<lparr>PeerLocalEndpoint := ep\<rparr>))
      else if opt = mtuOption then
        (case readVarUint64 payload of
           (mtu, _, True) \<Rightarrow> Inr (m\<lparr>Mtu := mtu\<rparr>)
         | (_, _, False) \<Rightarrow> Inl (InvalidSetupOption opt field))
      else if opt = sharedTokensOption then
        (case readVarUint64 payload of
           (t, _, True) \<Rightarrow> Inr (m\<lparr>SharedTokens := t\<rparr>)
         | (_, _, False) \<Rightarrow> Inl (InvalidSetupOption opt field))
      else Inr (m\<lparr>uninterpretedOptions := uninterpretedOptions m @ [(opt, payload)]\<rparr>))"

lemma readSetupOption_shorter [shrink_intros]:
  "readSetupOption data = Inr (opt, p, rest) \<Longrightarrow> length rest < length data"
  by (auto simp: readSetupOption_def split: prod.splits bool.splits
      dest!: readVarUint64_shorter readLenBytes_shorter)

function setup_options :: "nat \<Rightarrow> nat \<Rightarrow> byte list \<Rightarrow> Setup \<Rightarrow> msg_error + Setup" where
  "setup_options sz field data m =
     (if data = [] then Inr m
      else case readSetupOption data of
        Inl e \<Rightarrow> Inl (InvalidMsg setupType sz field (Some e))
      | Inr (opt, payload, rest) \<Rightarrow>
          and_then (setup_option sz field opt payload m) (\<lambda>m'. setup_options sz (field + 1) rest m'))"
  by pat_completeness auto
termination
  by (relation "measure (\<lambda>(sz, field, data, m). length data)") (auto dest: readSetupOption_shorter)

declare setup_options.simps [simp del]

definition setup_read :: "byte list \<Rightarrow> msg_error + Setup" where
  "setup_read orig =
     (case readVarUint64 orig of
        (v, data, False) \<Rightarrow> Inl (InvalidMsg setupType (length orig) 0 None)
      | (v, data, True) \<Rightarrow>
          (case readVarUint64 data of
             (w, data', False) \<Rightarrow> Inl (InvalidMsg setupType (length orig) 1 None)
           | (w, data', True) \<Rightarrow>
               setup_options (length orig) 2 data' (zero_Setup\<lparr>vMin := ucast v, vMax := ucast w\<rparr>)))"

subsection \<open>TearDown, lame duck, proxy requests and health checks\<close>

definition teardown_append :: "string \<Rightarrow> byte list \<Rightarrow> byte list" where
  "teardown_append msg data = (data @ [tearDownType]) @ bytes_of msg"

definition teardown_read :: "byte list \<Rightarrow> msg_error + string" where
  "teardown_read data = Inr (string_of data)"

definition proxy_error_append :: "string \<Rightarrow> byte list \<Rightarrow> byte list" where
  "proxy_error_append msg data = (data @ [proxyErrorReponseType]) @ bytes_of msg"

definition proxy_error_read :: "byte list \<Rightarrow> msg_error + string" where
  "proxy_error_read orig = Inr (string_of orig)"

text \<open>The six messages without fields: the type byte alone, and a body that is not looked at.\<close>

definition empty_append :: "byte \<Rightarrow> unit \<Rightarrow> byte list \<Rightarrow> byte list" where
  "empty_append tag m data = data @ [tag]"

definition empty_read :: "byte list \<Rightarrow> msg_error + unit" where
  "empty_read data = Inr ()"

subsection \<open>Auth\<close>

record Auth =
  authBlessingsKey :: u64
  authDischargeKey :: u64
  ChannelBinding :: Signature

definition auth_append :: "Auth \<Rightarrow> byte list \<Rightarrow> byte list" where
  "auth_append m data0 =
     (let data = data0 @ [authType];
          data = writeVarUint64 (authBlessingsKey m) data;
          data = writeVarUint64 (authDischargeKey m) data;
          data = appendLenBytes (sigPurpose (ChannelBinding m)) data;
          data = appendLenBytes (bytes_of (sigHash (ChannelBinding m))) data;
          data = appendLenBytes (sigR (ChannelBinding m)) data
      in appendLenBytes (sigS (ChannelBinding m)) data)"

text \<open>A read that fails with \<open>ErrInvalidMsg\<close> of a type, at a field.\<close>

definition field_of :: "byte \<Rightarrow> nat \<Rightarrow> nat \<Rightarrow> 'a \<times> byte list \<times> bool \<Rightarrow> msg_error + 'a \<times> byte list" where
  "field_of ty sz field r =
     (case r of (v, rest, valid) \<Rightarrow> if valid then Inr (v, rest) else Inl (InvalidMsg ty sz field None))"

definition auth_read :: "byte list \<Rightarrow> msg_error + Auth" where
  "auth_read orig =
     and_then (field_of openFlowType (length orig) 0 (readVarUint64 orig)) (\<lambda>(bkey, data).
     if bkey = 0 then Inl (MissingBlessings openFlowType) else
     and_then (field_of openFlowType (length orig) 1 (readVarUint64 data)) (\<lambda>(dkey, data).
     and_then (field_of openFlowType (length orig) 2 (readLenBytes data)) (\<lambda>(purpose, data).
     and_then (field_of openFlowType (length orig) 3 (readLenBytes data)) (\<lambda>(hash, data).
     and_then (field_of openFlowType (length orig) 4 (readLenBytes data)) (\<lambda>(r, data).
     and_then (field_of openFlowType (length orig) 5 (readLenBytes data)) (\<lambda>(s, data).
       Inr \<lparr>authBlessingsKey = bkey, authDischargeKey = dkey,
            ChannelBinding = \<lparr>sigPurpose = purpose, sigHash = string_of hash, sigR = r, sigS = s\<rparr>\<rparr>))))))"

subsection \<open>OpenFlow\<close>

record OpenFlow =
  ofID :: u64
  InitialCounters :: u64
  ofBlessingsKey :: u64
  ofDischargeKey :: u64
  ofFlags :: u64
  ofPayload :: "byte list list"

definition openflow_append :: "OpenFlow \<Rightarrow> byte list \<Rightarrow> byte list" where
  "openflow_append m data0 =
     (let data = data0 @ [openFlowType];
          data = writeVarUint64 (ofID m) data;
          data = writeVarUint64 (InitialCounters m) data;
          data = writeVarUint64 (ofBlessingsKey m) data;
          data = writeVarUint64 (ofDischargeKey m) data;
          data = writeVarUint64 (ofFlags m) data
      in if ofFlags m AND DisableEncryptionFlag = 0
         then foldl (\<lambda>data p. data @ p) data (ofPayload m) else data)"

definition openflow_read :: "byte list \<Rightarrow> msg_error + OpenFlow" where
  "openflow_read orig =
     and_then (field_of openFlowType (length orig) 0 (readVarUint64 orig)) (\<lambda>(fid, data).
     and_then (field_of openFlowType (length orig) 1 (readVarUint64 data)) (\<lambda>(counters, data).
     and_then (field_of openFlowType (length orig) 2 (readVarUint64 data)) (\<lambda>(bkey, data).
     if bkey = 0 then Inl (MissingBlessings openFlowType) else
     and_then (field_of openFlowType (length orig) 3 (readVarUint64 data)) (\<lambda>(dkey, data).
     and_then (field_of dataType (length orig) 1 (readVarUint64 data)) (\<lambda>(flags, data).
       Inr \<lparr>ofID = fid, InitialCounters = counters, ofBlessingsKey = bkey, ofDischargeKey = dkey,
            ofFlags = flags,
            ofPayload = (if flags AND DisableEncryptionFlag = 0 \<and> 0 < length data then [data] else [])\<rparr>)))))"

subsection \<open>Release\<close>

definition release_append :: "u64 list \<Rightarrow> (u64 \<rightharpoonup> u64) \<Rightarrow> byte list \<Rightarrow> byte list" where
  "release_append order m data =
     foldl (\<lambda>data fid. case m fid of
              None \<Rightarrow> data
            | Some v \<Rightarrow> writeVarUint64 v (writeVarUint64 fid data)) (data @ [releaseType]) order"

function release_loop :: "nat \<Rightarrow> nat \<Rightarrow> byte list \<Rightarrow> (u64 \<rightharpoonup> u64) \<Rightarrow> msg_error + (u64 \<rightharpoonup> u64)" where
  "release_loop sz n data m =
     (if data = [] then Inr m
      else case readVarUint64 data of
        (fid, d, False) \<Rightarrow> Inl (InvalidMsg releaseType sz n None)
      | (fid, d, True) \<Rightarrow>
          (case readVarUint64 d of
             (v, d', False) \<Rightarrow> Inl (InvalidMsg releaseType sz (n + 1) None)
           | (v, d', True) \<Rightarrow> release_loop sz (n + 2) d' (m(fid \<mapsto> v))))"
  by pat_completeness auto
termination
  by (relation "measure (\<lambda>(sz, n, data, m). length data)")
    (auto dest!: sym [of "(_, _, True)"] readVarUint64_shorter)

declare release_loop.simps [simp del]

definition release_read :: "byte list \<Rightarrow> msg_error + (u64 \<rightharpoonup> u64)" where
  "release_read orig =
     (if length orig = 0 then Inr Map.empty else release_loop (length orig) 0 orig Map.empty)"

subsection \<open>Data\<close>

record Data =
  dataID :: u64
  dataFlags :: u64
  dataPayload :: "byte list list"

definition data_append :: "Data \<Rightarrow> byte list \<Rightarrow> byte list" where
  "data_append m data0 =
     (let data = data0 @ [dataType];
          data = writeVarUint64 (dataID m) data;
          data = writeVarUint64 (dataFlags m) data
      in if dataFlags m AND DisableEncryptionFlag = 0
         then foldl (\<lambda>data p. data @ p) data (dataPayload m) else data)"

definition data_read :: "byte list \<Rightarrow> msg_error + Data" where
  "data_read orig =
     and_then (field_of dataType (length orig) 0 (readVarUint64 orig)) (\<lambda>(fid, data).
     and_then (field_of dataType (length orig) 1 (readVarUint64 data)) (\<lambda>(flags, data).
       Inr \<lparr>dataID = fid, dataFlags = flags,
            dataPayload = (if flags AND DisableEncryptionFlag = 0 \<and> 0 < length data then [data] else [])\<rparr>))"

subsection \<open>ProxyResponse\<close>

definition proxy_response_append :: "Endpoint list \<Rightarrow> byte list \<Rightarrow> byte list" where
  "proxy_response_append eps data =
     foldl (\<lambda>data ep. appendLenBytes (bytes_of (ep_String ep)) data) (data @ [proxyResponseType]) eps"

function proxy_response_loop :: "nat \<Rightarrow> nat \<Rightarrow> byte list \<Rightarrow> Endpoint list \<Rightarrow> msg_error + Endpoint list" where
  "proxy_response_loop sz i data eps =
     (if data = [] then Inr eps
      else case readLenBytes data of
        (epBytes, d, False) \<Rightarrow> Inl (InvalidMsg proxyResponseType sz i None)
      | (epBytes, d, True) \<Rightarrow>
          (case ParseEndpoint (string_of epBytes) of
             Inl e \<Rightarrow> Inl (InvalidMsg proxyResponseType sz i (Some (BadEndpoint e)))
           | Inr ep \<Rightarrow> proxy_response_loop sz (i + 1) d (eps @ [ep])))"
  by pat_completeness auto
termination
  by (relation "measure (\<lambda>(sz, i, data, eps). length data)")
    (auto dest!: sym [of "(_, _, True)"] readLenBytes_shorter)

declare proxy_response_loop.simps [simp del]

definition proxy_response_read :: "byte list \<Rightarrow> msg_error + Endpoint list" where
  "proxy_response_read orig = proxy_response_loop (length orig) 0 orig []"

definition payloadSize :: "byte list list \<Rightarrow> nat" where
  "payloadSize payload = foldl (\<lambda>sz p. sz + length p) 0 payload"

subsection \<open>Append and Read\<close>

datatype Message =
    MSetup Setup
  | MTearDown string
  | MEnterLameDuck
  | MAckLameDuck
  | MAuth Auth
  | MOpenFlow OpenFlow
  | MRelease "u64 \<rightharpoonup> u64"
  | MData Data
  | MMultiProxyRequest
  | MProxyServerRequest
  | MProxyResponse "Endpoint list"
  | MProxyErrorResponse string
  | MHealthCheckRequest
  | MHealthCheckResponse

text \<open>The order argument is that of the iteration over the counters of a \<open>Release\<close>.\<close>

fun Append :: "u64 list \<Rightarrow> Message \<Rightarrow> byte list \<Rightarrow> byte list" where
  "Append order (MSetup m) to = setup_append m to"
| "Append order (MTearDown m) to = teardown_append m to"
| "Append order MEnterLameDuck to = empty_append enterLameDuckType () to"
| "Append order MAckLameDuck to = empty_append ackLameDuckType () to"
| "Append order (MAuth m) to = auth_append m to"
| "Append order (MOpenFlow m) to = openflow_append m to"
| "Append order (MRelease m) to = release_append order m to"
| "Append order (MData m) to = data_append m to"
| "Append order MMultiProxyRequest to = empty_append multiProxyType () to"
| "Append order MProxyServerRequest to = empty_append proxyServerType () to"
| "Append order (MProxyResponse m) to = proxy_response_append m to"
| "Append order (MProxyErrorResponse m) to = proxy_error_append m to"
| "Append order MHealthCheckRequest to = empty_append healthCheckRequestType () to"
| "Append order MHealthCheckResponse to = empty_append healthCheckResponseType () to"

definition Read :: "byte list \<Rightarrow> msg_error + Message" where
  "Read from0 =
     (case from0 of
        [] \<Rightarrow> Inl (InvalidMsg invalidType 0 0 None)
      | msgType # rest \<Rightarrow>
          if msgType = setupType then and_then (setup_read rest) (\<lambda>m. Inr (MSetup m))
          else if msgType = tearDownType then and_then (teardown_read rest) (\<lambda>m. Inr (MTearDown m))
          else if msgType = enterLameDuckType then and_then (empty_read rest) (\<lambda>_. Inr MEnterLameDuck)
          else if msgType = ackLameDuckType then and_then (empty_read rest) (\<lambda>_. Inr MAckLameDuck)
          else if msgType = authType then and_then (auth_read rest) (\<lambda>m. Inr (MAuth m))
          else if msgType = openFlowType then and_then (openflow_read rest) (\<lambda>m. Inr (MOpenFlow m))
          else if msgType = releaseType then and_then (release_read rest) (\<lambda>m. Inr (MRelease m))
          else if msgType = dataType then and_then (data_read rest) (\<lambda>m. Inr (MData m))
          else if msgType = multiProxyType then and_then (empty_read rest) (\<lambda>_. Inr MMultiProxyRequest)
          else if msgType = proxyServerType then and_then (empty_read rest) (\<lambda>_. Inr MProxyServerRequest)
          else if msgType = proxyResponseType then
            and_then (proxy_response_read rest) (\<lambda>m. Inr (MProxyResponse m))
          else if msgType = proxyErrorReponseType then
            and_then (proxy_error_read rest) (\<lambda>m. Inr (MProxyErrorResponse m))
          else if msgType = healthCheckRequestType then
            and_then (empty_read rest) (\<lambda>_. Inr MHealthCheckRequest)
          else if msgType = healthCheckResponseType then
            and_then (empty_read rest) (\<lambda>_. Inr MHealthCheckResponse)
          else Inl (UnknownMsg msgType))"

subsection \<open>What each append writes\<close>

definition field_bytes :: "u64 \<times> byte list \<Rightarrow> byte list" where
  "field_bytes f = varint (fst f) @ len_bytes (snd f)"

lemma appendSetupOption_eq: "appendSetupOption opt p buf = buf @ field_bytes (opt, p)"
  by (simp add: appendSetupOption_def writeVarUint64_eq appendLenBytes_eq field_bytes_def)

lemma foldl_extends:
  "(\<And>d x. x \<in> set xs \<Longrightarrow> f d x = d @ g x) \<Longrightarrow> foldl f d xs = d @ concat (map g xs)"
  by (induction xs arbitrary: d) simp_all

lemma readSetupOption_field_bytes:
  "slice_ok p \<Longrightarrow> readSetupOption (field_bytes (opt, p) @ rest) = Inr (opt, p, rest)"
  by (simp add: readSetupOption_def field_bytes_def codec_simps)

lemma field_bytes_not_Nil [simp]: "field_bytes f \<noteq> []"
  using length_varint(2) [of "fst f"] by (auto simp: field_bytes_def)

text \<open>The options of a \<open>Setup\<close>, in the order they are written.\<close>

definition setup_fields :: "Setup \<Rightarrow> (u64 \<times> byte list) list" where
  "setup_fields m =
     (case PeerNaClPublicKey m of None \<Rightarrow> [] | Some k \<Rightarrow> [(peerNaClPublicKeyOption, k)])
     @ (if ep_IsZero (PeerRemoteEndpoint m) then []
        else [(peerRemoteEndpointOption, bytes_of (ep_String (PeerRemoteEndpoint m)))])
     @ (if ep_IsZero (PeerLocalEndpoint m) then []
        else [(peerLocalEndpointOption, bytes_of (ep_String (PeerLocalEndpoint m)))])
     @ (if Mtu m = 0 then [] else [(mtuOption, varint (Mtu m))])
     @ (if SharedTokens m = 0 then [] else [(sharedTokensOption, varint (SharedTokens m))])
     @ uninterpretedOptions m"

lemma setup_append_eq:
  "setup_append m data = data @ setupType # varint (ucast (vMin m)) @ varint (ucast (vMax m))
     @ concat (map field_bytes (setup_fields m))"
proof -
  have "foldl (\<lambda>data (opt, p). appendSetupOption opt p data) d xs = d @ concat (map field_bytes xs)" for d xs
    by (rule foldl_extends) (auto simp: appendSetupOption_eq)
  then show ?thesis
    by (simp add: setup_append_def Let_def writeVarUint64_eq appendSetupOption_eq setup_fields_def
        split: option.split)
qed

lemma auth_append_eq:
  "auth_append m data = data @ authType # varint (authBlessingsKey m) @ varint (authDischargeKey m)
     @ len_bytes (sigPurpose (ChannelBinding m)) @ len_bytes (bytes_of (sigHash (ChannelBinding m)))
     @ len_bytes (sigR (ChannelBinding m)) @ len_bytes (sigS (ChannelBinding m))"
  by (simp add: auth_append_def Let_def writeVarUint64_eq appendLenBytes_eq)

definition payload_bytes :: "u64 \<Rightarrow> byte list list \<Rightarrow> byte list" where
  "payload_bytes flags payload = (if flags AND DisableEncryptionFlag = 0 then concat payload else [])"

lemma foldl_concat: "foldl (\<lambda>data p. data @ p) d ps = d @ concat ps"
  using foldl_extends [of ps "\<lambda>data p. data @ p" "\<lambda>p. p" d] by simp

lemma openflow_append_eq:
  "openflow_append m data = data @ openFlowType # varint (ofID m) @ varint (InitialCounters m)
     @ varint (ofBlessingsKey m) @ varint (ofDischargeKey m) @ varint (ofFlags m)
     @ payload_bytes (ofFlags m) (ofPayload m)"
  by (simp add: openflow_append_def Let_def writeVarUint64_eq foldl_concat payload_bytes_def)

lemma data_append_eq:
  "data_append m data = data @ dataType # varint (dataID m) @ varint (dataFlags m)
     @ payload_bytes (dataFlags m) (dataPayload m)"
  by (simp add: data_append_def Let_def writeVarUint64_eq foldl_concat payload_bytes_def)

definition counter_bytes :: "(u64 \<rightharpoonup> u64) \<Rightarrow> u64 \<Rightarrow> byte list" where
  "counter_bytes m fid = (case m fid of None \<Rightarrow> [] | Some v \<Rightarrow> varint fid @ varint v)"

lemma release_append_eq:
  "release_append order m data = data @ releaseType # concat (map (counter_bytes m) order)"
  unfolding release_append_def
  by (subst foldl_extends [where g = "counter_bytes m"])
    (auto simp: counter_bytes_def writeVarUint64_eq split: option.split)

lemma proxy_response_append_eq:
  "proxy_response_append eps data
     = data @ proxyResponseType # concat (map (\<lambda>ep. len_bytes (bytes_of (ep_String ep))) eps)"
  unfolding proxy_response_append_def
  by (subst foldl_extends) (auto simp: appendLenBytes_eq)

lemmas append_eqs =
  setup_append_eq auth_append_eq openflow_append_eq data_append_eq release_append_eq
  proxy_response_append_eq

subsection \<open>What each read returns\<close>

lemma field_of_simps [simp]:
  "field_of ty sz n (v, rest, True) = Inr (v, rest)"
  "field_of ty sz n (v, rest, False) = Inl (InvalidMsg ty sz n None)"
  by (simp_all add: field_of_def)

lemma ep_IsZero_iff: "ep_IsZero e \<longleftrightarrow> e = zero_Endpoint"
  by (auto simp: ep_IsZero_def zero_Endpoint_def)

lemma setup_options_Nil [simp]: "setup_options sz n [] m = Inr m"
  by (simp add: setup_options.simps)

lemma setup_options_field:
  "slice_ok p \<Longrightarrow> setup_options sz n (field_bytes (opt, p) @ rest) m
     = and_then (setup_option sz n opt p m) (\<lambda>m'. setup_options sz (n + 1) rest m')"
  by (subst setup_options.simps) (simp add: readSetupOption_field_bytes)

text \<open>A list of fields is read by one \<open>setup_option\<close> after the other.\<close>

fun setup_fold :: "nat \<Rightarrow> nat \<Rightarrow> (u64 \<times> byte list) list \<Rightarrow> Setup \<Rightarrow> msg_error + Setup" where
  "setup_fold sz n [] m = Inr m"
| "setup_fold sz n ((opt, p) # fs) m =
     and_then (setup_option sz n opt p m) (\<lambda>m'. setup_fold sz (n + 1) fs m')"

lemma setup_options_fold:
  "list_all (\<lambda>f. slice_ok (snd f)) fs \<Longrightarrow>
     setup_options sz n (concat (map field_bytes fs)) m = setup_fold sz n fs m"
proof (induction fs arbitrary: n m)
  case (Cons f fs)
  obtain opt p where "f = (opt, p)" by (cases f)
  with Cons show ?case by (simp add: setup_options_field cong: and_then_cong)
qed simp

lemma setup_fold_append:
  "setup_fold sz n (fs @ gs) m = and_then (setup_fold sz n fs m) (\<lambda>m'. setup_fold sz (n + length fs) gs m')"
proof (induction fs arbitrary: n m)
  case (Cons f fs)
  obtain opt p where "f = (opt, p)" by (cases f)
  with Cons show ?case by (cases "setup_option sz n opt p m") simp_all
qed simp

definition known_option :: "u64 \<Rightarrow> bool" where
  "known_option opt \<longleftrightarrow> opt \<in> {peerNaClPublicKeyOption, peerRemoteEndpointOption,
     peerLocalEndpointOption, mtuOption, sharedTokensOption}"

lemma setup_fold_uninterpreted:
  "list_all (\<lambda>f. \<not> known_option (fst f)) fs \<Longrightarrow>
     setup_fold sz n fs m = Inr (m\<lparr>uninterpretedOptions := uninterpretedOptions m @ fs\<rparr>)"
proof (induction fs arbitrary: n m)
  case (Cons f fs)
  obtain opt p where "f = (opt, p)" by (cases f)
  with Cons show ?case by (simp add: setup_option_def known_option_def)
qed simp

definition setup_ok :: "Setup \<Rightarrow> bool" where
  "setup_ok m \<longleftrightarrow>
     (case PeerNaClPublicKey m of None \<Rightarrow> True | Some k \<Rightarrow> length k = 32) \<and>
     (ep_IsZero (PeerRemoteEndpoint m) \<or> endpoint_ok (PeerRemoteEndpoint m)) \<and>
     (ep_IsZero (PeerLocalEndpoint m) \<or> endpoint_ok (PeerLocalEndpoint m)) \<and>
     list_all (\<lambda>f. slice_ok (snd f)) (setup_fields m) \<and>
     list_all (\<lambda>f. \<not> known_option (fst f)) (uninterpretedOptions m)"

lemma setup_option_known:
  "length k = 32 \<Longrightarrow> setup_option sz n peerNaClPublicKeyOption k m = Inr (m\<lparr>PeerNaClPublicKey := Some k\<rparr>)"
  "endpoint_ok e \<Longrightarrow> setup_option sz n peerRemoteEndpointOption (bytes_of (ep_String e)) m
     = Inr (m\<lparr>PeerRemoteEndpoint := e\<rparr>)"
  "endpoint_ok e \<Longrightarrow> setup_option sz n peerLocalEndpointOption (bytes_of (ep_String e)) m
     = Inr (m\<lparr>PeerLocalEndpoint := e\<rparr>)"
  "setup_option sz n mtuOption (varint v) m = Inr (m\<lparr>Mtu := v\<rparr>)"
  "setup_option sz n sharedTokensOption (varint v) m = Inr (m\<lparr>SharedTokens := v\<rparr>)"
  using readVarUint64_write [of v "[]"]
  by (simp_all add: setup_option_def option_defs copy_key_def ParseEndpoint_ep_String)

lemma setup_fold_groups:
  "PeerNaClPublicKey acc = None \<Longrightarrow> (case key of None \<Rightarrow> True | Some k \<Rightarrow> length k = 32) \<Longrightarrow>
     setup_fold sz n (case key of None \<Rightarrow> [] | Some k \<Rightarrow> [(peerNaClPublicKeyOption, k)]) acc
     = Inr (acc\<lparr>PeerNaClPublicKey := key\<rparr>)"
  "PeerRemoteEndpoint acc = zero_Endpoint \<Longrightarrow> ep_IsZero e \<or> endpoint_ok e \<Longrightarrow>
     setup_fold sz n (if ep_IsZero e then [] else [(peerRemoteEndpointOption, bytes_of (ep_String e))]) acc
     = Inr (acc\<lparr>PeerRemoteEndpoint := e\<rparr>)"
  "PeerLocalEndpoint acc = zero_Endpoint \<Longrightarrow> ep_IsZero e \<or> endpoint_ok e \<Longrightarrow>
     setup_fold sz n (if ep_IsZero e then [] else [(peerLocalEndpointOption, bytes_of (ep_String e))]) acc
     = Inr (acc\<lparr>PeerLocalEndpoint := e\<rparr>)"
  "Mtu acc = 0 \<Longrightarrow> setup_fold sz n (if v = 0 then [] else [(mtuOption, varint v)]) acc
     = Inr (acc\<lparr>Mtu := v\<rparr>)"
  "SharedTokens acc = 0 \<Longrightarrow> setup_fold sz n (if v = 0 then [] else [(sharedTokensOption, varint v)]) acc
     = Inr (acc\<lparr>SharedTokens := v\<rparr>)"
  by (auto simp: setup_option_known ep_IsZero_iff split: option.split)

lemma ucast_u32_u64 [simp]: "(ucast (ucast (v :: u32) :: u64) :: u32) = v"
  by (rule bit_eqI) (auto simp: bit_simps dest: bit_imp_le_length)

lemma setup_read_append:
  assumes "setup_ok m"
  shows "setup_read (tl (setup_append m [])) = Inr m"
proof -
  define m0 where "m0 = zero_Setup\<lparr>vMin := vMin m, vMax := vMax m\<rparr>"
  define sz where "sz = length (tl (setup_append m []))"
  have "setup_read (tl (setup_append m [])) = setup_options sz 2 (concat (map field_bytes (setup_fields m))) m0"
    by (simp add: setup_read_def setup_append_eq codec_simps m0_def sz_def)
  also have "\<dots> = setup_fold sz 2 (setup_fields m) m0"
    using assms by (intro setup_options_fold) (simp add: setup_ok_def)
  also have "\<dots> = Inr m"
    using assms unfolding setup_fields_def setup_ok_def
    by (simp add: setup_fold_append setup_fold_groups setup_fold_uninterpreted m0_def zero_Setup_def
        del: if_split)
  finally show ?thesis .
qed

text \<open>The other messages. A payload comes back in one piece.\<close>

definition auth_ok :: "Auth \<Rightarrow> bool" where
  "auth_ok m \<longleftrightarrow> authBlessingsKey m \<noteq> 0 \<and> slice_ok (sigPurpose (ChannelBinding m)) \<and>
     slice_ok (sigHash (ChannelBinding m)) \<and> slice_ok (sigR (ChannelBinding m)) \<and>
     slice_ok (sigS (ChannelBinding m))"

lemma slice_ok_bytes_of [simp]: "slice_ok (bytes_of s) \<longleftrightarrow> slice_ok s"
  by (simp add: slice_ok_def)

lemma auth_read_append: "auth_ok m \<Longrightarrow> auth_read (tl (auth_append m [])) = Inr m"
  using readLenBytes_len_bytes [of "sigS (ChannelBinding m)" "[]"]
  by (simp add: auth_read_def auth_append_eq auth_ok_def codec_simps)

definition one_slice :: "u64 \<Rightarrow> byte list list \<Rightarrow> byte list list" where
  "one_slice flags payload = (if payload_bytes flags payload = [] then [] else [payload_bytes flags payload])"

lemma one_slice_read:
  "(if flags AND DisableEncryptionFlag = 0 \<and> 0 < length (payload_bytes flags ps)
    then [payload_bytes flags ps] else []) = one_slice flags ps"
  by (auto simp: one_slice_def payload_bytes_def)

definition openflow_norm :: "OpenFlow \<Rightarrow> OpenFlow" where
  "openflow_norm m = m\<lparr>ofPayload := one_slice (ofFlags m) (ofPayload m)\<rparr>"

lemma openflow_read_append:
  "ofBlessingsKey m \<noteq> 0 \<Longrightarrow> openflow_read (tl (openflow_append m [])) = Inr (openflow_norm m)"
  using one_slice_read [of "ofFlags m" "ofPayload m"]
  by (simp add: openflow_read_def openflow_append_eq codec_simps openflow_norm_def)

definition data_norm :: "Data \<Rightarrow> Data" where
  "data_norm m = m\<lparr>dataPayload := one_slice (dataFlags m) (dataPayload m)\<rparr>"

lemma data_read_append: "data_read (tl (data_append m [])) = Inr (data_norm m)"
  using one_slice_read [of "dataFlags m" "dataPayload m"]
  by (simp add: data_read_def data_append_eq codec_simps data_norm_def)

lemma varint_not_Nil [simp]: "varint v \<noteq> []"
  using length_varint(2) [of v] by auto

lemma release_loop_Nil [simp]: "release_loop sz n [] m = Inr m"
  by (simp add: release_loop.simps)

lemma release_loop_counter:
  "release_loop sz n (varint fid @ varint v @ rest) m = release_loop sz (n + 2) rest (m(fid \<mapsto> v))"
  by (subst release_loop.simps) (simp add: codec_simps)

lemma release_loop_counters:
  "set order \<subseteq> dom m \<Longrightarrow> release_loop sz n (concat (map (counter_bytes m) order)) acc
     = Inr (acc ++ (m |` set order))"
proof (induction order arbitrary: n acc)
  case Nil
  then show ?case by simp
next
  case (Cons fid order)
  then obtain v where v: "m fid = Some v" by auto
  have "release_loop sz n (concat (map (counter_bytes m) (fid # order))) acc
      = release_loop sz (n + 2) (concat (map (counter_bytes m) order)) (acc(fid \<mapsto> v))"
    using v by (simp add: counter_bytes_def release_loop_counter)
  also have "\<dots> = Inr (acc(fid \<mapsto> v) ++ (m |` set order))"
    using Cons by simp
  also have "acc(fid \<mapsto> v) ++ (m |` set order) = acc ++ (m |` set (fid # order))"
    using v by (auto simp: fun_eq_iff map_add_def restrict_map_def split: option.split)
  finally show ?case .
qed

text \<open>The runtime visits each key of the map once.\<close>

definition visits :: "u64 list \<Rightarrow> (u64 \<rightharpoonup> u64) \<Rightarrow> bool" where
  "visits order m \<longleftrightarrow> distinct order \<and> set order = dom m"

lemma release_read_append:
  assumes "visits order m"
  shows "release_read (tl (release_append order m [])) = Inr m"
proof -
  have "m |` set order = m" using assms by (auto simp: visits_def restrict_map_def fun_eq_iff)
  with assms have read: "release_loop sz 0 (tl (release_append order m [])) Map.empty = Inr m" for sz
    by (simp add: release_append_eq release_loop_counters visits_def)
  show ?thesis
  proof (cases "tl (release_append order m [])")
    case Nil
    with read [of 0] show ?thesis by (simp add: release_read_def)
  next
    case Cons
    with read show ?thesis by (simp add: release_read_def)
  qed
qed

lemma len_bytes_not_Nil [simp]: "len_bytes b \<noteq> []"
  by (simp add: len_bytes_def)

definition endpoints_ok :: "Endpoint list \<Rightarrow> bool" where
  "endpoints_ok eps \<longleftrightarrow> list_all (\<lambda>e. endpoint_ok e \<and> slice_ok (ep_String e)) eps"

lemma proxy_response_loop_eps:
  "endpoints_ok eps \<Longrightarrow>
     proxy_response_loop sz i (concat (map (\<lambda>ep. len_bytes (bytes_of (ep_String ep))) eps)) acc
       = Inr (acc @ eps)"
proof (induction eps arbitrary: i acc)
  case Nil
  then show ?case by (simp add: proxy_response_loop.simps)
next
  case (Cons e eps)
  then show ?case
    by (subst proxy_response_loop.simps)
      (simp add: codec_simps endpoints_ok_def ParseEndpoint_ep_String)
qed

lemma proxy_response_read_append:
  "endpoints_ok eps \<Longrightarrow> proxy_response_read (tl (proxy_response_append eps [])) = Inr eps"
  by (simp add: proxy_response_read_def proxy_response_append_eq proxy_response_loop_eps)

subsection \<open>The messages implement the interface\<close>

interpretation setup_msg: wire_message setup_append setup_read setupType setup_ok "\<lambda>m. m"
  by unfold_locales (use setup_read_append in \<open>auto simp: setup_append_eq\<close>)

interpretation auth_msg: wire_message auth_append auth_read authType auth_ok "\<lambda>m. m"
  by unfold_locales (use auth_read_append in \<open>auto simp: auth_append_eq\<close>)

interpretation openflow_msg:
  wire_message openflow_append openflow_read openFlowType "\<lambda>m. ofBlessingsKey m \<noteq> 0" openflow_norm
  by unfold_locales (use openflow_read_append in \<open>auto simp: openflow_append_eq\<close>)

interpretation release_msg:
  wire_message "release_append order" release_read releaseType "visits order" "\<lambda>m. m" for order
  by unfold_locales (use release_read_append in \<open>auto simp: release_append_eq\<close>)

interpretation data_msg: wire_message data_append data_read dataType "\<lambda>_. True" data_norm
  by unfold_locales (use data_read_append in \<open>auto simp: data_append_eq\<close>)

interpretation proxy_response_msg:
  wire_message proxy_response_append proxy_response_read proxyResponseType endpoints_ok "\<lambda>m. m"
  by unfold_locales (use proxy_response_read_append in \<open>auto simp: proxy_response_append_eq\<close>)

interpretation teardown_msg: wire_message teardown_append teardown_read tearDownType "\<lambda>_. True" "\<lambda>m. m"
  by unfold_locales (auto simp: teardown_append_def teardown_read_def)

interpretation proxy_error_msg:
  wire_message proxy_error_append proxy_error_read proxyErrorReponseType "\<lambda>_. True" "\<lambda>m. m"
  by unfold_locales (auto simp: proxy_error_append_def proxy_error_read_def)

interpretation empty_msg: wire_message "empty_append tag" empty_read tag "\<lambda>_. True" "\<lambda>m. m" for tag
  by unfold_locales (auto simp: empty_append_def empty_read_def)

subsection \<open>All messages\<close>

text \<open>What a message must satisfy to be sent, and the form in which it arrives.\<close>

fun message_ok :: "u64 list \<Rightarrow> Message \<Rightarrow> bool" where
  "message_ok order (MSetup m) = setup_ok m"
| "message_ok order (MAuth m) = auth_ok m"
| "message_ok order (MOpenFlow m) = (ofBlessingsKey m \<noteq> 0)"
| "message_ok order (MRelease m) = visits order m"
| "message_ok order (MProxyResponse eps) = endpoints_ok eps"
| "message_ok order _ = True"

fun message_norm :: "Message \<Rightarrow> Message" where
  "message_norm (MOpenFlow m) = MOpenFlow (openflow_norm m)"
| "message_norm (MData m) = MData (data_norm m)"
| "message_norm m = m"

fun message_type :: "Message \<Rightarrow> byte" where
  "message_type (MSetup m) = setupType"
| "message_type (MTearDown m) = tearDownType"
| "message_type MEnterLameDuck = enterLameDuckType"
| "message_type MAckLameDuck = ackLameDuckType"
| "message_type (MAuth m) = authType"
| "message_type (MOpenFlow m) = openFlowType"
| "message_type (MRelease m) = releaseType"
| "message_type (MData m) = dataType"
| "message_type MMultiProxyRequest = multiProxyType"
| "message_type MProxyServerRequest = proxyServerType"
| "message_type (MProxyResponse m) = proxyResponseType"
| "message_type (MProxyErrorResponse m) = proxyErrorReponseType"
| "message_type MHealthCheckRequest = healthCheckRequestType"
| "message_type MHealthCheckResponse = healthCheckResponseType"

lemma Append_Cons: "Append order m [] = message_type m # tl (Append order m [])"
  by (cases m)
    (auto intro: setup_msg.append_Cons_tag auth_msg.append_Cons_tag openflow_msg.append_Cons_tag
      release_msg.append_Cons_tag data_msg.append_Cons_tag proxy_response_msg.append_Cons_tag
      teardown_msg.append_Cons_tag proxy_error_msg.append_Cons_tag empty_msg.append_Cons_tag)

lemma Append_to: "Append order m to = to @ Append order m []"
  by (cases m)
    (auto intro: setup_msg.append_extends auth_msg.append_extends openflow_msg.append_extends
      release_msg.append_extends data_msg.append_extends proxy_response_msg.append_extends
      teardown_msg.append_extends proxy_error_msg.append_extends empty_msg.append_extends)

lemma Read_type:
  "Read (setupType # b) = and_then (setup_read b) (\<lambda>m. Inr (MSetup m))"
  "Read (tearDownType # b) = and_then (teardown_read b) (\<lambda>m. Inr (MTearDown m))"
  "Read (enterLameDuckType # b) = Inr MEnterLameDuck"
  "Read (ackLameDuckType # b) = Inr MAckLameDuck"
  "Read (authType # b) = and_then (auth_read b) (\<lambda>m. Inr (MAuth m))"
  "Read (openFlowType # b) = and_then (openflow_read b) (\<lambda>m. Inr (MOpenFlow m))"
  "Read (releaseType # b) = and_then (release_read b) (\<lambda>m. Inr (MRelease m))"
  "Read (dataType # b) = and_then (data_read b) (\<lambda>m. Inr (MData m))"
  "Read (multiProxyType # b) = Inr MMultiProxyRequest"
  "Read (proxyServerType # b) = Inr MProxyServerRequest"
  "Read (proxyResponseType # b) = and_then (proxy_response_read b) (\<lambda>m. Inr (MProxyResponse m))"
  "Read (proxyErrorReponseType # b) = and_then (proxy_error_read b) (\<lambda>m. Inr (MProxyErrorResponse m))"
  "Read (healthCheckRequestType # b) = Inr MHealthCheckRequest"
  "Read (healthCheckResponseType # b) = Inr MHealthCheckResponse"
  by (simp_all add: Read_def type_defs empty_read_def)

lemma read_tl_Append:
  assumes "message_ok order m"
  shows "Read (message_type m # tl (Append order m [])) = Inr (message_norm m)"
  using assms
  by (cases m)
    (simp_all add: Read_type setup_msg.read_tl_append auth_msg.read_tl_append
      openflow_msg.read_tl_append release_msg.read_tl_append data_msg.read_tl_append
      proxy_response_msg.read_tl_append teardown_msg.read_tl_append proxy_error_msg.read_tl_append)

lemma Read_Append_norm: "message_ok order m \<Longrightarrow> Read (Append order m []) = Inr (message_norm m)"
  by (subst Append_Cons) (rule read_tl_Append)

lemma one_slice_idem: "one_slice f (one_slice f ps) = one_slice f ps"
  by (simp add: one_slice_def payload_bytes_def)

lemma message_norm_idem: "message_norm (message_norm m) = message_norm m"
  by (cases m) (simp_all add: openflow_norm_def data_norm_def one_slice_idem)

definition message_types :: "byte list" where
  "message_types =
     [setupType, tearDownType, enterLameDuckType, ackLameDuckType, authType, openFlowType, releaseType,
      dataType, multiProxyType, proxyServerType, proxyResponseType, healthCheckRequestType,
      healthCheckResponseType, proxyErrorReponseType]"

subsection \<open>How a read fails\<close>

text \<open>The errors of a read: the type they name, the size of the body, a field.\<close>

definition error_at :: "byte \<Rightarrow> nat \<Rightarrow> msg_error \<Rightarrow> bool" where
  "error_at ty sz e \<longleftrightarrow> (\<exists>n sub. e = InvalidMsg ty sz n sub)"

lemma error_at_InvalidMsg [simp]: "error_at ty sz (InvalidMsg ty sz n sub)"
  by (simp add: error_at_def)

lemma field_of_Inl: "field_of ty sz n r = Inl e \<Longrightarrow> e = InvalidMsg ty sz n None"
  by (auto simp: field_of_def split: prod.splits if_splits)

lemma and_then_Inl_iff: "and_then r f = Inl e \<longleftrightarrow> r = Inl e \<or> (\<exists>x. r = Inr x \<and> f x = Inl e)"
  by (cases r) simp_all

definition setup_error :: "nat \<Rightarrow> msg_error \<Rightarrow> bool" where
  "setup_error sz e \<longleftrightarrow> error_at setupType sz e
     \<or> (\<exists>opt n. e = InvalidSetupOption opt n \<and> opt \<in> {mtuOption, sharedTokensOption})"

lemma setup_option_Inl: "setup_option sz n opt p m = Inl e \<Longrightarrow> setup_error sz e"
  by (auto simp: setup_option_def setup_error_def split: if_splits sum.splits prod.splits bool.splits)

lemma setup_options_Inl: "setup_options sz n data m = Inl e \<Longrightarrow> setup_error sz e"
proof (induction sz n data m rule: setup_options.induct)
  case (1 sz n data m)
  from 1(2) show ?case
    by (subst (asm) setup_options.simps)
      (auto split: if_splits sum.splits prod.splits simp: and_then_Inl_iff setup_error_def
        dest: setup_option_Inl [unfolded setup_error_def] 1(1) [unfolded setup_error_def])
qed

lemma setup_read_Inl: "setup_read b = Inl e \<Longrightarrow> setup_error (length b) e"
  by (auto simp: setup_read_def split: prod.splits bool.splits intro: setup_options_Inl)
    (simp_all add: setup_error_def)

lemma auth_read_Inl:
  "auth_read b = Inl e \<Longrightarrow> error_at openFlowType (length b) e \<or> e = MissingBlessings openFlowType"
  by (auto simp: auth_read_def and_then_Inl_iff split: if_splits dest!: field_of_Inl)

lemma openflow_read_Inl:
  "openflow_read b = Inl e \<Longrightarrow> error_at openFlowType (length b) e \<or> e = MissingBlessings openFlowType
     \<or> e = InvalidMsg dataType (length b) 1 None"
  by (auto simp: openflow_read_def and_then_Inl_iff split: if_splits dest!: field_of_Inl)

lemma data_read_Inl: "data_read b = Inl e \<Longrightarrow> error_at dataType (length b) e"
  by (auto simp: data_read_def and_then_Inl_iff dest!: field_of_Inl)

lemma release_loop_Inl: "release_loop sz n data m = Inl e \<Longrightarrow> error_at releaseType sz e"
proof (induction "length data" arbitrary: data n m rule: less_induct)
  case less
  obtain fid d ok where r: "readVarUint64 data = (fid, d, ok)" by (rule prod_cases3)
  obtain v d' ok' where r': "readVarUint64 d = (v, d', ok')" by (rule prod_cases3)
  have "length d' < length data" if "ok" "ok'"
    using that r r' readVarUint64_shorter [of data fid d] readVarUint64_shorter [of d v d'] by simp
  with less(1) [of d'] less(2) r r' show ?case
    by (subst (asm) (2) release_loop.simps) (cases ok; cases ok'; auto split: if_splits)
qed

lemma proxy_response_loop_Inl:
  "proxy_response_loop sz i data eps = Inl e \<Longrightarrow> error_at proxyResponseType sz e"
proof (induction "length data" arbitrary: data i eps rule: less_induct)
  case less
  obtain b d ok where r: "readLenBytes data = (b, d, ok)" by (rule prod_cases3)
  have "length d < length data" if "ok" using that r readLenBytes_shorter by simp
  with less(1) [of d] less(2) r show ?case
    by (subst (asm) (2) proxy_response_loop.simps) (cases ok; auto split: if_splits sum.splits)
qed

lemma release_read_Inl: "release_read b = Inl e \<Longrightarrow> error_at releaseType (length b) e"
  by (auto simp: release_read_def split: if_splits dest: release_loop_Inl)

lemma proxy_response_read_Inl: "proxy_response_read b = Inl e \<Longrightarrow> error_at proxyResponseType (length b) e"
  unfolding proxy_response_read_def by (rule proxy_response_loop_Inl)

lemma no_unknown:
  "\<not> error_at ty sz (UnknownMsg t)" "\<not> setup_error sz (UnknownMsg t)"
  by (simp_all add: error_at_def setup_error_def)

lemmas read_Inl =
  setup_read_Inl auth_read_Inl openflow_read_Inl data_read_Inl release_read_Inl proxy_response_read_Inl

lemma Read_known: "ty \<in> set message_types \<Longrightarrow> Read (ty # body) \<noteq> Inl (UnknownMsg t)"
  by (auto simp: message_types_def Read_type and_then_Inl_iff teardown_read_def proxy_error_read_def no_unknown
      dest!: read_Inl)

subsection \<open>Properties\<close>

text \<open>C1: A message that is appended to an empty buffer is read back, whatever the order in which the
  counters of a Release are visited: unchanged, but for the payload of a Data or OpenFlow message,
  which arrives as one slice, or not at all when DisableEncryptionFlag leaves it to the caller.\<close>

theorem Read_Append:
  assumes "message_ok order m"
  shows "Read (Append order m []) = Inr (message_norm m)"
  using assms by (rule Read_Append_norm)

theorem Read_Append_witness:
  "Read (Append [7, 300] (MRelease [7 \<mapsto> 1, 300 \<mapsto> 0x10000]) []) = Inr (MRelease [7 \<mapsto> 1, 300 \<mapsto> 0x10000])
   \<and> Read (Append [] (MData \<lparr>dataID = 9, dataFlags = CloseFlag, dataPayload = [[1, 2], [3]]\<rparr>) [])
     = Inr (MData \<lparr>dataID = 9, dataFlags = CloseFlag, dataPayload = [[1, 2, 3]]\<rparr>)"
proof
  show "Read (Append [7, 300] (MRelease [7 \<mapsto> 1, 300 \<mapsto> 0x10000]) []) = Inr (MRelease [7 \<mapsto> 1, 300 \<mapsto> 0x10000])"
    by (subst Read_Append) (auto simp: visits_def)
  show "Read (Append [] (MData \<lparr>dataID = 9, dataFlags = CloseFlag, dataPayload = [[1, 2], [3]]\<rparr>) [])
     = Inr (MData \<lparr>dataID = 9, dataFlags = CloseFlag, dataPayload = [[1, 2, 3]]\<rparr>)"
    by (subst Read_Append)
      (simp_all add: data_norm_def one_slice_def payload_bytes_def CloseFlag_def DisableEncryptionFlag_def)
qed

text \<open>Append only adds to the buffer it is given, and two messages that serialize to the same bytes
  are the same message up to the slicing of a payload.\<close>

theorem Append_determines:
  assumes "message_ok order m" "message_ok order' m'" "Append order m to = Append order' m' to"
  shows "Append order m to = to @ Append order m [] \<and> message_norm m = message_norm m'"
proof
  show "Append order m to = to @ Append order m []" by (rule Append_to)
  have "Append order m [] = Append order' m' []"
    using assms(3) by (simp add: Append_to [of order m to] Append_to [of order' m' to])
  then have "Inr (message_norm m) = (Inr (message_norm m') :: msg_error + Message)"
    using Read_Append_norm [OF assms(1)] Read_Append_norm [OF assms(2)] by simp
  then show "message_norm m = message_norm m'" by simp
qed

theorem Append_determines_witness:
  "Append [1, 2] (MRelease [1 \<mapsto> 5, 2 \<mapsto> 6]) [9] = [9] @ Append [1, 2] (MRelease [1 \<mapsto> 5, 2 \<mapsto> 6]) []"
  using Append_determines [of "[1, 2]" "MRelease [1 \<mapsto> 5, 2 \<mapsto> 6]" "[1, 2]" "MRelease [1 \<mapsto> 5, 2 \<mapsto> 6]" "[9]"]
  by (auto simp: visits_def)

text \<open>Read rejects the empty input, and reports an unknown message for exactly the first bytes that
  are not the type of a message.\<close>

theorem Read_unknown:
  "Read [] = Inl (InvalidMsg invalidType 0 0 None) \<and>
   (Read (ty # body) = Inl (UnknownMsg ty) \<longleftrightarrow> ty \<notin> set message_types)"
proof
  show "Read [] = Inl (InvalidMsg invalidType 0 0 None)" by (simp add: Read_def)
  have "Read (ty # body) \<noteq> Inl (UnknownMsg ty)" if "ty \<in> set message_types"
    using that by (rule Read_known)
  moreover have "Read (ty # body) = Inl (UnknownMsg ty)" if "ty \<notin> set message_types"
    using that by (simp add: Read_def message_types_def)
  ultimately show "Read (ty # body) = Inl (UnknownMsg ty) \<longleftrightarrow> ty \<notin> set message_types" by blast
qed

text \<open>C5: The errors of a malformed body name the type of the message and the size of its body, with
  these exceptions: a malformed Mtu or SharedTokens option of a Setup is reported as the option alone;
  every error of an Auth message names the type of OpenFlow; and the flags of an OpenFlow message are
  reported as field 1 of a Data message.\<close>

theorem Read_body_errors:
  assumes "Read (ty # body) = Inl e" "ty \<in> set message_types"
  shows "error_at ty (length body) e
    \<or> ty = setupType \<and> (\<exists>opt n. e = InvalidSetupOption opt n \<and> opt \<in> {mtuOption, sharedTokensOption})
    \<or> ty = authType \<and> (error_at openFlowType (length body) e \<or> e = MissingBlessings openFlowType)
    \<or> ty = openFlowType \<and> (e = MissingBlessings openFlowType \<or> e = InvalidMsg dataType (length body) 1 None)"
  using assms
  by (auto simp: message_types_def Read_type and_then_Inl_iff teardown_read_def proxy_error_read_def
      dest!: setup_read_Inl [unfolded setup_error_def] auth_read_Inl openflow_read_Inl data_read_Inl
        release_read_Inl proxy_response_read_Inl)

theorem Read_body_errors_witness:
  "Read [authType, 0] = Inl (MissingBlessings openFlowType) \<and> \<not> error_at authType 1 (MissingBlessings openFlowType)"
proof -
  have "Read [authType, 0] = Inl (MissingBlessings openFlowType)"
    by (simp add: Read_type auth_read_def readVarUint64_def)
  with Read_body_errors [of authType "[0]" "MissingBlessings openFlowType"] show ?thesis
    by (simp add: message_types_def error_at_def)
qed

end
