(* ===== verification/VomBuf.thy ===== *)
theory VomBuf
  imports WireCodec
begin

text \<open>
  The write and read buffers of the VOM codec: vom/buf.go.

  An \<open>encbuf\<close> and a \<open>decbuf\<close> are records with the fields of the Go structs; a slice made by \<open>make\<close>
  is a list of zero bytes. The contents of an \<open>encbuf\<close> are its first \<open>end\<close> bytes; those of a \<open>decbuf\<close>
  are the bytes in \<open>[beg, end)\<close> followed by what its reader will still deliver. The lemmas say that every
  operation acts on these contents alone, whatever the sizes of the buffers and the pieces in which the
  reader delivers its bytes.

  An \<open>io.Reader\<close> is the list of the pieces it delivers, an empty piece standing for a read of no bytes
  without an error, and the error it reports when they are used up; a read into a slice that is too
  short leaves the rest of the piece for the next one. \<open>lim\<close> is an unbounded integer: the Go \<open>int\<close>
  wraps only after 2^63 bytes have been read without a limit.

  The loops of \<open>Fill\<close> and \<open>Skip\<close> end only if the reader makes progress, so the operations that read
  return \<open>None\<close> when they do not return.
\<close>

definition minBufFree :: nat where
  "minBufFree = 1024"

text \<open>\<open>copy(buf[off:], bs)\<close> where \<open>bs\<close> fits.\<close>

definition overwrite :: "nat \<Rightarrow> 'a list \<Rightarrow> 'a list \<Rightarrow> 'a list" where
  "overwrite off bs buf = take off buf @ bs @ drop (off + length bs) buf"

lemma length_overwrite [simp]:
  "off + length bs \<le> length buf \<Longrightarrow> length (overwrite off bs buf) = length buf"
  by (simp add: overwrite_def)

lemma take_overwrite [simp]: "off \<le> length buf \<Longrightarrow> take off (overwrite off bs buf) = take off buf"
  by (simp add: overwrite_def)

lemma take_overwrite_end:
  "off + length bs \<le> length buf \<Longrightarrow> take (off + length bs) (overwrite off bs buf) = take off buf @ bs"
  by (simp add: overwrite_def)

subsection \<open>encbuf\<close>

record encbuf =
  ebuf :: "byte list"
  eend :: nat

definition newEncbuf :: encbuf where
  "newEncbuf = \<lparr>ebuf = replicate minBufFree 0, eend = 0\<rparr>"

definition enc_Bytes :: "encbuf \<Rightarrow> byte list" where
  "enc_Bytes b = take (eend b) (ebuf b)"

definition enc_Len :: "encbuf \<Rightarrow> nat" where
  "enc_Len b = eend b"

definition enc_Reset :: "encbuf \<Rightarrow> encbuf" where
  "enc_Reset b = b\<lparr>eend := 0\<rparr>"

definition reserve :: "nat \<Rightarrow> encbuf \<Rightarrow> encbuf" where
  "reserve free b =
     (if length (ebuf b) - eend b < free then
        (let newlen = length (ebuf b) * 2;
             newlen = (if newlen - eend b < free then eend b + free + minBufFree else newlen)
         in b\<lparr>ebuf := overwrite 0 (take (eend b) (ebuf b)) (replicate newlen 0)\<rparr>)
      else b)"

text \<open>\<open>Grow\<close> returns the place of the new bytes.\<close>

definition Grow :: "nat \<Rightarrow> encbuf \<Rightarrow> nat \<times> encbuf" where
  "Grow n b = (let b = reserve n b in (eend b, b\<lparr>eend := eend b + n\<rparr>))"

definition WriteOneByte :: "byte \<Rightarrow> encbuf \<Rightarrow> encbuf" where
  "WriteOneByte x b = (let b = reserve 1 b in b\<lparr>ebuf := (ebuf b)[eend b := x], eend := eend b + 1\<rparr>)"

definition enc_Write :: "byte list \<Rightarrow> encbuf \<Rightarrow> encbuf" where
  "enc_Write x b =
     (let b = reserve (length x) b;
          n = min (length (ebuf b) - eend b) (length x)
      in b\<lparr>ebuf := overwrite (eend b) (take n x) (ebuf b), eend := eend b + n\<rparr>)"

definition WriteString :: "string \<Rightarrow> encbuf \<Rightarrow> encbuf" where
  "WriteString x b = enc_Write (bytes_of x) b"

text \<open>Assignments to consecutive elements of the buffer, from a place that \<open>Grow\<close> returned.\<close>

fun put_bytes :: "nat \<Rightarrow> byte list \<Rightarrow> encbuf \<Rightarrow> encbuf" where
  "put_bytes at [] b = b"
| "put_bytes at (x # xs) b = put_bytes (Suc at) xs (b\<lparr>ebuf := (ebuf b)[at := x]\<rparr>)"

definition enc_inv :: "encbuf \<Rightarrow> bool" where
  "enc_inv b \<longleftrightarrow> eend b \<le> length (ebuf b)"

text \<open>
  The contract of everything that writes: it appends the encoding of its argument to the contents.
\<close>

locale buffer_writer =
  fixes put :: "'a \<Rightarrow> encbuf \<Rightarrow> encbuf" and enc :: "'a \<Rightarrow> byte list"
  assumes put_inv: "enc_inv b \<Longrightarrow> enc_inv (put x b)"
    and put_Bytes: "enc_inv b \<Longrightarrow> enc_Bytes (put x b) = enc_Bytes b @ enc x"
begin

lemma fold_put: "enc_inv b \<Longrightarrow>
    enc_inv (fold put xs b) \<and> enc_Bytes (fold put xs b) = enc_Bytes b @ concat (map enc xs)"
  by (induction xs arbitrary: b) (simp_all add: put_inv put_Bytes)

lemma put_Len: "enc_inv b \<Longrightarrow> enc_Len (put x b) = enc_Len b + length (enc x)"
  using put_inv [of b x] arg_cong [OF put_Bytes [of b x], of length]
  by (simp add: enc_Len_def enc_Bytes_def enc_inv_def)

end

lemma newEncbuf_empty [simp]: "enc_inv newEncbuf" "enc_Bytes newEncbuf = []"
  by (simp_all add: newEncbuf_def enc_inv_def enc_Bytes_def)

lemma enc_Reset_empty [simp]: "enc_inv (enc_Reset b)" "enc_Bytes (enc_Reset b) = []"
  by (simp_all add: enc_Reset_def enc_inv_def enc_Bytes_def)

lemma reserve_facts:
  assumes "enc_inv b"
  shows "enc_inv (reserve n b)" "eend (reserve n b) = eend b" "enc_Bytes (reserve n b) = enc_Bytes b"
    "eend b + n \<le> length (ebuf (reserve n b))"
  using assms by (auto simp: reserve_def Let_def enc_inv_def enc_Bytes_def overwrite_def)

interpretation one_byte: buffer_writer WriteOneByte "\<lambda>x. [x]"
proof
  fix b :: encbuf and x :: byte
  assume "enc_inv b"
  note r = reserve_facts [OF this, of 1]
  show "enc_inv (WriteOneByte x b)"
    using r by (simp add: WriteOneByte_def Let_def enc_inv_def)
  show "enc_Bytes (WriteOneByte x b) = enc_Bytes b @ [x]"
    using r by (simp add: WriteOneByte_def Let_def enc_Bytes_def take_Suc_conv_app_nth)
qed

interpretation write_bytes: buffer_writer enc_Write "\<lambda>x. x"
proof
  fix b :: encbuf and x :: "byte list"
  assume "enc_inv b"
  note r = reserve_facts [OF this, of "length x"]
  show "enc_inv (enc_Write x b)"
    using r by (simp add: enc_Write_def Let_def enc_inv_def)
  have "min (length (ebuf (reserve (length x) b)) - eend b) (length x) = length x"
    using r(4) by simp
  then show "enc_Bytes (enc_Write x b) = enc_Bytes b @ x"
    using r by (simp add: enc_Write_def Let_def enc_Bytes_def take_overwrite_end)
qed

interpretation write_string: buffer_writer WriteString bytes_of
  by unfold_locales (simp_all add: WriteString_def write_bytes.put_inv write_bytes.put_Bytes)

lemma put_bytes_eq:
  "at + length xs \<le> length (ebuf b) \<Longrightarrow> put_bytes at xs b = b\<lparr>ebuf := overwrite at xs (ebuf b)\<rparr>"
proof (induction xs arbitrary: at b)
  case Nil
  then show ?case by (simp add: overwrite_def)
next
  case (Cons x xs)
  then have "at < length (ebuf b)" by simp
  then have "overwrite (Suc at) xs ((ebuf b)[at := x]) = overwrite at (x # xs) (ebuf b)"
    by (simp add: overwrite_def take_Suc_conv_app_nth)
  with Cons show ?case by simp
qed

text \<open>\<open>Grow\<close> followed by assignments to all the bytes it returned.\<close>

definition grow_put :: "byte list \<Rightarrow> encbuf \<Rightarrow> encbuf" where
  "grow_put xs b = (case Grow (length xs) b of (at, b') \<Rightarrow> put_bytes at xs b')"

interpretation grow_put: buffer_writer grow_put "\<lambda>xs. xs"
proof
  fix b :: encbuf and xs :: "byte list"
  assume "enc_inv b"
  note r = reserve_facts [OF this, of "length xs"]
  then show "enc_inv (grow_put xs b)"
    by (simp add: grow_put_def Grow_def Let_def enc_inv_def put_bytes_eq)
  show "enc_Bytes (grow_put xs b) = enc_Bytes b @ xs"
    using r by (simp add: grow_put_def Grow_def Let_def enc_Bytes_def put_bytes_eq take_overwrite_end)
qed

subsection \<open>Readers\<close>

datatype dec_error =
    EOF
  | ReaderError string
  | ErrInvalid
  | ErrInvalidLenOrControl byte
  | ErrMsgLen
  | ErrBadControlCode byte

record io_reader =
  rd_pieces :: "byte list list"
  rd_final :: dec_error

text \<open>\<open>Read(p)\<close> with \<open>len(p) = cap\<close>.\<close>

definition io_Read :: "nat \<Rightarrow> io_reader \<Rightarrow> byte list \<times> dec_error option \<times> io_reader" where
  "io_Read cap r =
     (case rd_pieces r of
        [] \<Rightarrow> ([], Some (rd_final r), r)
      | c # cs \<Rightarrow>
          if length c \<le> cap then (c, None, r\<lparr>rd_pieces := cs\<rparr>)
          else (take cap c, None, r\<lparr>rd_pieces := drop cap c # cs\<rparr>))"

definition alwaysEOFReader :: io_reader where
  "alwaysEOFReader = \<lparr>rd_pieces = [], rd_final = EOF\<rparr>"

definition reader_bytes :: "io_reader \<Rightarrow> byte list" where
  "reader_bytes r = concat (rd_pieces r)"

definition reader_size :: "io_reader \<Rightarrow> nat" where
  "reader_size r = length (rd_pieces r) + length (reader_bytes r)"

lemma io_Read_facts:
  assumes "io_Read cap r = (bs, err, r')"
  shows "length bs \<le> cap" "reader_bytes r = bs @ reader_bytes r'" "rd_final r' = rd_final r"
    "err = None \<Longrightarrow> 0 < cap \<Longrightarrow> reader_size r' < reader_size r"
    "err = Some e \<Longrightarrow> e = rd_final r \<and> bs = [] \<and> r' = r \<and> rd_pieces r = []"
  using assms
  by (auto simp: io_Read_def reader_bytes_def reader_size_def split: list.splits if_splits)

subsection \<open>decbuf\<close>

record decbuf =
  dbuf :: "byte list"
  dbeg :: nat
  dend :: nat
  lim :: int
  reader :: io_reader

type_synonym 'a dec_result = "((dec_error + 'a) \<times> decbuf) option"

definition newDecbuf :: "io_reader \<Rightarrow> decbuf" where
  "newDecbuf r = \<lparr>dbuf = replicate minBufFree 0, dbeg = 0, dend = 0, lim = -1, reader = r\<rparr>"

definition newDecbufFromBytes :: "byte list \<Rightarrow> decbuf" where
  "newDecbufFromBytes b = \<lparr>dbuf = b, dbeg = 0, dend = length b, lim = -1, reader = alwaysEOFReader\<rparr>"

definition dec_Reset :: "decbuf \<Rightarrow> decbuf" where
  "dec_Reset b = b\<lparr>dbeg := 0, dend := 0, lim := -1\<rparr>"

definition SetLimit :: "int \<Rightarrow> decbuf \<Rightarrow> decbuf" where
  "SetLimit limit b = b\<lparr>lim := limit\<rparr>"

definition RemoveLimit :: "decbuf \<Rightarrow> int \<times> decbuf" where
  "RemoveLimit b = (lim b, b\<lparr>lim := -1\<rparr>)"

definition IsAvailable :: "nat \<Rightarrow> decbuf \<Rightarrow> bool" where
  "IsAvailable n b \<longleftrightarrow> n \<le> dend b - dbeg b \<and> (int n \<le> lim b \<or> lim b < 0)"

definition moveDataToFront :: "decbuf \<Rightarrow> decbuf" where
  "moveDataToFront b =
     b\<lparr>dbuf := overwrite 0 (drop (dbeg b) (take (dend b) (dbuf b))) (dbuf b),
       dend := dend b - dbeg b, dbeg := 0\<rparr>"

definition growDecbuf :: "nat \<Rightarrow> decbuf \<Rightarrow> decbuf" where
  "growDecbuf n b =
     (let newlen = length (dbuf b) * 2;
          newlen = (if newlen < n + minBufFree then n + minBufFree else newlen)
      in b\<lparr>dbuf := overwrite 0 (drop (dbeg b) (take (dend b) (dbuf b))) (replicate newlen 0),
           dend := dend b - dbeg b, dbeg := 0\<rparr>)"

partial_function (option) fill_loop :: "nat \<Rightarrow> decbuf \<Rightarrow> unit dec_result" where
  "fill_loop n b =
     (if dend b - dbeg b < n then
        (case io_Read (length (dbuf b) - dend b) (reader b) of
           (bs, err, r) \<Rightarrow>
             if 0 < length bs
             then fill_loop n (b\<lparr>dbuf := overwrite (dend b) bs (dbuf b), dend := dend b + length bs, reader := r\<rparr>)
             else (case err of
                     Some e \<Rightarrow> Some (Inl e, b\<lparr>reader := r\<rparr>)
                   | None \<Rightarrow> fill_loop n (b\<lparr>reader := r\<rparr>)))
      else Some (Inr (), b))"

definition Fill :: "nat \<Rightarrow> decbuf \<Rightarrow> unit dec_result" where
  "Fill n b =
     (if 0 \<le> lim b \<and> lim b < int n then Some (Inl EOF, b)
      else if n \<le> dend b - dbeg b then Some (Inr (), b)
      else if length (dbuf b) < n then fill_loop n (growDecbuf n b)
      else fill_loop n (moveDataToFront b))"

definition ReadAvailable :: "nat \<Rightarrow> decbuf \<Rightarrow> byte list \<times> decbuf" where
  "ReadAvailable n b = (take n (drop (dbeg b) (dbuf b)), b\<lparr>lim := lim b - int n, dbeg := dbeg b + n\<rparr>)"

definition PeekAvailable :: "nat \<Rightarrow> decbuf \<Rightarrow> byte list" where
  "PeekAvailable n b = take n (drop (dbeg b) (dbuf b))"

definition ReadAvailableByte :: "decbuf \<Rightarrow> byte \<times> decbuf" where
  "ReadAvailableByte b = (dbuf b ! dbeg b, b\<lparr>lim := lim b - 1, dbeg := dbeg b + 1\<rparr>)"

definition PeekAvailableByte :: "decbuf \<Rightarrow> byte" where
  "PeekAvailableByte b = dbuf b ! dbeg b"

definition SkipAvailable :: "nat \<Rightarrow> decbuf \<Rightarrow> decbuf" where
  "SkipAvailable n b = b\<lparr>lim := lim b - int n, dbeg := dbeg b + n\<rparr>"

text \<open>The code's \<open>if !buf.IsAvailable(n) { if err := buf.Fill(n); err != nil { return err } }\<close>.\<close>

definition ensure :: "nat \<Rightarrow> decbuf \<Rightarrow> unit dec_result" where
  "ensure n b = (if IsAvailable n b then Some (Inr (), b) else Fill n b)"

text \<open>One fallible operation after the other.\<close>

definition dec_bind :: "'a dec_result \<Rightarrow> ('a \<Rightarrow> decbuf \<Rightarrow> 'b dec_result) \<Rightarrow> 'b dec_result" where
  "dec_bind m f =
     (case m of None \<Rightarrow> None | Some (Inl e, b) \<Rightarrow> Some (Inl e, b) | Some (Inr x, b) \<Rightarrow> f x b)"

definition ReadByte :: "decbuf \<Rightarrow> byte dec_result" where
  "ReadByte b = dec_bind (ensure 1 b) (\<lambda>_ b. case ReadAvailableByte b of (x, b) \<Rightarrow> Some (Inr x, b))"

partial_function (option) skip_loop :: "nat \<Rightarrow> decbuf \<Rightarrow> unit dec_result" where
  "skip_loop n b =
     (case io_Read (length (dbuf b)) (reader b) of
        (bs, err, r) \<Rightarrow>
          let b = b\<lparr>dbuf := overwrite 0 bs (dbuf b), reader := r\<rparr> in
          if 0 < length bs then
            if n \<le> length bs then Some (Inr (), b\<lparr>dbeg := n, dend := length bs\<rparr>)
            else skip_loop (n - length bs) b
          else (case err of Some e \<Rightarrow> Some (Inl e, b) | None \<Rightarrow> skip_loop n b))"

definition Skip :: "nat \<Rightarrow> decbuf \<Rightarrow> unit dec_result" where
  "Skip n b =
     (if 0 \<le> lim b \<and> lim b < int n then Some (Inl EOF, b)
      else
        (let b = b\<lparr>lim := lim b - int n\<rparr>; avail = dend b - dbeg b
         in if n \<le> avail then Some (Inr (), b\<lparr>dbeg := dbeg b + n\<rparr>)
            else skip_loop (n - avail) b))"

text \<open>The second loop of \<open>ReadIntoBuf\<close>, which reads straight into what is left of the argument.\<close>

partial_function (option) read_loop :: "nat \<Rightarrow> byte list \<Rightarrow> io_reader \<Rightarrow> ((dec_error + byte list) \<times> io_reader) option" where
  "read_loop n acc r =
     (if 0 < n then
        (case io_Read n r of
           (bs, err, r') \<Rightarrow>
             if 0 < length bs then read_loop (n - length bs) (acc @ bs) r'
             else (case err of Some e \<Rightarrow> Some (Inl e, r') | None \<Rightarrow> read_loop n acc r'))
      else Some (Inr acc, r))"

text \<open>\<open>ReadIntoBuf\<close> with a slice of length \<open>n\<close> returns what the slice holds then.\<close>

definition ReadIntoBuf :: "nat \<Rightarrow> decbuf \<Rightarrow> byte list dec_result" where
  "ReadIntoBuf n b =
     (if - 1 < lim b \<and> lim b < int n then Some (Inl EOF, b)
      else
        (let b = (if - 1 < lim b then b\<lparr>lim := lim b - int n\<rparr> else b);
             copied = take n (drop (dbeg b) (take (dend b) (dbuf b)));
             b = b\<lparr>dbeg := dbeg b + length copied\<rparr>
         in case read_loop (n - length copied) copied (reader b) of
              None \<Rightarrow> None
            | Some (res, r) \<Rightarrow> Some (res, b\<lparr>reader := r\<rparr>)))"

declare fill_loop.simps [code] skip_loop.simps [code] read_loop.simps [code]

subsection \<open>The contents of a decbuf\<close>

definition unread :: "decbuf \<Rightarrow> byte list" where
  "unread b = drop (dbeg b) (take (dend b) (dbuf b))"

definition pending :: "decbuf \<Rightarrow> byte list" where
  "pending b = unread b @ reader_bytes (reader b)"

text \<open>What can be read: the pending bytes, up to the limit.\<close>

definition avail :: "decbuf \<Rightarrow> byte list" where
  "avail b = (if lim b < 0 then pending b else take (nat (lim b)) (pending b))"

definition dec_inv :: "decbuf \<Rightarrow> bool" where
  "dec_inv b \<longleftrightarrow> dbeg b \<le> dend b \<and> dend b \<le> length (dbuf b) \<and>
     (dbuf b = [] \<longrightarrow> rd_pieces (reader b) = [])"

text \<open>The error of a read of more bytes than there are.\<close>

definition short_error :: "nat \<Rightarrow> decbuf \<Rightarrow> dec_error" where
  "short_error n b = (if 0 \<le> lim b \<and> lim b < int n then EOF else rd_final (reader b))"

text \<open>\<open>b'\<close> is \<open>b\<close> after \<open>n\<close> bytes have been read.\<close>

definition advanced :: "nat \<Rightarrow> decbuf \<Rightarrow> decbuf \<Rightarrow> bool" where
  "advanced n b b' \<longleftrightarrow>
     dec_inv b' \<and> pending b' = drop n (pending b) \<and> rd_final (reader b') = rd_final (reader b) \<and>
     (if lim b < 0 then lim b' < 0 else lim b' = lim b - int n)"

lemma length_unread: "dec_inv b \<Longrightarrow> length (unread b) = dend b - dbeg b"
  by (simp add: unread_def dec_inv_def)

lemma advanced_refl: "dec_inv b \<Longrightarrow> advanced 0 b b"
  by (simp add: advanced_def)

lemma advanced_inv: "advanced n b b' \<Longrightarrow> dec_inv b'"
  by (simp add: advanced_def)

lemma advanced_trans:
  "advanced m b b' \<Longrightarrow> advanced n b' b'' \<Longrightarrow> int m \<le> lim b \<or> lim b < 0 \<Longrightarrow> advanced (m + n) b b''"
  by (auto simp: advanced_def add.commute split: if_splits)

lemma advanced_trans0: "advanced 0 b b' \<Longrightarrow> advanced n b' b'' \<Longrightarrow> advanced n b b''"
  by (auto simp: advanced_def split: if_splits)

lemma avail_advanced:
  "advanced n b b' \<Longrightarrow> n \<le> length (avail b) \<Longrightarrow> avail b' = drop n (avail b)"
  by (auto simp: advanced_def avail_def drop_take nat_diff_distrib split: if_splits)

lemma length_avail: "n \<le> length (avail b) \<longleftrightarrow> n \<le> length (pending b) \<and> (int n \<le> lim b \<or> lim b < 0)"
  by (auto simp: avail_def)

lemma take_avail: "n \<le> length (avail b) \<Longrightarrow> take n (avail b) = take n (pending b)"
  by (auto simp: avail_def)

lemma moveDataToFront_facts:
  assumes "dec_inv b"
  shows "advanced 0 b (moveDataToFront b)" "dbeg (moveDataToFront b) = 0"
    "length (dbuf (moveDataToFront b)) = length (dbuf b)" "reader (moveDataToFront b) = reader b"
    "lim (moveDataToFront b) = lim b"
  using assms
  by (auto simp: advanced_def moveDataToFront_def dec_inv_def pending_def unread_def overwrite_def)

lemma growDecbuf_facts:
  assumes "dec_inv b" "length (dbuf b) < n"
  shows "advanced 0 b (growDecbuf n b)" "dbeg (growDecbuf n b) = 0" "n \<le> length (dbuf (growDecbuf n b))"
    "reader (growDecbuf n b) = reader b" "lim (growDecbuf n b) = lim b"
  using assms
  by (auto simp: advanced_def growDecbuf_def dec_inv_def pending_def unread_def overwrite_def Let_def
      minBufFree_def)

lemma unread_overwrite:
  assumes "dbeg b \<le> dend b" "dend b + length bs \<le> length (dbuf b)"
  shows "unread (b\<lparr>dbuf := overwrite (dend b) bs (dbuf b), dend := dend b + length bs, reader := r\<rparr>) = unread b @ bs"
  using assms by (simp add: unread_def take_overwrite_end)

text \<open>The loop of \<open>Fill\<close> returns, with enough bytes exactly when the reader has them.\<close>

lemma fill_loop_returns:
  assumes "dec_inv b" "dbeg b = 0" "n \<le> length (dbuf b)"
  shows "\<exists>b'. advanced 0 b b' \<and> lim b' = lim b \<and>
    (if n \<le> length (pending b) then fill_loop n b = Some (Inr (), b') \<and> n \<le> dend b' - dbeg b'
     else fill_loop n b = Some (Inl (rd_final (reader b)), b'))"
  using assms
proof (induction "reader_size (reader b)" arbitrary: b rule: less_induct)
  case less
  note inv = less.prems
  show ?case
  proof (cases "dend b - dbeg b < n")
    case False
    then have "n \<le> length (pending b)" using length_unread [OF inv(1)] by (simp add: pending_def)
    moreover have "fill_loop n b = Some (Inr (), b)" using False by (simp add: fill_loop.simps)
    ultimately show ?thesis using advanced_refl [OF inv(1)] False by auto
  next
    case True
    obtain bs err r where read: "io_Read (length (dbuf b) - dend b) (reader b) = (bs, err, r)"
      by (rule prod_cases3)
    note facts = io_Read_facts [OF read]
    have cap: "0 < length (dbuf b) - dend b" using True inv by simp
    show ?thesis
    proof (cases err)
      case (Some e)
      then have "fill_loop n b = Some (Inl (rd_final (reader b)), b)"
        using True read facts(5) [of e] by (subst fill_loop.simps) simp
      moreover have "\<not> n \<le> length (pending b)"
        using True length_unread [OF inv(1)] facts(5) [OF Some] by (simp add: pending_def reader_bytes_def)
      ultimately show ?thesis using advanced_refl [OF inv(1)] by auto
    next
      case None
      define c where "c = b\<lparr>dbuf := overwrite (dend b) bs (dbuf b), dend := dend b + length bs, reader := r\<rparr>"
      have fits: "dend b + length bs \<le> length (dbuf b)" using facts(1) inv by (auto simp: dec_inv_def)
      have step: "fill_loop n b = fill_loop n c"
        using True read None by (subst fill_loop.simps) (auto simp: c_def overwrite_def)
      have pend: "pending c = pending b"
        using inv(1) fits facts(2) unread_overwrite [of b bs r] by (simp add: c_def pending_def dec_inv_def)
      have "length (overwrite (dend b) bs (dbuf b)) = length (dbuf b)" using fits by simp
      then have "overwrite (dend b) bs (dbuf b) \<noteq> []" using cap by auto
      then have c: "dec_inv c" "dbeg c = 0" "n \<le> length (dbuf c)" "lim c = lim b" "reader c = r"
        using inv fits True by (auto simp: c_def dec_inv_def)
      then have adv: "advanced 0 b c" using pend facts(3) by (simp add: advanced_def)
      have "reader_size (reader c) < reader_size (reader b)" using facts(4) None cap c(5) by simp
      from less.hyps [OF this c(1-3)] obtain b' where b': "advanced 0 c b'" "lim b' = lim c"
        "if n \<le> length (pending c) then fill_loop n c = Some (Inr (), b') \<and> n \<le> dend b' - dbeg b'
         else fill_loop n c = Some (Inl (rd_final (reader c)), b')" by blast
      have "advanced 0 b b'" using advanced_trans0 [OF adv b'(1)] .
      moreover have "rd_final (reader c) = rd_final (reader b)" using adv by (simp add: advanced_def)
      ultimately show ?thesis using b'(2,3) c(4) pend step by auto
    qed
  qed
qed

text \<open>
  \<open>ensure\<close> makes bytes available without reading any: it returns, and succeeds exactly when there are
  as many within the limit.
\<close>

lemma Fill_returns:
  assumes "dec_inv b"
  shows "\<exists>b'. advanced 0 b b' \<and> lim b' = lim b \<and>
    (if n \<le> length (avail b) then Fill n b = Some (Inr (), b') \<and> n \<le> dend b' - dbeg b'
     else Fill n b = Some (Inl (short_error n b), b'))"
proof -
  consider (limit) "0 \<le> lim b" "lim b < int n" | (enough) "int n \<le> lim b \<or> lim b < 0" "n \<le> dend b - dbeg b"
    | (loop) "int n \<le> lim b \<or> lim b < 0" "\<not> n \<le> dend b - dbeg b" by linarith
  then show ?thesis
  proof cases
    case limit
    then show ?thesis
      using advanced_refl [OF assms] by (intro exI [of _ b]) (auto simp: Fill_def length_avail short_error_def)
  next
    case enough
    then have "n \<le> length (pending b)" using length_unread [OF assms] by (simp add: pending_def)
    with enough show ?thesis
      using advanced_refl [OF assms] by (intro exI [of _ b]) (auto simp: Fill_def length_avail)
  next
    case loop
    define c where "c = (if length (dbuf b) < n then growDecbuf n b else moveDataToFront b)"
    have c: "advanced 0 b c" "dbeg c = 0" "n \<le> length (dbuf c)" "reader c = reader b" "lim c = lim b"
      using moveDataToFront_facts [OF assms] growDecbuf_facts [OF assms, of n] by (auto simp: c_def)
    have "Fill n b = fill_loop n c" using loop by (auto simp: Fill_def c_def)
    moreover obtain b' where "advanced 0 c b'" "lim b' = lim c"
      "if n \<le> length (pending c) then fill_loop n c = Some (Inr (), b') \<and> n \<le> dend b' - dbeg b'
       else fill_loop n c = Some (Inl (rd_final (reader c)), b')"
      using fill_loop_returns [OF advanced_inv [OF c(1)] c(2,3)] by blast
    moreover have "pending c = pending b" using c(1) by (simp add: advanced_def)
    ultimately show ?thesis
      using advanced_trans0 [OF c(1), of 0 b'] loop c(4,5)
      by (intro exI [of _ b']) (auto simp: length_avail short_error_def)
  qed
qed

lemma ensure_returns:
  assumes "dec_inv b"
  shows "\<exists>b'. advanced 0 b b' \<and> lim b' = lim b \<and>
    (if n \<le> length (avail b) then ensure n b = Some (Inr (), b') \<and> n \<le> dend b' - dbeg b'
     else ensure n b = Some (Inl (short_error n b), b'))"
proof (cases "IsAvailable n b")
  case True
  then have "n \<le> length (avail b)"
    using length_unread [OF assms] by (auto simp: IsAvailable_def length_avail pending_def)
  with True show ?thesis
    using advanced_refl [OF assms] by (intro exI [of _ b]) (simp add: ensure_def IsAvailable_def)
next
  case False
  then have "ensure n b = Fill n b" by (simp add: ensure_def)
  then show ?thesis using Fill_returns [OF assms, of n] by (simp only:)
qed

lemma unread_prefix:
  "dec_inv b \<Longrightarrow> n \<le> dend b - dbeg b \<Longrightarrow> take n (drop (dbeg b) (dbuf b)) = take n (pending b)"
  by (auto simp: pending_def unread_def dec_inv_def drop_take)

lemma SkipAvailable_advances:
  assumes "dec_inv b" "n \<le> dend b - dbeg b"
  shows "advanced n b (SkipAvailable n b)"
  using assms
  by (auto simp: advanced_def SkipAvailable_def dec_inv_def pending_def unread_def add.commute)

lemma ReadAvailable_advances:
  assumes "dec_inv b" "n \<le> dend b - dbeg b"
  shows "ReadAvailable n b = (take n (pending b), SkipAvailable n b)"
    "PeekAvailable n b = take n (pending b)"
  using unread_prefix [OF assms] by (simp_all add: ReadAvailable_def PeekAvailable_def SkipAvailable_def)

lemma ReadAvailableByte_advances:
  assumes "dec_inv b" "1 \<le> dend b - dbeg b"
  shows "ReadAvailableByte b = (hd (pending b), SkipAvailable 1 b)" "PeekAvailableByte b = hd (pending b)"
proof -
  have len: "dbeg b < length (dbuf b)" using assms by (auto simp: dec_inv_def)
  have "take 1 (pending b) = [dbuf b ! dbeg b]"
    using unread_prefix [OF assms] len by (simp add: take_Suc hd_drop_conv_nth)
  then have "hd (pending b) = dbuf b ! dbeg b" by (cases "pending b") auto
  then show "ReadAvailableByte b = (hd (pending b), SkipAvailable 1 b)" "PeekAvailableByte b = hd (pending b)"
    by (simp_all add: ReadAvailableByte_def PeekAvailableByte_def SkipAvailable_def)
qed

lemma skip_loop_returns:
  assumes "dec_inv b" "0 < n"
  shows "\<exists>b'. dec_inv b' \<and> rd_final (reader b') = rd_final (reader b) \<and> lim b' = lim b \<and>
    (if n \<le> length (reader_bytes (reader b))
     then skip_loop n b = Some (Inr (), b') \<and> pending b' = drop n (reader_bytes (reader b))
     else skip_loop n b = Some (Inl (rd_final (reader b)), b'))"
  using assms
proof (induction "reader_size (reader b)" arbitrary: b n rule: less_induct)
  case less
  obtain bs err r where read: "io_Read (length (dbuf b)) (reader b) = (bs, err, r)" by (rule prod_cases3)
  note facts = io_Read_facts [OF read]
  define c where "c = b\<lparr>dbuf := overwrite 0 bs (dbuf b), reader := r\<rparr>"
  show ?case
  proof (cases err)
    case (Some e)
    note e = facts(5) [OF Some]
    then have "skip_loop n b = Some (Inl (rd_final (reader b)), b)"
      using read Some by (subst skip_loop.simps) (simp add: Let_def overwrite_def)
    with e less.prems show ?thesis by (intro exI [of _ b]) (simp add: reader_bytes_def)
  next
    case None
    then have pieces: "rd_pieces (reader b) \<noteq> []" using read by (auto simp: io_Read_def)
    then have cap: "0 < length (dbuf b)" using less.prems(1) by (auto simp: dec_inv_def)
    have c: "dec_inv c" "lim c = lim b" "reader c = r"
      using less.prems(1) facts(1) cap by (auto simp: c_def dec_inv_def overwrite_def)
    have smaller: "reader_size (reader c) < reader_size (reader b)" using facts(4) None cap c(3) by simp
    have bytes: "reader_bytes (reader b) = bs @ reader_bytes r" by (rule facts(2))
    show ?thesis
    proof (cases "n \<le> length bs")
      case True
      define d where "d = c\<lparr>dbeg := n, dend := length bs\<rparr>"
      have "skip_loop n b = Some (Inr (), d)"
        using read None True less.prems(2) by (subst skip_loop.simps) (auto simp: Let_def c_def d_def)
      moreover have "dec_inv d"
        using facts(1) True cap by (auto simp: d_def c_def dec_inv_def overwrite_def)
      moreover have "pending d = drop n (reader_bytes (reader b))"
        using True bytes facts(1) by (simp add: d_def c_def pending_def unread_def overwrite_def)
      moreover have "rd_final (reader d) = rd_final (reader b)" "lim d = lim b"
        using facts(3) by (simp_all add: d_def c_def)
      ultimately show ?thesis using True bytes by (intro exI [of _ d]) simp
    next
      case False
      then have step: "skip_loop n b = skip_loop (n - length bs) c"
        using read None by (subst skip_loop.simps) (auto simp: Let_def c_def)
      from less.hyps [OF smaller c(1), of "n - length bs"] False obtain b' where b':
        "dec_inv b'" "rd_final (reader b') = rd_final r" "lim b' = lim c"
        "if n - length bs \<le> length (reader_bytes r)
         then skip_loop (n - length bs) c = Some (Inr (), b') \<and> pending b' = drop (n - length bs) (reader_bytes r)
         else skip_loop (n - length bs) c = Some (Inl (rd_final r), b')" using c(3) by auto
      then show ?thesis
        using False bytes step facts(3) c(2) by (intro exI [of _ b']) (auto split: if_splits)
    qed
  qed
qed

lemma Skip_returns:
  assumes "dec_inv b"
  shows "\<exists>b'. if n \<le> length (avail b) then Skip n b = Some (Inr (), b') \<and> advanced n b b'
    else Skip n b = Some (Inl (short_error n b), b')"
proof -
  consider (limit) "0 \<le> lim b" "lim b < int n" | (enough) "int n \<le> lim b \<or> lim b < 0" "n \<le> dend b - dbeg b"
    | (loop) "int n \<le> lim b \<or> lim b < 0" "\<not> n \<le> dend b - dbeg b" by linarith
  then show ?thesis
  proof cases
    case limit
    then show ?thesis by (auto simp: Skip_def length_avail short_error_def)
  next
    case enough
    then have "n \<le> length (pending b)" using length_unread [OF assms] by (simp add: pending_def)
    moreover have "Skip n b = Some (Inr (), SkipAvailable n b)"
      using enough by (auto simp: Skip_def SkipAvailable_def)
    ultimately show ?thesis
      using enough SkipAvailable_advances [OF assms enough(2)] by (auto simp: length_avail)
  next
    case loop
    define c where "c = b\<lparr>lim := lim b - int n\<rparr>"
    have c: "dec_inv c" "reader c = reader b" using assms by (simp_all add: c_def dec_inv_def)
    have u: "length (unread b) = dend b - dbeg b" by (rule length_unread [OF assms])
    have "Skip n b = skip_loop (n - length (unread b)) c" using loop u by (auto simp: Skip_def c_def Let_def)
    moreover obtain b' where b': "dec_inv b'" "rd_final (reader b') = rd_final (reader c)" "lim b' = lim c"
      "if n - length (unread b) \<le> length (reader_bytes (reader c))
       then skip_loop (n - length (unread b)) c = Some (Inr (), b')
         \<and> pending b' = drop (n - length (unread b)) (reader_bytes (reader c))
       else skip_loop (n - length (unread b)) c = Some (Inl (rd_final (reader c)), b')"
      using skip_loop_returns [OF c(1), of "n - length (unread b)"] loop u by auto
    moreover have "drop n (pending b) = drop (n - length (unread b)) (reader_bytes (reader b))"
      using loop u by (simp add: pending_def)
    moreover have "lim c = lim b - int n" by (simp add: c_def)
    ultimately show ?thesis
      using loop u c(2)
      by (intro exI [of _ b']) (auto simp: length_avail advanced_def short_error_def pending_def split: if_splits)
  qed
qed

lemma read_loop_returns:
  "\<exists>r'. (rd_pieces r = [] \<longrightarrow> rd_pieces r' = []) \<and> rd_final r' = rd_final r \<and>
    (if n \<le> length (reader_bytes r)
     then read_loop n acc r = Some (Inr (acc @ take n (reader_bytes r)), r') \<and> reader_bytes r' = drop n (reader_bytes r)
     else read_loop n acc r = Some (Inl (rd_final r), r'))"
proof (induction "reader_size r" arbitrary: r n acc rule: less_induct)
  case less
  show ?case
  proof (cases "n = 0")
    case True
    then show ?thesis by (intro exI [of _ r]) (simp add: read_loop.simps)
  next
    case False
    obtain bs err r1 where read: "io_Read n r = (bs, err, r1)" by (rule prod_cases3)
    note facts = io_Read_facts [OF read]
    show ?thesis
    proof (cases err)
      case (Some e)
      note e = facts(5) [OF Some]
      then have "read_loop n acc r = Some (Inl (rd_final r), r)"
        using read Some False by (subst read_loop.simps) simp
      with e False show ?thesis by (intro exI [of _ r]) (simp add: reader_bytes_def)
    next
      case None
      then have smaller: "reader_size r1 < reader_size r" using facts(4) False by simp
      have step: "read_loop n acc r = read_loop (n - length bs) (acc @ bs) r1"
        using read None False by (subst read_loop.simps) auto
      have "rd_pieces r \<noteq> []" using None read by (auto simp: io_Read_def)
      with less.hyps [OF smaller, of "n - length bs" "acc @ bs"] step facts(1,2,3) show ?thesis
        by (auto split: if_splits)
    qed
  qed
qed

lemma ReadIntoBuf_returns:
  assumes "dec_inv b"
  shows "\<exists>b'. if n \<le> length (avail b) then ReadIntoBuf n b = Some (Inr (take n (avail b)), b') \<and> advanced n b b'
    else ReadIntoBuf n b = Some (Inl (short_error n b), b')"
proof (cases "- 1 < lim b \<and> lim b < int n")
  case True
  then show ?thesis by (auto simp: ReadIntoBuf_def length_avail short_error_def)
next
  case False
  define c where "c = (if - 1 < lim b then b\<lparr>lim := lim b - int n\<rparr> else b)"
  define k where "k = length (take n (unread b))"
  have c: "unread c = unread b" "reader c = reader b" by (simp_all add: c_def unread_def)
  obtain r where r: "rd_pieces (reader b) = [] \<longrightarrow> rd_pieces r = []" "rd_final r = rd_final (reader b)"
    "if n - k \<le> length (reader_bytes (reader b))
     then read_loop (n - k) (take n (unread b)) (reader b)
         = Some (Inr (take n (unread b) @ take (n - k) (reader_bytes (reader b))), r)
       \<and> reader_bytes r = drop (n - k) (reader_bytes (reader b))
     else read_loop (n - k) (take n (unread b)) (reader b) = Some (Inl (rd_final (reader b)), r)"
    using read_loop_returns [of "reader b" "n - k" "take n (unread b)"] by blast
  define b' where "b' = c\<lparr>dbeg := dbeg c + k, reader := r\<rparr>"
  have read: "ReadIntoBuf n b = (case read_loop (n - k) (take n (unread b)) (reader b) of
      None \<Rightarrow> None | Some (res, r) \<Rightarrow> Some (res, c\<lparr>dbeg := dbeg c + k, reader := r\<rparr>))"
    unfolding ReadIntoBuf_def if_not_P [OF False] Let_def c_def [symmetric] unread_def [symmetric] c
      k_def [symmetric] by (simp add: c)
  have len: "n - k \<le> length (reader_bytes (reader b)) \<longleftrightarrow> n \<le> length (avail b)"
    using False by (auto simp: length_avail pending_def k_def min_def)
  have k: "dbeg b + k \<le> dend b"
    using length_unread [OF assms] assms by (auto simp: k_def dec_inv_def)
  have inv: "dec_inv b'"
    using assms k r(1) by (auto simp: b'_def c_def dec_inv_def)
  have "advanced n b b'" if "n \<le> length (avail b)"
    using that r len inv k False
    by (auto simp: advanced_def b'_def c_def pending_def unread_def k_def min_def add.commute)
  moreover have "take n (unread b) @ take (n - k) (reader_bytes (reader b)) = take n (pending b)"
    by (simp add: pending_def k_def min_def)
  ultimately show ?thesis
    using read r(3) len False take_avail [of n b]
    by (intro exI [of _ b']) (auto simp: b'_def short_error_def split: if_splits)
qed

lemma newDecbuf_facts [simp]:
  "dec_inv (newDecbuf r)" "avail (newDecbuf r) = reader_bytes r"
  by (simp_all add: newDecbuf_def dec_inv_def minBufFree_def avail_def pending_def unread_def)

lemma newDecbufFromBytes_facts [simp]:
  "dec_inv (newDecbufFromBytes bs)" "avail (newDecbufFromBytes bs) = bs"
  by (simp_all add: newDecbufFromBytes_def alwaysEOFReader_def dec_inv_def avail_def pending_def unread_def
      reader_bytes_def)

lemma SetLimit_facts:
  "dec_inv b \<Longrightarrow> dec_inv (SetLimit l b)" "lim b < 0 \<Longrightarrow> 0 \<le> l \<Longrightarrow> avail (SetLimit l b) = take (nat l) (avail b)"
  by (simp_all add: SetLimit_def dec_inv_def avail_def pending_def unread_def)

subsection \<open>Properties\<close>

text \<open>ReadIntoBuf and Skip return for every reader: with the next \<open>n\<close> bytes, respectively past them,
  when as many are left within the limit, and otherwise with an error, which is EOF when the limit is
  what is in the way and the error of the reader when it has run out.\<close>

theorem ReadIntoBuf_Skip_correct:
  assumes "dec_inv b"
  shows "\<exists>b' c.
    (if n \<le> length (avail b)
     then ReadIntoBuf n b = Some (Inr (take n (avail b)), b') \<and> avail b' = drop n (avail b) \<and> dec_inv b'
       \<and> Skip n b = Some (Inr (), c) \<and> avail c = drop n (avail b) \<and> dec_inv c
     else ReadIntoBuf n b = Some (Inl (short_error n b), b') \<and> Skip n b = Some (Inl (short_error n b), c))"
  using ReadIntoBuf_returns [OF assms, of n] Skip_returns [OF assms, of n]
  by (cases "n \<le> length (avail b)") (auto dest: avail_advanced advanced_inv)

theorem ReadIntoBuf_Skip_correct_witness:
  "\<exists>b'. ReadIntoBuf 3 (newDecbuf \<lparr>rd_pieces = [[1], [], [2, 3, 4]], rd_final = EOF\<rparr>) = Some (Inr [1, 2, 3], b')"
  using ReadIntoBuf_Skip_correct [of "newDecbuf \<lparr>rd_pieces = [[1], [], [2, 3, 4]], rd_final = EOF\<rparr>" 3]
  by (auto simp: reader_bytes_def)

text \<open>Writing to an encoder's buffer appends exactly the bytes that are written, however often the
  buffer has to be reallocated, and never writes outside it.\<close>

theorem encbuf_appends:
  assumes "enc_inv b"
  shows "enc_Bytes (enc_Write xs b) = enc_Bytes b @ xs \<and> enc_inv (enc_Write xs b) \<and>
    enc_Bytes (WriteOneByte x b) = enc_Bytes b @ [x] \<and> enc_inv (WriteOneByte x b) \<and>
    enc_Bytes (WriteString s b) = enc_Bytes b @ bytes_of s \<and> enc_inv (WriteString s b) \<and>
    (case Grow n b of (at, b') \<Rightarrow> at = enc_Len b \<and> enc_Len b' = at + n \<and> enc_inv b' \<and> take at (enc_Bytes b') = enc_Bytes b)"
proof -
  note r = reserve_facts [OF assms, of n]
  have "enc_Bytes (reserve n b) = take (eend b) (ebuf (reserve n b))" using r(2) by (simp add: enc_Bytes_def)
  then have "case Grow n b of (at, b') \<Rightarrow>
      at = enc_Len b \<and> enc_Len b' = at + n \<and> enc_inv b' \<and> take at (enc_Bytes b') = enc_Bytes b"
    using r by (simp add: Grow_def Let_def enc_Len_def enc_inv_def enc_Bytes_def)
  then show ?thesis
    using assms by (simp add: write_bytes.put_Bytes write_bytes.put_inv one_byte.put_Bytes one_byte.put_inv
        write_string.put_Bytes write_string.put_inv)
qed

theorem encbuf_appends_witness:
  "enc_Bytes (enc_Write [1, 2] (WriteOneByte 9 newEncbuf)) = [9, 1, 2]"
proof -
  have "enc_inv (WriteOneByte 9 newEncbuf)" "enc_Bytes (WriteOneByte 9 newEncbuf) = [9]"
    using encbuf_appends [of newEncbuf] by simp_all
  with encbuf_appends [of "WriteOneByte 9 newEncbuf" "[1, 2]"] show ?thesis by simp
qed

end
