(* ===== verification/VomBinary.thy ===== *)
theory VomBinary
  imports VomBuf
begin

text \<open>
  The primitive VOM encodings: vom/binary_util.go. Unsigned integers implement \<open>varint\<close> of theory
  WireCodec by a case distinction on their size; signed integers, floats and strings are built on them.
  A float is its 64 IEEE bits, an \<open>int64\<close> a 64-bit word read with \<open>sint\<close>.

  Writers interpret \<open>buffer_writer\<close> of theory VomBuf. Readers interpret \<open>stream_decoder\<close> below: on a
  \<open>decbuf\<close> in any state, with any reader and limit, they return what a function on byte lists returns
  for the available bytes. Together with \<open>prefix_codec\<close> this gives the round trips through the buffers.
\<close>

subsection \<open>Writers\<close>

definition lenUint :: "u64 \<Rightarrow> nat" where
  "lenUint v =
     (if v \<le> 0x7f then 1
      else if v \<le> 0xff then 2
      else if v \<le> 0xffff then 3
      else if v \<le> 0xffffff then 4
      else if v \<le> 0xffffffff then 5
      else if v \<le> 0xffffffffff then 6
      else if v \<le> 0xffffffffffff then 7
      else if v \<le> 0xffffffffffffff then 8
      else 9)"

text \<open>\<open>None\<close> is the panic on a byte that is not a control code.\<close>

definition binaryEncodeControl :: "byte \<Rightarrow> encbuf \<Rightarrow> encbuf option" where
  "binaryEncodeControl v b = (if v < 0x80 \<or> 0xef < v then None else Some (WriteOneByte v b))"

definition binaryEncodeBool :: "bool \<Rightarrow> encbuf \<Rightarrow> encbuf" where
  "binaryEncodeBool v b = (if v then WriteOneByte 1 b else WriteOneByte 0 b)"

definition binaryEncodeUint :: "u64 \<Rightarrow> encbuf \<Rightarrow> encbuf" where
  "binaryEncodeUint v b =
     (if v \<le> 0x7f then grow_put [ucast v] b
      else if v \<le> 0xff then grow_put [0xff, ucast v] b
      else if v \<le> 0xffff then grow_put [0xfe, ucast (drop_bit 8 v), ucast v] b
      else if v \<le> 0xffffff then
        grow_put [0xfd, ucast (drop_bit 16 v), ucast (drop_bit 8 v), ucast v] b
      else if v \<le> 0xffffffff then
        grow_put [0xfc, ucast (drop_bit 24 v), ucast (drop_bit 16 v), ucast (drop_bit 8 v), ucast v] b
      else if v \<le> 0xffffffffff then
        grow_put [0xfb, ucast (drop_bit 32 v), ucast (drop_bit 24 v), ucast (drop_bit 16 v),
          ucast (drop_bit 8 v), ucast v] b
      else if v \<le> 0xffffffffffff then
        grow_put [0xfa, ucast (drop_bit 40 v), ucast (drop_bit 32 v), ucast (drop_bit 24 v),
          ucast (drop_bit 16 v), ucast (drop_bit 8 v), ucast v] b
      else if v \<le> 0xffffffffffffff then
        grow_put [0xf9, ucast (drop_bit 48 v), ucast (drop_bit 40 v), ucast (drop_bit 32 v),
          ucast (drop_bit 24 v), ucast (drop_bit 16 v), ucast (drop_bit 8 v), ucast v] b
      else
        grow_put [0xf8, ucast (drop_bit 56 v), ucast (drop_bit 48 v), ucast (drop_bit 40 v),
          ucast (drop_bit 32 v), ucast (drop_bit 24 v), ucast (drop_bit 16 v), ucast (drop_bit 8 v),
          ucast v] b)"

text \<open>The unsigned integer that stands for a signed one: the low bit says whether to complement.\<close>

definition int_to_uint :: "u64 \<Rightarrow> u64" where
  "int_to_uint v = (if sint v < 0 then push_bit 1 (NOT v) OR 1 else push_bit 1 v)"

definition binaryEncodeInt :: "u64 \<Rightarrow> encbuf \<Rightarrow> encbuf" where
  "binaryEncodeInt v b = binaryEncodeUint (int_to_uint v) b"

definition reverse_bytes :: "u64 \<Rightarrow> u64" where
  "reverse_bytes x =
     push_bit 56 (x AND 0xff) OR push_bit 40 (x AND 0xff00) OR push_bit 24 (x AND 0xff0000) OR
     push_bit 8 (x AND 0xff000000) OR drop_bit 8 (x AND 0xff00000000) OR
     drop_bit 24 (x AND 0xff0000000000) OR drop_bit 40 (x AND 0xff000000000000) OR
     drop_bit 56 (x AND 0xff00000000000000)"

definition binaryEncodeFloat :: "u64 \<Rightarrow> encbuf \<Rightarrow> encbuf" where
  "binaryEncodeFloat ieee b = binaryEncodeUint (reverse_bytes ieee) b"

definition binaryEncodeString :: "string \<Rightarrow> encbuf \<Rightarrow> encbuf" where
  "binaryEncodeString s b = WriteString s (binaryEncodeUint (word_of_nat (length s)) b)"

text \<open>
  \<open>binaryEncodeUintEnd\<close> assigns to the last elements of a slice and returns the index of the first one.
  An index below zero panics, \<open>None\<close>.
\<close>

definition put_end :: "byte list \<Rightarrow> byte list \<Rightarrow> (byte list \<times> nat) option" where
  "put_end xs buf =
     (if length buf < length xs then None
      else Some (overwrite (length buf - length xs) xs buf, length buf - length xs))"

definition binaryEncodeUintEnd :: "byte list \<Rightarrow> u64 \<Rightarrow> (byte list \<times> nat) option" where
  "binaryEncodeUintEnd buf v =
     (if v \<le> 0x7f then put_end [ucast v] buf
      else if v \<le> 0xff then put_end [0xff, ucast v] buf
      else if v \<le> 0xffff then put_end [0xfe, ucast (drop_bit 8 v), ucast v] buf
      else if v \<le> 0xffffff then
        put_end [0xfd, ucast (drop_bit 16 v), ucast (drop_bit 8 v), ucast v] buf
      else if v \<le> 0xffffffff then
        put_end [0xfc, ucast (drop_bit 24 v), ucast (drop_bit 16 v), ucast (drop_bit 8 v), ucast v] buf
      else if v \<le> 0xffffffffff then
        put_end [0xfb, ucast (drop_bit 32 v), ucast (drop_bit 24 v), ucast (drop_bit 16 v),
          ucast (drop_bit 8 v), ucast v] buf
      else if v \<le> 0xffffffffffff then
        put_end [0xfa, ucast (drop_bit 40 v), ucast (drop_bit 32 v), ucast (drop_bit 24 v),
          ucast (drop_bit 16 v), ucast (drop_bit 8 v), ucast v] buf
      else if v \<le> 0xffffffffffffff then
        put_end [0xf9, ucast (drop_bit 48 v), ucast (drop_bit 40 v), ucast (drop_bit 32 v),
          ucast (drop_bit 24 v), ucast (drop_bit 16 v), ucast (drop_bit 8 v), ucast v] buf
      else
        put_end [0xf8, ucast (drop_bit 56 v), ucast (drop_bit 48 v), ucast (drop_bit 40 v),
          ucast (drop_bit 32 v), ucast (drop_bit 24 v), ucast (drop_bit 16 v), ucast (drop_bit 8 v),
          ucast v] buf)"

definition binaryEncodeIntEnd :: "byte list \<Rightarrow> u64 \<Rightarrow> (byte list \<times> nat) option" where
  "binaryEncodeIntEnd buf v = binaryEncodeUintEnd buf (int_to_uint v)"

subsection \<open>Readers\<close>

definition uint64Size :: int where
  "uint64Size = 8"

definition maxBinaryMsgLen :: u64 where
  "maxBinaryMsgLen = push_bit 30 1"

text \<open>\<open>int(-int8(firstByte))\<close>: the negation is that of an 8-bit integer, and maps 0x80 to itself.\<close>

definition byte_len :: "byte \<Rightarrow> int" where
  "byte_len firstByte = sint (- firstByte)"

definition binaryDecodeControlOnly :: "byte \<Rightarrow> decbuf \<Rightarrow> bool dec_result" where
  "binaryDecodeControlOnly want b =
     dec_bind (ensure 1 b) (\<lambda>_ b.
       let ctrl = PeekAvailableByte b in
       if ctrl < 0x80 \<or> 0xef < ctrl then Some (Inr False, b)
       else if ctrl \<noteq> want then Some (Inl (ErrBadControlCode ctrl), b)
       else Some (Inr True, SkipAvailable 1 b))"

definition binaryPeekControl :: "decbuf \<Rightarrow> byte dec_result" where
  "binaryPeekControl b =
     dec_bind (ensure 1 b) (\<lambda>_ b.
       let ctrl = PeekAvailableByte b in
       if ctrl < 0x80 \<or> 0xef < ctrl then Some (Inr 0, b) else Some (Inr ctrl, b))"

definition binaryDecodeBool :: "decbuf \<Rightarrow> bool dec_result" where
  "binaryDecodeBool b =
     dec_bind (ensure 1 b) (\<lambda>_ b. case ReadAvailableByte b of (value, b) \<Rightarrow>
       if 1 < value then Some (Inl ErrInvalid, b) else Some (Inr (value \<noteq> 0), b))"

definition binaryDecodeUint :: "decbuf \<Rightarrow> u64 dec_result" where
  "binaryDecodeUint b =
     dec_bind (ensure 1 b) (\<lambda>_ b. case ReadAvailableByte b of (firstByte, b) \<Rightarrow>
       if firstByte \<le> 0x7f then Some (Inr (ucast firstByte), b)
       else if byte_len firstByte < 1 \<or> uint64Size < byte_len firstByte
       then Some (Inl (ErrInvalidLenOrControl firstByte), b)
       else dec_bind (ensure (nat (byte_len firstByte)) b) (\<lambda>_ b.
         case ReadAvailable (nat (byte_len firstByte)) b of (bytes, b) \<Rightarrow> Some (Inr (be_fold 0 bytes), b)))"

definition binaryPeekUint :: "decbuf \<Rightarrow> (u64 \<times> nat) dec_result" where
  "binaryPeekUint b =
     dec_bind (ensure 1 b) (\<lambda>_ b.
       let firstByte = PeekAvailableByte b in
       if firstByte \<le> 0x7f then Some (Inr (ucast firstByte, 1), b)
       else if byte_len firstByte < 1 \<or> uint64Size < byte_len firstByte
       then Some (Inl (ErrInvalidLenOrControl firstByte), b)
       else let byteLen = nat (byte_len firstByte) + 1 in
         dec_bind (ensure byteLen b) (\<lambda>_ b.
           Some (Inr (be_fold 0 (tl (PeekAvailable byteLen b)), byteLen), b)))"

definition binarySkipUint :: "decbuf \<Rightarrow> unit dec_result" where
  "binarySkipUint b =
     dec_bind (ensure 1 b) (\<lambda>_ b.
       let firstByte = PeekAvailableByte b in
       if firstByte \<le> 0x7f then Some (Inr (), SkipAvailable 1 b)
       else if byte_len firstByte < 1 \<or> uint64Size < byte_len firstByte
       then Some (Inl (ErrInvalidLenOrControl firstByte), b)
       else let byteLen = nat (byte_len firstByte) + 1 in
         dec_bind (ensure byteLen b) (\<lambda>_ b. Some (Inr (), SkipAvailable byteLen b)))"

definition binaryPeekUintByteLen :: "decbuf \<Rightarrow> nat dec_result" where
  "binaryPeekUintByteLen b =
     dec_bind (ensure 1 b) (\<lambda>_ b.
       let firstByte = PeekAvailableByte b in
       if firstByte \<le> 0x7f then Some (Inr 1, b)
       else if byte_len firstByte < 1 \<or> uint64Size < byte_len firstByte
       then Some (Inl (ErrInvalidLenOrControl firstByte), b)
       else Some (Inr (1 + nat (byte_len firstByte)), b))"

definition binaryDecodeLen :: "decbuf \<Rightarrow> nat dec_result" where
  "binaryDecodeLen b =
     dec_bind (binaryDecodeUint b) (\<lambda>ulen b.
       if maxBinaryMsgLen < ulen then Some (Inl ErrMsgLen, b) else Some (Inr (unat ulen), b))"

text \<open>The type argument is the length of the array type, or \<open>None\<close> for a type of another kind.\<close>

definition binaryDecodeLenOrArrayLen :: "nat option \<Rightarrow> decbuf \<Rightarrow> nat dec_result" where
  "binaryDecodeLenOrArrayLen array b =
     dec_bind (binaryDecodeLen b) (\<lambda>len b.
       case array of
         Some alen \<Rightarrow> if len \<noteq> 0 then Some (Inl ErrInvalid, b) else Some (Inr alen, b)
       | None \<Rightarrow> Some (Inr len, b))"

definition uint_to_int :: "u64 \<Rightarrow> u64" where
  "uint_to_int uvalue = (if uvalue AND 1 = 1 then NOT (drop_bit 1 uvalue) else drop_bit 1 uvalue)"

definition binaryDecodeInt :: "decbuf \<Rightarrow> u64 dec_result" where
  "binaryDecodeInt b =
     dec_bind (ensure 1 b) (\<lambda>_ b. case ReadAvailableByte b of (firstByte, b) \<Rightarrow>
       if firstByte \<le> 0x7f then
         Some (Inr (if firstByte AND 1 = 1 then NOT (ucast (drop_bit 1 firstByte)) else ucast (drop_bit 1 firstByte)), b)
       else if byte_len firstByte < 1 \<or> uint64Size < byte_len firstByte
       then Some (Inl (ErrInvalidLenOrControl firstByte), b)
       else dec_bind (ensure (nat (byte_len firstByte)) b) (\<lambda>_ b.
         case ReadAvailable (nat (byte_len firstByte)) b of (bytes, b) \<Rightarrow>
           Some (Inr (uint_to_int (be_fold 0 bytes)), b)))"

definition binaryPeekInt :: "decbuf \<Rightarrow> (u64 \<times> nat) dec_result" where
  "binaryPeekInt b =
     dec_bind (ensure 1 b) (\<lambda>_ b.
       let firstByte = PeekAvailableByte b in
       if firstByte \<le> 0x7f then
         Some (Inr (if firstByte AND 1 = 1 then NOT (ucast (drop_bit 1 firstByte)) else ucast (drop_bit 1 firstByte), 1), b)
       else if byte_len firstByte < 1 \<or> uint64Size < byte_len firstByte
       then Some (Inl (ErrInvalidLenOrControl firstByte), b)
       else let byteLen = nat (byte_len firstByte) + 1 in
         dec_bind (ensure byteLen b) (\<lambda>_ b.
           Some (Inr (uint_to_int (be_fold 0 (tl (PeekAvailable byteLen b))), byteLen), b)))"

definition binaryDecodeFloat :: "decbuf \<Rightarrow> u64 dec_result" where
  "binaryDecodeFloat b = dec_bind (binaryDecodeUint b) (\<lambda>uvalue b. Some (Inr (reverse_bytes uvalue), b))"

definition binaryDecodeString :: "decbuf \<Rightarrow> string dec_result" where
  "binaryDecodeString b =
     dec_bind (binaryDecodeLen b) (\<lambda>len b.
       if len = 0 then Some (Inr [], b)
       else dec_bind (ReadIntoBuf len b) (\<lambda>data b. Some (Inr (string_of data), b)))"

definition binarySkipString :: "decbuf \<Rightarrow> unit dec_result" where
  "binarySkipString b = dec_bind (binaryDecodeLen b) (\<lambda>len b. Skip len b)"

subsection \<open>The writers implement their encodings\<close>

lemma varint_size:
  assumes "\<not> v \<le> 0x7f" "256 ^ k \<le> unat v" "unat v < 256 ^ Suc k"
  shows "varint v = - word_of_nat (Suc k) # be_bytes (Suc k) v"
  using assms(1) byte_count_eq [OF assms(2,3)] by (simp add: varint_def)

lemma be_bytes_forms:
  "be_bytes (Suc 0) v = [ucast v]"
  "be_bytes (Suc (Suc 0)) v = [ucast (drop_bit 8 v), ucast v]"
  "be_bytes 2 v = [ucast (drop_bit 8 v), ucast v]"
  "be_bytes 3 v = [ucast (drop_bit 16 v), ucast (drop_bit 8 v), ucast v]"
  "be_bytes 4 v = [ucast (drop_bit 24 v), ucast (drop_bit 16 v), ucast (drop_bit 8 v), ucast v]"
  "be_bytes 5 v = ucast (drop_bit 32 v) # be_bytes 4 v"
  "be_bytes 6 v = ucast (drop_bit 40 v) # be_bytes 5 v"
  "be_bytes 7 v = ucast (drop_bit 48 v) # be_bytes 6 v"
  "be_bytes 8 v = ucast (drop_bit 56 v) # be_bytes 7 v"
  by (simp_all add: be_bytes_Suc eval_nat_numeral)

lemma unat_u64_bound: "unat (v :: u64) < 18446744073709551616"
  using unat_u64_less [of v] by simp

text \<open>The nine sizes of the case distinctions.\<close>

lemma varint_forms:
  "v \<le> 0x7f \<Longrightarrow> varint v = [ucast v]"
  "\<not> v \<le> 0x7f \<Longrightarrow> v \<le> 0xff \<Longrightarrow> varint v = [0xff, ucast v]"
  "\<not> v \<le> 0xff \<Longrightarrow> v \<le> 0xffff \<Longrightarrow> varint v = [0xfe, ucast (drop_bit 8 v), ucast v]"
  "\<not> v \<le> 0xffff \<Longrightarrow> v \<le> 0xffffff \<Longrightarrow>
     varint v = [0xfd, ucast (drop_bit 16 v), ucast (drop_bit 8 v), ucast v]"
  "\<not> v \<le> 0xffffff \<Longrightarrow> v \<le> 0xffffffff \<Longrightarrow>
     varint v = [0xfc, ucast (drop_bit 24 v), ucast (drop_bit 16 v), ucast (drop_bit 8 v), ucast v]"
  "\<not> v \<le> 0xffffffff \<Longrightarrow> v \<le> 0xffffffffff \<Longrightarrow>
     varint v = [0xfb, ucast (drop_bit 32 v), ucast (drop_bit 24 v), ucast (drop_bit 16 v),
       ucast (drop_bit 8 v), ucast v]"
  "\<not> v \<le> 0xffffffffff \<Longrightarrow> v \<le> 0xffffffffffff \<Longrightarrow>
     varint v = [0xfa, ucast (drop_bit 40 v), ucast (drop_bit 32 v), ucast (drop_bit 24 v),
       ucast (drop_bit 16 v), ucast (drop_bit 8 v), ucast v]"
  "\<not> v \<le> 0xffffffffffff \<Longrightarrow> v \<le> 0xffffffffffffff \<Longrightarrow>
     varint v = [0xf9, ucast (drop_bit 48 v), ucast (drop_bit 40 v), ucast (drop_bit 32 v),
       ucast (drop_bit 24 v), ucast (drop_bit 16 v), ucast (drop_bit 8 v), ucast v]"
  "\<not> v \<le> 0xffffffffffffff \<Longrightarrow>
     varint v = [0xf8, ucast (drop_bit 56 v), ucast (drop_bit 48 v), ucast (drop_bit 40 v),
       ucast (drop_bit 32 v), ucast (drop_bit 24 v), ucast (drop_bit 16 v), ucast (drop_bit 8 v),
       ucast v]"
proof -
  show "v \<le> 0x7f \<Longrightarrow> varint v = [ucast v]" by (simp add: varint_def)
qed (simp_all add: varint_size [of v 0] varint_size [of v 1] varint_size [of v 2] varint_size [of v 3]
    varint_size [of v 4] varint_size [of v 5] varint_size [of v 6] varint_size [of v 7]
    word_le_nat_alt be_bytes_forms unat_u64_bound)

lemma u64_le_mono: "\<not> v \<le> (b :: u64) \<Longrightarrow> a \<le> b \<Longrightarrow> \<not> v \<le> a"
  by (meson order_trans)

lemma binaryEncodeUint_eq: "binaryEncodeUint v b = grow_put (varint v) b"
  by (simp add: binaryEncodeUint_def varint_forms)

lemma binaryEncodeUintEnd_eq: "binaryEncodeUintEnd buf v = put_end (varint v) buf"
  by (simp add: binaryEncodeUintEnd_def varint_forms)

lemma lenUint_eq: "lenUint v = length (varint v)"
  by (simp add: lenUint_def varint_forms)

interpretation uint_writer: buffer_writer binaryEncodeUint varint
  by unfold_locales (simp_all add: binaryEncodeUint_eq grow_put.put_inv grow_put.put_Bytes)

definition enc_bool :: "bool \<Rightarrow> byte list" where
  "enc_bool v = [if v then 1 else 0]"

definition enc_int :: "u64 \<Rightarrow> byte list" where
  "enc_int v = varint (int_to_uint v)"

definition enc_float :: "u64 \<Rightarrow> byte list" where
  "enc_float v = varint (reverse_bytes v)"

definition enc_string :: "string \<Rightarrow> byte list" where
  "enc_string s = varint (word_of_nat (length s)) @ bytes_of s"

interpretation bool_writer: buffer_writer binaryEncodeBool enc_bool
  by unfold_locales (simp_all add: binaryEncodeBool_def enc_bool_def one_byte.put_inv one_byte.put_Bytes)

interpretation int_writer: buffer_writer binaryEncodeInt enc_int
  by unfold_locales (simp_all add: binaryEncodeInt_def enc_int_def uint_writer.put_inv uint_writer.put_Bytes)

interpretation float_writer: buffer_writer binaryEncodeFloat enc_float
  by unfold_locales (simp_all add: binaryEncodeFloat_def enc_float_def uint_writer.put_inv uint_writer.put_Bytes)

interpretation string_writer: buffer_writer binaryEncodeString enc_string
  by unfold_locales
    (simp_all add: binaryEncodeString_def enc_string_def uint_writer.put_inv uint_writer.put_Bytes
      write_string.put_inv write_string.put_Bytes)

text \<open>The map between signed and unsigned integers, and the reversal of bytes, are bijections.\<close>

lemma sign_bit: "sint (v :: u64) < 0 \<longleftrightarrow> bit v 63"
  using bit_last_iff [of v] by simp

lemma low_bit: "(w :: u64) AND 1 = 1 \<longleftrightarrow> bit w 0"
  by (simp only: and_one_eq bit_0 odd_iff_mod_2_eq_one)

lemma uint_to_int_to_uint: "uint_to_int (int_to_uint v) = v"
proof (cases "sint v < 0")
  case True
  have "drop_bit 1 (push_bit 1 (NOT v) OR 1) = NOT v"
  proof (rule bit_eqI)
    fix n assume "possible_bit TYPE(u64) n"
    then show "bit (drop_bit 1 (push_bit 1 (NOT v) OR 1)) n = bit (NOT v) n"
      using True by (cases "n = 63") (auto simp: bit_simps sign_bit simp del: push_bit_Suc)
  qed
  then show ?thesis using True by (simp add: int_to_uint_def uint_to_int_def low_bit bit_simps)
next
  case False
  have "drop_bit 1 (push_bit 1 v) = v"
  proof (rule bit_eqI)
    fix n assume "possible_bit TYPE(u64) n"
    then show "bit (drop_bit 1 (push_bit 1 v)) n = bit v n"
      using False by (cases "n = 63") (auto simp: bit_simps sign_bit simp del: push_bit_Suc)
  qed
  then show ?thesis using False
    by (simp add: int_to_uint_def uint_to_int_def low_bit bit_simps del: push_bit_Suc drop_bit_Suc)
qed

lemma not_bit_64 [simp]: "\<not> bit (w :: u64) 64"
  using bit_imp_le_length [of w 64] by auto

lemma int_to_uint_to_int: "int_to_uint (uint_to_int u) = u"
proof (cases "bit u 0")
  case True
  have "push_bit 1 (drop_bit 1 u) OR 1 = u"
    using True by (intro bit_eqI) (auto simp: bit_simps simp del: push_bit_Suc drop_bit_Suc)
  then show ?thesis using True by (simp add: int_to_uint_def uint_to_int_def low_bit sign_bit bit_simps)
next
  case False
  have "push_bit 1 (drop_bit 1 u) = u"
  proof (rule bit_eqI)
    fix n assume "possible_bit TYPE(u64) n"
    then show "bit (push_bit 1 (drop_bit 1 u)) n = bit u n"
      using False by (cases n) (auto simp: bit_simps simp del: push_bit_Suc drop_bit_Suc)
  qed
  then show ?thesis using False by (simp add: int_to_uint_def uint_to_int_def low_bit sign_bit bit_simps)
qed

lemma byte_masks:
  "(0xff :: u64) = mask 8" "(0xff00 :: u64) = push_bit 8 (mask 8)" "(0xff0000 :: u64) = push_bit 16 (mask 8)"
  "(0xff000000 :: u64) = push_bit 24 (mask 8)" "(0xff00000000 :: u64) = push_bit 32 (mask 8)"
  "(0xff0000000000 :: u64) = push_bit 40 (mask 8)" "(0xff000000000000 :: u64) = push_bit 48 (mask 8)"
  "(0xff00000000000000 :: u64) = push_bit 56 (mask 8)"
  by (simp_all add: mask_eq_exp_minus_1 push_bit_eq_mult)

text \<open>The byte at position \<open>i\<close> of a word, in its place.\<close>

definition byte_at :: "nat \<Rightarrow> u64 \<Rightarrow> u64" where
  "byte_at i x = x AND push_bit (8 * i) (mask 8)"

lemma bit_byte_at:
  assumes "m < 8"
  shows "bit (byte_at i x) (8 * q + m) \<longleftrightarrow> q = i \<and> bit x (8 * q + m)"
proof -
  have "8 * i \<le> 8 * q + m \<and> 8 * q + m - 8 * i < 8 \<longleftrightarrow> q = i" using assms by linarith
  moreover have "bit (byte_at i x) (8 * q + m) \<longleftrightarrow>
      bit x (8 * q + m) \<and> 8 * i \<le> 8 * q + m \<and> 8 * q + m - 8 * i < 8"
    by (auto simp only: byte_at_def bit_and_iff bit_push_bit_iff bit_mask_iff dest: bit_imp_possible_bit bit_imp_le_length) auto
  ultimately show ?thesis by blast
qed

lemma bit_byte_up:
  assumes "m < 8" "k < 8"
  shows "bit (push_bit (8 * j) (byte_at i x)) (8 * k + m) \<longleftrightarrow> k = i + j \<and> bit x (8 * i + m)"
proof (cases "j \<le> k")
  case True
  then have "8 * k + m - 8 * j = 8 * (k - j) + m" "8 * j \<le> 8 * k + m" by auto
  then have "bit (push_bit (8 * j) (byte_at i x)) (8 * k + m) \<longleftrightarrow> k - j = i \<and> bit x (8 * (k - j) + m)"
    using assms bit_byte_at [OF assms(1), of i x "k - j"] by (simp only: bit_push_bit_iff) simp
  then show ?thesis using True by auto
next
  case False
  then have "\<not> 8 * j \<le> 8 * k + m" using assms(1) by linarith
  then show ?thesis using False by (simp only: bit_push_bit_iff) simp
qed

lemma bit_byte_down:
  assumes "m < 8"
  shows "bit (drop_bit (8 * j) (byte_at i x)) (8 * k + m) \<longleftrightarrow> k + j = i \<and> bit x (8 * i + m)"
  using bit_byte_at [OF assms, of i x "k + j"] by (auto simp: bit_drop_bit_eq algebra_simps)

lemma reverse_bytes_eq:
  "reverse_bytes x =
     push_bit (8 * 7) (byte_at 0 x) OR push_bit (8 * 5) (byte_at 1 x) OR push_bit (8 * 3) (byte_at 2 x) OR
     push_bit (8 * 1) (byte_at 3 x) OR drop_bit (8 * 1) (byte_at 4 x) OR
     drop_bit (8 * 3) (byte_at 5 x) OR drop_bit (8 * 5) (byte_at 6 x) OR
     drop_bit (8 * 7) (byte_at 7 x)"
  by (simp add: reverse_bytes_def byte_masks byte_at_def)

lemma bit_reverse_bytes:
  assumes "m < 8" "k < 8"
  shows "bit (reverse_bytes x) (8 * k + m) = bit x (8 * (7 - k) + m)"
proof -
  have "k = 0 \<or> k = 1 \<or> k = 2 \<or> k = 3 \<or> k = 4 \<or> k = 5 \<or> k = 6 \<or> k = 7" using assms(2) by auto
  then show ?thesis
    unfolding reverse_bytes_eq bit_or_iff bit_byte_up [OF assms] bit_byte_down [OF assms(1)] by (elim disjE; simp)
qed

lemma reverse_bytes_involution: "reverse_bytes (reverse_bytes x) = x"
proof (rule bit_eqI)
  fix n assume "possible_bit TYPE(u64) n"
  then have n: "n div 8 < 8" by auto
  then have "bit (reverse_bytes (reverse_bytes x)) (8 * (n div 8) + n mod 8)
      = bit (reverse_bytes x) (8 * (7 - n div 8) + n mod 8)"
    by (intro bit_reverse_bytes) simp_all
  also have "\<dots> = bit x (8 * (7 - (7 - n div 8)) + n mod 8)"
    by (intro bit_reverse_bytes) simp_all
  finally show "bit (reverse_bytes (reverse_bytes x)) n = bit x n" using n by simp
qed

subsection \<open>The readers implement functions on byte lists\<close>

text \<open>
  A reader agrees with a function on the available bytes: where that succeeds, it returns the same value
  and leaves the same rest; where that fails, it returns an error. In both cases it returns.
\<close>

locale stream_decoder =
  fixes run :: "decbuf \<Rightarrow> 'a dec_result" and dec :: "byte list \<Rightarrow> ('a \<times> byte list) option"
  assumes run_ok: "dec_inv b \<Longrightarrow> dec (avail b) = Some (x, rest) \<Longrightarrow>
      \<exists>n b'. run b = Some (Inr x, b') \<and> advanced n b b' \<and> n \<le> length (avail b) \<and> rest = drop n (avail b)"
    and run_err: "dec_inv b \<Longrightarrow> dec (avail b) = None \<Longrightarrow> \<exists>e b'. run b = Some (Inl e, b')"
begin

lemma run_avail:
  assumes "dec_inv b" "dec (avail b) = Some (x, rest)"
  shows "\<exists>b'. run b = Some (Inr x, b') \<and> dec_inv b' \<and> avail b' = rest"
  using run_ok [OF assms] advanced_inv avail_advanced by metis

lemma run_result:
  assumes "dec_inv b"
  shows "case dec (avail b) of
      Some (x, rest) \<Rightarrow> \<exists>n b'. run b = Some (Inr x, b') \<and> advanced n b b' \<and> n \<le> length (avail b) \<and> rest = drop n (avail b)
    | None \<Rightarrow> \<exists>e b'. run b = Some (Inl e, b')"
  using run_ok [OF assms] run_err [OF assms] by (auto split: option.split)

lemma run_returns: "dec_inv b \<Longrightarrow> run b \<noteq> None"
  using run_ok run_err by (cases "dec (avail b)") fastforce+

lemma run_determined:
  "dec_inv b \<Longrightarrow> (\<exists>b'. run b = Some (Inr x, b')) \<longleftrightarrow> (\<exists>rest. dec (avail b) = Some (x, rest))"
  using run_ok run_err by (cases "dec (avail b)") fastforce+

end

text \<open>A list of values, one after the other.\<close>

fun decode_n :: "(decbuf \<Rightarrow> 'a dec_result) \<Rightarrow> nat \<Rightarrow> decbuf \<Rightarrow> 'a list dec_result" where
  "decode_n run 0 b = Some (Inr [], b)"
| "decode_n run (Suc n) b =
     dec_bind (run b) (\<lambda>x b. dec_bind (decode_n run n b) (\<lambda>xs b. Some (Inr (x # xs), b)))"

lemma dec_bind_simps [simp]:
  "dec_bind (Some (Inr x, b)) f = f x b" "dec_bind (Some (Inl e, b)) f = Some (Inl e, b)" "dec_bind None f = None"
  by (simp_all add: dec_bind_def)

locale buffered_codec =
  prefix_codec enc dec ok + stream_decoder run dec + buffer_writer put enc
  for enc :: "'a \<Rightarrow> byte list" and dec and ok and run and put
begin

lemma decode_n_concat:
  assumes "list_all ok xs" "dec_inv b" "avail b = concat (map enc xs) @ rest"
  shows "\<exists>b'. decode_n run (length xs) b = Some (Inr xs, b') \<and> dec_inv b' \<and> avail b' = rest"
  using assms
proof (induction xs arbitrary: b)
  case (Cons x xs)
  then have "dec (avail b) = Some (x, concat (map enc xs) @ rest)" by (simp add: dec_enc)
  from run_avail [OF Cons.prems(2) this] obtain b1 where b1: "run b = Some (Inr x, b1)" "dec_inv b1"
    "avail b1 = concat (map enc xs) @ rest" by blast
  from Cons.IH [OF _ b1(2,3)] Cons.prems(1) b1(1) show ?case by auto
qed simp

text \<open>
  What is written to an encoder's buffer is read back by a decoder, whatever the pieces in which the
  reader delivers the bytes and whatever follows them.
\<close>

lemma write_read:
  assumes "list_all ok xs" "reader_bytes r = enc_Bytes (fold put xs newEncbuf) @ rest"
  shows "\<exists>b'. decode_n run (length xs) (newDecbuf r) = Some (Inr xs, b') \<and> avail b' = rest"
  using decode_n_concat [OF assms(1), of "newDecbuf r" rest] fold_put [of newEncbuf xs] assms(2) by auto

end

subsection \<open>Available bytes\<close>

lemma ensure_short:
  assumes "dec_inv b" "length (avail b) < n"
  shows "\<exists>b'. ensure n b = Some (Inl (short_error n b), b')"
  using ensure_returns [OF assms(1), of n] assms(2) by (auto split: if_splits)

lemma hd_avail: "avail b = x # rest \<Longrightarrow> hd (pending b) = x"
  by (cases "pending b"; cases "nat (lim b)") (auto simp: avail_def split: if_splits)

lemma pending_same: "advanced 0 b b' \<Longrightarrow> pending b' = pending b"
  by (simp add: advanced_def)

lemma ensure_bytes:
  assumes "dec_inv b" "n \<le> length (avail b)"
  obtains b' where "ensure n b = Some (Inr (), b')" "advanced 0 b b'" "advanced n b (SkipAvailable n b')"
    "n \<le> dend b' - dbeg b'" "PeekAvailable n b' = take n (avail b)"
    "ReadAvailable n b' = (take n (avail b), SkipAvailable n b')"
proof -
  obtain b' where b': "advanced 0 b b'" "n \<le> dend b' - dbeg b'" "ensure n b = Some (Inr (), b')"
    using ensure_returns [OF assms(1), of n] assms(2) by auto
  note inv = advanced_inv [OF b'(1)]
  show thesis
    using that [OF b'(3,1)] b'(2) ReadAvailable_advances [OF inv b'(2)] take_avail [OF assms(2)]
      pending_same [OF b'(1)] advanced_trans0 [OF b'(1) SkipAvailable_advances [OF inv b'(2)]] by simp
qed

lemma ensure_byte:
  assumes "dec_inv b" "avail b = x # rest"
  obtains b' where "ensure 1 b = Some (Inr (), b')" "advanced 0 b b'" "advanced 1 b (SkipAvailable 1 b')"
    "PeekAvailableByte b' = x" "ReadAvailableByte b' = (x, SkipAvailable 1 b')"
proof -
  have "1 \<le> length (avail b)" using assms(2) by simp
  then obtain b' where b': "ensure 1 b = Some (Inr (), b')" "advanced 0 b b'" "advanced 1 b (SkipAvailable 1 b')"
    "1 \<le> dend b' - dbeg b'" by (rule ensure_bytes [OF assms(1)])
  have "hd (pending b') = x" using hd_avail [OF assms(2)] pending_same [OF b'(2)] by simp
  with that [OF b'(1-3)] ReadAvailableByte_advances [OF advanced_inv [OF b'(2)] b'(4)] show thesis by simp
qed

lemma advanced_more:
  assumes "advanced 1 b b'" "avail b = x # rest" "advanced n b' b''"
  shows "advanced (Suc n) b b''"
  using advanced_trans [OF assms(1,3)] length_avail [of 1 b] assms(2) by simp

lemma avail_tail: "advanced 1 b b' \<Longrightarrow> avail b = x # rest \<Longrightarrow> avail b' = rest"
  using avail_advanced [of 1 b b'] by simp

lemma avail_same: "advanced 0 b b' \<Longrightarrow> avail b' = avail b"
  using avail_advanced [of 0 b b'] by simp

subsection \<open>Unsigned integers\<close>

lemma sint_byte: "sint (w :: byte) = (if uint w < 128 then uint w else uint w - 256)"
proof -
  define k where "k = uint w"
  have k: "0 \<le> k" "k < 256" using uint_lt2p [of w] by (simp_all add: k_def)
  have "bit k 7 \<longleftrightarrow> 128 \<le> k"
  proof -
    have "k div 128 = 0 \<and> k < 128 \<or> k div 128 = 1 \<and> 128 \<le> k" using k by linarith
    then show ?thesis by (auto simp: bit_iff_odd)
  qed
  moreover have "sint w = k - 256 * of_bool (bit k 7)"
    using k by (simp add: sint_uint k_def signed_take_bit_eq_take_bit_minus take_bit_int_eq_self)
  ultimately show ?thesis by (simp add: k_def)
qed

lemma byte_len_cases:
  assumes "\<not> firstByte \<le> 0x7f"
  shows "byte_len firstByte < 1 \<or> uint64Size < byte_len firstByte \<longleftrightarrow> 8 < 256 - unat firstByte"
    "256 - unat firstByte \<le> 8 \<Longrightarrow> nat (byte_len firstByte) = 256 - unat firstByte"
proof -
  define n where "n = unat firstByte"
  have n: "127 < n" "n < 256" using assms unat_byte_less [of firstByte] by (simp_all add: byte_le_7f n_def)
  then have "firstByte \<noteq> 0" by (auto simp: n_def)
  then have "unat (- firstByte) = 256 - n" by (simp add: unat_uminus_byte n_def)
  then have "uint (- firstByte) = 256 - int n" using n(2) by (simp only: uint_nat)
  then have "byte_len firstByte = (if n = 128 then - 128 else 256 - int n)"
    using n by (auto simp: byte_len_def sint_byte)
  with n show "byte_len firstByte < 1 \<or> uint64Size < byte_len firstByte \<longleftrightarrow> 8 < 256 - unat firstByte"
    "256 - unat firstByte \<le> 8 \<Longrightarrow> nat (byte_len firstByte) = 256 - unat firstByte"
    unfolding n_def [symmetric] by (auto simp: uint64Size_def)
qed

lemma varint_dec_Cons:
  "varint_dec (fb # bs) =
     (if fb \<le> 0x7f then Some (ucast fb, bs)
      else if byte_len fb < 1 \<or> uint64Size < byte_len fb then None
      else if nat (byte_len fb) \<le> length bs
      then Some (be_fold 0 (take (nat (byte_len fb)) bs), drop (nat (byte_len fb)) bs) else None)"
  using byte_len_cases [of fb] by (auto simp: varint_dec_def Let_def)

text \<open>The bytes of a number that starts with a given byte, after that byte.\<close>

lemma binaryDecodeUint_run:
  assumes "dec_inv b"
  shows "case varint_dec (avail b) of
      Some (v, rest) \<Rightarrow> \<exists>n b'. binaryDecodeUint b = Some (Inr v, b') \<and> advanced n b b' \<and> n \<le> length (avail b)
        \<and> rest = drop n (avail b)
    | None \<Rightarrow> \<exists>e b'. binaryDecodeUint b = Some (Inl e, b')"
proof (cases "avail b")
  case Nil
  then show ?thesis
    using ensure_short [OF assms, of 1] by (auto simp: binaryDecodeUint_def varint_dec_def)
next
  case (Cons fb bs)
  obtain b0 where b0: "ensure 1 b = Some (Inr (), b0)" "advanced 1 b (SkipAvailable 1 b0)"
    "ReadAvailableByte b0 = (fb, SkipAvailable 1 b0)" by (rule ensure_byte [OF assms Cons])
  define b1 where "b1 = SkipAvailable 1 b0"
  have b1: "advanced 1 b b1" "dec_inv b1" "avail b1 = bs"
    using b0(2) advanced_inv avail_tail Cons by (auto simp: b1_def)
  define k where "k = nat (byte_len fb)"
  have run: "binaryDecodeUint b =
     (if fb \<le> 0x7f then Some (Inr (ucast fb), b1)
      else if byte_len fb < 1 \<or> uint64Size < byte_len fb then Some (Inl (ErrInvalidLenOrControl fb), b1)
      else dec_bind (ensure k b1) (\<lambda>_ b. case ReadAvailable k b of (bytes, b) \<Rightarrow> Some (Inr (be_fold 0 bytes), b)))"
    using b0 by (simp add: binaryDecodeUint_def b1_def k_def)
  show ?thesis
  proof (cases "k \<le> length bs")
    case True
    then obtain b2 where "ensure k b1 = Some (Inr (), b2)" "advanced k b1 (SkipAvailable k b2)"
      "ReadAvailable k b2 = (take k bs, SkipAvailable k b2)"
      using ensure_bytes [OF b1(2), of k] b1(3) by metis
    moreover from this(2) have "advanced (Suc k) b (SkipAvailable k b2)" by (rule advanced_more [OF b1(1) Cons])
    ultimately show ?thesis
      using run True Cons b1(1) by (auto simp: varint_dec_Cons k_def [symmetric])
  next
    case False
    then obtain b2 where "ensure k b1 = Some (Inl (short_error k b1), b2)"
      using ensure_short [OF b1(2), of k] b1(3) by auto
    then show ?thesis
      using run False Cons b1(1) by (auto simp: varint_dec_Cons k_def [symmetric])
  qed
qed

interpretation uint_codec:
  buffered_codec varint varint_dec "\<lambda>_. True" binaryDecodeUint binaryEncodeUint
  by unfold_locales (use binaryDecodeUint_run in \<open>fastforce+\<close>)

lemma stream_decoderI:
  assumes "\<And>b. dec_inv b \<Longrightarrow> case dec (avail b) of
      Some (x, rest) \<Rightarrow> \<exists>n b'. run b = Some (Inr x, b') \<and> advanced n b b' \<and> n \<le> length (avail b) \<and> rest = drop n (avail b)
    | None \<Rightarrow> \<exists>e b'. run b = Some (Inl e, b')"
  shows "stream_decoder run dec"
proof
  fix b x rest
  assume "dec_inv b" "dec (avail b) = Some (x, rest)"
  with assms [of b] show "\<exists>n b'. run b = Some (Inr x, b') \<and> advanced n b b' \<and> n \<le> length (avail b)
      \<and> rest = drop n (avail b)" by simp
next
  fix b
  assume "dec_inv b" "dec (avail b) = None"
  with assms [of b] show "\<exists>e b'. run b = Some (Inl e, b')" by simp
qed

text \<open>A reader followed by a check of its value.\<close>

definition dec_check :: "('a \<Rightarrow> dec_error + 'b) \<Rightarrow> (byte list \<Rightarrow> ('a \<times> byte list) option)
    \<Rightarrow> byte list \<Rightarrow> ('b \<times> byte list) option" where
  "dec_check g dec bs =
     (case dec bs of
        None \<Rightarrow> None
      | Some (x, rest) \<Rightarrow> (case g x of Inl _ \<Rightarrow> None | Inr y \<Rightarrow> Some (y, rest)))"

context stream_decoder
begin

lemma check_decoder:
  assumes "\<And>b. run' b = dec_bind (run b) (\<lambda>x b. Some (g x, b))"
  shows "stream_decoder run' (dec_check g dec)"
proof (rule stream_decoderI)
  fix b assume "dec_inv b"
  from run_result [OF this] show "case dec_check g dec (avail b) of
      Some (y, rest) \<Rightarrow> \<exists>n b'. run' b = Some (Inr y, b') \<and> advanced n b b' \<and> n \<le> length (avail b) \<and> rest = drop n (avail b)
    | None \<Rightarrow> \<exists>e b'. run' b = Some (Inl e, b')"
    by (fastforce simp: assms dec_check_def split: option.splits sum.splits)
qed

end

subsection \<open>The other readers\<close>

definition dec_bool :: "byte list \<Rightarrow> (bool \<times> byte list) option" where
  "dec_bool bs = (case bs of [] \<Rightarrow> None | x # rest \<Rightarrow> if 1 < x then None else Some (x \<noteq> 0, rest))"

definition dec_len :: "byte list \<Rightarrow> (nat \<times> byte list) option" where
  "dec_len = dec_check (\<lambda>u. if maxBinaryMsgLen < u then Inl ErrMsgLen else Inr (unat u)) varint_dec"

definition dec_string :: "byte list \<Rightarrow> (string \<times> byte list) option" where
  "dec_string bs =
     (case dec_len bs of
        None \<Rightarrow> None
      | Some (n, rest) \<Rightarrow> if n \<le> length rest then Some (string_of (take n rest), drop n rest) else None)"

abbreviation "dec_int \<equiv> dec_check (\<lambda>u. Inr (uint_to_int u)) varint_dec"
abbreviation "dec_float \<equiv> dec_check (\<lambda>u. Inr (reverse_bytes u)) varint_dec"

lemma single_byte_int:
  "(if fb AND 1 = 1 then NOT (ucast (drop_bit 1 fb)) else ucast (drop_bit 1 fb)) = uint_to_int (ucast (fb :: byte))"
proof -
  have "(ucast (drop_bit 1 fb) :: u64) = drop_bit 1 (ucast fb)"
    by (rule bit_eqI) (auto simp: bit_simps simp del: drop_bit_Suc dest: bit_imp_le_length)
  moreover have "fb AND 1 = 1 \<longleftrightarrow> bit fb 0" by (simp only: and_one_eq bit_0 odd_iff_mod_2_eq_one)
  moreover have "bit (ucast fb :: u64) 0 \<longleftrightarrow> bit fb 0" by (simp add: bit_simps)
  ultimately show ?thesis by (simp add: uint_to_int_def low_bit)
qed

lemma dec_bind_assoc:
  "dec_bind (dec_bind m f) g = dec_bind m (\<lambda>x b. dec_bind (f x b) g)"
  by (auto simp: dec_bind_def split: option.splits sum.splits)

lemma binaryDecodeInt_eq:
  "binaryDecodeInt b = dec_bind (binaryDecodeUint b) (\<lambda>u b. Some (Inr (uint_to_int u), b))"
  unfolding binaryDecodeInt_def single_byte_int binaryDecodeUint_def dec_bind_assoc
  by (simp add: ReadAvailableByte_def ReadAvailable_def dec_bind_assoc
      if_distrib [of "\<lambda>m. dec_bind m f" for f] cong: if_cong)

interpretation int_decoder: stream_decoder binaryDecodeInt dec_int
  by (rule uint_codec.check_decoder) (rule binaryDecodeInt_eq)

interpretation float_decoder: stream_decoder binaryDecodeFloat dec_float
  by (rule uint_codec.check_decoder) (rule binaryDecodeFloat_def)

interpretation len_decoder: stream_decoder binaryDecodeLen dec_len
  unfolding dec_len_def
  by (rule uint_codec.check_decoder) (simp add: binaryDecodeLen_def if_distrib [of "\<lambda>r. Some (r, b)" for b])

interpretation bool_decoder: stream_decoder binaryDecodeBool dec_bool
proof (rule stream_decoderI)
  fix b assume inv: "dec_inv b"
  show "case dec_bool (avail b) of
      Some (y, rest) \<Rightarrow> \<exists>n b'. binaryDecodeBool b = Some (Inr y, b') \<and> advanced n b b' \<and> n \<le> length (avail b)
        \<and> rest = drop n (avail b)
    | None \<Rightarrow> \<exists>e b'. binaryDecodeBool b = Some (Inl e, b')"
  proof (cases "avail b")
    case Nil
    then show ?thesis using ensure_short [OF inv, of 1] by (auto simp: binaryDecodeBool_def dec_bool_def)
  next
    case (Cons x rest)
    obtain b0 where "ensure 1 b = Some (Inr (), b0)" "advanced 1 b (SkipAvailable 1 b0)"
      "ReadAvailableByte b0 = (x, SkipAvailable 1 b0)" by (rule ensure_byte [OF inv Cons])
    then show ?thesis using Cons by (auto simp: binaryDecodeBool_def dec_bool_def)
  qed
qed

text \<open>A length followed by as many bytes.\<close>

lemma len_then_bytes:
  assumes "dec_inv b" "dec_len (avail b) = Some (n, rest)"
  obtains k b1 where "binaryDecodeLen b = Some (Inr n, b1)" "dec_inv b1" "avail b1 = rest"
    "rest = drop k (avail b)" "k \<le> length (avail b)"
    "\<forall>b'. advanced n b1 b' \<longrightarrow> advanced (k + n) b b'"
proof -
  from len_decoder.run_ok [OF assms] obtain k b1 where r: "binaryDecodeLen b = Some (Inr n, b1)"
    "advanced k b b1" "k \<le> length (avail b)" "rest = drop k (avail b)" by blast
  moreover have "avail b1 = rest" using avail_advanced [OF r(2,3)] r(4) by simp
  moreover have "advanced (k + n) b b'" if "advanced n b1 b'" for b'
    using that advanced_trans [OF r(2)] r(3) length_avail [of k b] by simp
  ultimately show thesis using that [of b1 k] advanced_inv by blast
qed

interpretation string_decoder: stream_decoder binaryDecodeString dec_string
proof (rule stream_decoderI)
  fix b assume inv: "dec_inv b"
  show "case dec_string (avail b) of
      Some (y, rest) \<Rightarrow> \<exists>n b'. binaryDecodeString b = Some (Inr y, b') \<and> advanced n b b' \<and> n \<le> length (avail b)
        \<and> rest = drop n (avail b)
    | None \<Rightarrow> \<exists>e b'. binaryDecodeString b = Some (Inl e, b')"
  proof (cases "dec_len (avail b)")
    case None
    with len_decoder.run_err [OF inv None] show ?thesis
      by (auto simp: binaryDecodeString_def dec_string_def)
  next
    case (Some p)
    obtain n rest where p: "p = (n, rest)" by (cases p)
    with Some have len: "dec_len (avail b) = Some (n, rest)" by simp
    obtain k b1 where r: "binaryDecodeLen b = Some (Inr n, b1)" "dec_inv b1" "avail b1 = rest"
      "rest = drop k (avail b)" "k \<le> length (avail b)"
      "\<forall>b'. advanced n b1 b' \<longrightarrow> advanced (k + n) b b'"
      by (rule len_then_bytes [OF inv len])
    show ?thesis
    proof (cases "n \<le> length rest")
      case True
      obtain b' where "ReadIntoBuf n b1 = Some (Inr (take n rest), b')" "advanced n b1 b'"
        using ReadIntoBuf_returns [OF r(2), of n] True r(3) by auto
      moreover have "advanced (k + n) b b1" if "n = 0"
        using r(6) advanced_refl [OF r(2)] that by simp
      moreover have "k + n \<le> length (avail b)" using True r(4,5) by simp
      ultimately show ?thesis
        using r True len p
        by (cases "n = 0") (auto simp: binaryDecodeString_def dec_string_def string_of_def add.commute)
    next
      case False
      then obtain b' where "ReadIntoBuf n b1 = Some (Inl (short_error n b1), b')"
        using ReadIntoBuf_returns [OF r(2), of n] r(3) by auto
      then show ?thesis
        using r False len p by (auto simp: binaryDecodeString_def dec_string_def)
    qed
  qed
qed

text \<open>\<open>binarySkipString\<close> moves as far as \<open>binaryDecodeString\<close> reads.\<close>

interpretation skip_string: stream_decoder binarySkipString "\<lambda>bs. map_option (\<lambda>(_, rest). ((), rest)) (dec_string bs)"
proof (rule stream_decoderI)
  fix b assume inv: "dec_inv b"
  show "case map_option (\<lambda>(_, rest). ((), rest)) (dec_string (avail b)) of
      Some (y, rest) \<Rightarrow> \<exists>n b'. binarySkipString b = Some (Inr y, b') \<and> advanced n b b' \<and> n \<le> length (avail b)
        \<and> rest = drop n (avail b)
    | None \<Rightarrow> \<exists>e b'. binarySkipString b = Some (Inl e, b')"
  proof (cases "dec_len (avail b)")
    case None
    with len_decoder.run_err [OF inv None] show ?thesis
      by (auto simp: binarySkipString_def dec_string_def)
  next
    case (Some p)
    obtain n rest where p: "p = (n, rest)" by (cases p)
    with Some have len: "dec_len (avail b) = Some (n, rest)" by simp
    obtain k b1 where r: "binaryDecodeLen b = Some (Inr n, b1)" "dec_inv b1" "avail b1 = rest"
      "rest = drop k (avail b)" "k \<le> length (avail b)"
      "\<forall>b'. advanced n b1 b' \<longrightarrow> advanced (k + n) b b'"
      by (rule len_then_bytes [OF inv len])
    have "\<exists>b'. if n \<le> length rest then Skip n b1 = Some (Inr (), b') \<and> advanced (k + n) b b'
        else Skip n b1 = Some (Inl (short_error n b1), b')"
      using Skip_returns [OF r(2), of n] r(3,6) by auto
    then show ?thesis
      using r(1,4,5) len by (auto simp: binarySkipString_def dec_string_def add.commute split: if_splits)
  qed
qed

subsection \<open>Peeking and skipping\<close>

lemma length_varint_rest: "varint_dec bs = Some (v, rest) \<Longrightarrow> length rest \<le> length bs"
  using varint.dec_shorter by (simp add: less_imp_le)

text \<open>
  The three readers that look at the first byte first: what they find when it is there and announces a
  length that is there too.
\<close>

lemma peek_uint_cases:
  assumes "dec_inv b"
  obtains (short) b' where "avail b = []" "ensure 1 b = Some (Inl (short_error 1 b), b')"
  | (first) fb bs b0 where "avail b = fb # bs" "ensure 1 b = Some (Inr (), b0)" "advanced 0 b b0"
      "advanced 1 b (SkipAvailable 1 b0)" "PeekAvailableByte b0 = fb"
proof (cases "avail b")
  case Nil
  then show thesis using ensure_short [OF assms, of 1] short by auto
next
  case (Cons fb bs)
  show thesis by (rule ensure_byte [OF assms Cons]) (rule first [OF Cons])
qed

lemma peek_uint_rest:
  assumes "advanced 0 b b0" "avail b = fb # bs" "k = nat (byte_len fb)"
  obtains (fits) b1 where "k \<le> length bs" "ensure (k + 1) b0 = Some (Inr (), b1)" "advanced 0 b b1"
      "advanced (k + 1) b (SkipAvailable (k + 1) b1)" "PeekAvailable (k + 1) b1 = fb # take k bs"
  | (short) b1 where "\<not> k \<le> length bs" "ensure (k + 1) b0 = Some (Inl (short_error (k + 1) b0), b1)"
proof (cases "k \<le> length bs")
  case True
  have inv: "dec_inv b0" using assms(1) by (rule advanced_inv)
  have av: "avail b0 = fb # bs" using avail_same [OF assms(1)] assms(2) by simp
  then have "k + 1 \<le> length (avail b0)" using True by simp
  then obtain b1 where b1: "ensure (k + 1) b0 = Some (Inr (), b1)" "advanced 0 b0 b1"
    "advanced (k + 1) b0 (SkipAvailable (k + 1) b1)" "PeekAvailable (k + 1) b1 = take (k + 1) (avail b0)"
    by (rule ensure_bytes [OF inv])
  show thesis
    by (rule fits [OF True b1(1)])
      (use b1 av advanced_trans0 [OF assms(1)] in simp_all)
next
  case False
  have inv: "dec_inv b0" using assms(1) by (rule advanced_inv)
  have "length (avail b0) < k + 1" using avail_same [OF assms(1)] assms(2) False by simp
  then show thesis using ensure_short [OF inv] short [OF False] by blast
qed

lemma binaryPeekUint_run:
  assumes "dec_inv b"
  shows "case varint_dec (avail b) of
      Some (v, rest) \<Rightarrow> \<exists>b'. binaryPeekUint b = Some (Inr (v, length (avail b) - length rest), b') \<and> advanced 0 b b'
    | None \<Rightarrow> \<exists>e b'. binaryPeekUint b = Some (Inl e, b')"
  using assms
proof (cases rule: peek_uint_cases)
  case (short b')
  then show ?thesis by (simp add: binaryPeekUint_def varint_dec_def)
next
  case (first fb bs b0)
  define k where "k = nat (byte_len fb)"
  have run: "binaryPeekUint b =
     (if fb \<le> 0x7f then Some (Inr (ucast fb, 1), b0)
      else if byte_len fb < 1 \<or> uint64Size < byte_len fb then Some (Inl (ErrInvalidLenOrControl fb), b0)
      else dec_bind (ensure (k + 1) b0) (\<lambda>_ b. Some (Inr (be_fold 0 (tl (PeekAvailable (k + 1) b)), k + 1), b)))"
    using first by (simp add: binaryPeekUint_def Let_def k_def)
  from first(3,1) k_def show ?thesis
  proof (cases rule: peek_uint_rest)
    case (fits b1)
    then show ?thesis using run first by (auto simp: varint_dec_Cons k_def [symmetric])
  next
    case (short b1)
    then show ?thesis using run first by (auto simp: varint_dec_Cons k_def [symmetric])
  qed
qed

interpretation skip_uint: stream_decoder binarySkipUint "\<lambda>bs. map_option (\<lambda>(_, rest). ((), rest)) (varint_dec bs)"
proof (rule stream_decoderI)
  fix b assume "dec_inv b"
  then show "case map_option (\<lambda>(_, rest). ((), rest)) (varint_dec (avail b)) of
      Some (y, rest) \<Rightarrow> \<exists>n b'. binarySkipUint b = Some (Inr y, b') \<and> advanced n b b' \<and> n \<le> length (avail b)
        \<and> rest = drop n (avail b)
    | None \<Rightarrow> \<exists>e b'. binarySkipUint b = Some (Inl e, b')"
  proof (cases rule: peek_uint_cases)
    case (short b')
    then show ?thesis by (simp add: binarySkipUint_def varint_dec_def)
  next
    case (first fb bs b0)
    define k where "k = nat (byte_len fb)"
    have run: "binarySkipUint b =
       (if fb \<le> 0x7f then Some (Inr (), SkipAvailable 1 b0)
        else if byte_len fb < 1 \<or> uint64Size < byte_len fb then Some (Inl (ErrInvalidLenOrControl fb), b0)
        else dec_bind (ensure (k + 1) b0) (\<lambda>_ b. Some (Inr (), SkipAvailable (k + 1) b)))"
      using first by (simp add: binarySkipUint_def Let_def k_def)
    from first(3,1) k_def show ?thesis
    proof (cases rule: peek_uint_rest)
      case (fits b1)
      then show ?thesis using run first by (auto simp: varint_dec_Cons k_def [symmetric])
    next
      case (short b1)
      then show ?thesis using run first by (auto simp: varint_dec_Cons k_def [symmetric])
    qed
  qed
qed

subsection \<open>Round trips through the buffers\<close>

interpretation int_codec: buffered_codec enc_int dec_int "\<lambda>_. True" binaryDecodeInt binaryEncodeInt
  by unfold_locales (simp add: enc_int_def dec_check_def varint_dec_varint uint_to_int_to_uint)

interpretation float_codec: buffered_codec enc_float dec_float "\<lambda>_. True" binaryDecodeFloat binaryEncodeFloat
  by unfold_locales (simp add: enc_float_def dec_check_def varint_dec_varint reverse_bytes_involution)

interpretation bool_codec: buffered_codec enc_bool dec_bool "\<lambda>_. True" binaryDecodeBool binaryEncodeBool
  by unfold_locales (simp add: enc_bool_def dec_bool_def)

text \<open>The decoder takes strings of up to 1 GiB.\<close>

definition string_ok :: "string \<Rightarrow> bool" where
  "string_ok s \<longleftrightarrow> length s \<le> 2 ^ 30"

lemma unat_string_length: "string_ok s \<Longrightarrow> unat (word_of_nat (length s) :: u64) = length s"
  by (simp add: string_ok_def unat_of_nat)

lemma string_length_le:
  assumes "string_ok s"
  shows "\<not> maxBinaryMsgLen < (word_of_nat (length s) :: u64)"
proof -
  have "unat maxBinaryMsgLen = 2 ^ 30" by (simp add: maxBinaryMsgLen_def push_bit_eq_mult)
  then show ?thesis
    using assms unat_string_length [OF assms] by (simp only: word_less_nat_alt string_ok_def not_less)
qed

interpretation string_codec: buffered_codec enc_string dec_string string_ok binaryDecodeString binaryEncodeString
proof unfold_locales
  fix s :: string and rest :: "byte list"
  assume ok: "string_ok s"
  have "dec_len (enc_string s @ rest) = Some (length s, bytes_of s @ rest)"
    by (simp add: dec_len_def dec_check_def enc_string_def varint_dec_varint string_length_le [OF ok]
        unat_string_length [OF ok])
  then show "dec_string (enc_string s @ rest) = Some (s, rest)"
    by (simp add: dec_string_def)
qed

text \<open>A value of a primitive kind, and its writer and reader.\<close>

datatype prim = PBool bool | PUint u64 | PInt u64 | PFloat u64 | PString string

fun encode_prim :: "prim \<Rightarrow> encbuf \<Rightarrow> encbuf" where
  "encode_prim (PBool v) = binaryEncodeBool v"
| "encode_prim (PUint v) = binaryEncodeUint v"
| "encode_prim (PInt v) = binaryEncodeInt v"
| "encode_prim (PFloat v) = binaryEncodeFloat v"
| "encode_prim (PString v) = binaryEncodeString v"

fun prim_ok :: "prim \<Rightarrow> bool" where
  "prim_ok (PString s) = string_ok s"
| "prim_ok _ = True"

text \<open>The reader of the kind of a value.\<close>

definition dec_map :: "('a \<Rightarrow> 'b) \<Rightarrow> 'a dec_result \<Rightarrow> 'b dec_result" where
  "dec_map f m = dec_bind m (\<lambda>x b. Some (Inr (f x), b))"

fun decode_like :: "prim \<Rightarrow> decbuf \<Rightarrow> prim dec_result" where
  "decode_like (PBool _) b = dec_map PBool (binaryDecodeBool b)"
| "decode_like (PUint _) b = dec_map PUint (binaryDecodeUint b)"
| "decode_like (PInt _) b = dec_map PInt (binaryDecodeInt b)"
| "decode_like (PFloat _) b = dec_map PFloat (binaryDecodeFloat b)"
| "decode_like (PString _) b = dec_map PString (binaryDecodeString b)"

fun decode_all :: "prim list \<Rightarrow> decbuf \<Rightarrow> prim list dec_result" where
  "decode_all [] b = Some (Inr [], b)"
| "decode_all (k # ks) b = dec_bind (decode_like k b) (\<lambda>x b. dec_map (Cons x) (decode_all ks b))"

fun enc_prim :: "prim \<Rightarrow> byte list" where
  "enc_prim (PBool v) = enc_bool v"
| "enc_prim (PUint v) = varint v"
| "enc_prim (PInt v) = enc_int v"
| "enc_prim (PFloat v) = enc_float v"
| "enc_prim (PString v) = enc_string v"

interpretation prim_writer: buffer_writer encode_prim enc_prim
proof
  fix b x assume inv: "enc_inv b"
  show "enc_inv (encode_prim x b)"
    using inv by (cases x) (simp_all add: bool_writer.put_inv uint_writer.put_inv int_writer.put_inv
        float_writer.put_inv string_writer.put_inv)
  show "enc_Bytes (encode_prim x b) = enc_Bytes b @ enc_prim x"
    using inv by (cases x) (simp_all add: bool_writer.put_Bytes uint_writer.put_Bytes int_writer.put_Bytes
        float_writer.put_Bytes string_writer.put_Bytes)
qed

lemma decode_like_enc:
  assumes "prim_ok x" "dec_inv b" "avail b = enc_prim x @ rest"
  shows "\<exists>b'. decode_like x b = Some (Inr x, b') \<and> dec_inv b' \<and> avail b' = rest"
proof (cases x)
  case (PBool v)
  then show ?thesis using bool_decoder.run_avail [OF assms(2)] bool_codec.dec_enc [of v rest] assms(3)
    by (fastforce simp: dec_map_def)
next
  case (PUint v)
  then show ?thesis using uint_codec.run_avail [OF assms(2)] varint_dec_varint [of v rest] assms(3)
    by (fastforce simp: dec_map_def)
next
  case (PInt v)
  then show ?thesis using int_decoder.run_avail [OF assms(2)] int_codec.dec_enc [of v rest] assms(3)
    by (fastforce simp: dec_map_def)
next
  case (PFloat v)
  then show ?thesis using float_decoder.run_avail [OF assms(2)] float_codec.dec_enc [of v rest] assms(3)
    by (fastforce simp: dec_map_def)
next
  case (PString v)
  then show ?thesis using string_decoder.run_avail [OF assms(2)] string_codec.dec_enc [of v rest] assms(1,3)
    by (fastforce simp: dec_map_def)
qed

lemma decode_all_enc:
  assumes "list_all prim_ok xs" "dec_inv b" "avail b = concat (map enc_prim xs) @ rest"
  shows "\<exists>b'. decode_all xs b = Some (Inr xs, b') \<and> dec_inv b' \<and> avail b' = rest"
  using assms
proof (induction xs arbitrary: b)
  case (Cons x xs)
  then have "avail b = enc_prim x @ concat (map enc_prim xs) @ rest" by simp
  from decode_like_enc [OF _ Cons.prems(2) this] Cons.prems(1) obtain b1 where
    "decode_like x b = Some (Inr x, b1)" "dec_inv b1" "avail b1 = concat (map enc_prim xs) @ rest" by auto
  with Cons.IH [of b1] Cons.prems(1) show ?case by (auto simp: dec_map_def)
qed simp

subsection \<open>Control bytes\<close>

definition is_control :: "byte \<Rightarrow> bool" where
  "is_control c \<longleftrightarrow> \<not> (c < 0x80 \<or> 0xef < c)"

lemma is_control_unat: "is_control c \<longleftrightarrow> 128 \<le> unat c \<and> unat c \<le> 239"
  by (auto simp: is_control_def word_less_nat_alt)

lemma varint_not_control: "\<not> is_control (hd (varint v))"
proof (cases "v \<le> 0x7f")
  case True
  then have "unat (ucast v :: byte) = unat v" by (intro unat_ucast_small) (simp add: u64_le_7f)
  then show ?thesis using True by (simp add: varint_def is_control_unat u64_le_7f)
next
  case False
  define n where "n = byte_count (unat v)"
  have n: "0 < n" "n \<le> 8"
    using False byte_count_u64 [of v] by (auto simp: n_def u64_le_7f byte_count_pos)
  have "hd (varint v) = - word_of_nat n" using False by (simp add: varint_def n_def)
  moreover have "unat (- word_of_nat n :: byte) = 256 - n" using n by (rule unat_neg_byte)
  ultimately show ?thesis using n by (auto simp: is_control_unat)
qed

lemma binaryDecodeControlOnly_run:
  assumes "dec_inv b" "avail b = c # rest"
  obtains b' where "advanced 0 b b'" "advanced 1 b (SkipAvailable 1 b')"
    "binaryDecodeControlOnly want b = (if \<not> is_control c then Some (Inr False, b')
       else if c \<noteq> want then Some (Inl (ErrBadControlCode c), b') else Some (Inr True, SkipAvailable 1 b'))"
    "binaryPeekControl b = Some (Inr (if is_control c then c else 0), b')"
proof -
  obtain b' where b': "ensure 1 b = Some (Inr (), b')" "advanced 0 b b'" "advanced 1 b (SkipAvailable 1 b')"
    "PeekAvailableByte b' = c" by (rule ensure_byte [OF assms])
  show thesis
    by (rule that [OF b'(2,3)])
      (use b'(1,4) in \<open>simp_all add: binaryDecodeControlOnly_def binaryPeekControl_def Let_def is_control_def\<close>)
qed

lemma varint_dec_append: "varint_dec bs = Some (w, r) \<Longrightarrow> varint_dec (bs @ xs) = Some (w, r @ xs)"
  by (cases bs) (auto simp: varint_dec_def Let_def split: if_splits)

lemma varint_dec_cut:
  assumes "k < length (varint v)"
  shows "varint_dec (take k (varint v)) = None"
proof (rule ccontr)
  assume "varint_dec (take k (varint v)) \<noteq> None"
  then obtain w r where "varint_dec (take k (varint v)) = Some (w, r)" by auto
  from varint_dec_append [OF this, of "drop k (varint v)"] have "r @ drop k (varint v) = []"
    using varint_dec_varint [of v "[]"] by simp
  with assms show False by simp
qed

subsection \<open>Properties\<close>

text \<open>C6: Any sequence of booleans, unsigned and signed integers, floats and strings of up to 1 GiB that is
  written to an encoder's buffer is read back by the readers of these kinds, from a decoder whose reader
  delivers the bytes in pieces of any size, and what follows the sequence is left to be read.\<close>

theorem vom_primitives_roundtrip:
  assumes "list_all prim_ok xs" "reader_bytes r = enc_Bytes (fold encode_prim xs newEncbuf) @ rest"
  shows "\<exists>b. decode_all xs (newDecbuf r) = Some (Inr xs, b) \<and> avail b = rest"
proof -
  have "avail (newDecbuf r) = concat (map enc_prim xs) @ rest"
    using assms(2) prim_writer.fold_put [of newEncbuf xs] by simp
  from decode_all_enc [OF assms(1) _ this] show ?thesis by auto
qed

theorem vom_primitives_roundtrip_witness:
  "\<exists>b. decode_all [PString ''ab'', PInt (- 1), PUint 300]
      (newDecbuf \<lparr>rd_pieces = [[2, 0x61], [], [0x62, 1, 0xfe], [1, 0x2c, 9]], rd_final = EOF\<rparr>)
    = Some (Inr [PString ''ab'', PInt (- 1), PUint 300], b) \<and> avail b = [9]"
proof (rule vom_primitives_roundtrip)
  show "list_all prim_ok [PString ''ab'', PInt (- 1), PUint 300]" by (simp add: string_ok_def)
  have "enc_prim (PString ''ab'') = [2, 0x61, 0x62]" by code_simp
  moreover have "enc_prim (PInt (- 1)) = [1]" by code_simp
  moreover have "enc_prim (PUint 300) = [0xfe, 1, 0x2c]" by code_simp
  ultimately have "enc_Bytes (fold encode_prim [PString ''ab'', PInt (- 1), PUint 300] newEncbuf)
      = [2, 0x61, 0x62, 1, 0xfe, 1, 0x2c]"
    using prim_writer.fold_put [of newEncbuf "[PString ''ab'', PInt (- 1), PUint 300]"]
    by (simp del: fold.simps enc_prim.simps)
  then show "reader_bytes \<lparr>rd_pieces = [[2, 0x61], [], [0x62, 1, 0xfe], [1, 0x2c, 9]], rd_final = EOF\<rparr>
      = enc_Bytes (fold encode_prim [PString ''ab'', PInt (- 1), PUint 300] newEncbuf) @ [9]"
    by (simp add: reader_bytes_def del: fold.simps)
qed

text \<open>C7: Every read of a decoder returns, and what it returns depends on the available bytes alone, not on
  the size of the buffer, the position in it, or the pieces the reader still has to deliver: two decoders
  with the same available bytes decode the same unsigned integer or both report an error, and likewise for
  a string.\<close>

theorem decode_depends_on_bytes:
  assumes "dec_inv b" "dec_inv c" "avail b = avail c"
  shows "((\<exists>b' c' v. binaryDecodeUint b = Some (Inr v, b') \<and> binaryDecodeUint c = Some (Inr v, c') \<and> avail b' = avail c')
       \<or> (\<exists>b' c' e f. binaryDecodeUint b = Some (Inl e, b') \<and> binaryDecodeUint c = Some (Inl f, c')))
    \<and> ((\<exists>b' c' s. binaryDecodeString b = Some (Inr s, b') \<and> binaryDecodeString c = Some (Inr s, c') \<and> avail b' = avail c')
       \<or> (\<exists>b' c' e f. binaryDecodeString b = Some (Inl e, b') \<and> binaryDecodeString c = Some (Inl f, c')))"
proof
  show "(\<exists>b' c' v. binaryDecodeUint b = Some (Inr v, b') \<and> binaryDecodeUint c = Some (Inr v, c') \<and> avail b' = avail c')
      \<or> (\<exists>b' c' e f. binaryDecodeUint b = Some (Inl e, b') \<and> binaryDecodeUint c = Some (Inl f, c'))"
    using uint_codec.run_avail [OF assms(1)] uint_codec.run_avail [OF assms(2)]
      uint_codec.run_err [OF assms(1)] uint_codec.run_err [OF assms(2)] assms(3)
    by (cases "varint_dec (avail b)") fastforce+
  show "(\<exists>b' c' s. binaryDecodeString b = Some (Inr s, b') \<and> binaryDecodeString c = Some (Inr s, c') \<and> avail b' = avail c')
      \<or> (\<exists>b' c' e f. binaryDecodeString b = Some (Inl e, b') \<and> binaryDecodeString c = Some (Inl f, c'))"
    using string_decoder.run_avail [OF assms(1)] string_decoder.run_avail [OF assms(2)]
      string_decoder.run_err [OF assms(1)] string_decoder.run_err [OF assms(2)] assms(3)
    by (cases "dec_string (avail b)") fastforce+
qed



theorem decode_depends_on_bytes_witness:
  "\<exists>b' c' v. binaryDecodeUint (newDecbufFromBytes [0xff, 200]) = Some (Inr v, b')
     \<and> binaryDecodeUint (newDecbuf \<lparr>rd_pieces = [[0xff], [200]], rd_final = EOF\<rparr>) = Some (Inr v, c')"
proof -
  let ?b = "newDecbufFromBytes [0xff, 200]" and ?c = "newDecbuf \<lparr>rd_pieces = [[0xff], [200]], rd_final = EOF\<rparr>"
  have inv: "dec_inv ?b" "dec_inv ?c" "avail ?b = avail ?c" by (simp_all add: reader_bytes_def)
  have "varint_dec (avail ?b) = Some (200, [])" by code_simp
  from uint_codec.run_avail [OF inv(1) this] obtain b' where "binaryDecodeUint ?b = Some (Inr 200, b')" by blast
  with decode_depends_on_bytes [OF inv] show ?thesis by auto
qed

text \<open>Peeking at an unsigned integer returns the value that decoding returns and the length of its
  encoding, without changing what is available; skipping it leaves what decoding leaves.\<close>

theorem peek_and_skip_agree:
  assumes "dec_inv b" "binaryDecodeUint b = Some (Inr v, b')"
  shows "\<exists>c d. binaryPeekUint b = Some (Inr (v, length (avail b) - length (avail b')), c) \<and> avail c = avail b
    \<and> binarySkipUint b = Some (Inr (), d) \<and> avail d = avail b'"
proof -
  obtain rest where d: "varint_dec (avail b) = Some (v, rest)"
    using uint_codec.run_determined [OF assms(1), of v] assms(2) by auto
  have "avail b' = rest" using uint_codec.run_avail [OF assms(1) d] assms(2) by auto
  moreover obtain c where "binaryPeekUint b = Some (Inr (v, length (avail b) - length rest), c)" "advanced 0 b c"
    using binaryPeekUint_run [OF assms(1)] d by auto
  moreover obtain e where "binarySkipUint b = Some (Inr (), e)" "avail e = rest"
    using skip_uint.run_avail [OF assms(1)] d by fastforce
  ultimately show ?thesis using avail_same by auto
qed

theorem peek_and_skip_agree_witness:
  "\<exists>b' c d. binaryDecodeUint (newDecbufFromBytes [0xff, 200, 7]) = Some (Inr 200, b')
     \<and> binaryPeekUint (newDecbufFromBytes [0xff, 200, 7]) = Some (Inr (200, 2), c)
     \<and> binarySkipUint (newDecbufFromBytes [0xff, 200, 7]) = Some (Inr (), d) \<and> avail d = [7]"
proof -
  let ?b = "newDecbufFromBytes [0xff, 200, 7]"
  have "varint_dec (avail ?b) = Some (200, [7])" by code_simp
  from uint_codec.run_avail [OF newDecbufFromBytes_facts(1) this] obtain b' where
    b': "binaryDecodeUint ?b = Some (Inr 200, b')" "avail b' = [7]" by blast
  from peek_and_skip_agree [OF newDecbufFromBytes_facts(1) b'(1)] b' show ?thesis by auto
qed

text \<open>Control bytes are told apart from unsigned integers: no encoding of an integer starts with a byte
  that binaryEncodeControl accepts; binaryDecodeControlOnly consumes the next byte exactly when it is the
  control byte wanted, fails on another control byte, and reports that there is none otherwise;
  binaryPeekControl consumes nothing.\<close>

theorem control_bytes:
  assumes "dec_inv b" "avail b = x # rest"
  shows "binaryEncodeControl (hd (varint v)) eb = None
    \<and> (\<exists>b'. binaryDecodeControlOnly want b =
          (if binaryEncodeControl x eb = None then Some (Inr False, b')
           else if x = want then Some (Inr True, b') else Some (Inl (ErrBadControlCode x), b'))
        \<and> avail b' = (if binaryEncodeControl x eb \<noteq> None \<and> x = want then rest else avail b))
    \<and> (\<exists>c. binaryPeekControl b = Some (Inr (if binaryEncodeControl x eb = None then 0 else x), c)
        \<and> avail c = avail b)"
proof -
  have enc: "binaryEncodeControl c eb = None \<longleftrightarrow> \<not> is_control c" for c
    by (simp add: binaryEncodeControl_def is_control_def)
  obtain b' where b': "advanced 0 b b'" "advanced 1 b (SkipAvailable 1 b')"
    "binaryDecodeControlOnly want b = (if \<not> is_control x then Some (Inr False, b')
       else if x \<noteq> want then Some (Inl (ErrBadControlCode x), b') else Some (Inr True, SkipAvailable 1 b'))"
    "binaryPeekControl b = Some (Inr (if is_control x then x else 0), b')"
    by (rule binaryDecodeControlOnly_run [OF assms])
  have av: "avail b' = avail b" "avail (SkipAvailable 1 b') = rest"
    using avail_same [OF b'(1)] avail_tail [OF b'(2) assms(2)] by simp_all
  have "\<exists>c. binaryPeekControl b = Some (Inr (if is_control x then x else 0), c) \<and> avail c = avail b"
    using b'(4) av(1) by blast
  moreover have "\<exists>c. binaryDecodeControlOnly want b =
        (if \<not> is_control x then Some (Inr False, c)
         else if x = want then Some (Inr True, c) else Some (Inl (ErrBadControlCode x), c))
      \<and> avail c = (if is_control x \<and> x = want then rest else avail b)"
    using b'(3) av by (cases "is_control x \<and> x = want") auto
  ultimately show ?thesis by (cases "is_control x") (simp_all add: enc varint_not_control)
qed

theorem control_bytes_witness:
  "\<exists>b'. binaryDecodeControlOnly 0xe1 (newDecbufFromBytes [0xe1, 5]) = Some (Inr True, b') \<and> avail b' = [5]"
  using control_bytes [of "newDecbufFromBytes [0xe1, 5]" "0xe1" "[5]" 0 newEncbuf "0xe1"]
  by (simp add: binaryEncodeControl_def)

text \<open>The three encoders of unsigned integers agree: lenUint is the length of what binaryEncodeUint
  appends, and binaryEncodeUintEnd writes the same bytes at the end of a slice and returns where they
  start, panicking exactly when the slice is too short for them. The length is between 1 and 9.\<close>

theorem uint_encoders_agree:
  assumes "enc_inv b"
  shows "lenUint v = enc_Len (binaryEncodeUint v b) - enc_Len b \<and> 1 \<le> lenUint v \<and> lenUint v \<le> 9 \<and>
    enc_Bytes (binaryEncodeUint v b) = enc_Bytes b @ drop (length (enc_Bytes b)) (enc_Bytes (binaryEncodeUint v b)) \<and>
    binaryEncodeUintEnd buf v =
      (if length buf < lenUint v then None
       else Some (take (length buf - lenUint v) buf @ drop (length (enc_Bytes b)) (enc_Bytes (binaryEncodeUint v b)),
         length buf - lenUint v))"
  using uint_writer.put_Bytes [OF assms, of v] uint_writer.put_Len [OF assms, of v] length_varint [of v]
  by (auto simp: lenUint_eq binaryEncodeUintEnd_eq put_end_def overwrite_def Suc_le_eq)

theorem uint_encoders_agree_witness:
  "lenUint 300 = 3 \<and> binaryEncodeUintEnd [0, 0, 0, 0] 300 = Some ([0, 0xfe, 1, 0x2c], 1)"
proof -
  have "varint 300 = [0xfe, 1, 0x2c]" by code_simp
  then have "enc_Bytes (binaryEncodeUint 300 newEncbuf) = [0xfe, 1, 0x2c]" "lenUint 300 = 3"
    using uint_writer.put_Bytes [of newEncbuf 300] by (simp_all add: lenUint_eq)
  with uint_encoders_agree [of newEncbuf 300 "[0, 0, 0, 0]"] show ?thesis by simp
qed

text \<open>The map between signed integers and the unsigned ones that stand for them is a bijection, in both
  directions and up to the smallest integer, and so is the reversal of the bytes of a float.\<close>

theorem signed_and_float_bijections:
  "uint_to_int (int_to_uint v) = v \<and> int_to_uint (uint_to_int u) = u \<and> reverse_bytes (reverse_bytes x) = x"
  by (simp add: uint_to_int_to_uint int_to_uint_to_int reverse_bytes_involution)

end
