(* ===== verification/SecurityPattern.thy ===== *)
theory SecurityPattern
  imports NamingParse
begin

text \<open>
  Blessing patterns: security/pattern.go, with \<open>validateExtension\<close> of security/certificate.go.

  A blessing name is a sequence of extensions joined by \<open>:\<close>. The code works on the strings; the lemmas
  relate it to the lists of components: a pattern is matched by the names whose components extend its
  own, or are the same when the pattern ends in \<open>$\<close>.
\<close>

type_synonym BlessingPattern = string

definition AllPrincipals :: BlessingPattern where
  "AllPrincipals = ''...''"

definition NoExtension :: BlessingPattern where
  "NoExtension = ''$''"

definition ChainSeparator :: string where
  "ChainSeparator = '':''"

lemmas pattern_consts = AllPrincipals_def NoExtension_def ChainSeparator_def

subsection \<open>Extensions\<close>

datatype ext_error =
    EmptyExtension
  | BadStart
  | BadEnd
  | BadExtension
  | ControlChar
  | BadSubstring string

text \<open>
  \<open>strings.IndexFunc(s, unicode.IsControl) != -1\<close> on the UTF-8 bytes of a string: the control characters
  are U+0000 to U+001F, U+007F, and U+0080 to U+009F, whose encodings are 0xC2 0x80 to 0xC2 0x9F. The
  byte 0xC2 only occurs at the start of a character.
\<close>

fun has_control :: "string \<Rightarrow> bool" where
  "has_control [] = False"
| "has_control (c # s) =
     (of_char c < (0x20 :: nat) \<or> of_char c = (0x7f :: nat) \<or>
      (of_char c = (0xc2 :: nat) \<and> s \<noteq> [] \<and> 0x80 \<le> (of_char (hd s) :: nat) \<and> of_char (hd s) \<le> (0x9f :: nat)) \<or>
      has_control s)"

definition invalidBlessingSubStrings :: "string list" where
  "invalidBlessingSubStrings =
     [AllPrincipals, ChainSeparator @ ChainSeparator, '','', ''@@'', ''('', '')'', ''<'', ''>'', ''/'']"

definition invalidBlessingExtensions :: "string list" where
  "invalidBlessingExtensions = [NoExtension]"

text \<open>\<open>None\<close> when the extension is valid.\<close>

definition validateExtension :: "string \<Rightarrow> ext_error option" where
  "validateExtension extension =
     (if length extension = 0 then Some EmptyExtension
      else if prefix ChainSeparator extension then Some BadStart
      else if suffix ChainSeparator extension then Some BadEnd
      else if list_ex (\<lambda>n. extension = n) invalidBlessingExtensions then Some BadExtension
      else if has_control extension then Some ControlChar
      else map_option BadSubstring (find (\<lambda>n. sublist n extension) invalidBlessingSubStrings))"

subsection \<open>Patterns\<close>

definition trimNoExtension :: "string \<Rightarrow> string \<times> bool" where
  "trimNoExtension pattern =
     (if pattern = NoExtension then ([], False)
      else if suffix (ChainSeparator @ NoExtension) pattern
      then (take (length pattern - length (ChainSeparator @ NoExtension)) pattern, False)
      else (pattern, True))"

definition splitBlessing :: "string \<Rightarrow> string \<times> string" where
  "splitBlessing s = (case split_once ChainSeparator s of None \<Rightarrow> (s, []) | Some (a, b) \<Rightarrow> (a, b))"

lemma splitBlessing_shorter:
  assumes "s \<noteq> []" "splitBlessing s = (a, rest)"
  shows "length rest < length s"
proof (cases "split_once ChainSeparator s")
  case None
  with assms show ?thesis by (auto simp: splitBlessing_def)
next
  case (Some p)
  obtain x y where "p = (x, y)" by (cases p)
  with Some assms(2) have "s = a @ ChainSeparator @ rest"
    using split_once_SomeD [of ChainSeparator s x y] by (auto simp: splitBlessing_def)
  then show ?thesis by (simp add: pattern_consts)
qed

function valid_components :: "string \<Rightarrow> bool" where
  "valid_components pstr =
     (if 0 < length pstr then
        (case splitBlessing pstr of (pre, rest) \<Rightarrow>
           if validateExtension pre \<noteq> None then False else valid_components rest)
      else True)"
  by pat_completeness auto
termination
  by (relation "measure length") (auto intro!: splitBlessing_shorter [OF _ sym])

declare valid_components.simps [simp del]

definition IsValid :: "BlessingPattern \<Rightarrow> bool" where
  "IsValid p =
     (if length p = 0 then False
      else if p = AllPrincipals then True
      else
        (case trimNoExtension p of (pstr, _) \<Rightarrow>
           if suffix ChainSeparator pstr then False else valid_components pstr))"

definition MatchedBy :: "BlessingPattern \<Rightarrow> string list \<Rightarrow> bool" where
  "MatchedBy p blessings =
     (if length p = 0 \<or> \<not> IsValid p then False
      else if p = AllPrincipals then True
      else
        (case trimNoExtension p of (pstr, glob) \<Rightarrow>
           if pstr = [] then False
           else list_ex (\<lambda>b. b = pstr \<or>
                  glob \<and> prefix pstr b \<and> prefix ChainSeparator (drop (length pstr) b)) blessings))"

definition MakeNonExtendable :: "BlessingPattern \<Rightarrow> BlessingPattern" where
  "MakeNonExtendable p =
     (if length p = 0 \<or> p = NoExtension then NoExtension
      else if suffix (ChainSeparator @ NoExtension) p then p
      else p @ ChainSeparator @ NoExtension)"

definition PrefixPatterns :: "BlessingPattern \<Rightarrow> BlessingPattern list" where
  "PrefixPatterns p =
     (if p = NoExtension then [p]
      else
        (let parts = split_on (CHR '':'') p;
             parts = (if last parts = NoExtension then take (length parts - 2) parts
                      else take (length parts - 1) parts)
         in map (\<lambda>i. MakeNonExtendable (join ChainSeparator (take (i + 1) parts))) [0..<length parts] @ [p]))"

text \<open>
  The submatches 1 and 3 of \<open>^__\(([^)]*)\)($|/)(.*)\<close>. The last group stops before a newline.
\<close>

definition name_pattern_match :: "string \<Rightarrow> (string \<times> string) option" where
  "name_pattern_match name =
     (if prefix ''__('' name then
        (case split_once '')'' (drop 3 name) of
           None \<Rightarrow> None
         | Some (pat, rest) \<Rightarrow>
             (case rest of
                [] \<Rightarrow> Some (pat, [])
              | c # s \<Rightarrow> if c = CHR ''/'' then Some (pat, takeWhile (\<lambda>x. x \<noteq> CHR 0x0A) s) else None))
      else None)"

definition SplitPatternName :: "string \<Rightarrow> BlessingPattern \<times> string" where
  "SplitPatternName origName =
     (let rooted = Rooted origName; (ep, name) = SplitAddressName origName in
      case name_pattern_match name of
        None \<Rightarrow> ([], origName)
      | Some (pattern, m3) \<Rightarrow>
          (let name = Clean m3
           in (pattern, if rooted then JoinAddressName ep name else name)))"

definition JoinPatternName :: "BlessingPattern \<Rightarrow> string \<Rightarrow> string" where
  "JoinPatternName pattern name =
     (if length pattern = 0 then name
      else
        (case SplitAddressName name of (ep, rel) \<Rightarrow>
           JoinAddressName ep (''__('' @ pattern @ '')/'' @ rel)))"

subsection \<open>Patterns as lists of components\<close>

definition parts :: "string \<Rightarrow> string list" where
  "parts s = split_on (CHR '':'') s"

definition ext_ok :: "string \<Rightarrow> bool" where
  "ext_ok e \<longleftrightarrow> validateExtension e = None"

lemma ext_ok_facts:
  assumes "ext_ok e"
  shows "e \<noteq> []" "e \<noteq> ''$''" "e \<noteq> ''...''" "CHR ''/'' \<notin> set e" "CHR '')'' \<notin> set e"
proof -
  have find: "\<not> sublist n e" if "n \<in> set invalidBlessingSubStrings" for n
    using assms that by (auto simp: ext_ok_def validateExtension_def find_None_iff split: if_splits)
  show "e \<noteq> []" "e \<noteq> ''$''"
    using assms by (auto simp: ext_ok_def validateExtension_def invalidBlessingExtensions_def NoExtension_def
        split: if_splits)
  show "e \<noteq> ''...''" using find [of AllPrincipals] by (auto simp: invalidBlessingSubStrings_def AllPrincipals_def)
  have "sublist [c] e" if "c \<in> set e" for c
    using that by (auto simp: sublist_def dest: split_list)
  then show "CHR ''/'' \<notin> set e" "CHR '')'' \<notin> set e"
    using find [of "''/''"] find [of "'')''"] by (auto simp: invalidBlessingSubStrings_def)
qed

lemma splitBlessing_eq:
  "splitBlessing s = (hd (parts s), join '':'' (tl (parts s)))"
proof (cases "split_once '':'' s")
  case None
  then have "CHR '':'' \<notin> set s" using split_once_None_char by simp
  with None show ?thesis by (simp add: splitBlessing_def pattern_consts parts_def split_on_no_sep)
next
  case (Some p)
  obtain a b where p: "p = (a, b)" by (cases p)
  with Some have "s = a @ CHR '':'' # b" "CHR '':'' \<notin> set a"
    using split_once_SomeD split_once_char_notin by fastforce+
  then have "parts s = a # parts b" by (simp add: parts_def split_on_append)
  with Some p show ?thesis by (simp add: splitBlessing_def pattern_consts parts_def join_split_on)
qed

lemma valid_components_eq:
  "s = [] \<or> \<not> suffix '':'' s \<Longrightarrow> valid_components s \<longleftrightarrow> s = [] \<or> list_all ext_ok (parts s)"
proof (induction s rule: valid_components.induct)
  case (1 s)
  show ?case
  proof (cases "s = []")
    case False
    obtain x xs where xs: "parts s = x # xs" by (cases "parts s") (auto simp: parts_def)
    have s: "s = join '':'' (x # xs)" using join_split_on [of "CHR '':''" s] xs by (simp add: parts_def)
    have sep: "list_all (\<lambda>x. CHR '':'' \<notin> set x) (x # xs)"
      using list_all_split_on [of "CHR '':''" s] xs by (simp add: parts_def)
    have rest: "parts (join '':'' xs) = xs" if "xs \<noteq> []"
      using that sep by (simp add: parts_def split_on_join)
    have ne: "join '':'' xs = [] \<longleftrightarrow> xs = []"
    proof -
      have "xs \<noteq> [[]]" using s 1(2) False by (auto simp: suffix_def)
      then show ?thesis by (auto simp: join_eq_Nil)
    qed
    have "join '':'' xs = [] \<or> \<not> suffix '':'' (join '':'' xs)"
      using s 1(2) False by (cases "xs = []") (auto simp: suffix_def)
    then have ih: "valid_components (join '':'' xs) \<longleftrightarrow> join '':'' xs = [] \<or> list_all ext_ok (parts (join '':'' xs))"
      if "ext_ok x"
      using 1(1) [of x "join '':'' xs"] that False xs by (simp add: splitBlessing_eq flip: ext_ok_def)
    show ?thesis
      using False xs ih rest ne
      by (cases "xs = []"; cases "ext_ok x")
        (simp_all add: valid_components.simps [of s] splitBlessing_eq valid_components.simps [of "[]"] flip: ext_ok_def)
  qed (simp add: valid_components.simps)
qed

text \<open>A pattern without its final \<open>$\<close>, and whether it may be extended.\<close>

lemma trimNoExtension_cases:
  obtains (only) "p = ''$''" "trimNoExtension p = ([], False)"
  | (closed) q where "p = q @ '':$''" "trimNoExtension p = (q, False)"
  | (open_ended) "p \<noteq> ''$''" "\<not> suffix '':$'' p" "trimNoExtension p = (p, True)"
proof -
  consider "p = ''$''" | "p \<noteq> ''$''" "suffix '':$'' p" | "p \<noteq> ''$''" "\<not> suffix '':$'' p" by blast
  then show thesis
  proof cases
    case 1
    then show thesis using only by (simp add: trimNoExtension_def pattern_consts)
  next
    case 2
    then obtain q where "p = q @ '':$''" by (auto simp: suffix_def)
    with 2 show thesis using closed [of q] by (simp add: trimNoExtension_def pattern_consts)
  next
    case 3
    then show thesis using open_ended by (simp add: trimNoExtension_def pattern_consts)
  qed
qed

definition pattern_base :: "BlessingPattern \<Rightarrow> string" where
  "pattern_base p = fst (trimNoExtension p)"

definition extendable :: "BlessingPattern \<Rightarrow> bool" where
  "extendable p = snd (trimNoExtension p)"

lemma parts_not_Nil [simp]: "parts s \<noteq> []"
  by (simp add: parts_def)

lemma parts_Nil [simp]: "parts [] = [[]]"
  by (simp add: parts_def)

lemma ext_ok_Nil [simp]: "\<not> ext_ok []"
  by (simp add: ext_ok_def validateExtension_def)

lemma parts_sep: "parts (a @ CHR '':'' # b) = parts a @ parts b"
  by (simp add: parts_def split_on_append_sep)

lemma parts_inject: "parts a = parts b \<longleftrightarrow> a = b"
  using split_on_inject by (auto simp: parts_def)

lemma IsValid_iff:
  "IsValid p \<longleftrightarrow> p \<noteq> [] \<and> (p = ''...'' \<or> pattern_base p = [] \<or> list_all ext_ok (parts (pattern_base p)))"
proof -
  have "valid_components q \<and> \<not> suffix '':'' q \<longleftrightarrow> q = [] \<or> list_all ext_ok (parts q)" for q
  proof (cases "suffix '':'' q")
    case True
    then obtain a where "q = a @ CHR '':'' # []" by (auto simp: suffix_def)
    then show ?thesis using True by (simp add: parts_sep)
  qed (use valid_components_eq [of q] in auto)
  then show ?thesis
    by (auto simp: IsValid_def pattern_base_def pattern_consts split: prod.splits)
qed

text \<open>A name equal to a string, or longer by a separator and more: its components extend those of the string.\<close>

lemma prefix_parts:
  "(b = q \<or> prefix q b \<and> prefix '':'' (drop (length q) b)) \<longleftrightarrow> prefix (parts q) (parts b)"
proof
  assume "b = q \<or> prefix q b \<and> prefix '':'' (drop (length q) b)"
  then consider "b = q" | r where "b = q @ CHR '':'' # r" by (auto simp: prefix_def)
  then show "prefix (parts q) (parts b)" by cases (simp_all add: parts_sep)
next
  assume "prefix (parts q) (parts b)"
  then obtain xs where xs: "parts b = parts q @ xs" by (auto simp: prefix_def)
  show "b = q \<or> prefix q b \<and> prefix '':'' (drop (length q) b)"
  proof (cases "xs = []")
    case True
    with xs show ?thesis by (simp add: parts_inject)
  next
    case False
    have join_parts: "join '':'' (parts s) = s" for s by (simp add: parts_def join_split_on)
    have "b = join '':'' (parts b)" by (simp only: join_parts)
    also have "\<dots> = q @ '':'' @ join '':'' xs"
      by (simp only: xs join_append [OF parts_not_Nil False] join_parts)
    finally show ?thesis by simp
  qed
qed

lemma MatchedBy_iff:
  "MatchedBy p bs \<longleftrightarrow> IsValid p \<and> (p = ''...'' \<or> pattern_base p \<noteq> [] \<and>
     (\<exists>b \<in> set bs. if extendable p then prefix (parts (pattern_base p)) (parts b)
                else parts b = parts (pattern_base p)))"
proof -
  have "IsValid p \<Longrightarrow> p \<noteq> []" by (simp add: IsValid_iff)
  then show ?thesis
    by (auto simp: MatchedBy_def pattern_base_def extendable_def AllPrincipals_def ChainSeparator_def
        list_ex_iff prefix_parts [symmetric] parts_inject split: prod.splits)
qed

lemma pattern_base_simps [simp]:
  "pattern_base (q @ '':$'') = q" "\<not> extendable (q @ '':$'')"
  "pattern_base ''$'' = []" "\<not> extendable ''$''"
  by (simp_all add: pattern_base_def extendable_def trimNoExtension_def pattern_consts append_eq_Cons_conv suffixI)

lemma open_ended_base: "p \<noteq> ''$'' \<Longrightarrow> \<not> suffix '':$'' p \<Longrightarrow> pattern_base p = p \<and> extendable p"
  by (simp add: pattern_base_def extendable_def trimNoExtension_def pattern_consts)

lemma join_parts: "join '':'' (parts s) = s"
  by (simp add: parts_def join_split_on)

lemma parts_join: "xs \<noteq> [] \<Longrightarrow> list_all ext_ok xs \<Longrightarrow> list_all (\<lambda>x. CHR '':'' \<notin> set x) xs \<Longrightarrow> parts (join '':'' xs) = xs"
  by (simp add: parts_def split_on_join)

lemma parts_no_sep: "list_all (\<lambda>x. CHR '':'' \<notin> set x) (parts s)"
  unfolding parts_def by (rule list_all_split_on)

text \<open>The last component tells whether a pattern is closed.\<close>

lemma suffix_closed_iff: "suffix '':$'' p \<longleftrightarrow> last (parts p) = ''$'' \<and> p \<noteq> ''$''"
proof
  assume "suffix '':$'' p"
  then obtain q where "p = q @ CHR '':'' # ''$''" by (auto simp: suffix_def)
  then show "last (parts p) = ''$'' \<and> p \<noteq> ''$''"
    using parts_sep [of q "''$''"] by (simp add: parts_def append_eq_Cons_conv)
next
  assume p: "last (parts p) = ''$'' \<and> p \<noteq> ''$''"
  obtain xs where xs: "parts p = xs @ [''$'']" using p by (cases "parts p" rule: rev_cases) auto
  have "xs \<noteq> []" using p xs join_parts [of p] by auto
  then have "p = join '':'' xs @ '':$''"
    using join_append [of xs "[''$'']" "'':''"] join_parts [of p] xs by simp
  then show "suffix '':$'' p" by (simp add: suffix_def)
qed

lemma MakeNonExtendable_parts:
  assumes "ext_ok (last (parts q))" 
  shows "MakeNonExtendable q = q @ '':$''"
proof -
  have "\<not> suffix '':$'' q" using assms ext_ok_facts(2) by (auto simp: suffix_closed_iff)
  moreover have "q \<noteq> []" "q \<noteq> ''$''" using assms ext_ok_facts(2) [of "''$''"] by (auto simp: parts_def)
  ultimately show ?thesis by (simp add: MakeNonExtendable_def pattern_consts)
qed

text \<open>The proper prefixes of the components of a pattern, each closed.\<close>

lemma PrefixPatterns_eq:
  assumes "IsValid p" "p \<noteq> ''...''" "pattern_base p \<noteq> []"
  defines "cs \<equiv> parts (pattern_base p)"
  shows "PrefixPatterns p = map (\<lambda>i. join '':'' (take (i + 1) cs) @ '':$'') [0..<length cs - 1] @ [p]"
proof -
  have ok: "list_all ext_ok cs" using assms by (simp add: IsValid_iff)
  have sep: "list_all (\<lambda>x. CHR '':'' \<notin> set x) cs" unfolding cs_def by (rule parts_no_sep)
  have p: "p \<noteq> ''$''" using assms(3) by auto
  define front where "front = take (length cs - 1) cs"
  have front: "(let parts = split_on (CHR '':'') p in
      if last parts = NoExtension then take (length parts - 2) parts else take (length parts - 1) parts) = front"
  proof (cases rule: trimNoExtension_cases [of p])
    case (closed q)
    then have "parts p = parts q @ [''$'']" using parts_sep [of q "''$''"] by (simp add: parts_def)
    moreover have "cs = parts q" using closed by (simp add: cs_def)
    ultimately show ?thesis by (simp add: front_def parts_def NoExtension_def)
  next
    case open_ended
    then have "cs = parts p" using open_ended_base by (simp add: cs_def)
    moreover have "last (parts p) \<noteq> ''$''" using open_ended by (simp add: suffix_closed_iff)
    ultimately show ?thesis by (simp add: front_def parts_def NoExtension_def)
  qed (use p in simp)
  have each: "MakeNonExtendable (join '':'' (take (i + 1) front)) = join '':'' (take (i + 1) cs) @ '':$''"
    if "i < length front" for i
  proof -
    have tk: "take (i + 1) front = take (i + 1) cs" using that by (auto simp: front_def min_def split: if_splits)
    have ne: "take (i + 1) cs \<noteq> []" by (simp add: cs_def)
    have "set (take (i + 1) cs) \<subseteq> set cs" by (rule set_take_subset)
    then have oks: "list_all ext_ok (take (i + 1) cs)" "list_all (\<lambda>x. CHR '':'' \<notin> set x) (take (i + 1) cs)"
      using ok sep by (auto simp: list_all_iff)
    then have "ext_ok (last (parts (join '':'' (take (i + 1) cs))))"
      using ne by (simp add: parts_join list_all_iff del: take_Suc)
    then show ?thesis unfolding tk by (rule MakeNonExtendable_parts)
  qed
  have "length front = length cs - 1" by (simp add: front_def)
  with each front p show ?thesis
    by (simp add: PrefixPatterns_def NoExtension_def ChainSeparator_def Let_def)
qed

lemma MatchedBy_closed:
  assumes "cs \<noteq> []" "list_all ext_ok cs" "list_all (\<lambda>x. CHR '':'' \<notin> set x) cs"
  shows "MatchedBy (join '':'' cs @ '':$'') [b] \<longleftrightarrow> parts b = cs"
proof -
  have "parts (join '':'' cs) = cs" using assms by (rule parts_join)
  moreover from this have "join '':'' cs \<noteq> []" using assms(2) by (auto simp del: join_eq_Nil)
  moreover have "join '':'' cs @ '':$'' \<noteq> ''...''"
    using arg_cong [of _ _ last] by fastforce
  ultimately show ?thesis using assms(2) by (simp add: MatchedBy_iff IsValid_iff)
qed

lemma proper_prefix_iff:
  assumes "xs \<noteq> []"
  shows "(\<exists>i < length cs - 1. xs = take (i + 1) cs) \<longleftrightarrow> strict_prefix xs cs"
proof
  assume "\<exists>i < length cs - 1. xs = take (i + 1) cs"
  then obtain i where "i < length cs - 1" and xs: "xs = take (i + 1) cs" by blast
  then have i: "i + 1 < length cs" "xs = take (i + 1) cs" by simp_all
  then have "length xs < length cs" by simp
  with i(2) show "strict_prefix xs cs" by (metis take_is_prefix strict_prefix_def less_irrefl)
next
  assume "strict_prefix xs cs"
  then obtain ys where ys: "cs = xs @ ys" "ys \<noteq> []" by (auto simp: strict_prefix_def prefix_def)
  with assms show "\<exists>i < length cs - 1. xs = take (i + 1) cs"
    by (intro exI [of _ "length xs - 1"]) (auto simp: neq_Nil_conv)
qed

lemma PrefixPatterns_matched:
  assumes "IsValid p" "p \<noteq> ''...''" "pattern_base p \<noteq> []"
  shows "(\<exists>q \<in> set (PrefixPatterns p). MatchedBy q [b]) \<longleftrightarrow>
    MatchedBy p [b] \<or> strict_prefix (parts b) (parts (pattern_base p))"
proof -
  define cs where "cs = parts (pattern_base p)"
  have ok: "list_all ext_ok cs" using assms by (simp add: IsValid_iff cs_def)
  have sep: "list_all (\<lambda>x. CHR '':'' \<notin> set x) cs" unfolding cs_def by (rule parts_no_sep)
  have "MatchedBy (join '':'' (take (i + 1) cs) @ '':$'') [b] \<longleftrightarrow> parts b = take (i + 1) cs" for i
  proof (rule MatchedBy_closed)
    show "take (i + 1) cs \<noteq> []" by (simp add: cs_def)
    show "list_all ext_ok (take (i + 1) cs)" "list_all (\<lambda>x. CHR '':'' \<notin> set x) (take (i + 1) cs)"
      using ok sep set_take_subset [of "i + 1" cs] by (auto simp: list_all_iff)
  qed
  then have "(\<exists>q \<in> set (PrefixPatterns p). MatchedBy q [b]) \<longleftrightarrow>
      (\<exists>i < length cs - 1. parts b = take (i + 1) cs) \<or> MatchedBy p [b]"
    unfolding PrefixPatterns_eq [OF assms] cs_def [symmetric] by auto
  then show ?thesis using proper_prefix_iff [OF parts_not_Nil, of cs b] by (auto simp: cs_def)
qed

subsection \<open>Patterns in names\<close>

lemma valid_pattern_chars:
  assumes "IsValid p"
  shows "CHR ''/'' \<notin> set p" "CHR '')'' \<notin> set p"
proof -
  have "c \<notin> set p" if c: "c = CHR ''/'' \<or> c = CHR '')''" for c
  proof
    assume "c \<in> set p"
    then have "p \<noteq> ''...''" "p \<noteq> ''$''" using c by auto
    have base: "c \<in> set (pattern_base p)"
      using \<open>c \<in> set p\<close> \<open>p \<noteq> ''$''\<close> c
      by (cases rule: trimNoExtension_cases [of p]) (auto simp: pattern_base_def)
    with assms \<open>p \<noteq> ''...''\<close> have ok: "list_all ext_ok (parts (pattern_base p))" by (auto simp: IsValid_iff)
    have "c \<in> set (join '':'' (parts (pattern_base p)))" using base by (simp add: join_parts)
    then obtain e where "e \<in> set (parts (pattern_base p))" "c \<in> set e"
      using set_join [of c "'':''" "parts (pattern_base p)"] c by auto
    with ok ext_ok_facts(4,5) [of e] c show False by (auto simp: list_all_iff)
  qed
  then show "CHR ''/'' \<notin> set p" "CHR '')'' \<notin> set p" by auto
qed

lemma name_pattern_match_join:
  assumes "CHR '')'' \<notin> set p" "CHR 0x0A \<notin> set n"
  shows "name_pattern_match (''__('' @ p @ '')'' @ (if n = [] then [] else ''/'' @ n)) = Some (p, n)"
proof -
  have "split_once '')'' (p @ '')'' @ r) = Some (p, r)" for r
    using split_once_char [of "CHR '')''" p r] assms(1) by simp
  moreover have "takeWhile (\<lambda>x. x \<noteq> CHR 0x0A) n = n" using assms(2) by (auto simp: takeWhile_eq_all_conv)
  ultimately show ?thesis by (simp add: name_pattern_match_def)
qed

lemma pattern_element:
  assumes "IsValid p" "relative_name n"
  defines "q \<equiv> ''__('' @ p @ '')'' @ (if n = [] then [] else ''/'' @ n)"
  shows "Clean (''__('' @ p @ '')/'' @ n) = q" "relative_name q"
    "components q = (''__('' @ p @ '')'') # components n"
proof -
  let ?e = "''__('' @ p @ '')''"
  have n: "n = join ''/'' (components n)" using assms(2) by (simp add: relative_name_join)
  have el: "elements [?e]" using valid_pattern_chars(1) [OF assms(1)] by (simp add: elements_def)
  then have comps: "components ?e = [?e]" using components_join [of "[?e]"] by simp
  have els: "elements (?e # components n)" using el elements_components [of n] by (simp add: elements_def)
  have q: "q = join ''/'' (?e # components n)"
    using n join_eq_Nil [of "CHR ''/''" "components n"] elements_components [of n]
    by (auto simp: q_def elements_def)
  show cq: "components q = ?e # components n" unfolding q using els by (rule components_join)
  then show rel: "relative_name q" using q by (simp add: relative_name_join)
  have "Clean (?e @ CHR ''/'' # n) = Clean q"
  proof (rule Clean_eqI)
    show "components (?e @ CHR ''/'' # n) = components q" by (simp only: components_append_slash comps cq) simp
    show "Rooted (?e @ CHR ''/'' # n) = Rooted q" by (simp add: q_def)
  qed
  then show "Clean (''__('' @ p @ '')/'' @ n) = q" using rel by (simp add: relative_name_def)
qed

lemma SplitPatternName_relative:
  assumes "IsValid p" "relative_name n" "CHR 0x0A \<notin> set n"
  shows "SplitPatternName (JoinPatternName p n) = (p, n)"
proof -
  let ?q = "''__('' @ p @ '')'' @ (if n = [] then [] else ''/'' @ n)"
  have n: "Clean n = n" "\<not> Rooted n" using assms(2) by (simp_all add: relative_name_def)
  have p: "p \<noteq> []" using assms(1) by (simp add: IsValid_iff)
  note q = pattern_element [OF assms(1,2)]
  have rel: "SplitAddressName m = ([], m)" if "relative_name m" for m
    using that by (simp add: SplitAddressName_def relative_name_def)
  have "JoinPatternName p n = ?q"
    using p q(1) rel [OF assms(2)] by (simp add: JoinPatternName_def JoinAddressName_def trim_left_def)
  moreover have "\<not> Rooted ?q" by simp
  ultimately show ?thesis
    using name_pattern_match_join [OF valid_pattern_chars(2) [OF assms(1)] assms(3)] rel [OF q(2)] n
    by (simp only: SplitPatternName_def Let_def) simp
qed

lemma SplitPatternName_rooted:
  assumes "IsValid p" "address_ok a" "relative_name n" "CHR 0x0A \<notin> set n"
  shows "SplitPatternName (JoinPatternName p (JoinAddressName a n)) = (p, JoinAddressName a n)"
proof -
  let ?q = "''__('' @ p @ '')'' @ (if n = [] then [] else ''/'' @ n)"
  have n: "Clean n = n" using assms(3) by (simp add: relative_name_def)
  have p: "p \<noteq> []" using assms(1) by (simp add: IsValid_iff)
  have a: "relative_name a" "a \<noteq> []" using assms(2) by (simp_all add: address_ok_def relative_name_def)
  note q = pattern_element [OF assms(1,3)]
  have join: "JoinAddressName a m = JoinAddressName a m'" if "Clean m = Clean m'" "m \<noteq> []" "m' \<noteq> []" for m m'
  proof -
    have "components m = components m'" using that(1) by (metis components_Clean)
    then have "Clean (''/'' @ trim_left a (CHR ''/'') @ ''/'' @ m) = Clean (''/'' @ trim_left a (CHR ''/'') @ ''/'' @ m')"
      by (intro Clean_eqI) (simp_all add: components_append_slash)
    then show ?thesis using that a(2) a(1)
      by (simp add: JoinAddressName_def relative_name_def trim_left_relative)
  qed
  have "JoinPatternName p (JoinAddressName a n) = JoinAddressName a (''__('' @ p @ '')/'' @ n)"
    using p SplitAddressName_join [OF assms(2,3)] by (simp add: JoinPatternName_def)
  also have "\<dots> = JoinAddressName a ?q"
    by (rule join) (use q(1,2) in \<open>simp_all add: relative_name_def\<close>)
  finally have J: "JoinPatternName p (JoinAddressName a n) = JoinAddressName a ?q" .
  have "Rooted (JoinAddressName a ?q)" using JoinAddressName_rooted [OF a q(2)] by simp
  then show ?thesis
    unfolding J
    using name_pattern_match_join [OF valid_pattern_chars(2) [OF assms(1)] assms(4)]
      SplitAddressName_join [OF assms(2) q(2)] n
    by (simp only: SplitPatternName_def Let_def) simp
qed

subsection \<open>Properties\<close>

text \<open>C10: A valid pattern other than the one for all principals is matched by exactly the names whose
  components start with the components of the pattern, or, when the pattern ends in the component for no
  extension, are those components. The string comparison of MatchedBy never confuses a name with one
  that merely shares a textual prefix.\<close>

theorem MatchedBy_components:
  assumes "IsValid p" "p \<noteq> AllPrincipals" "p = q \<and> \<not> suffix (ChainSeparator @ NoExtension) p \<or> p = q @ ChainSeparator @ NoExtension"
    "q \<noteq> []" "q \<noteq> NoExtension"
  shows "MatchedBy p bs \<longleftrightarrow>
    (\<exists>b \<in> set bs. if p = q then prefix (split_on (CHR '':'') q) (split_on (CHR '':'') b) else b = q)"
proof -
  have "pattern_base p = q \<and> (extendable p \<longleftrightarrow> p = q)"
    using assms(3,5) open_ended_base [of p] by (auto simp: pattern_consts)
  then show ?thesis
    using assms by (auto simp: MatchedBy_iff AllPrincipals_def parts_inject simp flip: parts_def)
qed

theorem MatchedBy_components_witness:
  "MatchedBy ''dev:alice'' [''dev:alicex'', ''dev:alice:phone''] \<and> \<not> MatchedBy ''dev:alice'' [''dev:alicex'']"
proof -
  have v: "IsValid ''dev:alice''" by code_simp
  have "MatchedBy ''dev:alice'' bs \<longleftrightarrow>
      (\<exists>b \<in> set bs. prefix (split_on (CHR '':'') ''dev:alice'') (split_on (CHR '':'') b))" for bs
    using MatchedBy_components [OF v, of "''dev:alice''" bs] by (simp add: pattern_consts suffix_def append_eq_Cons_conv)
  then show ?thesis by simp
qed

text \<open>MakeNonExtendable closes a pattern: a valid pattern that may be extended becomes one that is
  matched by its own name and by nothing else, and closing it again changes nothing.\<close>

theorem MakeNonExtendable_exact:
  assumes "IsValid p" "p \<noteq> AllPrincipals" "p \<noteq> NoExtension" "\<not> suffix (ChainSeparator @ NoExtension) p"
  shows "(MatchedBy (MakeNonExtendable p) [b] \<longleftrightarrow> b = p) \<and>
    MakeNonExtendable (MakeNonExtendable p) = MakeNonExtendable p"
proof -
  have base: "pattern_base p = p" using assms(3,4) open_ended_base [of p] by (simp add: pattern_consts)
  have p: "p \<noteq> []" using assms(1) by (simp add: IsValid_iff)
  have ok: "list_all ext_ok (parts p)" using assms(1,2) p base by (auto simp: IsValid_iff AllPrincipals_def)
  have "MakeNonExtendable p = join '':'' (parts p) @ '':$''"
    using assms(3,4) p by (simp add: MakeNonExtendable_def pattern_consts join_parts)
  moreover have "MatchedBy (join '':'' (parts p) @ '':$'') [b] \<longleftrightarrow> parts b = parts p"
    using ok parts_no_sep by (intro MatchedBy_closed) simp_all
  ultimately show ?thesis
    by (simp add: parts_inject MakeNonExtendable_def pattern_consts suffix_def append_eq_Cons_conv)
qed

theorem MakeNonExtendable_exact_witness:
  "MatchedBy (MakeNonExtendable ''dev:alice'') [''dev:alice'']
   \<and> \<not> MatchedBy (MakeNonExtendable ''dev:alice'') [''dev:alice:phone'']"
proof -
  have "IsValid ''dev:alice''" "''dev:alice'' \<noteq> AllPrincipals" "''dev:alice'' \<noteq> NoExtension"
    "\<not> suffix (ChainSeparator @ NoExtension) ''dev:alice''" by code_simp+
  from MakeNonExtendable_exact [OF this] show ?thesis by simp
qed

text \<open>PrefixPatterns returns patterns that together are matched by exactly the names that match the
  pattern and the proper prefixes of its components, which are the names that can still be extended to
  match it.\<close>

theorem PrefixPatterns_correct:
  assumes "IsValid p" "p \<noteq> AllPrincipals" "pattern_base p \<noteq> []"
  shows "(\<exists>q \<in> set (PrefixPatterns p). MatchedBy q [b]) \<longleftrightarrow>
    MatchedBy p [b] \<or> strict_prefix (split_on (CHR '':'') b) (split_on (CHR '':'') (pattern_base p))"
  using PrefixPatterns_matched [of p b] assms by (simp add: AllPrincipals_def parts_def)

theorem PrefixPatterns_correct_witness:
  "\<exists>q \<in> set (PrefixPatterns ''dev:alice:$''). MatchedBy q [''dev'']"
proof -
  have "IsValid ''dev:alice:$''" "''dev:alice:$'' \<noteq> AllPrincipals" "pattern_base ''dev:alice:$'' \<noteq> []"
    "strict_prefix (split_on (CHR '':'') ''dev'') (split_on (CHR '':'') (pattern_base ''dev:alice:$''))"
    by code_simp+
  with PrefixPatterns_correct [of "''dev:alice:$''" "''dev''"] show ?thesis by blast
qed

text \<open>A valid pattern that JoinPatternName embeds into a name is taken out again by SplitPatternName,
  which gives back the pattern and the name, for relative names and for names behind an address.\<close>

theorem PatternName_roundtrip:
  assumes "IsValid p" "relative_name n" "CHR 0x0A \<notin> set n" "name = n \<or> (\<exists>a. address_ok a \<and> name = JoinAddressName a n)"
  shows "SplitPatternName (JoinPatternName p name) = (p, name)"
  using assms SplitPatternName_relative SplitPatternName_rooted by blast

theorem PatternName_roundtrip_witness:
  "SplitPatternName (JoinPatternName ''dev:alice'' (JoinAddressName ''host:80'' ''a/b'')) = (''dev:alice'', JoinAddressName ''host:80'' ''a/b'')"
proof (rule PatternName_roundtrip)
  show "IsValid ''dev:alice''" by code_simp
  show "relative_name ''a/b''" by code_simp
  show "CHR 0x0A \<notin> set ''a/b''" by simp
  have "address_ok ''host:80''" by code_simp
  then show "JoinAddressName ''host:80'' ''a/b'' = ''a/b'' \<or>
      (\<exists>a. address_ok a \<and> JoinAddressName ''host:80'' ''a/b'' = JoinAddressName a ''a/b'')" by blast
qed

end
