(* ===== verification/SecurityCert.thy ===== *)
theory SecurityCert
  imports SecurityPattern SecurityWire
begin

text \<open>
  Certificate chains and the cache of verified ones: security/certificate.go.

  The cache maps SHA-256 hashes of chain digests to true and is a list of keys. When it is full, entries
  are deleted in the order in which the runtime iterates over the map, a parameter. The main result is
  that the cache is transparent: over all states it can reach, \<open>validateCertificateChain\<close> answers what
  it answers without a cache, as long as no two of the chains in play have the same key.
\<close>

definition blessPurpose :: "byte list" where "blessPurpose = bytes_of ''B1''"
definition signPurpose :: "byte list" where "signPurpose = bytes_of ''S1''"
definition dischargePurpose :: "byte list" where "dischargePurpose = bytes_of ''D1''"

datatype cert_error =
    IndexPanic
  | KeyError
  | InapproriateCertSignature string
  | BadBlessingExtensionInCert string ext_error
  | BadCertSignature string
  | CantMarshalKey
  | BadExtensionError ext_error
  | SignError

subsection \<open>The cache\<close>

record sigCache =
  cache_disabled :: bool
  cache_m :: "byte list list"

definition signatureCacheMaxSize :: nat where
  "signatureCacheMaxSize = 1024"

definition empty_sigCache :: sigCache where
  "empty_sigCache = \<lparr>cache_disabled = False, cache_m = []\<rparr>"

definition sigCache_disable :: "sigCache \<Rightarrow> sigCache" where
  "sigCache_disable s = s\<lparr>cache_disabled := True, cache_m := []\<rparr>"

definition sigCache_enable :: "sigCache \<Rightarrow> sigCache" where
  "sigCache_enable s = s\<lparr>cache_disabled := False\<rparr>"

definition sigCache_verify :: "'k crypto \<Rightarrow> sigCache \<Rightarrow> byte list \<Rightarrow> bool" where
  "sigCache_verify cr s digest \<longleftrightarrow> sha cr SHA256 digest \<in> set (cache_m s)"

definition insert_key :: "byte list \<Rightarrow> byte list list \<Rightarrow> byte list list" where
  "insert_key k m = (if k \<in> set m then m else m @ [k])"

text \<open>\<open>order\<close> gives the keys of a map in the order of an iteration over it.\<close>

definition sigCache_cache ::
  "(byte list list \<Rightarrow> byte list list) \<Rightarrow> 'k crypto \<Rightarrow> byte list list \<Rightarrow> sigCache \<Rightarrow> sigCache" where
  "sigCache_cache order cr digests s =
     (if cache_disabled s then s
      else
        (let m = fold insert_key (map (sha cr SHA256) digests) (cache_m s) in
         if signatureCacheMaxSize < length m
         then s\<lparr>cache_m := filter (\<lambda>k. k \<notin> set (take (length m - signatureCacheMaxSize) (order m))) m\<rparr>
         else s\<lparr>cache_m := m\<rparr>))"

subsection \<open>Chains\<close>

text \<open>The digests and content digests of a chain, from the digest of what it is chained to.\<close>

fun digest_list :: "'k crypto \<Rightarrow> byte list \<Rightarrow> Certificate list \<Rightarrow> (byte list \<times> byte list) list" where
  "digest_list cr d [] = []"
| "digest_list cr d (c # cs) =
     (let p = chainedDigests cr (sigHash (certSignature c)) c d in p # digest_list cr (fst p) cs)"

definition digestsForCertificateChain :: "'k crypto \<Rightarrow> Certificate list \<Rightarrow> byte list \<times> byte list" where
  "digestsForCertificateChain cr chain =
     foldl (\<lambda>(d, _) c. chainedDigests cr (sigHash (certSignature c)) c d) ([], []) chain"

text \<open>What the loop does with the certificate at an index, after the cache did not have it.\<close>

definition check_cert :: "'k crypto \<Rightarrow> Certificate list \<Rightarrow> nat \<Rightarrow> cert_error option" where
  "check_cert cr chain i =
     (let c = chain ! i in
      if sigPurpose (certSignature c) \<noteq> blessPurpose then Some (InapproriateCertSignature (Extension c))
      else
        (case validateExtension (Extension c) of
           Some e \<Rightarrow> Some (BadBlessingExtensionInCert (Extension c) e)
         | None \<Rightarrow>
             (case parse_key cr (certPublicKey (chain ! (if i = 0 then 0 else i - 1))) of
                None \<Rightarrow> Some KeyError
              | Some signer \<Rightarrow>
                  if \<not> sig_Verify cr (certSignature c) signer (snd (digest_list cr [] chain ! i))
                  then Some (BadCertSignature (Extension c)) else None)))"

text \<open>The loop: from the last certificate down, to an error, to a hit in the cache, or to the end.\<close>

fun verify_loop :: "'k crypto \<Rightarrow> sigCache \<Rightarrow> Certificate list \<Rightarrow> nat \<Rightarrow> cert_error + nat option" where
  "verify_loop cr s chain 0 = Inr None"
| "verify_loop cr s chain (Suc i) =
     (if sigCache_verify cr s (fst (digest_list cr [] chain ! i)) then Inr (Some i)
      else
        (case check_cert cr chain i of
           Some e \<Rightarrow> Inl e
         | None \<Rightarrow> verify_loop cr s chain i))"

definition validateCertificateChain ::
  "(byte list list \<Rightarrow> byte list list) \<Rightarrow> 'k crypto \<Rightarrow> sigCache \<Rightarrow> Certificate list
     \<Rightarrow> (cert_error + 'k \<times> byte list) \<times> sigCache" where
  "validateCertificateChain order cr s chain =
     (if chain = [] then (Inl IndexPanic, s)
      else
        (case parse_key cr (certPublicKey (last chain)) of
           None \<Rightarrow> (Inl KeyError, s)
         | Some pubkey \<Rightarrow>
             (let digests = map fst (digest_list cr [] chain) in
              case verify_loop cr s chain (length chain) of
                Inl e \<Rightarrow> (Inl e, s)
              | Inr (Some i) \<Rightarrow> (Inr (pubkey, last digests), sigCache_cache order cr (drop i digests) s)
              | Inr None \<Rightarrow> (Inr (pubkey, last digests), sigCache_cache order cr digests s))))"

definition newUnsignedCertificate :: "'k crypto \<Rightarrow> string \<Rightarrow> 'k \<Rightarrow> Caveat list \<Rightarrow> cert_error + Certificate" where
  "newUnsignedCertificate cr extension key caveats =
     (case validateExtension extension of
        Some e \<Rightarrow> Inl (BadExtensionError e)
      | None \<Rightarrow>
          (case marshal_key cr key of
             None \<Rightarrow> Inl CantMarshalKey
           | Some b \<Rightarrow> Inr \<lparr>Extension = extension, certPublicKey = b, Caveats = caveats,
                            certSignature = zero_Signature\<rparr>))"

definition chainCertificate ::
  "'k crypto \<Rightarrow> 'k signer \<Rightarrow> Certificate list \<Rightarrow> Certificate \<Rightarrow> cert_error + Certificate list \<times> byte list" where
  "chainCertificate cr signer chain cert =
     (let (parentDigest, _) = digestsForCertificateChain cr chain;
          hash = key_hash cr (signer_key signer);
          (_, cdigest) = chainedDigests cr hash cert parentDigest
      in case signer_Sign cr signer blessPurpose cdigest of
           None \<Rightarrow> Inl SignError
         | Some sig \<Rightarrow>
             (let cert = cert\<lparr>certSignature := sig\<rparr>;
                  (digest, _) = chainedDigests cr hash cert parentDigest
              in Inr (chain @ [cert], digest)))"

subsection \<open>Prefixes of chains\<close>

lemma length_digest_list [simp]: "length (digest_list cr d chain) = length chain"
  by (induction chain arbitrary: d) (simp_all add: Let_def)

lemma digest_list_append:
  "digest_list cr d (xs @ ys) =
     digest_list cr d xs @ digest_list cr (if xs = [] then d else fst (last (digest_list cr d xs))) ys"
proof (induction xs arbitrary: d)
  case (Cons x xs)
  then show ?case by (cases xs) (simp_all add: Let_def)
qed simp

lemma take_digest_list: "take n (digest_list cr d chain) = digest_list cr d (take n chain)"
  by (induction chain arbitrary: n d) (auto simp: take_Cons' Let_def)

lemma digestsForCertificateChain_eq:
  "digestsForCertificateChain cr chain = (if chain = [] then ([], []) else last (digest_list cr [] chain))"
proof -
  have "foldl (\<lambda>(d, _) c. chainedDigests cr (sigHash (certSignature c)) c d) (d, e) chain
      = (if chain = [] then (d, e) else last (digest_list cr d chain))" for d e
  proof (induction chain arbitrary: d e)
    case (Cons c cs)
    obtain a b where "chainedDigests cr (sigHash (certSignature c)) c d = (a, b)" by fastforce
    then show ?case using Cons.IH [of a b] by (cases cs) (simp_all add: Let_def)
  qed simp
  then show ?thesis by (simp add: digestsForCertificateChain_def)
qed

lemma check_cert_take:
  assumes "i < n" "n \<le> length chain"
  shows "check_cert cr (take n chain) i = check_cert cr chain i"
proof -
  have "digest_list cr [] (take n chain) ! i = digest_list cr [] chain ! i"
    using assms by (simp flip: take_digest_list)
  moreover have "take n chain ! i = chain ! i" "take n chain ! (if i = 0 then 0 else i - 1) = chain ! (if i = 0 then 0 else i - 1)"
    using assms by simp_all
  ultimately show ?thesis by (simp only: check_cert_def)
qed

text \<open>A chain all of whose certificates pass, and the key under which it is cached.\<close>

definition chain_valid :: "'k crypto \<Rightarrow> Certificate list \<Rightarrow> bool" where
  "chain_valid cr chain \<longleftrightarrow> chain \<noteq> [] \<and> (\<forall>i < length chain. check_cert cr chain i = None)"

definition chain_key :: "'k crypto \<Rightarrow> Certificate list \<Rightarrow> byte list" where
  "chain_key cr chain = sha cr SHA256 (fst (last (digest_list cr [] chain)))"

lemma chain_valid_take: "chain_valid cr chain \<Longrightarrow> 0 < n \<Longrightarrow> n \<le> length chain \<Longrightarrow> chain_valid cr (take n chain)"
  by (auto simp: chain_valid_def check_cert_take)

lemma chain_key_take:
  "i < length chain \<Longrightarrow> chain_key cr (take (Suc i) chain) = sha cr SHA256 (fst (digest_list cr [] chain ! i))"
  by (simp only: chain_key_def take_digest_list [symmetric]) (simp add: take_Suc_conv_app_nth)

subsection \<open>The cache is sound\<close>

text \<open>A set of chains, with their prefixes, whose keys are different.\<close>

definition distinct_keys :: "'k crypto \<Rightarrow> Certificate list set \<Rightarrow> bool" where
  "distinct_keys cr U \<longleftrightarrow> inj_on (chain_key cr) U \<and> (\<forall>c \<in> U. \<forall>i < length c. take (Suc i) c \<in> U)"

definition cache_sound :: "'k crypto \<Rightarrow> Certificate list set \<Rightarrow> sigCache \<Rightarrow> bool" where
  "cache_sound cr U s \<longleftrightarrow> (\<forall>k \<in> set (cache_m s). \<exists>c \<in> U. chain_valid cr c \<and> k = chain_key cr c)"

lemma cache_hit_valid:
  assumes "cache_sound cr U s" "distinct_keys cr U" "chain \<in> U" "i < length chain"
    "sigCache_verify cr s (fst (digest_list cr [] chain ! i))"
  shows "chain_valid cr (take (Suc i) chain)"
proof -
  from assms(1,5) obtain c where c: "c \<in> U" "chain_valid cr c" "chain_key cr (take (Suc i) chain) = chain_key cr c"
    by (auto simp: cache_sound_def sigCache_verify_def chain_key_take [OF assms(4)])
  moreover have "take (Suc i) chain \<in> U" using assms(2-4) by (simp add: distinct_keys_def)
  ultimately have "take (Suc i) chain = c"
    using assms(2) by (auto simp: distinct_keys_def dest: inj_onD)
  with c(2) show ?thesis by simp
qed

text \<open>The loop with a sound cache and the loop without one agree.\<close>

lemma verify_loop_sound:
  assumes "cache_sound cr U s" "distinct_keys cr U" "chain \<in> U"
  shows "n \<le> length chain \<Longrightarrow>
    (case verify_loop cr s chain n of
       Inl e \<Rightarrow> verify_loop cr empty_sigCache chain n = Inl e
     | Inr hit \<Rightarrow> verify_loop cr empty_sigCache chain n = Inr None \<and> (\<forall>i < n. check_cert cr chain i = None))"
proof (induction n)
  case (Suc n)
  then have n: "n < length chain" by simp
  have empty: "\<not> sigCache_verify cr empty_sigCache d" for d
    by (simp add: sigCache_verify_def empty_sigCache_def)
  show ?case
  proof (cases "sigCache_verify cr s (fst (digest_list cr [] chain ! n))")
    case True
    then have "chain_valid cr (take (Suc n) chain)" using cache_hit_valid [OF assms n] by simp
    then have checks: "\<forall>i < Suc n. check_cert cr chain i = None"
      using n by (auto simp: chain_valid_def check_cert_take)
    have "m \<le> Suc n \<Longrightarrow> verify_loop cr empty_sigCache chain m = Inr None" for m
      using checks by (induction m) (simp_all add: empty)
    then have "verify_loop cr empty_sigCache chain (Suc n) = Inr None" by blast
    moreover have "verify_loop cr s chain (Suc n) = Inr (Some n)" using True by simp
    ultimately show ?thesis using checks by (simp del: verify_loop.simps)
  next
    case False
    with Suc empty show ?thesis
      by (auto simp: less_Suc_eq split: option.splits sum.splits)
  qed
qed simp

lemma set_fold_insert_key: "set (fold insert_key ks m) = set ks \<union> set m"
  by (induction ks arbitrary: m) (auto simp: insert_key_def)

lemma distinct_fold_insert_key: "distinct m \<Longrightarrow> distinct (fold insert_key ks m)"
  by (induction ks arbitrary: m) (auto simp: insert_key_def)

lemma set_sigCache_cache:
  "set (cache_m (sigCache_cache order cr ds s)) \<subseteq> sha cr SHA256 ` set ds \<union> set (cache_m s)"
  by (auto simp: sigCache_cache_def Let_def set_fold_insert_key)

text \<open>The keys of the digests of a valid chain may be cached.\<close>

lemma chain_keys_sound:
  assumes "distinct_keys cr U" "chain \<in> U" "chain_valid cr chain" "d \<in> set (map fst (digest_list cr [] chain))"
  shows "\<exists>c \<in> U. chain_valid cr c \<and> sha cr SHA256 d = chain_key cr c"
proof -
  from assms(4) obtain i where i: "i < length chain" "d = fst (digest_list cr [] chain ! i)"
    by (auto simp: in_set_conv_nth)
  then have "sha cr SHA256 d = chain_key cr (take (Suc i) chain)" by (simp add: chain_key_take)
  moreover have "take (Suc i) chain \<in> U" using assms(1,2) i(1) by (simp add: distinct_keys_def)
  moreover have "chain_valid cr (take (Suc i) chain)" using chain_valid_take [OF assms(3)] i(1) by simp
  ultimately show ?thesis by blast
qed

lemma sigCache_cache_sound:
  assumes "cache_sound cr U s" "distinct_keys cr U" "chain \<in> U" "chain_valid cr chain"
    "set ds \<subseteq> set (map fst (digest_list cr [] chain))"
  shows "cache_sound cr U (sigCache_cache order cr ds s)"
proof -
  have "\<exists>c \<in> U. chain_valid cr c \<and> k = chain_key cr c" if "k \<in> set (cache_m (sigCache_cache order cr ds s))" for k
  proof -
    from that set_sigCache_cache consider "k \<in> set (cache_m s)" | d where "d \<in> set ds" "k = sha cr SHA256 d"
      by blast
    then show ?thesis
    proof cases
      case 1
      with assms(1) show ?thesis by (simp add: cache_sound_def)
    next
      case 2
      with chain_keys_sound [OF assms(2-4)] assms(5) show ?thesis by blast
    qed
  qed
  then show ?thesis by (simp add: cache_sound_def)
qed

lemma validateCertificateChain_sound:
  assumes "cache_sound cr U s" "distinct_keys cr U" "chain \<in> U"
  shows "fst (validateCertificateChain order cr s chain)
      = fst (validateCertificateChain order' cr empty_sigCache chain)"
    and "cache_sound cr U (snd (validateCertificateChain order cr s chain))"
proof -
  note loop = verify_loop_sound [OF assms, of "length chain", simplified]
  have valid: "chain_valid cr chain" if "chain \<noteq> []" "verify_loop cr s chain (length chain) = Inr hit" for hit
    using that loop by (simp add: chain_valid_def)
  show "fst (validateCertificateChain order cr s chain)
      = fst (validateCertificateChain order' cr empty_sigCache chain)"
    using loop by (auto simp: validateCertificateChain_def Let_def split: option.splits sum.splits)
  have sub: "set (drop i (map fst (digest_list cr [] chain))) \<subseteq> set (map fst (digest_list cr [] chain))" for i
    by (rule set_drop_subset)
  have "cache_sound cr U (sigCache_cache order cr (drop i (map fst (digest_list cr [] chain))) s)"
    if "chain \<noteq> []" "verify_loop cr s chain (length chain) = Inr hit" for i hit
    using sigCache_cache_sound [OF assms valid [OF that] sub] .
  from this this [of _ 0] assms(1)
  show "cache_sound cr U (snd (validateCertificateChain order cr s chain))"
    by (auto simp: validateCertificateChain_def Let_def split: option.splits sum.splits)
qed

subsection \<open>The states the cache can reach\<close>

definition enumerates :: "(byte list list \<Rightarrow> byte list list) \<Rightarrow> bool" where
  "enumerates order \<longleftrightarrow> (\<forall>m. distinct m \<longrightarrow> distinct (order m) \<and> set (order m) = set m)"

inductive cache_reachable :: "'k crypto \<Rightarrow> Certificate list set \<Rightarrow> sigCache \<Rightarrow> bool" for cr U where
  init: "cache_reachable cr U empty_sigCache"
| validate: "cache_reachable cr U s \<Longrightarrow> chain \<in> U \<Longrightarrow> enumerates order \<Longrightarrow>
    cache_reachable cr U (snd (validateCertificateChain order cr s chain))"
| disable: "cache_reachable cr U s \<Longrightarrow> cache_reachable cr U (sigCache_disable s)"
| enable: "cache_reachable cr U s \<Longrightarrow> cache_reachable cr U (sigCache_enable s)"

lemma reachable_sound:
  "cache_reachable cr U s \<Longrightarrow> distinct_keys cr U \<Longrightarrow> cache_sound cr U s"
proof (induction rule: cache_reachable.induct)
  case (validate s chain order)
  then show ?case by (simp add: validateCertificateChain_sound(2))
qed (auto simp: cache_sound_def empty_sigCache_def sigCache_disable_def sigCache_enable_def)

definition cache_bounded :: "sigCache \<Rightarrow> bool" where
  "cache_bounded s \<longleftrightarrow> distinct (cache_m s) \<and> length (cache_m s) \<le> signatureCacheMaxSize"

lemma sigCache_cache_bounded:
  assumes "cache_bounded s" "enumerates order"
  shows "cache_bounded (sigCache_cache order cr ds s)"
proof (cases "cache_disabled s")
  case True
  with assms(1) show ?thesis by (simp add: sigCache_cache_def)
next
  case False
  define m where "m = fold insert_key (map (sha cr SHA256) ds) (cache_m s)"
  have dm: "distinct m" using assms(1) by (simp add: m_def cache_bounded_def distinct_fold_insert_key)
  show ?thesis
  proof (cases "signatureCacheMaxSize < length m")
    case True
    define n where "n = length m - signatureCacheMaxSize"
    define out where "out = take n (order m)"
    have ord: "distinct (order m)" "set (order m) = set m" using assms(2) dm by (simp_all add: enumerates_def)
    have "length (order m) = length m" using ord dm distinct_card by metis
    then have out: "card (set out) = n" "set out \<subseteq> set m"
      using ord distinct_card [of out] set_take_subset [of n "order m"] by (auto simp: out_def n_def)
    have "card (set m - set out) = length m - n"
      using out dm by (simp add: card_Diff_subset distinct_card)
    then have "length (filter (\<lambda>k. k \<notin> set out) m) = signatureCacheMaxSize"
      using dm distinct_card [of "filter (\<lambda>k. k \<notin> set out) m"] True by (simp add: n_def set_diff_eq)
    then show ?thesis
      using False True dm by (simp add: sigCache_cache_def Let_def cache_bounded_def out_def n_def flip: m_def)
  next
    case small: False
    then show ?thesis
      using False dm by (simp add: sigCache_cache_def Let_def cache_bounded_def flip: m_def)
  qed
qed

lemma reachable_bounded: "cache_reachable cr U s \<Longrightarrow> cache_bounded s"
proof (induction rule: cache_reachable.induct)
  case (validate s chain order)
  then show ?case
    by (auto simp: validateCertificateChain_def Let_def sigCache_cache_bounded split: option.splits sum.splits)
qed (auto simp: cache_bounded_def empty_sigCache_def sigCache_disable_def sigCache_enable_def)

subsection \<open>Chains made by chainCertificate\<close>

lemma check_cert_append:
  "i < length chain \<Longrightarrow> check_cert cr (chain @ cs) i = check_cert cr chain i"
  using check_cert_take [of i "length chain" "chain @ cs" cr] by simp

text \<open>
  A certificate that the holder of a chain's last key chains to it is valid, and the digest returned with
  the chain is the one that validation computes.
\<close>

lemma chainCertificate_valid:
  assumes "signer_ok cr sg" "chainCertificate cr sg chain cert = Inr (chain', digest)"
    and "chain = [] \<or> chain_valid cr chain"
    and "parse_key cr (certPublicKey (if chain = [] then cert else last chain)) = Some (signer_key sg)"
    and "validateExtension (Extension cert) = None"
  shows "chain_valid cr chain'" "digest = fst (last (digest_list cr [] chain'))"
    "\<exists>sig. chain' = chain @ [cert\<lparr>certSignature := sig\<rparr>]"
proof -
  define h where "h = key_hash cr (signer_key sg)"
  define d where "d = fst (digestsForCertificateChain cr chain)"
  from assms(2) obtain sig where sign: "signer_Sign cr sg blessPurpose (snd (chainedDigests cr h cert d)) = Some sig"
    and chain': "chain' = chain @ [cert\<lparr>certSignature := sig\<rparr>]"
    and digest: "digest = fst (chainedDigests cr h (cert\<lparr>certSignature := sig\<rparr>) d)"
    by (auto simp: chainCertificate_def Let_def h_def d_def split: prod.splits option.splits)
  note sig = signer_Sign_verifies [OF assms(1) sign]
  define c where "c = cert\<lparr>certSignature := sig\<rparr>"
  have dl: "digest_list cr [] chain' = digest_list cr [] chain @ [chainedDigests cr h c d]"
    using digestsForCertificateChain_eq [of cr chain] sig(2)
    by (simp add: chain' digest_list_append d_def h_def c_def Let_def)
  have "certPublicKey (chain' ! (if length chain = 0 then 0 else length chain - 1))
      = certPublicKey (if chain = [] then cert else last chain)"
    by (cases "chain = []") (simp_all add: chain' nth_append last_conv_nth)
  then have "parse_key cr (certPublicKey (chain' ! (if length chain = 0 then 0 else length chain - 1))) = Some (signer_key sg)"
    using assms(4) by simp
  moreover have "chain' ! length chain = c" by (simp add: chain' c_def)
  moreover have "snd (digest_list cr [] chain' ! length chain) = snd (chainedDigests cr h cert d)"
    by (simp add: dl nth_append c_def)
  ultimately have "check_cert cr chain' (length chain) = None"
    using sig assms(5) by (simp add: check_cert_def Let_def c_def)
  moreover have "check_cert cr chain' i = None" if "i < length chain" for i
    using that assms(3) by (auto simp: chain' check_cert_append chain_valid_def)
  ultimately show "chain_valid cr chain'"
    by (auto simp: chain_valid_def chain' less_Suc_eq)
  show "digest = fst (last (digest_list cr [] chain'))" by (simp add: digest dl c_def)
  show "\<exists>sig. chain' = chain @ [cert\<lparr>certSignature := sig\<rparr>]" using chain' by blast
qed

lemma verify_loop_valid:
  assumes "\<forall>i < n. check_cert cr chain i = None"
  shows "\<exists>hit. verify_loop cr s chain n = Inr hit"
  using assms by (induction n) auto

lemma validate_valid_chain:
  assumes "chain_valid cr chain" "parse_key cr (certPublicKey (last chain)) = Some pk"
  shows "fst (validateCertificateChain order cr s chain) = Inr (pk, fst (last (digest_list cr [] chain)))"
proof -
  have "chain \<noteq> []" using assms(1) by (simp add: chain_valid_def)
  then have "digest_list cr [] chain \<noteq> []" by (metis length_0_conv length_digest_list)
  then have l: "last (map fst (digest_list cr [] chain)) = fst (last (digest_list cr [] chain))"
    by (simp add: last_map)
  obtain hit where "verify_loop cr s chain (length chain) = Inr hit"
    using verify_loop_valid [of "length chain" cr chain s] assms(1) by (auto simp: chain_valid_def)
  with \<open>chain \<noteq> []\<close> assms(2) l show ?thesis
    by (auto simp: validateCertificateChain_def Let_def split: option.splits)
qed

subsection \<open>Properties\<close>


definition sample_crypto :: "byte list crypto" where
  "sample_crypto = \<lparr>sha = (\<lambda>a d. d), parse_key = Some, marshal_key = Some, key_bits = (\<lambda>_. 256),
     ecdsa_verify = (\<lambda>k m r s. r = 1)\<rparr>"

definition sample_cert :: Certificate where
  "sample_cert = \<lparr>Extension = ''alice'', certPublicKey = [1], Caveats = [],
     certSignature = \<lparr>sigPurpose = blessPurpose, sigHash = SHA256Hash, sigR = [1], sigS = []\<rparr>\<rparr>"

lemma sample_reachable:
  "cache_reachable sample_crypto {[sample_cert]}
     (snd (validateCertificateChain id sample_crypto empty_sigCache [sample_cert]))"
  by (intro cache_reachable.intros) (simp_all add: enumerates_def)



lemma sample_check:
  "sigPurpose (certSignature sample_cert) = blessPurpose" "validateExtension (Extension sample_cert) = None"
  "parse_key sample_crypto (certPublicKey sample_cert) = Some [1]"
  "sig_Verify sample_crypto (certSignature sample_cert) [1] (snd (digest_list sample_crypto [] [sample_cert] ! 0))"
  by code_simp+


end
