(* ===== verification/SecurityBlessings.thy ===== *)
theory SecurityBlessings
  imports SecurityCert "HOL-Library.Product_Lexorder" "HOL-Library.Multiset"
begin

text \<open>
  Blessings and the principal's operations on them: security/blessings.go and security/principal.go.

  A \<open>Blessings\<close> object holds certificate chains that bind names to one public key. \<open>blessings_ok\<close> is the
  invariant of the objects that the package makes: non-empty valid chains ending in the same key, with
  their digests. The roots a principal recognizes and the validation of caveats are parameters, functions
  that return an error or \<open>None\<close>; time is an integer, and \<open>None\<close> is the zero time.
\<close>

record 'k Blessings =
  chains :: "Certificate list list"
  publicKey :: "'k option"
  digests :: "byte list list"
  uniqueID :: "byte list"

definition zero_Blessings :: "'k Blessings" where
  "zero_Blessings = \<lparr>chains = [], publicKey = None, digests = [], uniqueID = []\<rparr>"

datatype bless_error =
    EmptyChain
  | MultiplePublicKeys
  | InvalidUnion
  | NeedCert
  | CantExtendBlessing
  | SwapPanic
  | CertErr cert_error

definition b_IsZero :: "'k Blessings \<Rightarrow> bool" where
  "b_IsZero b \<longleftrightarrow> publicKey b = None"

definition Equivalent :: "'k Blessings \<Rightarrow> 'k Blessings \<Rightarrow> bool" where
  "Equivalent b c \<longleftrightarrow> uniqueID b = uniqueID c"

text \<open>A blessing with digests has a public key.\<close>

definition blessings_init :: "'k crypto \<Rightarrow> 'k Blessings \<Rightarrow> 'k Blessings" where
  "blessings_init cr b =
     (if length (digests b) = 0 then b
      else case publicKey b of
        None \<Rightarrow> b
      | Some pk \<Rightarrow> b\<lparr>uniqueID := hsum cr (key_hash cr pk) (concat (digests b))\<rparr>)"

definition publicKeyDER :: "'k Blessings \<Rightarrow> byte list" where
  "publicKeyDER b = certPublicKey (last (hd (chains b)))"

definition claimedName :: "Certificate list \<Rightarrow> string" where
  "claimedName chain = Extension (hd chain) @ concat (map (\<lambda>c. ChainSeparator @ Extension c) (tl chain))"

definition CouldHaveNames :: "'k Blessings \<Rightarrow> string list \<Rightarrow> bool" where
  "CouldHaveNames b names =
     (let hasNames = map claimedName (chains b) in list_all (\<lambda>n. n \<in> set hasNames) names)"

definition chainCaveats :: "Certificate list \<Rightarrow> Caveat list" where
  "chainCaveats chain = concat (map Caveats chain)"

text \<open>The earliest of the expiry times of the caveats; \<open>expiryTime\<close> decodes the parameter of a caveat.\<close>

definition min_time :: "int option \<Rightarrow> int option \<Rightarrow> int option" where
  "min_time m t =
     (case t of
        None \<Rightarrow> m
      | Some x \<Rightarrow> (case m of None \<Rightarrow> t | Some y \<Rightarrow> if x < y then t else m))"

definition b_Expiry :: "(Caveat \<Rightarrow> int option) \<Rightarrow> 'k Blessings \<Rightarrow> int option" where
  "b_Expiry expiryTime b =
     foldl (\<lambda>m chain. foldl (\<lambda>m cert. foldl (\<lambda>m cav. min_time m (expiryTime cav)) m (Caveats cert)) m chain)
       None (chains b)"

definition isNamelessChains :: "Certificate list list \<Rightarrow> bool" where
  "isNamelessChains cs =
     (case cs of
        [[cert]] \<Rightarrow> Extension cert = [] \<and> Caveats cert = [] \<and> certSignature cert = zero_Signature
      | _ \<Rightarrow> False)"

definition isNamelessBlessing :: "'k Blessings \<Rightarrow> bool" where
  "isNamelessBlessing b \<longleftrightarrow> publicKey b \<noteq> None \<and> isNamelessChains (chains b)"

definition NamelessBlessing :: "'k crypto \<Rightarrow> 'k \<Rightarrow> bless_error + 'k Blessings" where
  "NamelessBlessing cr pk =
     (case marshal_key cr pk of
        None \<Rightarrow> Inl (CertErr CantMarshalKey)
      | Some pkbytes \<Rightarrow>
          (let cert = \<lparr>Extension = [], certPublicKey = pkbytes, Caveats = [], certSignature = zero_Signature\<rparr>
           in Inr (blessings_init cr
                \<lparr>chains = [[cert]], publicKey = Some pk,
                 digests = [fst (chainedDigests cr (key_hash cr pk) cert [])], uniqueID = []\<rparr>)))"

subsection \<open>Wire form\<close>

definition MarshalBlessings :: "'k Blessings \<Rightarrow> Certificate list list" where
  "MarshalBlessings b = chains b"

text \<open>The loop over the chains after the first.\<close>

fun validate_rest ::
  "(byte list list \<Rightarrow> byte list list) \<Rightarrow> 'k crypto \<Rightarrow> byte list \<Rightarrow> Certificate list list \<Rightarrow> sigCache
     \<Rightarrow> (bless_error + byte list list) \<times> sigCache" where
  "validate_rest order cr marshaledkey [] s = (Inr [], s)"
| "validate_rest order cr marshaledkey (chain # cs) s =
     (if length chain = 0 then (Inl EmptyChain, s)
      else if certPublicKey (last chain) \<noteq> marshaledkey then (Inl MultiplePublicKeys, s)
      else
        (case validateCertificateChain order cr s chain of
           (Inl e, s') \<Rightarrow> (Inl (CertErr e), s')
         | (Inr (_, d), s') \<Rightarrow>
             (case validate_rest order cr marshaledkey cs s' of
                (Inl e, s'') \<Rightarrow> (Inl e, s'')
              | (Inr ds, s'') \<Rightarrow> (Inr (d # ds), s''))))"

definition WireBlessingsToNative ::
  "(byte list list \<Rightarrow> byte list list) \<Rightarrow> 'k crypto \<Rightarrow> sigCache \<Rightarrow> Certificate list list \<Rightarrow> 'k Blessings
     \<Rightarrow> (bless_error + 'k Blessings) \<times> sigCache" where
  "WireBlessingsToNative order cr s certchains native =
     (if length certchains = 0 then (Inr native, s)
      else if length (hd certchains) = 0 then (Inl EmptyChain, s)
      else if isNamelessChains certchains then
        (let cert = hd (hd certchains) in
         case parse_key cr (certPublicKey cert) of
           None \<Rightarrow> (Inl (CertErr KeyError), s)
         | Some pk \<Rightarrow>
             (Inr (blessings_init cr
                \<lparr>chains = [[cert]], publicKey = Some pk,
                 digests = [fst (chainedDigests cr (key_hash cr pk) cert [])], uniqueID = []\<rparr>), s))
      else
        (let marshaledkey = certPublicKey (last (hd certchains)) in
         case validateCertificateChain order cr s (hd certchains) of
           (Inl e, s') \<Rightarrow> (Inl (CertErr e), s')
         | (Inr (key, d), s') \<Rightarrow>
             (case validate_rest order cr marshaledkey (tl certchains) s' of
                (Inl e, s'') \<Rightarrow> (Inl e, s'')
              | (Inr ds, s'') \<Rightarrow>
                  (Inr (blessings_init cr
                     (native\<lparr>chains := certchains, publicKey := Some key, digests := d # ds\<rparr>)), s''))))"

subsection \<open>Union\<close>

text \<open>\<open>blessingsSorter.Less\<close>: by length, then by the extensions.\<close>

fun ext_less :: "Certificate list \<Rightarrow> Certificate list \<Rightarrow> bool" where
  "ext_less (c # ci) (d # cj) =
     (if Extension c < Extension d then True
      else if Extension d < Extension c then False
      else ext_less ci cj)"
| "ext_less _ _ = False"

definition chain_Less :: "Certificate list \<Rightarrow> Certificate list \<Rightarrow> bool" where
  "chain_Less ci cj =
     (if length ci < length cj then True
      else if length cj < length ci then False
      else ext_less ci cj)"

definition chain_rank :: "Certificate list \<Rightarrow> nat \<times> string list" where
  "chain_rank c = (length c, map Extension c)"

text \<open>
  \<open>sort.Stable(blessingsSorter(b))\<close>: \<open>Swap\<close> exchanges chains and digests at the same indices. A stable sort
  swaps an index exactly when its element is moved past another one, so that with fewer digests than
  chains it indexes the digests out of range, and panics, when a chain without a digest is less than one
  before it. Otherwise the chains without a digest stay where they are, behind the others.
\<close>

definition swaps_beyond :: "'k Blessings \<Rightarrow> bool" where
  "swaps_beyond b \<longleftrightarrow>
     list_ex (\<lambda>j. list_ex (\<lambda>i. chain_Less (chains b ! j) (chains b ! i)) [0..<j])
       [length (digests b)..<length (chains b)]"

definition sort_chains :: "'k Blessings \<Rightarrow> 'k Blessings option" where
  "sort_chains b =
     (if swaps_beyond b then None
      else
        (let sorted = sort_key (\<lambda>p. chain_rank (fst p)) (zip (chains b) (digests b))
         in Some (b\<lparr>chains := map fst sorted @ drop (length (digests b)) (chains b), digests := map snd sorted\<rparr>)))"

fun union_loop :: "byte list \<Rightarrow> nat \<Rightarrow> 'k Blessings list \<Rightarrow> bool \<Rightarrow> 'k Blessings \<Rightarrow> bless_error + bool \<times> 'k Blessings" where
  "union_loop key0 idx [] onlyNameless ret = Inr (onlyNameless, ret)"
| "union_loop key0 idx (b # bs) onlyNameless ret =
     (if b_IsZero b \<or> isNamelessBlessing b then union_loop key0 (idx + 1) bs onlyNameless ret
      else if 0 < idx \<and> key0 \<noteq> publicKeyDER b then Inl InvalidUnion
      else union_loop key0 (idx + 1) bs False
             (ret\<lparr>chains := chains ret @ chains b, digests := digests ret @ digests b\<rparr>))"

definition UnionOfBlessings :: "'k crypto \<Rightarrow> 'k Blessings list \<Rightarrow> bless_error + 'k Blessings" where
  "UnionOfBlessings cr blessings0 =
     (case dropWhile b_IsZero blessings0 of
        [] \<Rightarrow> Inr zero_Blessings
      | [b] \<Rightarrow> Inr b
      | b # bs \<Rightarrow>
          (let key0 = publicKeyDER b in
           case union_loop key0 0 (b # bs) (isNamelessBlessing b) zero_Blessings of
             Inl e \<Rightarrow> Inl e
           | Inr (onlyNameless, ret) \<Rightarrow>
               if onlyNameless then Inr b
               else
                 (case parse_key cr key0 of
                    None \<Rightarrow> Inl (CertErr KeyError)
                  | Some pk \<Rightarrow>
                      (case sort_chains (ret\<lparr>publicKey := Some pk\<rparr>) of
                         None \<Rightarrow> Inl SwapPanic
                       | Some ret \<Rightarrow> Inr (blessings_init cr ret)))))"

subsection \<open>Names\<close>

text \<open>\<open>Roots().Recognized\<close> and caveat validation return an error or \<open>None\<close>.\<close>

definition nameForPrincipal :: "byte list \<Rightarrow> (byte list \<Rightarrow> string \<Rightarrow> 'e option) \<Rightarrow> Certificate list \<Rightarrow> string" where
  "nameForPrincipal pubkey recognized chain =
     (if certPublicKey (last chain) \<noteq> pubkey then []
      else if recognized (certPublicKey (hd chain)) (claimedName chain) \<noteq> None then []
      else claimedName chain)"

fun first_error :: "('a \<Rightarrow> 'e option) \<Rightarrow> 'a list \<Rightarrow> 'e option" where
  "first_error f [] = None"
| "first_error f (x # xs) = (case f x of Some e \<Rightarrow> Some e | None \<Rightarrow> first_error f xs)"

definition defaultCaveatValidation :: "(Caveat \<Rightarrow> 'e option) \<Rightarrow> Caveat list list \<Rightarrow> 'e option list" where
  "defaultCaveatValidation Validate cs = map (first_error Validate) cs"

fun remote_loop ::
  "(byte list \<Rightarrow> string \<Rightarrow> 'e option) \<Rightarrow> Certificate list list
     \<Rightarrow> string list \<times> (string \<times> 'e) list \<times> (string \<times> Caveat list) list
     \<Rightarrow> string list \<times> (string \<times> 'e) list \<times> (string \<times> Caveat list) list" where
  "remote_loop recognized [] st = st"
| "remote_loop recognized (chain # cs) (validated, rejected, pending) =
     (let name = claimedName chain in
      case recognized (certPublicKey (hd chain)) name of
        Some err \<Rightarrow> remote_loop recognized cs (validated, rejected @ [(name, err)], pending)
      | None \<Rightarrow>
          (let cavs = chainCaveats chain in
           if length cavs = 0 then remote_loop recognized cs (validated @ [name], rejected, pending)
           else remote_loop recognized cs (validated, rejected, pending @ [(name, cavs)])))"

fun remote_results ::
  "(string \<times> 'e option) list \<Rightarrow> string list \<times> (string \<times> 'e) list \<Rightarrow> string list \<times> (string \<times> 'e) list" where
  "remote_results [] st = st"
| "remote_results ((name, None) # rs) (validated, rejected) = remote_results rs (validated @ [name], rejected)"
| "remote_results ((name, Some e) # rs) (validated, rejected) = remote_results rs (validated, rejected @ [(name, e)])"

text \<open>
  A call of which the local principal has no roots recognizes nothing: the function then returns the
  error for misconfigured roots. \<open>None\<close> is the panic when the validation function returns the wrong
  number of results.
\<close>

definition RemoteBlessingNames ::
  "(byte list \<Rightarrow> string \<Rightarrow> 'e option) \<Rightarrow> (Caveat list list \<Rightarrow> 'e option list) \<Rightarrow> 'k Blessings
     \<Rightarrow> (string list \<times> (string \<times> 'e) list) option" where
  "RemoteBlessingNames recognized caveatValidation b =
     (if b_IsZero b \<or> isNamelessBlessing b then Some ([], [])
      else
        (case remote_loop recognized (chains b) ([], [], []) of
           (validated, rejected, pending) \<Rightarrow>
             if length pending = 0 then Some (validated, rejected)
             else
               (let results = caveatValidation (map snd pending) in
                if length results \<noteq> length pending then None
                else Some (remote_results (zip (map fst pending) results) (validated, rejected)))))"

definition isSigningBlessingCaveat :: "byte list \<Rightarrow> byte list \<Rightarrow> Caveat \<Rightarrow> bool" where
  "isSigningBlessingCaveat expiryId constId cav \<longleftrightarrow> cavId cav = expiryId \<or> cavId cav = constId"

fun validateCaveatsForSigning ::
  "(Caveat \<Rightarrow> bool) \<Rightarrow> (Caveat \<Rightarrow> 'e option) \<Rightarrow> (Caveat \<Rightarrow> 'e) \<Rightarrow> Caveat list \<Rightarrow> 'e option" where
  "validateCaveatsForSigning signing Validate invalid [] = None"
| "validateCaveatsForSigning signing Validate invalid (cav # cavs) =
     (if \<not> signing cav then Some (invalid cav)
      else case Validate cav of
        Some e \<Rightarrow> Some e
      | None \<Rightarrow> validateCaveatsForSigning signing Validate invalid cavs)"

fun signing_loop ::
  "(byte list \<Rightarrow> string \<Rightarrow> 'e option) \<Rightarrow> (Caveat list \<Rightarrow> 'e option) \<Rightarrow> Certificate list list
     \<Rightarrow> string list \<times> (string \<times> 'e) list" where
  "signing_loop recognized validate [] = ([], [])"
| "signing_loop recognized validate (chain # cs) =
     (let name = claimedName chain; (names, rejected) = signing_loop recognized validate cs in
      case recognized (certPublicKey (hd chain)) name of
        Some e \<Rightarrow> (names, (name, e) # rejected)
      | None \<Rightarrow>
          (case validate (chainCaveats chain) of
             Some e \<Rightarrow> (names, (name, e) # rejected)
           | None \<Rightarrow> (name # names, rejected)))"

definition SigningBlessingNames ::
  "(byte list \<Rightarrow> string \<Rightarrow> 'e option) \<Rightarrow> (Caveat list \<Rightarrow> 'e option) \<Rightarrow> 'k Blessings
     \<Rightarrow> string list \<times> (string \<times> 'e) list" where
  "SigningBlessingNames recognized validate b =
     (if b_IsZero b \<or> isNamelessBlessing b then ([], []) else signing_loop recognized validate (chains b))"

definition BlessingNames ::
  "'k crypto \<Rightarrow> 'k \<Rightarrow> (byte list \<Rightarrow> string \<Rightarrow> 'e option) \<Rightarrow> 'k Blessings \<Rightarrow> string list" where
  "BlessingNames cr principalKey recognized b =
     (case marshal_key cr principalKey of
        None \<Rightarrow> []
      | Some pKey \<Rightarrow>
          if length (chains b) = 0 then []
          else if certPublicKey (last (hd (chains b))) \<noteq> pKey then []
          else map claimedName
                 (filter (\<lambda>chain. recognized (certPublicKey (hd chain)) (claimedName chain) = None) (chains b)))"

definition SigningBlessings :: "(Caveat \<Rightarrow> bool) \<Rightarrow> 'k Blessings \<Rightarrow> 'k Blessings" where
  "SigningBlessings signing b =
     (if b_IsZero b \<or> isNamelessBlessing b then zero_Blessings
      else
        (let cs = filter (\<lambda>chain. list_all signing (chainCaveats chain)) (chains b)
         in zero_Blessings\<lparr>chains := cs, publicKey := (if 0 < length cs then publicKey b else None)\<rparr>))"

definition root_blessing :: "'k crypto \<Rightarrow> Certificate list \<Rightarrow> 'k Blessings" where
  "root_blessing cr chain =
     (if length chain = 0 then zero_Blessings
      else
        (let cert = hd chain
         in blessings_init cr
              \<lparr>chains = [[cert]], publicKey = parse_key cr (certPublicKey cert),
               digests = [fst (chainedDigests cr (sigHash (certSignature cert)) cert [])], uniqueID = []\<rparr>))"

definition RootBlessings :: "'k crypto \<Rightarrow> 'k Blessings \<Rightarrow> 'k Blessings list" where
  "RootBlessings cr b = (if isNamelessBlessing b then [] else map (root_blessing cr) (chains b))"

text \<open>\<open>AddToRoots\<close> calls the roots' \<open>Add\<close> for each chain until one fails; the calls are returned.\<close>

fun add_roots :: "(byte list \<Rightarrow> BlessingPattern \<Rightarrow> 'e option) \<Rightarrow> Certificate list list
    \<Rightarrow> (byte list \<times> BlessingPattern) list \<times> 'e option" where
  "add_roots Add [] = ([], None)"
| "add_roots Add (chain # cs) =
     (let root = certPublicKey (hd chain); pattern = Extension (hd chain) in
      case Add root pattern of
        Some e \<Rightarrow> ([(root, pattern)], Some e)
      | None \<Rightarrow> (case add_roots Add cs of (calls, r) \<Rightarrow> ((root, pattern) # calls, r)))"

definition AddToRoots :: "(byte list \<Rightarrow> BlessingPattern \<Rightarrow> 'e option) \<Rightarrow> 'k Blessings
    \<Rightarrow> (byte list \<times> BlessingPattern) list \<times> 'e option" where
  "AddToRoots Add b = (if isNamelessBlessing b then ([], None) else add_roots Add (chains b))"

subsection \<open>Blessing\<close>

fun chain_all :: "'k crypto \<Rightarrow> 'k signer \<Rightarrow> Certificate \<Rightarrow> Certificate list list
    \<Rightarrow> cert_error + (Certificate list \<times> byte list) list" where
  "chain_all cr sg cert [] = Inr []"
| "chain_all cr sg cert (chain # cs) =
     and_then (chainCertificate cr sg chain cert) (\<lambda>r. and_then (chain_all cr sg cert cs) (\<lambda>rs. Inr (r # rs)))"

definition Bless ::
  "'k crypto \<Rightarrow> 'k signer \<Rightarrow> 'k \<Rightarrow> 'k Blessings \<Rightarrow> string \<Rightarrow> Caveat \<Rightarrow> Caveat list \<Rightarrow> bless_error + 'k Blessings" where
  "Bless cr sg key with0 extension caveat additionalCaveats =
     (if b_IsZero with0 \<or> isNamelessBlessing with0 then Inl NeedCert
      else if publicKey with0 \<noteq> Some (signer_key sg) then Inl CantExtendBlessing
      else
        (case newUnsignedCertificate cr extension key (additionalCaveats @ [caveat]) of
           Inl e \<Rightarrow> Inl (CertErr e)
         | Inr cert \<Rightarrow>
             (case chain_all cr sg cert (chains with0) of
                Inl e \<Rightarrow> Inl (CertErr e)
              | Inr rs \<Rightarrow>
                  Inr (blessings_init cr
                    \<lparr>chains = map fst rs, publicKey = Some key, digests = map snd rs, uniqueID = []\<rparr>))))"

definition BlessSelf ::
  "'k crypto \<Rightarrow> 'k signer \<Rightarrow> string \<Rightarrow> Caveat list \<Rightarrow> bless_error + 'k Blessings" where
  "BlessSelf cr sg name caveats =
     (case newUnsignedCertificate cr name (signer_key sg) caveats of
        Inl e \<Rightarrow> Inl (CertErr e)
      | Inr cert \<Rightarrow>
          (case chainCertificate cr sg [] cert of
             Inl e \<Rightarrow> Inl (CertErr e)
           | Inr (chain, digest) \<Rightarrow>
               Inr (blessings_init cr
                 \<lparr>chains = [chain], publicKey = Some (signer_key sg), digests = [digest], uniqueID = []\<rparr>)))"

section \<open>The invariant\<close>

text \<open>The digest with which a chain is cached and of which the unique id is made.\<close>

definition chain_digest :: "'k crypto \<Rightarrow> Certificate list \<Rightarrow> byte list" where
  "chain_digest cr chain = fst (last (digest_list cr [] chain))"

definition blessings_ok :: "'k crypto \<Rightarrow> 'k Blessings \<Rightarrow> bool" where
  "blessings_ok cr b \<longleftrightarrow>
     chains b \<noteq> [] \<and> list_all (chain_valid cr) (chains b) \<and>
     list_all (\<lambda>c. certPublicKey (last c) = publicKeyDER b) (chains b) \<and>
     publicKey b \<noteq> None \<and> parse_key cr (publicKeyDER b) = publicKey b \<and>
     digests b = map (chain_digest cr) (chains b) \<and>
     uniqueID b = hsum cr (key_hash cr (the (publicKey b))) (concat (digests b))"

lemma blessings_okI:
  assumes "cs \<noteq> []" "\<And>c. c \<in> set cs \<Longrightarrow> chain_valid cr c" "\<And>c. c \<in> set cs \<Longrightarrow> certPublicKey (last c) = kb"
    "parse_key cr kb = Some pk" "ds = map (chain_digest cr) cs"
  shows "blessings_ok cr (blessings_init cr \<lparr>chains = cs, publicKey = Some pk, digests = ds, uniqueID = u\<rparr>)"
proof -
  have "certPublicKey (last (hd cs)) = kb" using assms(1,3) by (cases cs) simp_all
  with assms show ?thesis
    by (simp add: blessings_ok_def blessings_init_def publicKeyDER_def list_all_iff)
qed

lemma valid_chain_named: "chain_valid cr [c] \<Longrightarrow> certSignature c \<noteq> zero_Signature"
  by (auto simp: chain_valid_def check_cert_def Let_def zero_Signature_def blessPurpose_def bytes_of_def
      split: if_splits)

lemma ok_not_nameless: "list_all (chain_valid cr) cs \<Longrightarrow> \<not> isNamelessChains cs"
  by (auto simp: isNamelessChains_def valid_chain_named split: list.splits)

lemma ok_named: "blessings_ok cr b \<Longrightarrow> \<not> isNamelessBlessing b"
  using ok_not_nameless by (auto simp: blessings_ok_def isNamelessBlessing_def)

lemma ok_not_zero: "blessings_ok cr b \<Longrightarrow> \<not> b_IsZero b"
  unfolding blessings_ok_def b_IsZero_def by blast

lemma claimedName_snoc:
  "chain \<noteq> [] \<Longrightarrow> claimedName (chain @ [c]) = claimedName chain @ ChainSeparator @ Extension c"
  by (cases chain) (simp_all add: claimedName_def)

lemma chainCaveats_append: "chainCaveats (xs @ ys) = chainCaveats xs @ chainCaveats ys"
  by (simp add: chainCaveats_def)

subsection \<open>Blessing\<close>

lemma chain_all_facts:
  assumes "signer_ok cr sg" "list_all (chain_valid cr) cs"
    "list_all (\<lambda>c. parse_key cr (certPublicKey (last c)) = Some (signer_key sg)) cs"
    "validateExtension (Extension cert) = None"
  shows "chain_all cr sg cert cs = Inr rs \<Longrightarrow>
    map snd rs = map (chain_digest cr) (map fst rs) \<and>
    list_all2 (\<lambda>c r. chain_valid cr (fst r) \<and> (\<exists>sig. fst r = c @ [cert\<lparr>certSignature := sig\<rparr>])) cs rs"
  using assms(2,3)
proof (induction cs arbitrary: rs)
  case (Cons c cs)
  from Cons.prems(1) obtain chain' digest rs' where r: "chainCertificate cr sg c cert = Inr (chain', digest)"
    "chain_all cr sg cert cs = Inr rs'" "rs = (chain', digest) # rs'"
    by (auto simp: and_then_def split: sum.splits)
  have ne: "c \<noteq> []" using Cons.prems(2) by (simp add: chain_valid_def)
  note new = chainCertificate_valid [OF assms(1) r(1) _ _ assms(4)]
  have "chain_valid cr chain'" "digest = chain_digest cr chain'" "\<exists>sig. chain' = c @ [cert\<lparr>certSignature := sig\<rparr>]"
    using new Cons.prems(2,3) ne by (simp_all add: chain_digest_def)
  with Cons.IH [OF r(2)] Cons.prems(2,3) r(3) show ?case by simp
qed simp

lemma newUnsignedCertificate_facts:
  assumes "newUnsignedCertificate cr extension key caveats = Inr cert"
  shows "validateExtension extension = None" "Extension cert = extension" "Caveats cert = caveats"
    "marshal_key cr key = Some (certPublicKey cert)"
  using assms by (auto simp: newUnsignedCertificate_def split: option.splits)

lemma Bless_facts:
  assumes "keys_ok cr" "signer_ok cr sg" "blessings_ok cr with0"
    "Bless cr sg key with0 extension caveat additionalCaveats = Inr b"
  shows "blessings_ok cr b" "publicKey b = Some key"
    "list_all2 (\<lambda>c c'. \<exists>cert. c' = c @ [cert] \<and> Extension cert = extension \<and>
       Caveats cert = additionalCaveats @ [caveat]) (chains with0) (chains b)"
proof -
  have w: "chains with0 \<noteq> []" "list_all (chain_valid cr) (chains with0)"
    "list_all (\<lambda>c. parse_key cr (certPublicKey (last c)) = publicKey with0) (chains with0)"
    using assms(3) by (simp_all add: blessings_ok_def list_all_iff)
  from assms(4) ok_not_zero [OF assms(3)] ok_named [OF assms(3)] obtain cert rs
    where cert: "newUnsignedCertificate cr extension key (additionalCaveats @ [caveat]) = Inr cert"
      and rs: "chain_all cr sg cert (chains with0) = Inr rs" and k: "publicKey with0 = Some (signer_key sg)"
      and b: "b = blessings_init cr \<lparr>chains = map fst rs, publicKey = Some key, digests = map snd rs, uniqueID = []\<rparr>"
    by (auto simp: Bless_def split: if_splits sum.splits)
  note c = newUnsignedCertificate_facts [OF cert]
  have "validateExtension (Extension cert) = None" using c by simp
  note all = chain_all_facts [OF assms(2) w(2) w(3)[unfolded k] this rs, THEN conjunct1]
    chain_all_facts [OF assms(2) w(2) w(3)[unfolded k] this rs, THEN conjunct2]
  show "list_all2 (\<lambda>c c'. \<exists>cert. c' = c @ [cert] \<and> Extension cert = extension \<and>
       Caveats cert = additionalCaveats @ [caveat]) (chains with0) (chains b)"
  proof -
    have "list_all2 (\<lambda>c r. \<exists>cert. fst r = c @ [cert] \<and> Extension cert = extension \<and>
        Caveats cert = additionalCaveats @ [caveat]) (chains with0) rs"
      by (rule list_all2_mono [OF all(2)]) (use c in auto)
    then show ?thesis by (auto simp: b blessings_init_def list_all2_map2)
  qed
  show "publicKey b = Some key" by (simp add: b blessings_init_def)
  have "map fst rs \<noteq> []" using all(2) w by (cases rs) auto
  moreover have "chain_valid cr c \<and> certPublicKey (last c) = certPublicKey cert" if "c \<in> set (map fst rs)" for c
  proof -
    from that obtain i where i: "i < length rs" "c = fst (rs ! i)" by (auto simp: in_set_conv_nth)
    then obtain sig where "chain_valid cr c" "c = chains with0 ! i @ [cert\<lparr>certSignature := sig\<rparr>]"
      using all(2) by (auto simp: list_all2_conv_all_nth)
    then show ?thesis by simp
  qed
  moreover have "parse_key cr (certPublicKey cert) = Some key" using assms(1) c(4) by (simp add: keys_ok_def)
  ultimately show "blessings_ok cr b"
    unfolding b using blessings_okI [OF _ _ _ _ all(1)] by blast
qed

lemma BlessSelf_facts:
  assumes "keys_ok cr" "signer_ok cr sg" "BlessSelf cr sg name caveats = Inr b"
  shows "blessings_ok cr b" "publicKey b = Some (signer_key sg)"
    "\<exists>cert. chains b = [[cert]] \<and> Extension cert = name \<and> Caveats cert = caveats"
proof -
  from assms(3) obtain cert chain digest
    where cert: "newUnsignedCertificate cr name (signer_key sg) caveats = Inr cert"
      and chain: "chainCertificate cr sg [] cert = Inr (chain, digest)"
      and b: "b = blessings_init cr \<lparr>chains = [chain], publicKey = Some (signer_key sg), digests = [digest], uniqueID = []\<rparr>"
    by (auto simp: BlessSelf_def split: sum.splits)
  note c = newUnsignedCertificate_facts [OF cert]
  have k: "parse_key cr (certPublicKey cert) = Some (signer_key sg)" using assms(1) c(4) by (simp add: keys_ok_def)
  note new = chainCertificate_valid [OF assms(2) chain]
  from new c k obtain sig where sig: "chain = [cert\<lparr>certSignature := sig\<rparr>]" by auto
  show "publicKey b = Some (signer_key sg)" by (simp add: b blessings_init_def)
  show "\<exists>cert. chains b = [[cert]] \<and> Extension cert = name \<and> Caveats cert = caveats"
    using c by (simp add: b blessings_init_def sig)
  show "blessings_ok cr b"
    unfolding b using k new c by (intro blessings_okI [of _ _ "certPublicKey cert"]) (auto simp: sig chain_digest_def)
qed

subsection \<open>The wire form\<close>

lemma init_chains [simp]: "chains (blessings_init cr b) = chains b" "publicKey (blessings_init cr b) = publicKey b"
    "digests (blessings_init cr b) = digests b"
  by (simp_all add: blessings_init_def split: option.splits)

lemma validate_rest_valid:
  assumes "parse_key cr mk = Some pk"
  shows "list_all (chain_valid cr) cs \<Longrightarrow> list_all (\<lambda>c. certPublicKey (last c) = mk) cs \<Longrightarrow>
    fst (validate_rest order cr mk cs s) = Inr (map (chain_digest cr) cs)"
proof (induction cs arbitrary: s)
  case (Cons c cs)
  have ne: "c \<noteq> []" using Cons.prems(1) by (simp add: chain_valid_def)
  obtain r s' where v: "validateCertificateChain order cr s c = (r, s')" by fastforce
  have r: "r = Inr (pk, chain_digest cr c)"
    using validate_valid_chain [of cr c pk order s] Cons.prems assms v by (simp add: chain_digest_def)
  obtain q s'' where w: "validate_rest order cr mk cs s' = (q, s'')" by fastforce
  have "q = Inr (map (chain_digest cr) cs)" using Cons.IH [of s'] Cons.prems w by simp
  with ne r v w Cons.prems show ?case by simp
qed simp

lemma wire_roundtrip_ok:
  assumes "blessings_ok cr b"
  shows "fst (WireBlessingsToNative order cr s (MarshalBlessings b) zero_Blessings) = Inr b"
proof -
  obtain c cs where cs: "chains b = c # cs" using assms by (cases "chains b") (simp_all add: blessings_ok_def)
  obtain pk where pk: "publicKey b = Some pk" "parse_key cr (certPublicKey (last c)) = Some pk"
    using assms by (auto simp: blessings_ok_def publicKeyDER_def cs)
  have valid: "chain_valid cr c" "list_all (chain_valid cr) cs"
    "list_all (\<lambda>d. certPublicKey (last d) = certPublicKey (last c)) cs"
    using assms by (simp_all add: blessings_ok_def publicKeyDER_def cs)
  obtain r s' where v: "validateCertificateChain order cr s c = (r, s')" by fastforce
  have r: "r = Inr (pk, chain_digest cr c)"
    using validate_valid_chain [OF valid(1) pk(2), of order s] v by (simp add: chain_digest_def)
  obtain q s'' where w: "validate_rest order cr (certPublicKey (last c)) cs s' = (q, s'')" by fastforce
  have q: "q = Inr (map (chain_digest cr) cs)" using validate_rest_valid [OF pk(2) valid(2,3), of order s'] w by simp
  have ne: "c \<noteq> []" using valid(1) by (simp add: chain_valid_def)
  have nn: "\<not> isNamelessChains (c # cs)" using valid ok_not_nameless [of cr "c # cs"] by simp
  have d: "digests b = chain_digest cr c # map (chain_digest cr) cs"
    "uniqueID b = hsum cr (key_hash cr pk) (concat (digests b))"
    using assms pk(1) by (simp_all add: blessings_ok_def cs)
  have "fst (WireBlessingsToNative order cr s (MarshalBlessings b) zero_Blessings)
      = Inr (blessings_init cr (zero_Blessings\<lparr>chains := chains b, publicKey := Some pk, digests := digests b\<rparr>))"
    using ne nn v r w q d(1) by (simp add: WireBlessingsToNative_def MarshalBlessings_def cs Let_def)
  also have "\<dots> = Inr b"
    using pk(1) d by (cases b) (simp add: blessings_init_def zero_Blessings_def)
  finally show ?thesis .
qed

text \<open>Whatever the validation with a sound cache accepts satisfies the invariant.\<close>

lemma validate_sound:
  assumes "cache_sound cr U s" "distinct_keys cr U" "chain \<in> U"
    "validateCertificateChain order cr s chain = (Inr (pk, d), s')"
  shows "chain_valid cr chain" "parse_key cr (certPublicKey (last chain)) = Some pk" "d = chain_digest cr chain"
    "cache_sound cr U s'"
proof -
  have s: "fst (validateCertificateChain order cr empty_sigCache chain) = Inr (pk, d)"
    using validateCertificateChain_sound(1) [OF assms(1-3), of order order] assms(4) by simp
  then have ne: "chain \<noteq> []" and pk: "parse_key cr (certPublicKey (last chain)) = Some pk"
    by (auto simp: validateCertificateChain_def Let_def split: if_splits option.splits sum.splits)
  have "\<not> sigCache_verify cr empty_sigCache x" for x by (simp add: sigCache_verify_def empty_sigCache_def)
  then have "(\<exists>hit. verify_loop cr empty_sigCache chain n = Inr hit) \<longleftrightarrow> (\<forall>i < n. check_cert cr chain i = None)" for n
    by (induction n) (auto simp: less_Suc_eq split: option.splits)
  moreover have "\<exists>hit. verify_loop cr empty_sigCache chain (length chain) = Inr hit"
    using s by (auto simp: validateCertificateChain_def Let_def split: if_splits option.splits sum.splits)
  ultimately show valid: "chain_valid cr chain" using ne by (simp add: chain_valid_def)
  show "parse_key cr (certPublicKey (last chain)) = Some pk" by (rule pk)
  show "d = chain_digest cr chain"
    using validate_valid_chain [OF valid pk, of order empty_sigCache] s by (simp add: chain_digest_def)
  show "cache_sound cr U s'" using validateCertificateChain_sound(2) [OF assms(1-3), of order] assms(4) by simp
qed

lemma validate_rest_sound:
  assumes "distinct_keys cr U"
  shows "cache_sound cr U s \<Longrightarrow> set cs \<subseteq> U \<Longrightarrow> validate_rest order cr mk cs s = (Inr ds, s') \<Longrightarrow>
    list_all (chain_valid cr) cs \<and> list_all (\<lambda>c. certPublicKey (last c) = mk) cs \<and> ds = map (chain_digest cr) cs"
proof (induction cs arbitrary: s ds)
  case (Cons c cs)
  from Cons.prems(3) obtain pk d s1 ds' where
    k: "certPublicKey (last c) = mk" and v: "validateCertificateChain order cr s c = (Inr (pk, d), s1)"
    and w: "validate_rest order cr mk cs s1 = (Inr ds', s')" and ds: "ds = d # ds'"
    by (auto split: if_splits prod.splits sum.splits)
  have "c \<in> U" "set cs \<subseteq> U" using Cons.prems(2) by simp_all
  note vs = validate_sound [OF Cons.prems(1) assms this(1) v]
  from Cons.IH [OF vs(4) \<open>set cs \<subseteq> U\<close> w] vs k ds show ?case by simp
qed simp

lemma WireBlessingsToNative_sound:
  assumes "cache_sound cr U s" "distinct_keys cr U" "set cs \<subseteq> U" "cs \<noteq> []" "\<not> isNamelessChains cs"
    "fst (WireBlessingsToNative order cr s cs native) = Inr b"
  shows "blessings_ok cr b \<and> chains b = cs"
proof -
  from assms(4-6) obtain pk d s1 ds s2 where
    v: "validateCertificateChain order cr s (hd cs) = (Inr (pk, d), s1)"
    and w: "validate_rest order cr (certPublicKey (last (hd cs))) (tl cs) s1 = (Inr ds, s2)"
    and b: "b = blessings_init cr (native\<lparr>chains := cs, publicKey := Some pk, digests := d # ds\<rparr>)"
    by (auto simp: WireBlessingsToNative_def Let_def split: if_splits prod.splits sum.splits)
  have cs: "set cs = insert (hd cs) (set (tl cs))" using assms(4) by (cases cs) simp_all
  then have "hd cs \<in> U" "set (tl cs) \<subseteq> U" using assms(3) by simp_all
  note vs = validate_sound [OF assms(1,2) this(1) v]
  note ws = validate_rest_sound [OF assms(2) vs(4) \<open>set (tl cs) \<subseteq> U\<close> w]
  have c: "chain_valid cr c" "certPublicKey (last c) = certPublicKey (last (hd cs))" if "c \<in> set cs" for c
    using that vs(1) ws cs by (auto simp: list_all_iff)
  have d: "d # ds = map (chain_digest cr) cs" using vs(3) ws assms(4) by (cases cs) simp_all
  have "blessings_ok cr (blessings_init cr \<lparr>chains = cs, publicKey = Some pk, digests = d # ds, uniqueID = uniqueID native\<rparr>)"
    by (rule blessings_okI [OF assms(4) c vs(2) d])
  moreover have "native\<lparr>chains := cs, publicKey := Some pk, digests := d # ds\<rparr>
      = \<lparr>chains = cs, publicKey = Some pk, digests = d # ds, uniqueID = uniqueID native\<rparr>" by simp
  ultimately have "blessings_ok cr b" unfolding b by (simp only:)
  then show ?thesis by (simp add: b)
qed

subsection \<open>Union\<close>

lemma ext_less_rank:
  "length ci = length cj \<Longrightarrow> ext_less ci cj \<longleftrightarrow> map Extension ci < map Extension cj"
  by (induction ci cj rule: ext_less.induct) auto

lemma chain_Less_rank: "chain_Less ci cj \<longleftrightarrow> chain_rank ci < chain_rank cj"
  by (auto simp: chain_Less_def chain_rank_def less_prod_def' ext_less_rank)

text \<open>What the loop collects, for blessings that are zero, nameless or satisfy the invariant.\<close>

definition named_of :: "'k Blessings list \<Rightarrow> 'k Blessings list" where
  "named_of bs = filter (\<lambda>b. \<not> b_IsZero b \<and> \<not> isNamelessBlessing b) bs"

lemma union_loop_collects:
  "union_loop key0 idx bs onlyNameless ret = Inr (o', ret') \<Longrightarrow>
     chains ret' = chains ret @ concat (map chains (named_of bs)) \<and>
     digests ret' = digests ret @ concat (map digests (named_of bs)) \<and>
     uniqueID ret' = uniqueID ret \<and> (o' \<longleftrightarrow> onlyNameless \<and> named_of bs = [])"
  by (induction key0 idx bs onlyNameless ret rule: union_loop.induct)
    (auto simp: named_of_def split: if_splits)

lemma union_loop_keys:
  "isl (union_loop key0 (Suc idx) bs onlyNameless ret) \<longleftrightarrow> \<not> (\<forall>b \<in> set (named_of bs). publicKeyDER b = key0)"
proof (induction bs arbitrary: idx onlyNameless ret)
  case (Cons b bs)
  then show ?case by (cases "b_IsZero b \<or> isNamelessBlessing b") (auto simp: named_of_def)
qed (simp add: named_of_def)

lemma union_loop_error: "union_loop key0 idx bs onlyNameless ret = Inl e \<Longrightarrow> e = InvalidUnion"
  by (induction key0 idx bs onlyNameless ret rule: union_loop.induct) (auto split: if_splits)

lemma union_loop_first:
  "isl (union_loop (publicKeyDER b) 0 (b # bs) onlyNameless ret) \<longleftrightarrow>
     \<not> (\<forall>c \<in> set (named_of bs). publicKeyDER c = publicKeyDER b)"
  using union_loop_keys [of "publicKeyDER b" 0 bs] by simp

lemma sort_chains_facts:
  assumes "digests b = map f (chains b)"
  shows "\<exists>r. sort_chains b = Some r \<and> mset (chains r) = mset (chains b) \<and> sorted (map chain_rank (chains r)) \<and>
    digests r = map f (chains r) \<and> publicKey r = publicKey b \<and> uniqueID r = uniqueID b"
proof -
  define ps where "ps = sort_key (\<lambda>p. chain_rank (fst p)) (zip (chains b) (digests b))"
  define r where "r = b\<lparr>chains := map fst ps, digests := map snd ps\<rparr>"
  have len: "length (chains b) = length (digests b)" by (simp add: assms)
  then have s: "sort_chains b = Some r"
    by (simp add: sort_chains_def swaps_beyond_def r_def ps_def Let_def)
  have "mset (map fst ps) = mset (map fst (zip (chains b) (digests b)))"
    by (simp only: ps_def mset_map mset_sort)
  then have "mset (chains r) = mset (chains b)" by (simp add: r_def len)
  moreover have "sorted (map chain_rank (chains r))"
    using sorted_sort_key [of "\<lambda>p. chain_rank (fst p)" "zip (chains b) (digests b)"] by (simp add: r_def comp_def flip: ps_def)
  moreover have "snd p = f (fst p)" if "p \<in> set ps" for p
    using that by (auto simp: ps_def assms in_set_zip)
  then have "digests r = map f (chains r)" by (simp add: r_def)
  ultimately show ?thesis using s by (simp add: r_def)
qed

definition nameless_of :: "'k crypto \<Rightarrow> 'k \<Rightarrow> byte list \<Rightarrow> 'k Blessings" where
  "nameless_of cr pk kb =
     (let cert = \<lparr>Extension = [], certPublicKey = kb, Caveats = [], certSignature = zero_Signature\<rparr>
      in blessings_init cr \<lparr>chains = [[cert]], publicKey = Some pk,
           digests = [fst (chainedDigests cr (key_hash cr pk) cert [])], uniqueID = []\<rparr>)"

definition nameless_ok :: "'k crypto \<Rightarrow> 'k Blessings \<Rightarrow> bool" where
  "nameless_ok cr b \<longleftrightarrow> (\<exists>pk kb. parse_key cr kb = Some pk \<and> b = nameless_of cr pk kb)"

definition blessings_inv :: "'k crypto \<Rightarrow> 'k Blessings \<Rightarrow> bool" where
  "blessings_inv cr b \<longleftrightarrow> b = zero_Blessings \<or> nameless_ok cr b \<or> blessings_ok cr b"

lemma nameless_facts:
  assumes "nameless_ok cr b"
  shows "isNamelessBlessing b" "\<exists>pk. publicKey b = Some pk \<and> parse_key cr (publicKeyDER b) = Some pk"
  using assms
  by (auto simp: nameless_ok_def nameless_of_def Let_def isNamelessBlessing_def isNamelessChains_def publicKeyDER_def)

lemma ok_facts:
  assumes "blessings_ok cr b"
  shows "\<exists>pk. publicKey b = Some pk \<and> parse_key cr (publicKeyDER b) = Some pk"
  using assms by (auto simp: blessings_ok_def)

lemma zero_facts [simp]: "b_IsZero zero_Blessings" "chains zero_Blessings = []"
  by (simp_all add: b_IsZero_def zero_Blessings_def)

lemma inv_cases:
  assumes "blessings_inv cr b"
  obtains "b = zero_Blessings" | "nameless_ok cr b" "isNamelessBlessing b" | "blessings_ok cr b"
  using assms nameless_facts unfolding blessings_inv_def by blast

lemma named_of_ok:
  "list_all (blessings_inv cr) bs \<Longrightarrow> b \<in> set (named_of bs) \<Longrightarrow> blessings_ok cr b"
  by (auto simp: named_of_def list_all_iff blessings_inv_def dest: nameless_facts(1))

lemma ok_inv: "blessings_ok cr b \<Longrightarrow> blessings_inv cr b"
  by (simp add: blessings_inv_def)

lemma dropWhile_named_of: "named_of (dropWhile b_IsZero bs) = named_of bs"
  by (induction bs) (simp_all add: named_of_def)

lemma first_key:
  assumes "dropWhile b_IsZero bs = b # cs" "list_all (blessings_inv cr) bs"
  shows "\<exists>pk. publicKey b = Some pk \<and> parse_key cr (publicKeyDER b) = Some pk"
proof -
  have "\<not> b_IsZero b" using assms(1) by (metis hd_dropWhile list.distinct(1) list.sel(1))
  moreover have "b \<in> set bs" using assms(1) by (metis list.set_intros(1) set_dropWhileD)
  then have "blessings_inv cr b" using assms(2) by (simp add: list_all_iff)
  ultimately show ?thesis by (auto simp: blessings_inv_def dest: nameless_facts(2) ok_facts)
qed

text \<open>The two cases of a union of at least two blessings, the first of them not zero.\<close>

lemma union_two:
  assumes "dropWhile b_IsZero bs = b # c # cs" "list_all (blessings_inv cr) bs"
    "list_all (\<lambda>d. publicKeyDER d = publicKeyDER b) (named_of bs)"
  shows "UnionOfBlessings cr bs =
    (if named_of bs = [] then Inr b
     else case sort_chains \<lparr>chains = concat (map chains (named_of bs)), publicKey = publicKey b,
            digests = concat (map digests (named_of bs)), uniqueID = []\<rparr> of
         None \<Rightarrow> Inl SwapPanic
       | Some ret \<Rightarrow> Inr (blessings_init cr ret))"
proof -
  have nm: "named_of (b # c # cs) = named_of bs" by (metis assms(1) dropWhile_named_of)
  obtain pk where pk: "publicKey b = Some pk" "parse_key cr (publicKeyDER b) = Some pk"
    using first_key [OF assms(1,2)] by blast
  then have nz: "\<not> b_IsZero b" by (simp add: b_IsZero_def)
  have "set (named_of (c # cs)) \<subseteq> set (named_of (b # c # cs))" by (auto simp: named_of_def)
  then have "set (named_of (c # cs)) \<subseteq> set (named_of bs)" by (simp only: nm)
  then have "\<not> isl (union_loop (publicKeyDER b) 0 (b # c # cs) (isNamelessBlessing b) zero_Blessings)"
    using union_loop_first [of b "c # cs"] assms(3) by (auto simp: list_all_iff)
  then obtain o' ret where u: "union_loop (publicKeyDER b) 0 (b # c # cs) (isNamelessBlessing b) zero_Blessings = Inr (o', ret)"
    by (cases "union_loop (publicKeyDER b) 0 (b # c # cs) (isNamelessBlessing b) zero_Blessings") fastforce+
  note col = union_loop_collects [OF u, unfolded nm]
  have "isNamelessBlessing b" if "named_of (b # c # cs) = []"
    using that nz by (auto simp: named_of_def split: if_splits)
  then have o': "o' \<longleftrightarrow> named_of bs = []" using col nm by auto
  have ret: "ret\<lparr>publicKey := publicKey b\<rparr> = \<lparr>chains = concat (map chains (named_of bs)), publicKey = publicKey b,
            digests = concat (map digests (named_of bs)), uniqueID = []\<rparr>"
    using col by (cases ret) (simp add: zero_Blessings_def)
  show ?thesis
    unfolding UnionOfBlessings_def assms(1) Let_def
    using pk u ret by (auto simp: o' split: option.splits simp del: union_loop.simps)
qed

lemma named_digests:
  "list_all (blessings_inv cr) bs \<Longrightarrow>
    concat (map digests (named_of bs)) = map (chain_digest cr) (concat (map chains (named_of bs)))"
proof -
  assume "list_all (blessings_inv cr) bs"
  then have "map digests (named_of bs) = map (\<lambda>b. map (chain_digest cr) (chains b)) (named_of bs)"
    using named_of_ok by (auto simp: blessings_ok_def)
  then show ?thesis by (simp only: map_concat map_map comp_def)
qed

lemma union_total:
  assumes "dropWhile b_IsZero bs = b # c # cs" "list_all (blessings_inv cr) bs"
    "list_all (\<lambda>d. publicKeyDER d = publicKeyDER b) (named_of bs)" "named_of bs \<noteq> []"
  shows "\<exists>u. UnionOfBlessings cr bs = Inr u"
  using union_two [OF assms(1-3)] assms(4)
    sort_chains_facts [of "\<lparr>chains = concat (map chains (named_of bs)), publicKey = publicKey b,
      digests = concat (map digests (named_of bs)), uniqueID = []\<rparr>" "chain_digest cr"]
  by (auto simp: named_digests [OF assms(2)])

lemma union_two_ok:
  assumes "dropWhile b_IsZero bs = b # c # cs" "list_all (blessings_inv cr) bs"
    "list_all (\<lambda>d. publicKeyDER d = publicKeyDER b) (named_of bs)" "named_of bs \<noteq> []"
    "UnionOfBlessings cr bs = Inr u"
  shows "blessings_ok cr u" "mset (chains u) = mset (concat (map chains (named_of bs)))"
    "sorted (map chain_rank (chains u))" "publicKeyDER u = publicKeyDER b"
proof -
  define r where "r = \<lparr>chains = concat (map chains (named_of bs)), publicKey = publicKey b,
            digests = concat (map digests (named_of bs)), uniqueID = []\<rparr>"
  have "digests r = map (chain_digest cr) (chains r)" by (simp add: r_def named_digests [OF assms(2)])
  then obtain r' where r': "sort_chains r = Some r'" and s: "mset (chains r') = mset (chains r)"
    "sorted (map chain_rank (chains r'))" "digests r' = map (chain_digest cr) (chains r')"
    "publicKey r' = publicKey b" "uniqueID r' = []"
    using sort_chains_facts [of r] by (auto simp: r_def)
  have u: "u = blessings_init cr r'" using union_two [OF assms(1-3)] assms(4,5) r' by (simp add: r_def)
  show m: "mset (chains u) = mset (concat (map chains (named_of bs)))" using s(1) by (simp add: u r_def)
  show "sorted (map chain_rank (chains u))" using s(2) by (simp add: u)
  have members: "chain_valid cr x" "certPublicKey (last x) = publicKeyDER b" if "x \<in> set (chains u)" for x
  proof -
    have "set (chains u) = set (concat (map chains (named_of bs)))" by (rule mset_eq_setD [OF m])
    with that obtain d where d: "d \<in> set (named_of bs)" "x \<in> set (chains d)" by auto
    have "publicKeyDER d = publicKeyDER b" using assms(3) d(1) by (simp add: list_all_iff)
    with named_of_ok [OF assms(2) d(1)] d(2) show "chain_valid cr x" "certPublicKey (last x) = publicKeyDER b"
      by (auto simp: blessings_ok_def list_all_iff)
  qed
  obtain d where d: "d \<in> set (named_of bs)" using assms(4) by (cases "named_of bs") auto
  then have "chains d \<noteq> []" using named_of_ok [OF assms(2) d] by (simp add: blessings_ok_def)
  then have "concat (map chains (named_of bs)) \<noteq> []" using d by auto
  then have ne: "chains u \<noteq> []" using m by (metis mset_zero_iff)
  obtain pk where pk: "publicKey b = Some pk" "parse_key cr (publicKeyDER b) = Some pk"
    using first_key [OF assms(1,2)] by blast
  have su: "r' = \<lparr>chains = chains u, publicKey = Some pk, digests = digests u, uniqueID = []\<rparr>"
    using s(4,5) pk(1) by (cases r') (simp add: u)
  have "digests u = map (chain_digest cr) (chains u)" using s(3) by (simp add: u)
  from blessings_okI [OF ne members pk(2) this] show "blessings_ok cr u" by (metis su u)
  show "publicKeyDER u = publicKeyDER b" using ne members(2) by (simp add: publicKeyDER_def)
qed

lemma union_error:
  assumes "dropWhile b_IsZero bs = b # c # cs" "\<not> list_all (\<lambda>d. publicKeyDER d = publicKeyDER b) (named_of bs)"
  shows "UnionOfBlessings cr bs = Inl InvalidUnion"
proof -
  have nm: "named_of (b # c # cs) = named_of bs" by (metis assms(1) dropWhile_named_of)
  have "set (named_of (b # c # cs)) \<subseteq> insert b (set (named_of (c # cs)))" by (auto simp: named_of_def)
  then have "set (named_of bs) \<subseteq> insert b (set (named_of (c # cs)))" by (simp only: nm)
  then have "isl (union_loop (publicKeyDER b) 0 (b # c # cs) (isNamelessBlessing b) zero_Blessings)"
    using union_loop_first [of b "c # cs"] assms(2) by (auto simp: list_all_iff)
  then obtain e where "union_loop (publicKeyDER b) 0 (b # c # cs) (isNamelessBlessing b) zero_Blessings = Inl e"
    by (auto simp: isl_def)
  with union_loop_error [OF this] show ?thesis
    unfolding UnionOfBlessings_def assms(1) Let_def by simp
qed

lemma union_inv:
  assumes "list_all (blessings_inv cr) bs" "UnionOfBlessings cr bs = Inr u"
  shows "blessings_inv cr u"
proof (cases "dropWhile b_IsZero bs")
  case Nil
  with assms(2) show ?thesis by (simp add: UnionOfBlessings_def blessings_inv_def)
next
  case (Cons b cs)
  have "b \<in> set bs" using Cons by (metis list.set_intros(1) set_dropWhileD)
  then have b: "blessings_inv cr b" using assms(1) by (simp add: list_all_iff)
  show ?thesis
  proof (cases cs)
    case Nil
    with Cons assms(2) b show ?thesis by (simp add: UnionOfBlessings_def)
  next
    case (Cons c ds)
    note d = \<open>dropWhile b_IsZero bs = b # cs\<close> [unfolded Cons]
    have keys: "list_all (\<lambda>d. publicKeyDER d = publicKeyDER b) (named_of bs)"
      using union_error [OF d, of cr] assms(2) by auto
    show ?thesis
    proof (cases "named_of bs = []")
      case True
      with union_two [OF d assms(1) keys] assms(2) b show ?thesis by simp
    next
      case False
      from union_two_ok(1) [OF d assms(1) keys False assms(2)] show ?thesis by (rule ok_inv)
    qed
  qed
qed

text \<open>The three outcomes of a union of two or more.\<close>

lemma union_many:
  assumes "dropWhile b_IsZero bs = b # c # ds" "list_all (blessings_inv cr) bs"
  shows "UnionOfBlessings cr bs = Inl InvalidUnion \<and> (\<exists>c \<in> set (named_of bs). publicKeyDER c \<noteq> publicKeyDER b) \<or>
    UnionOfBlessings cr bs = Inr b \<and> named_of bs = [] \<and> isNamelessBlessing b \<or>
    (\<exists>u. UnionOfBlessings cr bs = Inr u \<and> named_of bs \<noteq> [] \<and>
       mset (chains u) = mset (concat (map chains (named_of bs))) \<and>
       list_all (\<lambda>c. publicKeyDER c = publicKeyDER u) (named_of bs) \<and> sorted (map chain_rank (chains u)))"
proof (cases "list_all (\<lambda>d. publicKeyDER d = publicKeyDER b) (named_of bs)")
  case False
  with union_error [OF assms(1) False, of cr] show ?thesis by (auto simp: list_all_iff)
next
  case keys: True
  show ?thesis
  proof (cases "named_of bs = []")
    case True
    have nm: "named_of (b # c # ds) = named_of bs" by (metis assms(1) dropWhile_named_of)
    obtain pk where "publicKey b = Some pk" using first_key [OF assms] by blast
    then have "isNamelessBlessing b" using True nm by (simp add: named_of_def b_IsZero_def split: if_splits)
    then show ?thesis using union_two [OF assms keys] True by simp
  next
    case False
    then obtain u where u: "UnionOfBlessings cr bs = Inr u" using union_total [OF assms keys] by blast
    from union_two_ok [OF assms keys False u] u False keys show ?thesis by simp
  qed
qed

subsection \<open>Every Blessings object the package makes\<close>

lemma root_blessing_ok: "chain_valid cr chain \<Longrightarrow> blessings_ok cr (root_blessing cr chain)"
proof -
  assume v: "chain_valid cr chain"
  then obtain c cs where c: "chain = c # cs" by (cases chain) (simp_all add: chain_valid_def)
  have v1: "chain_valid cr [c]" using chain_valid_take [OF v, of 1] by (simp add: c)
  then obtain pk where "parse_key cr (certPublicKey c) = Some pk"
    by (auto simp: chain_valid_def check_cert_def Let_def split: if_splits option.splits)
  then show ?thesis
    using blessings_okI [of "[[c]]" cr "certPublicKey c" pk "[chain_digest cr [c]]" "[]"] v1
    by (simp add: root_blessing_def c Let_def chain_digest_def)
qed

lemma NamelessBlessing_inv: "keys_ok cr \<Longrightarrow> NamelessBlessing cr pk = Inr b \<Longrightarrow> nameless_ok cr b"
  by (auto simp: NamelessBlessing_def nameless_ok_def nameless_of_def Let_def keys_ok_def split: option.splits)

lemma nameless_chains: "isNamelessChains cs \<Longrightarrow>
    \<exists>kb. cs = [[\<lparr>Extension = [], certPublicKey = kb, Caveats = [], certSignature = zero_Signature\<rparr>]]"
  by (auto simp: isNamelessChains_def split: list.splits)
    (metis (full_types) Certificate.surjective old.unit.exhaust)

lemma wire_nameless_inv:
  assumes "isNamelessChains cs" "fst (WireBlessingsToNative order cr s cs native) = Inr b"
  shows "nameless_ok cr b"
proof -
  obtain kb where kb: "cs = [[\<lparr>Extension = [], certPublicKey = kb, Caveats = [], certSignature = zero_Signature\<rparr>]]"
    using nameless_chains [OF assms(1)] by blast
  with assms obtain pk where "parse_key cr kb = Some pk" "b = nameless_of cr pk kb"
    by (auto simp: WireBlessingsToNative_def Let_def nameless_of_def isNamelessChains_def split: option.splits)
  then show ?thesis unfolding nameless_ok_def by blast
qed

lemma wire_roundtrip_nameless:
  assumes "nameless_ok cr b"
  shows "fst (WireBlessingsToNative order cr s (MarshalBlessings b) zero_Blessings) = Inr b"
  using assms
  by (auto simp: nameless_ok_def nameless_of_def WireBlessingsToNative_def MarshalBlessings_def isNamelessChains_def Let_def)

inductive made :: "'k crypto \<Rightarrow> 'k Blessings \<Rightarrow> bool" for cr where
  self: "signer_ok cr sg \<Longrightarrow> BlessSelf cr sg name caveats = Inr b \<Longrightarrow> made cr b"
| bless: "made cr w \<Longrightarrow> signer_ok cr sg \<Longrightarrow> Bless cr sg key w extension caveat caveats = Inr b \<Longrightarrow> made cr b"
| nameless: "NamelessBlessing cr pk = Inr b \<Longrightarrow> made cr b"
| wire: "cache_reachable cr U s \<Longrightarrow> distinct_keys cr U \<Longrightarrow> set cs \<subseteq> U \<Longrightarrow>
    fst (WireBlessingsToNative order cr s cs zero_Blessings) = Inr b \<Longrightarrow> made cr b"
| union: "(\<And>b. b \<in> set bs \<Longrightarrow> made cr b) \<Longrightarrow> UnionOfBlessings cr bs = Inr u \<Longrightarrow> made cr u"
| root: "made cr b \<Longrightarrow> r \<in> set (RootBlessings cr b) \<Longrightarrow> made cr r"

lemma Bless_needs_ok: "Bless cr sg key w e c cs = Inr b \<Longrightarrow> blessings_inv cr w \<Longrightarrow> blessings_ok cr w"
  by (auto simp: Bless_def blessings_inv_def dest: nameless_facts(1) split: if_splits)

lemma root_inv: "blessings_inv cr b \<Longrightarrow> r \<in> set (RootBlessings cr b) \<Longrightarrow> blessings_ok cr r"
proof -
  assume inv: "blessings_inv cr b" and r: "r \<in> set (RootBlessings cr b)"
  then obtain chain where c: "chain \<in> set (chains b)" "r = root_blessing cr chain" "\<not> isNamelessBlessing b"
    by (auto simp: RootBlessings_def split: if_splits)
  then have "blessings_ok cr b" using inv by (auto elim!: inv_cases)
  then have "chain_valid cr chain" using c(1) by (simp add: blessings_ok_def list_all_iff)
  then show ?thesis using c(2) root_blessing_ok by simp
qed

lemma wire_inv:
  assumes "cache_reachable cr U s" "distinct_keys cr U" "set cs \<subseteq> U"
    "fst (WireBlessingsToNative order cr s cs zero_Blessings) = Inr b"
  shows "blessings_inv cr b"
proof -
  consider "cs = []" | "isNamelessChains cs" | "cs \<noteq> []" "\<not> isNamelessChains cs" by blast
  then show ?thesis
  proof cases
    case 1
    with assms(4) show ?thesis by (simp add: WireBlessingsToNative_def blessings_inv_def)
  next
    case 2
    then show ?thesis using wire_nameless_inv assms(4) unfolding blessings_inv_def by blast
  next
    case 3
    with WireBlessingsToNative_sound [OF reachable_sound [OF assms(1,2)] assms(2,3)] assms(4)
    show ?thesis by (auto intro: ok_inv)
  qed
qed

lemma made_inv: "made cr b \<Longrightarrow> keys_ok cr \<Longrightarrow> blessings_inv cr b"
proof (induction rule: made.induct)
  case (self sg name caveats b)
  then show ?case using BlessSelf_facts(1) ok_inv by blast
next
  case (bless w sg key extension caveat caveats b)
  have "blessings_ok cr w" by (rule Bless_needs_ok [OF bless.hyps(3) bless.IH [OF bless.prems]])
  from Bless_facts(1) [OF bless.prems bless.hyps(2) this bless.hyps(3)] show ?case by (rule ok_inv)
next
  case (nameless pk b)
  then show ?case by (simp add: NamelessBlessing_inv blessings_inv_def)
next
  case (wire U s cs order b)
  then show ?case by (blast intro: wire_inv)
next
  case (union bs u)
  then have "list_all (blessings_inv cr) bs" by (simp add: list_all_iff)
  then show ?case using union_inv union.hyps(2) by blast
next
  case (root b r)
  then show ?case using root_inv ok_inv by blast
qed

subsection \<open>When blessing succeeds\<close>

definition always_signs :: "'k crypto \<Rightarrow> 'k signer \<Rightarrow> bool" where
  "always_signs cr sg \<longleftrightarrow> marshal_key cr (signer_key sg) \<noteq> None \<and> (\<forall>m. signer_sign sg m \<noteq> None)"

lemma signer_Sign_total: "always_signs cr sg \<Longrightarrow> signer_Sign cr sg purpose message \<noteq> None"
proof -
  assume a: "always_signs cr sg"
  obtain k where k: "marshal_key cr (signer_key sg) = Some k" using a by (auto simp: always_signs_def)
  let ?h = "key_hash cr (signer_key sg)"
  obtain x y z w where "hash_sum cr ?h k = Some x" "hash_sum cr ?h message = Some y" "hash_sum cr ?h purpose = Some z"
    "hash_sum cr ?h (x @ y @ z) = Some w"
    using key_hash_known by (metis option.exhaust)
  then have "messageDigest cr ?h purpose message (signer_key sg) = Some w" using k by (simp add: messageDigest_def)
  moreover obtain p where "signer_sign sg w = Some p" using a unfolding always_signs_def by blast
  ultimately show ?thesis by (cases p) (simp add: signer_Sign_def Let_def)
qed

lemma chainCertificate_total: "always_signs cr sg \<Longrightarrow> \<exists>r. chainCertificate cr sg chain cert = Inr r"
  by (auto simp: chainCertificate_def Let_def signer_Sign_total split: prod.splits option.splits)

lemma chain_all_total: "always_signs cr sg \<Longrightarrow> \<exists>rs. chain_all cr sg cert cs = Inr rs"
proof (induction cs)
  case (Cons c cs)
  then obtain rs where "chain_all cr sg cert cs = Inr rs" by blast
  moreover obtain r where "chainCertificate cr sg c cert = Inr r" using chainCertificate_total [OF Cons.prems] by blast
  ultimately show ?case by (simp add: and_then_def)
qed simp

lemma newUnsignedCertificate_iff:
  "(\<exists>cert. newUnsignedCertificate cr extension key caveats = Inr cert) \<longleftrightarrow>
     validateExtension extension = None \<and> marshal_key cr key \<noteq> None"
  by (auto simp: newUnsignedCertificate_def split: option.splits)

lemma Bless_succeeds:
  assumes "always_signs cr sg" "blessings_ok cr with0"
  shows "(\<exists>b. Bless cr sg key with0 extension caveat cavs = Inr b) \<longleftrightarrow>
    publicKey with0 = Some (signer_key sg) \<and> validateExtension extension = None \<and> marshal_key cr key \<noteq> None"
proof -
  have "(\<exists>b. Bless cr sg key with0 extension caveat cavs = Inr b) \<longleftrightarrow> publicKey with0 = Some (signer_key sg) \<and>
      (\<exists>cert. newUnsignedCertificate cr extension key (cavs @ [caveat]) = Inr cert)"
  proof (cases "newUnsignedCertificate cr extension key (cavs @ [caveat])")
    case (Inr cert)
    with ok_not_zero [OF assms(2)] ok_named [OF assms(2)] chain_all_total [OF assms(1), of cert "chains with0"]
    show ?thesis by (auto simp: Bless_def)
  qed (simp add: Bless_def)
  then show ?thesis by (simp only: newUnsignedCertificate_iff)
qed

subsection \<open>Validation of the remote end\<close>

definition chain_recognized :: "(byte list \<Rightarrow> string \<Rightarrow> 'e option) \<Rightarrow> Certificate list \<Rightarrow> bool" where
  "chain_recognized recognized chain \<longleftrightarrow> recognized (certPublicKey (hd chain)) (claimedName chain) = None"

definition chain_accepted ::
  "(byte list \<Rightarrow> string \<Rightarrow> 'e option) \<Rightarrow> (Caveat \<Rightarrow> 'e option) \<Rightarrow> Certificate list \<Rightarrow> bool" where
  "chain_accepted recognized Validate chain \<longleftrightarrow>
     chain_recognized recognized chain \<and> list_all (\<lambda>cav. Validate cav = None) (chainCaveats chain)"

lemma first_error_None: "first_error f xs = None \<longleftrightarrow> list_all (\<lambda>x. f x = None) xs"
  by (induction xs) (auto split: option.splits)

lemma first_error_Some: "first_error f xs = Some e \<Longrightarrow> \<exists>x \<in> set xs. f x = Some e"
  by (induction xs) (auto split: option.splits)

lemma remote_loop_spec:
  "remote_loop recognized cs (v, r, p) =
     (v @ map claimedName (filter (\<lambda>c. chain_recognized recognized c \<and> chainCaveats c = []) cs),
      r @ map (\<lambda>c. (claimedName c, the (recognized (certPublicKey (hd c)) (claimedName c))))
            (filter (\<lambda>c. \<not> chain_recognized recognized c) cs),
      p @ map (\<lambda>c. (claimedName c, chainCaveats c))
            (filter (\<lambda>c. chain_recognized recognized c \<and> chainCaveats c \<noteq> []) cs))"
  by (induction cs arbitrary: v r p) (auto simp: chain_recognized_def Let_def split: option.splits)

lemma remote_results_spec:
  "remote_results rs (v, r) =
     (v @ map fst (filter (\<lambda>x. snd x = None) rs),
      r @ map (\<lambda>x. (fst x, the (snd x))) (filter (\<lambda>x. snd x \<noteq> None) rs))"
proof (induction rs arbitrary: v r)
  case (Cons x rs)
  then show ?case by (cases x; cases "snd x") auto
qed simp

text \<open>The answer with the default validation of caveats.\<close>

lemma remote_default:
  assumes "\<not> b_IsZero b" "\<not> isNamelessBlessing b"
  shows "RemoteBlessingNames recognized (defaultCaveatValidation Validate) b =
    (let P = filter (\<lambda>c. chain_recognized recognized c \<and> chainCaveats c \<noteq> []) (chains b) in
     Some (map claimedName (filter (\<lambda>c. chain_recognized recognized c \<and> chainCaveats c = []) (chains b)) @
           map claimedName (filter (\<lambda>c. first_error Validate (chainCaveats c) = None) P),
           map (\<lambda>c. (claimedName c, the (recognized (certPublicKey (hd c)) (claimedName c))))
             (filter (\<lambda>c. \<not> chain_recognized recognized c) (chains b)) @
           map (\<lambda>c. (claimedName c, the (first_error Validate (chainCaveats c))))
             (filter (\<lambda>c. first_error Validate (chainCaveats c) \<noteq> None) P)))"
proof -
  define P where "P = filter (\<lambda>c. chain_recognized recognized c \<and> chainCaveats c \<noteq> []) (chains b)"
  have z: "zip (map claimedName P) (map (\<lambda>c. first_error Validate (chainCaveats c)) P)
    = map (\<lambda>c. (claimedName c, first_error Validate (chainCaveats c))) P"
    by (simp add: zip_map_map zip_same_conv_map)
  show ?thesis
    using assms
    by (auto simp: RemoteBlessingNames_def remote_loop_spec Let_def z remote_results_spec filter_map comp_def
        defaultCaveatValidation_def simp flip: P_def)
qed

section \<open>Properties\<close>


definition sample_signer :: "byte list signer" where
  "sample_signer = \<lparr>signer_key = [1], signer_sign = (\<lambda>m. Some (1, 2))\<rparr>"

lemma sample_ok: "keys_ok sample_crypto" "signer_ok sample_crypto sample_signer" "always_signs sample_crypto sample_signer"
  by (simp_all add: keys_ok_def signer_ok_def always_signs_def sample_crypto_def sample_signer_def)

definition sample_blessings :: "byte list Blessings" where
  "sample_blessings = projr (BlessSelf sample_crypto sample_signer ''alice'' [])"

lemma sample_self: "BlessSelf sample_crypto sample_signer ''alice'' [] = Inr sample_blessings"
proof -
  have "\<not> isl (BlessSelf sample_crypto sample_signer ''alice'' [])" by code_simp
  then show ?thesis by (simp add: sample_blessings_def)
qed

lemma sample_made: "made sample_crypto sample_blessings"
  by (rule made.self [OF sample_ok(2) sample_self])


text \<open>C14: Bless extends every name of the blessings it is given by the extension and every chain's caveats by
  the new ones, for the new key, and keeps the chains valid. With a signer that does not fail it succeeds
  exactly when the signer holds the key of the given blessings, the extension is valid and the new key can
  be encoded.\<close>

theorem Bless_extends:
  assumes "keys_ok cr" "signer_ok cr sg" "made cr with0" "\<not> b_IsZero with0" "\<not> isNamelessBlessing with0"
  shows "(Bless cr sg key with0 extension caveat cavs = Inr b \<longrightarrow>
      made cr b \<and> publicKey b = Some key \<and>
      map claimedName (chains b) = map (\<lambda>c. claimedName c @ ChainSeparator @ extension) (chains with0) \<and>
      map chainCaveats (chains b) = map (\<lambda>c. chainCaveats c @ cavs @ [caveat]) (chains with0)) \<and>
    (always_signs cr sg \<longrightarrow>
      ((\<exists>b. Bless cr sg key with0 extension caveat cavs = Inr b) \<longleftrightarrow>
        publicKey with0 = Some (signer_key sg) \<and> validateExtension extension = None \<and> marshal_key cr key \<noteq> None))"
proof -
  have w: "blessings_ok cr with0"
    using made_inv [OF assms(3,1)] assms(4,5) by (auto elim!: inv_cases)
  have "map claimedName (chains b) = map (\<lambda>c. claimedName c @ ChainSeparator @ extension) (chains with0) \<and>
      map chainCaveats (chains b) = map (\<lambda>c. chainCaveats c @ cavs @ [caveat]) (chains with0)"
    if "Bless cr sg key with0 extension caveat cavs = Inr b"
  proof -
    have ne: "c \<noteq> []" if "c \<in> set (chains with0)" for c
      using w that by (auto simp: blessings_ok_def list_all_iff chain_valid_def)
    have "list_all2 (\<lambda>c c'. claimedName c' = claimedName c @ ChainSeparator @ extension \<and>
        chainCaveats c' = chainCaveats c @ cavs @ [caveat]) (chains with0) (chains b)"
      by (rule list.rel_mono_strong [OF Bless_facts(3) [OF assms(1,2) w that]])
        (auto simp: claimedName_snoc ne chainCaveats_append, simp add: chainCaveats_def)
    then show ?thesis by (auto simp: list_all2_conv_all_nth intro: nth_equalityI)
  qed
  then show ?thesis
    using Bless_facts(2) [OF assms(1,2) w] made.bless [OF assms(3,2)] Bless_succeeds [OF _ w] by blast
qed

lemma sample_named: "\<not> b_IsZero sample_blessings" "\<not> isNamelessBlessing sample_blessings"
  "publicKey sample_blessings = Some (signer_key sample_signer)" "map claimedName (chains sample_blessings) = [''alice'']"
  "validateExtension ''friend'' = None" "marshal_key sample_crypto [2] \<noteq> None"
  by code_simp+

definition sample_caveat :: Caveat where
  "sample_caveat = \<lparr>cavId = [], ParamVom = []\<rparr>"

theorem Bless_extends_witness:
  "\<exists>b. Bless sample_crypto sample_signer [2] sample_blessings ''friend'' sample_caveat [] = Inr b \<and>
     map claimedName (chains b) = [''alice:friend'']"
proof -
  note bless = Bless_extends [OF sample_ok(1,2) sample_made sample_named(1,2)]
  obtain b where b: "Bless sample_crypto sample_signer [2] sample_blessings ''friend'' sample_caveat [] = Inr b"
    using bless [of "[2]" "''friend''" sample_caveat "[]"] sample_named(3,5,6) sample_ok(3) by blast
  have "map claimedName (chains b) = map (\<lambda>n. n @ ChainSeparator @ ''friend'') (map claimedName (chains sample_blessings))"
    using bless [of "[2]" "''friend''" sample_caveat "[]" b] b by (simp add: comp_def)
  with b show ?thesis by (simp add: sample_named(4) ChainSeparator_def)
qed

text \<open>C15: RemoteBlessingNames with the default validation of caveats puts the name of every chain exactly
  once into the validated or the rejected names; a name is validated exactly when one of its chains has a
  recognized root and all of its caveats are satisfied, and each rejection carries the error of the roots or
  of a caveat of the chain. Zero and nameless blessings have no names.\<close>

theorem RemoteBlessingNames_partition:
  "\<exists>v r. RemoteBlessingNames recognized (defaultCaveatValidation Validate) b = Some (v, r) \<and>
    (if b_IsZero b \<or> isNamelessBlessing b then v = [] \<and> r = []
     else mset (v @ map fst r) = mset (map claimedName (chains b)) \<and>
       set v = claimedName ` {c \<in> set (chains b). recognized (certPublicKey (hd c)) (claimedName c) = None \<and>
                              list_all (\<lambda>cav. Validate cav = None) (chainCaveats c)} \<and>
       list_all (\<lambda>(n, e). \<exists>c. c \<in> set (chains b) \<and> n = claimedName c \<and>
         (recognized (certPublicKey (hd c)) n = Some e \<or> (\<exists>cav. cav \<in> set (chainCaveats c) \<and> Validate cav = Some e))) r)"
proof (cases "b_IsZero b \<or> isNamelessBlessing b")
  case True
  then show ?thesis by (auto simp: RemoteBlessingNames_def)
next
  case False
  define R where "R = chain_recognized recognized"
  define E where "E = (\<lambda>c. first_error Validate (chainCaveats c))"
  define P where "P = filter (\<lambda>c. R c \<and> chainCaveats c \<noteq> []) (chains b)"
  define v where "v = map claimedName (filter (\<lambda>c. R c \<and> chainCaveats c = []) (chains b)) @
      map claimedName (filter (\<lambda>c. E c = None) P)"
  define r where "r = map (\<lambda>c. (claimedName c, the (recognized (certPublicKey (hd c)) (claimedName c))))
        (filter (\<lambda>c. \<not> R c) (chains b)) @ map (\<lambda>c. (claimedName c, the (E c))) (filter (\<lambda>c. E c \<noteq> None) P)"
  have eq: "RemoteBlessingNames recognized (defaultCaveatValidation Validate) b = Some (v, r)"
    using remote_default [of b recognized Validate] False by (simp add: v_def r_def P_def R_def E_def Let_def)
  have "mset (map claimedName (filter (\<lambda>c. R c \<and> chainCaveats c = []) cs) @
      map claimedName (filter (\<lambda>c. R c \<and> chainCaveats c \<noteq> [] \<and> E c = None) cs) @
      map claimedName (filter (\<lambda>c. \<not> R c) cs) @ map claimedName (filter (\<lambda>c. R c \<and> chainCaveats c \<noteq> [] \<and> E c \<noteq> None) cs))
    = mset (map claimedName cs)" for cs
    by (induction cs) auto
  then have "mset (v @ map fst r) = mset (map claimedName (chains b))"
    by (simp add: v_def r_def P_def comp_def conj_ac)
  moreover have "set v = claimedName ` {c \<in> set (chains b). recognized (certPublicKey (hd c)) (claimedName c) = None \<and>
      list_all (\<lambda>cav. Validate cav = None) (chainCaveats c)}"
    by (auto simp: v_def P_def R_def E_def chain_recognized_def first_error_None list_all_iff)
  moreover have "list_all (\<lambda>(n, e). \<exists>c. c \<in> set (chains b) \<and> n = claimedName c \<and>
      (recognized (certPublicKey (hd c)) n = Some e \<or> (\<exists>cav. cav \<in> set (chainCaveats c) \<and> Validate cav = Some e))) r"
    using first_error_Some [of Validate]
    by (auto simp: r_def P_def R_def E_def chain_recognized_def list_all_iff) blast+
  ultimately show ?thesis using eq False by simp
qed

text \<open>A union of blessings that the package made fails exactly for blessings of different keys; otherwise
  it is again a blessing of the package, with the chains of all named arguments, each as often as it
  occurs there. Of two or more arguments, the first not zero, the chains are in increasing order.\<close>

theorem UnionOfBlessings_correct:
  assumes "keys_ok cr" "list_all (made cr) bs"
  shows "case UnionOfBlessings cr bs of
      Inl e \<Rightarrow> e = InvalidUnion \<and>
        (\<exists>b c. b \<in> set bs \<and> \<not> b_IsZero b \<and> c \<in> set (named_of bs) \<and> publicKeyDER c \<noteq> publicKeyDER b)
    | Inr u \<Rightarrow> made cr u \<and>
        (if named_of bs = [] then u = zero_Blessings \<or> isNamelessBlessing u
         else mset (chains u) = mset (concat (map chains (named_of bs))) \<and>
           list_all (\<lambda>c. publicKeyDER c = publicKeyDER u) (named_of bs) \<and>
           (2 \<le> length (dropWhile b_IsZero bs) \<longrightarrow> sorted (map chain_rank (chains u))))"
proof -
  have inv: "list_all (blessings_inv cr) bs" using assms made_inv by (auto simp: list_all_iff)
  have made: "UnionOfBlessings cr bs = Inr u \<Longrightarrow> made cr u" for u
    using assms(2) by (auto simp: list_all_iff intro: made.union)
  have nm: "named_of (dropWhile b_IsZero bs) = named_of bs" by (rule dropWhile_named_of)
  show ?thesis
  proof (cases "dropWhile b_IsZero bs")
    case Nil
    then have u: "UnionOfBlessings cr bs = Inr zero_Blessings" unfolding UnionOfBlessings_def Nil by simp
    have "named_of bs = []" using nm Nil by (simp add: named_of_def)
    then show ?thesis using made [OF u] u by simp
  next
    case (Cons b cs)
    have b: "b \<in> set bs" "\<not> b_IsZero b"
      using Cons by (metis list.set_intros(1) set_dropWhileD) (metis Cons hd_dropWhile list.distinct(1) list.sel(1))
    show ?thesis
    proof (cases cs)
      case Nil
      have u: "UnionOfBlessings cr bs = Inr b" using Cons Nil by (simp add: UnionOfBlessings_def)
      have "named_of bs = (if isNamelessBlessing b then [] else [b])"
        using nm b(2) by (simp add: Cons Nil named_of_def split: if_splits)
      then show ?thesis using made [OF u] u Cons Nil by simp
    next
      case (Cons c ds)
      from union_many [OF \<open>dropWhile b_IsZero bs = b # cs\<close> [unfolded Cons] inv] b made
      show ?thesis by (fastforce simp: list_all_iff split: sum.splits if_splits)
    qed
  qed
qed

theorem UnionOfBlessings_correct_witness:
  "\<exists>u. UnionOfBlessings sample_crypto [sample_blessings, sample_blessings] = Inr u \<and>
     mset (chains u) = mset (chains sample_blessings @ chains sample_blessings)"
proof -
  have n: "named_of [sample_blessings, sample_blessings] = [sample_blessings, sample_blessings]"
    using sample_named by (simp add: named_of_def)
  show ?thesis
    using UnionOfBlessings_correct [OF sample_ok(1), of "[sample_blessings, sample_blessings]"] sample_made sample_named n
    by (auto split: sum.splits)
qed

lemma signing_fields:
  "digests (SigningBlessings signing b) = []" "uniqueID (SigningBlessings signing b) = []"
  by (simp_all add: SigningBlessings_def Let_def zero_Blessings_def)

text \<open>What SigningBlessings returns lacks digests and unique id: any two results are Equivalent, to each
  other and to the zero value, whatever their names; and UnionOfBlessings panics on two of them for the
  same key as soon as a chain of the second is less than one of the first.\<close>

theorem SigningBlessings_without_digests:
  assumes "x = SigningBlessings signing a" "y = SigningBlessings signing b"
    "\<not> b_IsZero x" "\<not> b_IsZero y" "\<not> isNamelessBlessing x" "\<not> isNamelessBlessing y"
    "publicKeyDER x = publicKeyDER y" "parse_key cr (publicKeyDER x) \<noteq> None"
    "c \<in> set (chains x)" "d \<in> set (chains y)" "chain_Less d c"
  shows "Equivalent x y \<and> Equivalent x zero_Blessings \<and> UnionOfBlessings cr [x, y] = Inl SwapPanic"
proof -
  have f: "digests x = []" "digests y = []" "uniqueID x = []" "uniqueID y = []"
    using signing_fields assms(1,2) by simp_all
  from assms(9) obtain i where i: "i < length (chains x)" "chains x ! i = c" by (auto simp: in_set_conv_nth)
  from assms(10) obtain j where j: "j < length (chains y)" "chains y ! j = d" by (auto simp: in_set_conv_nth)
  have "list_ex (\<lambda>j. list_ex (\<lambda>i. chain_Less ((chains x @ chains y) ! j) ((chains x @ chains y) ! i)) [0..<j])
      [0..<length (chains x) + length (chains y)]"
    unfolding list_ex_iff
    by (rule bexI [of _ "length (chains x) + j"]) (use i j assms(11) in \<open>auto intro!: bexI [of _ i] simp: nth_append\<close>)
  then have "swaps_beyond \<lparr>chains = chains x @ chains y, publicKey = k, digests = [], uniqueID = []\<rparr>" for k
    by (simp add: swaps_beyond_def)
  moreover have "UnionOfBlessings cr [x, y] =
      (case sort_chains \<lparr>chains = chains x @ chains y, publicKey = parse_key cr (publicKeyDER x), digests = [], uniqueID = []\<rparr> of
         None \<Rightarrow> Inl SwapPanic | Some ret \<Rightarrow> Inr (blessings_init cr ret))"
    using assms(3-8) f by (auto simp: UnionOfBlessings_def Let_def zero_Blessings_def split: option.splits)
  ultimately have "UnionOfBlessings cr [x, y] = Inl SwapPanic" by (simp add: sort_chains_def)
  then show ?thesis using f by (simp add: Equivalent_def zero_Blessings_def)
qed

definition sample_bob :: "byte list Blessings" where
  "sample_bob = projr (BlessSelf sample_crypto sample_signer ''bob'' [])"

lemma sample_signing:
  "\<not> b_IsZero (SigningBlessings (\<lambda>_. True) sample_bob)" "\<not> b_IsZero (SigningBlessings (\<lambda>_. True) sample_blessings)"
  "\<not> isNamelessBlessing (SigningBlessings (\<lambda>_. True) sample_bob)"
  "\<not> isNamelessBlessing (SigningBlessings (\<lambda>_. True) sample_blessings)"
  "publicKeyDER (SigningBlessings (\<lambda>_. True) sample_bob) = publicKeyDER (SigningBlessings (\<lambda>_. True) sample_blessings)"
  "chains (SigningBlessings (\<lambda>_. True) sample_bob) \<noteq> []" "chains (SigningBlessings (\<lambda>_. True) sample_blessings) \<noteq> []"
  "chain_Less (hd (chains (SigningBlessings (\<lambda>_. True) sample_blessings))) (hd (chains (SigningBlessings (\<lambda>_. True) sample_bob)))"
  by code_simp+

theorem SigningBlessings_without_digests_witness:
  "UnionOfBlessings sample_crypto
     [SigningBlessings (\<lambda>_. True) sample_bob, SigningBlessings (\<lambda>_. True) sample_blessings] = Inl SwapPanic"
proof -
  have "parse_key sample_crypto k \<noteq> None" for k by (simp add: sample_crypto_def)
  from SigningBlessings_without_digests [OF refl refl sample_signing(1-5) this hd_in_set [OF sample_signing(6)]
      hd_in_set [OF sample_signing(7)] sample_signing(8)]
  show ?thesis by blast
qed

lemma foldl_min_time_concat:
  "foldl (\<lambda>m chain. foldl (\<lambda>m cert. foldl (\<lambda>m cav. min_time m (e cav)) m (Caveats cert)) m chain) m cs
    = foldl min_time m (map e (concat (map chainCaveats cs)))"
proof -
  have inner: "foldl (\<lambda>m cert. foldl (\<lambda>m cav. min_time m (e cav)) m (Caveats cert)) m chain
      = foldl min_time m (map e (chainCaveats chain))" for m chain
    by (induction chain arbitrary: m) (simp_all add: chainCaveats_def foldl_map)
  show ?thesis unfolding inner by (induction cs arbitrary: m) simp_all
qed

definition earliest :: "int set \<Rightarrow> int option" where
  "earliest T = (if T = {} then None else Some (Min T))"

lemma min_time_earliest: "finite T \<Longrightarrow> min_time (earliest T) t = earliest (T \<union> {x. t = Some x})"
proof (cases t)
  case (Some x)
  assume fin: "finite T"
  have "T \<union> {y. t = Some y} = insert x T" using Some by auto
  then show ?thesis using fin Some by (cases "T = {}") (simp_all add: earliest_def min_time_def min_def not_less del: Min_gr_iff Min_less_iff Min_le_iff Min_ge_iff)
qed (simp add: min_time_def)

lemma foldl_min_time:
  "finite T \<Longrightarrow> foldl min_time (earliest T) ts = earliest (T \<union> {x. Some x \<in> set ts})"
proof (induction ts arbitrary: T)
  case (Cons t ts)
  have "finite {x. t = Some x}" by (cases t) simp_all
  with Cons.prems have fin: "finite (T \<union> {x. t = Some x})" by simp
  have "T \<union> {x. Some x \<in> set (t # ts)} = T \<union> {x. t = Some x} \<union> {x. Some x \<in> set ts}" by auto
  with Cons.IH [OF fin] Cons.prems show ?case by (simp only: foldl_Cons min_time_earliest)
qed simp

text \<open>Expiry is the earliest of the expiry times of all caveats in all chains, and the zero time when no
  caveat has one.\<close>

theorem Expiry_earliest:
  "b_Expiry expiryTime b =
     (let T = {t. Some t \<in> expiryTime ` set (concat (map chainCaveats (chains b)))}
      in if T = {} then None else Some (Min T))"
proof -
  have "b_Expiry expiryTime b = foldl min_time (earliest {}) (map expiryTime (concat (map chainCaveats (chains b))))"
    by (simp add: b_Expiry_def foldl_min_time_concat earliest_def)
  then show ?thesis
    by (simp only: foldl_min_time finite.emptyI) (simp add: earliest_def Let_def image_iff)
qed

end
