(* ===== verification/SecurityAccess.thy ===== *)
theory SecurityAccess
  imports SecurityBlessings
begin

text \<open>
  Authorization: access lists and permissions of security/access/acl.go, the authorizers of
  security/access/authorizer.go and security/authorizer.go, and the call they are asked about
  (security/call.go).

  A call carries the blessings of both ends, the roots of the local principal, and the validation of
  caveats; the names on which an authorizer decides are computed by \<open>RemoteBlessingNames\<close> and
  \<open>BlessingNames\<close>. An authorizer returns \<open>None\<close> when \<open>RemoteBlessingNames\<close> panics, and otherwise an error or
  \<open>None\<close> for access. Permissions are a map from tags to access lists. The access-list proofs rest on a
  locale with the one law of pattern matching they need, that a list of names is matched when the
  pattern accepts everything or one of the names.
\<close>

record method_tag =
  tag_type :: string
  tag_raw :: string

record ('k, 'e) Call =
  call_recognized :: "byte list \<Rightarrow> string \<Rightarrow> 'e option"
  call_validation :: "Caveat list list \<Rightarrow> 'e option list"
  call_local_key :: 'k
  LocalBlessings :: "'k Blessings"
  RemoteBlessings :: "'k Blessings"
  MethodTags :: "method_tag list"
  endpoint_names :: "string list"

definition call_remote_names :: "('k, 'e) Call \<Rightarrow> (string list \<times> (string \<times> 'e) list) option" where
  "call_remote_names call = RemoteBlessingNames (call_recognized call) (call_validation call) (RemoteBlessings call)"

definition LocalBlessingNames :: "'k crypto \<Rightarrow> ('k, 'e) Call \<Rightarrow> string list" where
  "LocalBlessingNames cr call =
     BlessingNames cr (call_local_key call) (call_recognized call) (LocalBlessings call)"

datatype ('k, 'e) auth_error =
    AuthorizationFailed "string list" "(string \<times> 'e) list" "string list"
  | PublicKeyNotAllowed "'k option" 'k
  | EndpointAuthorizationFailed "string list" "(string \<times> 'e) list"
  | AccessListMatch "string list" "(string \<times> 'e) list"
  | NoPermissions "string list" "(string \<times> 'e) list" string
  | MultipleMethodTags
  | NoMethodTags

subsection \<open>The authorizers of package security\<close>

definition defaultAuthorizer :: "'k crypto \<Rightarrow> ('k, 'e) Call \<Rightarrow> ('k, 'e) auth_error option option" where
  "defaultAuthorizer cr call =
     (let localNames = LocalBlessingNames cr call in
      case call_remote_names call of
        None \<Rightarrow> None
      | Some (remoteNames, remoteErr) \<Rightarrow>
          Some (if list_ex (\<lambda>l. MatchedBy l remoteNames) localNames then None
                else if list_ex (\<lambda>r. MatchedBy r localNames) remoteNames then None
                else Some (AuthorizationFailed remoteNames remoteErr localNames)))"

definition allowEveryone :: "('k, 'e) Call \<Rightarrow> ('k, 'e) auth_error option option" where
  "allowEveryone call = Some None"

definition publicKeyAuthorizer :: "'k \<Rightarrow> ('k, 'e) Call \<Rightarrow> ('k, 'e) auth_error option option" where
  "publicKeyAuthorizer key call =
     Some (case publicKey (RemoteBlessings call) of
             None \<Rightarrow> Some (PublicKeyNotAllowed None key)
           | Some remote \<Rightarrow> if remote \<noteq> key then Some (PublicKeyNotAllowed (Some remote) key) else None)"

definition endpointAuthorizer :: "('k, 'e) Call \<Rightarrow> ('k, 'e) auth_error option option" where
  "endpointAuthorizer call =
     (let patterns = endpoint_names call in
      if length patterns = 0 then Some None
      else
        (case call_remote_names call of
           None \<Rightarrow> None
         | Some (names, rejected) \<Rightarrow>
             Some (if list_ex (\<lambda>p. MatchedBy p names) patterns then None
                   else Some (EndpointAuthorizationFailed names rejected))))"

subsection \<open>Access lists\<close>

record AccessList =
  In :: "BlessingPattern list"
  NotIn :: "string list"

type_synonym Permissions = "string \<rightharpoonup> AccessList"

definition zero_AccessList :: AccessList where
  "zero_AccessList = \<lparr>In = [], NotIn = []\<rparr>"

definition pruneBlacklisted :: "AccessList \<Rightarrow> string list \<Rightarrow> string list" where
  "pruneBlacklisted acl blessings =
     (if length (NotIn acl) = 0 then blessings
      else filter (\<lambda>b. \<not> list_ex (\<lambda>bp. MatchedBy bp [b]) (NotIn acl)) blessings)"

definition Includes :: "AccessList \<Rightarrow> string list \<Rightarrow> bool" where
  "Includes acl blessings =
     (let blessings = pruneBlacklisted acl blessings in list_ex (\<lambda>pattern. MatchedBy pattern blessings) (In acl))"

definition acl_Authorize :: "AccessList \<Rightarrow> ('k, 'e) Call \<Rightarrow> ('k, 'e) auth_error option option" where
  "acl_Authorize acl call =
     (case call_remote_names call of
        None \<Rightarrow> None
      | Some (blessingsForCall, invalid) \<Rightarrow>
          Some (if Includes acl blessingsForCall then None
                else Some (AccessListMatch blessingsForCall invalid)))"

definition isOpen :: "AccessList \<Rightarrow> bool" where
  "isOpen acl \<longleftrightarrow> length (NotIn acl) = 0 \<and> length (In acl) = 1 \<and> In acl ! 0 = AllPrincipals"

definition isRecognized :: "BlessingPattern \<Rightarrow> BlessingPattern list \<Rightarrow> bool" where
  "isRecognized p rootPatterns =
     (if p = NoExtension then True
      else
        (let nonExtSuffix = ChainSeparator @ NoExtension;
             nonExtPattern = suffix nonExtSuffix p;
             s = (if nonExtPattern then take (length p - length nonExtSuffix) p else p)
         in list_ex (\<lambda>root.
              if root = NoExtension then False
              else if \<not> nonExtPattern \<and> suffix nonExtSuffix root then False
              else MatchedBy root [s]) rootPatterns))"

datatype acl_error =
    InvalidOpenAccessList
  | UnenforceablePatterns "BlessingPattern list"

fun enforce_loop :: "BlessingPattern list \<Rightarrow> BlessingPattern list \<Rightarrow> BlessingPattern list
    \<Rightarrow> acl_error + BlessingPattern list" where
  "enforce_loop rootPatterns [] rejected = Inr rejected"
| "enforce_loop rootPatterns (p # ps) rejected =
     (if p = AllPrincipals then Inl InvalidOpenAccessList
      else if \<not> IsValid p then enforce_loop rootPatterns ps (rejected @ [p])
      else if \<not> isRecognized p rootPatterns then enforce_loop rootPatterns ps (rejected @ [p])
      else enforce_loop rootPatterns ps rejected)"

text \<open>\<open>rootPatterns\<close> are the keys of \<open>Roots().Dump()\<close>.\<close>

definition Enforceable :: "AccessList \<Rightarrow> BlessingPattern list \<Rightarrow> acl_error option" where
  "Enforceable acl rootPatterns =
     (if isOpen acl then None
      else
        (case enforce_loop rootPatterns (In acl) [] of
           Inl e \<Rightarrow> Some e
         | Inr rejected \<Rightarrow> if length rejected = 0 then None else Some (UnenforceablePatterns rejected)))"

subsection \<open>Permissions\<close>

fun dedup_loop :: "string list \<Rightarrow> string set \<Rightarrow> string list \<Rightarrow> string list" where
  "dedup_loop ret m [] = ret"
| "dedup_loop ret m (s # l) = (if s \<in> m then dedup_loop ret m l else dedup_loop (ret @ [s]) (insert s m) l)"

definition removeDuplicatePatterns :: "BlessingPattern list \<Rightarrow> BlessingPattern list" where
  "removeDuplicatePatterns l = dedup_loop [] {} l"

definition removeDuplicateStrings :: "string list \<Rightarrow> string list" where
  "removeDuplicateStrings l = dedup_loop [] {} l"

definition perm_get :: "Permissions \<Rightarrow> string \<Rightarrow> AccessList" where
  "perm_get m tag = (case m tag of None \<Rightarrow> zero_AccessList | Some l \<Rightarrow> l)"

definition perm_Add :: "BlessingPattern \<Rightarrow> string list \<Rightarrow> Permissions \<Rightarrow> Permissions" where
  "perm_Add pattern tags m =
     foldl (\<lambda>m tag.
       let list = perm_get m tag;
           list = list\<lparr>In := In list @ [pattern]\<rparr>;
           list = list\<lparr>In := removeDuplicatePatterns (In list)\<rparr>;
           list = list\<lparr>In := sort (In list)\<rparr>
       in m(tag \<mapsto> list)) m tags"

definition perm_Blacklist :: "string \<Rightarrow> string list \<Rightarrow> Permissions \<Rightarrow> Permissions" where
  "perm_Blacklist blessing tags m =
     foldl (\<lambda>m tag.
       let list = perm_get m tag;
           list = list\<lparr>NotIn := NotIn list @ [blessing]\<rparr>;
           list = list\<lparr>NotIn := removeDuplicateStrings (NotIn list)\<rparr>;
           list = list\<lparr>NotIn := sort (NotIn list)\<rparr>
       in m(tag \<mapsto> list)) m tags"

definition clear_list :: "string \<Rightarrow> AccessList \<Rightarrow> AccessList" where
  "clear_list s oldList =
     \<lparr>In = filter (\<lambda>p. p \<noteq> s) (In oldList), NotIn = filter (\<lambda>b. b \<noteq> s) (NotIn oldList)\<rparr>"

text \<open>Without tags, \<open>Clear\<close> goes over all tags of the map, each of them once.\<close>

definition perm_Clear :: "string \<Rightarrow> string list \<Rightarrow> Permissions \<Rightarrow> Permissions" where
  "perm_Clear s tags m =
     (if length tags = 0 then (\<lambda>t. map_option (clear_list s) (m t))
      else foldl (\<lambda>m t. m(t \<mapsto> clear_list s (perm_get m t))) m tags)"

definition perm_Copy :: "Permissions \<Rightarrow> Permissions" where
  "perm_Copy m = (\<lambda>t. map_option (\<lambda>l. \<lparr>In = map (\<lambda>i. In l ! i) [0..<length (In l)],
                                      NotIn = map (\<lambda>i. NotIn l ! i) [0..<length (NotIn l)]\<rparr>) (m t))"

definition normalize_list :: "AccessList \<Rightarrow> AccessList" where
  "normalize_list l =
     \<lparr>In = sort (removeDuplicatePatterns (In l)), NotIn = sort (removeDuplicateStrings (NotIn l))\<rparr>"

definition perm_Normalize :: "Permissions \<Rightarrow> Permissions" where
  "perm_Normalize m = (\<lambda>t. map_option normalize_list (m t))"

subsection \<open>The authorizer of permissions\<close>

fun tag_loop :: "Permissions \<Rightarrow> string \<Rightarrow> string list \<Rightarrow> (string \<times> 'e) list \<Rightarrow> method_tag list \<Rightarrow> bool
    \<Rightarrow> ('k, 'e) auth_error option" where
  "tag_loop perms tagType blessings invalid [] hastag = (if \<not> hastag then Some NoMethodTags else None)"
| "tag_loop perms tagType blessings invalid (tag # tags) hastag =
     (if tag_type tag = tagType then
        (if hastag then Some MultipleMethodTags
         else
           (case perms (tag_raw tag) of
              None \<Rightarrow> Some (NoPermissions blessings invalid (tag_raw tag))
            | Some acl \<Rightarrow>
                if \<not> Includes acl blessings then Some (NoPermissions blessings invalid (tag_raw tag))
                else tag_loop perms tagType blessings invalid tags True))
      else tag_loop perms tagType blessings invalid tags hastag)"

definition authorizer_Authorize :: "Permissions \<Rightarrow> string \<Rightarrow> ('k, 'e) Call \<Rightarrow> ('k, 'e) auth_error option option" where
  "authorizer_Authorize perms tagType call =
     (case call_remote_names call of
        None \<Rightarrow> None
      | Some (blessings, invalid) \<Rightarrow> Some (tag_loop perms tagType blessings invalid (MethodTags call) False))"

definition Admin :: string where "Admin = ''Admin''"
definition Debug :: string where "Debug = ''Debug''"
definition Read_tag :: string where "Read_tag = ''Read''"
definition Write_tag :: string where "Write_tag = ''Write''"
definition Resolve :: string where "Resolve = ''Resolve''"

definition AllTypicalTags :: "string list" where
  "AllTypicalTags = [Admin, Read_tag, Write_tag, Debug, Resolve]"

text \<open>The validator of access-tag caveats: \<open>None\<close> when a tag of the method is among the parameters.\<close>

definition accessTagValidator :: "string \<Rightarrow> method_tag list \<Rightarrow> string list \<Rightarrow> (string list \<times> string list) option" where
  "accessTagValidator wantT methodTags params =
     (if list_ex (\<lambda>mt. tag_type mt = wantT \<and> list_ex (\<lambda>ct. tag_raw mt = ct) params) methodTags then None
      else Some (map tag_raw methodTags, params))"

section \<open>Matching\<close>

text \<open>The law of pattern matching that access lists rely on, and what follows from it.\<close>

locale matcher =
  fixes matches :: "'p \<Rightarrow> string list \<Rightarrow> bool"
    and matches_all :: "'p \<Rightarrow> bool"
  assumes matches_pointwise: "matches p bs \<longleftrightarrow> matches_all p \<or> (\<exists>b \<in> set bs. matches p [b])"
begin

lemma mono: "matches p bs \<Longrightarrow> set bs \<subseteq> set cs \<Longrightarrow> matches p cs"
  using matches_pointwise [of p bs] matches_pointwise [of p cs] by auto

lemma on_filter:
  "matches p (filter f bs) \<longleftrightarrow> matches_all p \<or> (\<exists>b \<in> set bs. f b \<and> matches p [b])"
  using matches_pointwise [of p "filter f bs"] by auto

lemma same_set: "set bs = set cs \<Longrightarrow> matches p bs = matches p cs"
  using mono [of p bs cs] mono [of p cs bs] by auto

end

interpretation pattern: matcher MatchedBy "\<lambda>p. p = ''...''"
proof
  fix p bs
  show "MatchedBy p bs \<longleftrightarrow> p = ''...'' \<or> (\<exists>b \<in> set bs. MatchedBy p [b])"
    by (auto simp: MatchedBy_iff IsValid_iff)
qed

definition blacklisted :: "AccessList \<Rightarrow> string \<Rightarrow> bool" where
  "blacklisted acl b \<longleftrightarrow> list_ex (\<lambda>bp. MatchedBy bp [b]) (NotIn acl)"

lemma pruneBlacklisted_eq: "pruneBlacklisted acl bs = filter (\<lambda>b. \<not> blacklisted acl b) bs"
  by (simp add: pruneBlacklisted_def blacklisted_def)

lemma Includes_iff:
  "Includes acl bs \<longleftrightarrow> ''...'' \<in> set (In acl) \<or>
     (\<exists>p \<in> set (In acl). \<exists>b \<in> set bs. \<not> blacklisted acl b \<and> MatchedBy p [b])"
  by (auto simp: Includes_def Let_def pruneBlacklisted_eq list_ex_iff pattern.on_filter)

text \<open>An access list is itself a matcher.\<close>

interpretation acl: matcher Includes "\<lambda>acl. ''...'' \<in> set (In acl)"
  by unfold_locales (auto simp: Includes_iff)

section \<open>Recognized patterns\<close>

text \<open>A name below a string that is longer than every pattern of a finite list.\<close>

definition fresh_below :: "string \<Rightarrow> BlessingPattern list \<Rightarrow> string" where
  "fresh_below q roots = q @ CHR '':'' # replicate (Suc (sum_list (map length roots))) (CHR ''a'')"

lemma parts_fresh:
  "parts (fresh_below q roots) = parts q @ [replicate (Suc (sum_list (map length roots))) (CHR ''a'')]"
  by (simp add: fresh_below_def parts_sep) (simp add: parts_def split_on_no_sep)

lemma component_length: "x \<in> set (parts s) \<Longrightarrow> length x \<le> length s"
proof -
  assume "x \<in> set (parts s)"
  then obtain as bs where "parts s = as @ x # bs" by (auto dest: split_list)
  then have "s = join '':'' (as @ x # bs)" using join_parts [of s] by simp
  moreover have "length x \<le> length (join '':'' (as @ x # bs))"
  proof (induction as)
    case Nil
    show ?case by (cases bs) simp_all
  next
    case (Cons a as)
    then show ?case by (cases "as @ x # bs") simp_all
  qed
  ultimately show ?thesis by simp
qed

lemma base_length: "length (pattern_base r) \<le> length r"
  by (cases r rule: trimNoExtension_cases) (simp_all add: pattern_base_def)

lemma fresh_not_component:
  assumes "r \<in> set roots"
  shows "replicate (Suc (sum_list (map length roots))) (CHR ''a'') \<notin> set (parts (pattern_base r))"
proof
  assume "replicate (Suc (sum_list (map length roots))) (CHR ''a'') \<in> set (parts (pattern_base r))"
  from component_length [OF this] base_length [of r]
  have "Suc (sum_list (map length roots)) \<le> length r" by simp
  moreover have "length r \<le> sum_list (map length roots)" using assms by (simp add: member_le_sum_list)
  ultimately show False by simp
qed

lemma fresh_matched:
  assumes "r \<in> set roots" "MatchedBy r [fresh_below q roots]"
  shows "extendable r \<and> MatchedBy r [q]"
proof -
  let ?f = "replicate (Suc (sum_list (map length roots))) (CHR ''a'')"
  have ext: "extendable ''...''" by (simp add: open_ended_base suffix_def)
  consider "r = ''...''" | "pattern_base r \<noteq> []" "IsValid r" "extendable r" "prefix (parts (pattern_base r)) (parts q @ [?f])"
    | "parts q @ [?f] = parts (pattern_base r)"
    using assms(2) by (auto simp: MatchedBy_iff parts_fresh split: if_splits)
  then show ?thesis
  proof cases
    case 1
    with assms(2) ext show ?thesis by (simp add: MatchedBy_iff)
  next
    case 2
    have "parts (pattern_base r) \<noteq> parts q @ [?f]" using fresh_not_component [OF assms(1)] by (metis in_set_conv_decomp)
    with 2 have "prefix (parts (pattern_base r)) (parts q)" by (auto simp: prefix_snoc)
    with 2 show ?thesis by (simp add: MatchedBy_iff)
  next
    case 3
    then show ?thesis using fresh_not_component [OF assms(1)] by (metis in_set_conv_decomp)
  qed
qed

lemma extendable_iff: "r \<noteq> ''$'' \<Longrightarrow> extendable r \<longleftrightarrow> \<not> suffix '':$'' r"
  by (cases r rule: trimNoExtension_cases) (auto simp: extendable_def suffixI)

lemma MatchedBy_only: "\<not> MatchedBy ''$'' bs"
  by (simp add: MatchedBy_iff)

text \<open>\<open>isRecognized\<close>, in terms of the base of the pattern.\<close>

lemma isRecognized_iff:
  assumes "p \<noteq> ''$''"
  shows "isRecognized p roots \<longleftrightarrow>
    (\<exists>r \<in> set roots. (extendable p \<longrightarrow> extendable r) \<and> MatchedBy r [pattern_base p])"
proof -
  have ext: "extendable p \<longleftrightarrow> \<not> suffix '':$'' p" using assms by (rule extendable_iff)
  have base: "pattern_base p = (if suffix '':$'' p then take (length p - Suc (Suc 0)) p else p)"
    using assms by (simp add: pattern_base_def trimNoExtension_def pattern_consts)
  have "isRecognized p roots \<longleftrightarrow> (\<exists>r \<in> set roots. r \<noteq> ''$'' \<and> \<not> (\<not> suffix '':$'' p \<and> suffix '':$'' r) \<and>
      MatchedBy r [if suffix '':$'' p then take (length p - Suc (Suc 0)) p else p])"
    using assms by (auto simp: isRecognized_def Let_def pattern_consts list_ex_iff)
  also have "\<dots> \<longleftrightarrow> (\<exists>r \<in> set roots. (extendable p \<longrightarrow> extendable r) \<and> MatchedBy r [pattern_base p])"
  proof (intro bex_cong refl)
    fix r
    show "(r \<noteq> ''$'' \<and> \<not> (\<not> suffix '':$'' p \<and> suffix '':$'' r) \<and>
        MatchedBy r [if suffix '':$'' p then take (length p - Suc (Suc 0)) p else p]) \<longleftrightarrow>
      (extendable p \<longrightarrow> extendable r) \<and> MatchedBy r [pattern_base p]"
      unfolding base [symmetric] ext
      by (cases "r = ''$''") (simp_all only: MatchedBy_only extendable_iff simp_thms de_Morgan_conj not_not imp_conv_disj)
  qed
  finally show ?thesis .
qed

lemma isRecognized_sound:
  assumes "isRecognized p roots" "MatchedBy p [b]" "p \<noteq> ''...''"
  shows "\<exists>r \<in> set roots. MatchedBy r [b]"
proof -
  have "p \<noteq> ''$''" using assms(2) MatchedBy_only by auto
  then obtain r where r: "r \<in> set roots" "extendable p \<longrightarrow> extendable r" "MatchedBy r [pattern_base p]"
    using assms(1) isRecognized_iff by blast
  have "MatchedBy r [b]"
  proof (cases "r = ''...''")
    case True
    then show ?thesis by (simp add: MatchedBy_iff IsValid_iff)
  next
    case False
    show ?thesis
    proof (cases "extendable p")
      case True
      then have "prefix (parts (pattern_base p)) (parts b)" using assms(2,3) by (auto simp: MatchedBy_iff)
      moreover have "prefix (parts (pattern_base r)) (parts (pattern_base p))"
        using r False True by (auto simp: MatchedBy_iff)
      ultimately have "prefix (parts (pattern_base r)) (parts b)" using prefix_order.trans by blast
      with r False True show ?thesis by (auto simp: MatchedBy_iff)
    next
      case closed: False
      then have "parts b = parts (pattern_base p)" using assms(2,3) by (auto simp: MatchedBy_iff)
      then have "b = pattern_base p" by (simp add: parts_inject)
      with r show ?thesis by simp
    qed
  qed
  with r(1) show ?thesis by blast
qed

lemma isRecognized_complete:
  assumes "IsValid p" "p \<noteq> ''...''" "p \<noteq> '':$''" "\<And>b. MatchedBy p [b] \<Longrightarrow> \<exists>r \<in> set roots. MatchedBy r [b]"
  shows "isRecognized p roots"
proof (cases "p = ''$''")
  case True
  then show ?thesis by (simp add: isRecognized_def NoExtension_def)
next
  case False
  have base: "pattern_base p \<noteq> []"
    using assms(1,3) False by (cases p rule: trimNoExtension_cases) (auto simp: pattern_base_def IsValid_iff)
  show ?thesis
  proof (cases "extendable p")
    case True
    have "MatchedBy p [fresh_below (pattern_base p) roots]"
      using assms(1) base True by (simp add: MatchedBy_iff parts_fresh)
    then obtain r where "r \<in> set roots" "MatchedBy r [fresh_below (pattern_base p) roots]" using assms(4) by blast
    with fresh_matched show ?thesis using isRecognized_iff [OF False] by blast
  next
    case closed: False
    have "MatchedBy p [pattern_base p]" using assms(1) base closed by (simp add: MatchedBy_iff)
    with assms(4) closed show ?thesis using isRecognized_iff [OF False] by blast
  qed
qed

lemma enforce_loop_eq:
  "enforce_loop roots ps rej =
     (if ''...'' \<in> set ps then Inl InvalidOpenAccessList
      else Inr (rej @ filter (\<lambda>p. \<not> (IsValid p \<and> isRecognized p roots)) ps))"
  by (induction ps arbitrary: rej) (auto simp: AllPrincipals_def)

section \<open>Edits of permissions\<close>

lemma dedup_loop_facts:
  assumes "distinct ret" "m = set ret"
  shows "distinct (dedup_loop ret m l) \<and> set (dedup_loop ret m l) = m \<union> set l"
  using assms by (induction ret m l rule: dedup_loop.induct) auto

lemma dedup_facts:
  "distinct (removeDuplicatePatterns l)" "set (removeDuplicatePatterns l) = set l"
  "distinct (removeDuplicateStrings l)" "set (removeDuplicateStrings l) = set l"
  using dedup_loop_facts [of "[]" "{}" l] by (simp_all add: removeDuplicatePatterns_def removeDuplicateStrings_def)

lemma sort_dedup_canonical:
  "sort (removeDuplicatePatterns l) = sorted_list_of_set (set l)"
  "sort (removeDuplicateStrings l) = sorted_list_of_set (set l)"
  using dedup_facts [of l] by (simp_all add: sorted_list_of_set_sort_remdups distinct_remdups_id)
    (metis distinct_remdups_id sorted_list_of_set_sort_remdups)+

declare sorted_list_of_set.sorted_key_list_of_set_insert_remove [simp del]

text \<open>An access list in normal form: sorted, without duplicates.\<close>

definition normal_list :: "AccessList \<Rightarrow> bool" where
  "normal_list l \<longleftrightarrow> sorted (In l) \<and> distinct (In l) \<and> sorted (NotIn l) \<and> distinct (NotIn l)"

definition normal_perms :: "Permissions \<Rightarrow> bool" where
  "normal_perms m \<longleftrightarrow> (\<forall>t l. m t = Some l \<longrightarrow> normal_list l)"

lemma normal_zero [simp]: "normal_list zero_AccessList"
  by (simp add: normal_list_def zero_AccessList_def)

lemma normal_get: "normal_perms m \<Longrightarrow> normal_list (perm_get m t)"
  by (auto simp: normal_perms_def perm_get_def split: option.splits)

lemma normal_upd: "normal_perms m \<Longrightarrow> normal_list l \<Longrightarrow> normal_perms (m(t \<mapsto> l))"
  by (simp add: normal_perms_def)

lemma perm_Add_Cons:
  "perm_Add p (t # ts) m = perm_Add p ts (m(t \<mapsto> (perm_get m t)\<lparr>In := sorted_list_of_set (insert p (set (In (perm_get m t))))\<rparr>))"
  by (simp add: perm_Add_def Let_def sort_dedup_canonical)

lemma perm_Blacklist_Cons:
  "perm_Blacklist b (t # ts) m =
     perm_Blacklist b ts (m(t \<mapsto> (perm_get m t)\<lparr>NotIn := sorted_list_of_set (insert b (set (NotIn (perm_get m t))))\<rparr>))"
  by (simp add: perm_Blacklist_def Let_def sort_dedup_canonical)

lemma perm_get_upd: "perm_get (m(t \<mapsto> l)) u = (if u = t then l else perm_get m u)"
  by (simp add: perm_get_def)

lemma perm_Add_get:
  "set (In (perm_get (perm_Add p ts m) t)) = set (In (perm_get m t)) \<union> (if t \<in> set ts then {p} else {})
   \<and> NotIn (perm_get (perm_Add p ts m) t) = NotIn (perm_get m t)"
proof (induction ts arbitrary: m)
  case Nil
  show ?case by (simp add: perm_Add_def)
next
  case (Cons u us)
  show ?case unfolding perm_Add_Cons Cons.IH [THEN conjunct1] Cons.IH [THEN conjunct2] perm_get_upd by auto
qed

lemma perm_Blacklist_get:
  "set (NotIn (perm_get (perm_Blacklist b ts m) t)) = set (NotIn (perm_get m t)) \<union> (if t \<in> set ts then {b} else {})
   \<and> In (perm_get (perm_Blacklist b ts m) t) = In (perm_get m t)"
proof (induction ts arbitrary: m)
  case Nil
  show ?case by (simp add: perm_Blacklist_def)
next
  case (Cons u us)
  show ?case unfolding perm_Blacklist_Cons Cons.IH [THEN conjunct1] Cons.IH [THEN conjunct2] perm_get_upd by auto
qed

lemma clear_list_idem: "clear_list s (clear_list s l) = clear_list s l"
  by (simp add: clear_list_def)

lemma perm_Clear_get:
  "perm_get (perm_Clear s ts m) t = (if ts = [] \<or> t \<in> set ts then clear_list s (perm_get m t) else perm_get m t)"
proof (cases "ts = []")
  case True
  then show ?thesis
    by (cases "m t") (simp_all add: perm_Clear_def perm_get_def clear_list_def zero_AccessList_def)
next
  case False
  have "perm_get (foldl (\<lambda>m t. m(t \<mapsto> clear_list s (perm_get m t))) m us) t
      = (if t \<in> set us then clear_list s (perm_get m t) else perm_get m t)" for us
    by (induction us arbitrary: m) (auto simp: perm_get_upd clear_list_idem)
  with False show ?thesis by (simp add: perm_Clear_def)
qed

lemma normal_edits:
  assumes "normal_perms m"
  shows "normal_perms (perm_Add p ts m)" "normal_perms (perm_Blacklist b ts m)" "normal_perms (perm_Clear s ts m)"
proof -
  show "normal_perms (perm_Add p ts m)" using assms
  proof (induction ts arbitrary: m)
    case (Cons t ts)
    have "normal_list ((perm_get m t)\<lparr>In := sorted_list_of_set (insert p (set (In (perm_get m t))))\<rparr>)"
      using normal_get [OF Cons.prems] by (simp add: normal_list_def)
    then show ?case unfolding perm_Add_Cons by (intro Cons.IH normal_upd Cons.prems)
  qed (simp add: perm_Add_def)
  show "normal_perms (perm_Blacklist b ts m)" using assms
  proof (induction ts arbitrary: m)
    case (Cons t ts)
    have "normal_list ((perm_get m t)\<lparr>NotIn := sorted_list_of_set (insert b (set (NotIn (perm_get m t))))\<rparr>)"
      using normal_get [OF Cons.prems] by (simp add: normal_list_def)
    then show ?case unfolding perm_Blacklist_Cons by (intro Cons.IH normal_upd Cons.prems)
  qed (simp add: perm_Blacklist_def)
  have clear: "normal_list l \<Longrightarrow> normal_list (clear_list s l)" for l
    by (auto simp: normal_list_def clear_list_def sorted_wrt_filter)
  have "normal_perms (foldl (\<lambda>m t. m(t \<mapsto> clear_list s (perm_get m t))) m us)" for us
    using assms by (induction us arbitrary: m) (simp_all add: normal_upd clear normal_get)
  moreover have "normal_perms (\<lambda>t. map_option (clear_list s) (m t))" using assms clear by (auto simp: normal_perms_def)
  ultimately show "normal_perms (perm_Clear s ts m)" by (simp add: perm_Clear_def)
qed

lemma normalize_facts:
  "normal_list (normalize_list l)" "set (In (normalize_list l)) = set (In l)" "set (NotIn (normalize_list l)) = set (NotIn l)"
  by (simp_all add: normalize_list_def normal_list_def dedup_facts)

lemma normalize_normal: "normal_list l \<Longrightarrow> normalize_list l = l"
  by (cases l) (simp add: normalize_list_def normal_list_def sort_dedup_canonical sorted_list_of_set.idem_if_sorted_distinct)

lemma Includes_sets:
  "set (In a) = set (In b) \<Longrightarrow> set (NotIn a) = set (NotIn b) \<Longrightarrow> Includes a bs = Includes b bs"
  by (simp add: Includes_iff blacklisted_def list_ex_iff)

section \<open>Properties\<close>



text \<open>C17: Enforceable accepts an access list exactly when it is the open list, or its In list lacks ... and
  every pattern in it is valid and every name that matches it is matched by a root pattern as well: no
  pattern is accepted that the roots cannot vouch for, and none refused that they can. (The pattern :$,
  which IsValid accepts although nothing matches it, is left aside.)\<close>

theorem Enforceable_iff_roots_cover:
  assumes "'':$'' \<notin> set (In acl)"
  shows "Enforceable acl roots = None \<longleftrightarrow>
    isOpen acl \<or> (AllPrincipals \<notin> set (In acl) \<and>
      (\<forall>p. p \<in> set (In acl) \<longrightarrow> IsValid p \<and>
         (\<forall>b. MatchedBy p [b] \<longrightarrow> (\<exists>r. r \<in> set roots \<and> MatchedBy r [b]))))"
proof -
  have "(IsValid p \<and> isRecognized p roots) \<longleftrightarrow>
      IsValid p \<and> (\<forall>b. MatchedBy p [b] \<longrightarrow> (\<exists>r. r \<in> set roots \<and> MatchedBy r [b]))"
    if "p \<in> set (In acl)" "p \<noteq> ''...''" for p
  proof -
    have "p \<noteq> '':$''" using that assms by auto
    with that(2) isRecognized_sound [of p roots] isRecognized_complete [of p roots] show ?thesis by blast
  qed
  moreover have "Enforceable acl roots = None \<longleftrightarrow> isOpen acl \<or> (''...'' \<notin> set (In acl) \<and>
      (\<forall>p. p \<in> set (In acl) \<longrightarrow> IsValid p \<and> isRecognized p roots))"
    by (auto simp: Enforceable_def enforce_loop_eq filter_empty_conv)
  ultimately show ?thesis unfolding AllPrincipals_def by metis
qed

theorem Enforceable_iff_roots_cover_witness:
  "Enforceable \<lparr>In = [''alice:friend''], NotIn = []\<rparr> [''alice:$''] \<noteq> None
   \<and> (\<exists>b. MatchedBy ''alice:friend'' [b] \<and> \<not> MatchedBy ''alice:$'' [b])"
proof -
  have "Enforceable \<lparr>In = [''alice:friend''], NotIn = []\<rparr> [''alice:$''] \<noteq> None" by code_simp
  moreover have "IsValid ''alice:friend''" by code_simp
  ultimately show ?thesis
    using Enforceable_iff_roots_cover [of "\<lparr>In = [''alice:friend''], NotIn = []\<rparr>" "[''alice:$'']"]
    by (auto simp: AllPrincipals_def)
qed

text \<open>C18: The authorizer of permissions grants a call exactly when the method has one tag of the
  authorizer's type and the access list under that tag includes the validated names of the remote end; it
  panics only when RemoteBlessingNames does.\<close>

theorem authorizer_Authorize_iff:
  "(authorizer_Authorize perms tagType call = Some None \<longleftrightarrow>
     (\<exists>names rejected tag acl. call_remote_names call = Some (names, rejected) \<and>
        filter (\<lambda>t. tag_type t = tagType) (MethodTags call) = [tag] \<and>
        perms (tag_raw tag) = Some acl \<and> Includes acl names))
   \<and> (authorizer_Authorize perms tagType call = None \<longleftrightarrow> call_remote_names call = None)"
proof -
  have seen: "tag_loop perms tagType names rejected tags True = (None :: ('a, 'b) auth_error option) \<longleftrightarrow>
      filter (\<lambda>t. tag_type t = tagType) tags = []" for names and rejected :: "(string \<times> 'b) list" and tags
    by (induction tags) auto
  have "tag_loop perms tagType names rejected tags False = (None :: ('a, 'b) auth_error option) \<longleftrightarrow>
      (\<exists>tag acl. filter (\<lambda>t. tag_type t = tagType) tags = [tag] \<and> perms (tag_raw tag) = Some acl \<and> Includes acl names)"
    for names and rejected :: "(string \<times> 'b) list" and tags
    by (induction tags) (auto simp: seen split: option.splits)
  then show ?thesis
    by (auto simp: authorizer_Authorize_def split: option.splits)
qed

text \<open>The edits of permissions keep their lists sorted and free of duplicates, and change access as
  they say: Add lets in what the pattern matches unless it is blacklisted, Blacklist shuts out the names
  that the entry matches, Clear removes both kinds of entries of the given tags (of all tags when none is
  given), and Normalize and Copy change nothing about who is included. Normalize gives the normal form
  and is idempotent.\<close>

theorem Permissions_edits:
  assumes "normal_perms m"
  shows "normal_perms (perm_Add p ts m) \<and> normal_perms (perm_Blacklist b ts m) \<and> normal_perms (perm_Clear b ts m)
   \<and> (Includes (perm_get (perm_Add p ts m) t) names \<longleftrightarrow>
        Includes (perm_get m t) names \<or> t \<in> set ts \<and> Includes ((perm_get m t)\<lparr>In := [p]\<rparr>) names)
   \<and> (t \<in> set ts \<longrightarrow> (Includes (perm_get (perm_Blacklist b ts m) t) names \<longleftrightarrow>
        Includes (perm_get m t) (filter (\<lambda>n. \<not> MatchedBy b [n]) names)))
   \<and> (t \<notin> set ts \<longrightarrow> perm_get (perm_Blacklist b ts m) t = perm_get m t)
   \<and> perm_get (perm_Clear b ts m) t = (if ts = [] \<or> t \<in> set ts then clear_list b (perm_get m t) else perm_get m t)
   \<and> perm_Normalize m = m \<and> perm_Copy m = m
   \<and> normal_perms (perm_Normalize m') \<and> Includes (perm_get (perm_Normalize m') t) names = Includes (perm_get m' t) names"
proof -
  have add: "Includes (perm_get (perm_Add p ts m) t) names \<longleftrightarrow>
      Includes (perm_get m t) names \<or> t \<in> set ts \<and> Includes ((perm_get m t)\<lparr>In := [p]\<rparr>) names"
    using perm_Add_get [of p ts m t] by (auto simp: Includes_iff blacklisted_def)
  have black: "Includes (perm_get (perm_Blacklist b ts m) t) names \<longleftrightarrow>
      Includes (perm_get m t) (filter (\<lambda>n. \<not> MatchedBy b [n]) names)" if "t \<in> set ts"
    using that perm_Blacklist_get [of b ts m t] by (auto simp: Includes_iff blacklisted_def list_ex_iff)
  have other: "perm_get (perm_Blacklist b ts m) t = perm_get m t" if "t \<notin> set ts"
    using that by (induction ts arbitrary: m) (auto simp: perm_Blacklist_Cons perm_get_upd, simp add: perm_Blacklist_def)
  have norm: "perm_Normalize m = m"
    using assms by (auto simp: perm_Normalize_def normal_perms_def normalize_normal fun_eq_iff map_option_case split: option.splits)
  have copy: "perm_Copy m = m" by (simp add: perm_Copy_def map_nth map_option_case fun_eq_iff split: option.splits)
  have norm': "normal_perms (perm_Normalize m')" by (auto simp: normal_perms_def perm_Normalize_def normalize_facts)
  have incl: "Includes (perm_get (perm_Normalize m') t) names = Includes (perm_get m' t) names"
  proof (cases "m' t")
    case (Some l)
    then show ?thesis using Includes_sets [OF normalize_facts(2,3), of l names] by (simp add: perm_get_def perm_Normalize_def)
  qed (simp add: perm_get_def perm_Normalize_def)
  show ?thesis
    using normal_edits [OF assms] add black other norm copy norm' incl perm_Clear_get by blast
qed

theorem Permissions_edits_witness:
  "Includes (perm_get (perm_Add ''alice'' [''Read''] Map.empty) ''Read'') [''alice:tv'']"
proof -
  have "normal_perms Map.empty" by (simp add: normal_perms_def)
  moreover have "Includes \<lparr>In = [''alice''], NotIn = []\<rparr> [''alice:tv'']" by code_simp
  ultimately show ?thesis
    using Permissions_edits [of Map.empty "''alice''" "[''Read'']" _ "''Read''" "[''alice:tv'']"]
    by (simp add: perm_get_def zero_AccessList_def)
qed

end
