(* ===== verification/SecurityCaveat.thy ===== *)
theory SecurityCaveat
  imports SecurityBlessings
begin

text \<open>
  Caveats: the registry of validators and third-party caveats with their discharges of
  security/caveat.go, the validators of security/init.go, discharges of security/discharge.go and
  \<open>MintDischarge\<close> of security/principal.go.

  Decoding the VOM parameter of a caveat is a parameter of the model. The validator of third-party
  caveats validates the caveats of the discharge, so that validation is recursive through the registry;
  nothing in the code bounds the recursion. Validation is a function of fuel that returns \<open>None\<close> when the
  fuel does not suffice: \<open>validate_terminates\<close> gives a bound on it when the discharges are ranked, and
  \<open>self_discharge_diverges\<close> shows that no fuel suffices for a caveat on its own discharge. The cache of
  verified discharges is threaded through as state; \<open>satisfied\<close> is the meaning of a caveat without cache
  and fuel.
\<close>

subsection \<open>Data\<close>

record tpParam =
  Nonce :: "byte list"
  tpCaveats :: "Caveat list"
  DischargerKey :: "byte list"
  DischargerLocation :: string

record PublicKeyDischarge =
  ThirdPartyCaveatId :: string
  dCaveats :: "Caveat list"
  dSignature :: Signature

text \<open>A discharge; \<open>None\<close> is one without a value of the known wire type.\<close>

type_synonym Discharge = "PublicKeyDischarge option"

datatype param_type = TBool | TTime | TStrings | TPatterns | TThirdParty

datatype cav_param =
    PBool bool
  | PTime int
  | PStrings "string list"
  | PPatterns "BlessingPattern list"
  | PThirdParty tpParam

datatype cav_error =
    CaveatNotRegistered "byte list"
  | CaveatParamCoding "byte list"
  | CaveatValidation cav_error
  | ConstCaveatValidation
  | ExpiryCaveatValidation int int
  | MethodCaveatValidation string "string list"
  | PeerBlessingsCaveatValidation "string list" "BlessingPattern list"
  | MissingDischarge string
  | InvalidDischarge
  | CantUnmarshalDischargeKey
  | InapproriateDischargeSignature string "byte list"
  | BadDischargeSignature string
  | FailedDischarge Caveat cav_error
  | BadCaveatRestriction Caveat cav_error

definition ConstCaveat :: "byte list" where
  "ConstCaveat = replicate 16 0"

definition ExpiryCaveat :: "byte list" where
  "ExpiryCaveat = [166, 76, 45, 1, 25, 251, 163, 52, 128, 113, 254, 235, 47, 48, 128, 0]"

definition MethodCaveat :: "byte list" where
  "MethodCaveat = [84, 166, 118, 57, 129, 55, 24, 126, 205, 178, 109, 45, 105, 186, 0, 3]"

definition PublicKeyThirdPartyCaveat :: "byte list" where
  "PublicKeyThirdPartyCaveat = [121, 114, 206, 23, 74, 123, 169, 63, 121, 84, 125, 118, 156, 145, 128, 0]"

definition PeerBlessingsCaveat :: "byte list" where
  "PeerBlessingsCaveat = [5, 119, 248, 86, 76, 142, 95, 254, 255, 142, 43, 31, 77, 109, 128, 0]"

lemmas caveat_ids = ConstCaveat_def ExpiryCaveat_def MethodCaveat_def PublicKeyThirdPartyCaveat_def PeerBlessingsCaveat_def

text \<open>The part of a call that validators use.\<close>

record cav_call =
  Timestamp :: int
  Method :: string
  local_names :: "string list"
  RemoteDischarges :: "string \<rightharpoonup> Discharge"

text \<open>\<open>base64.StdEncoding.EncodeToString\<close>.\<close>

definition base64_char :: "nat \<Rightarrow> char" where
  "base64_char n = ''ABCDEFGHIJKLMNOPQRSTUVWXYZabcdefghijklmnopqrstuvwxyz0123456789+/'' ! n"

fun base64 :: "byte list \<Rightarrow> string" where
  "base64 [] = []"
| "base64 [a] =
     (let n = unat a * 65536 in [base64_char (n div 262144), base64_char (n div 4096 mod 64), CHR ''='', CHR ''=''])"
| "base64 [a, b] =
     (let n = unat a * 65536 + unat b * 256
      in [base64_char (n div 262144), base64_char (n div 4096 mod 64), base64_char (n div 64 mod 64), CHR ''=''])"
| "base64 (a # b # c # bs) =
     (let n = unat a * 65536 + unat b * 256 + unat c
      in [base64_char (n div 262144), base64_char (n div 4096 mod 64), base64_char (n div 64 mod 64), base64_char (n mod 64)]
         @ base64 bs)"

subsection \<open>Third-party caveats and discharges\<close>

definition tp_discharger :: "'k crypto \<Rightarrow> tpParam \<Rightarrow> 'k option" where
  "tp_discharger cr c = parse_key cr (DischargerKey c)"

definition tp_ID :: "'k crypto \<Rightarrow> tpParam \<Rightarrow> string" where
  "tp_ID cr c =
     (case tp_discharger cr c of
        None \<Rightarrow> []
      | Some key \<Rightarrow>
          (let hash = key_hash cr key;
               bytes = hsum cr hash (Nonce c) @ hsum cr hash (DischargerKey c);
               bytes = foldl (\<lambda>bytes cav. bytes @ cav_digest cr hash cav) bytes (tpCaveats c)
           in base64 (hsum cr hash bytes)))"

definition d_digest :: "'k crypto \<Rightarrow> string \<Rightarrow> PublicKeyDischarge \<Rightarrow> byte list" where
  "d_digest cr hash d =
     hsum cr hash (foldl (\<lambda>msg cav. msg @ cav_digest cr hash cav)
                     (hsum cr hash (bytes_of (ThirdPartyCaveatId d))) (dCaveats d))"

definition signatureCacheKey :: "'k crypto \<Rightarrow> byte list \<Rightarrow> 'k \<Rightarrow> Signature \<Rightarrow> byte list option" where
  "signatureCacheKey cr digest key signature =
     (case marshal_key cr key of
        None \<Rightarrow> None
      | Some keybytes \<Rightarrow>
          (let keyhash = hsum cr (key_hash cr key) keybytes;
               sighash = sig_digest cr (key_hash cr key) signature
           in Some (keyhash @ sighash @ digest)))"

definition d_verify ::
  "(byte list list \<Rightarrow> byte list list) \<Rightarrow> 'k crypto \<Rightarrow> PublicKeyDischarge \<Rightarrow> 'k \<Rightarrow> sigCache
     \<Rightarrow> cav_error option \<times> sigCache" where
  "d_verify order cr d key s =
     (if sigPurpose (dSignature d) \<noteq> dischargePurpose
      then (Some (InapproriateDischargeSignature (ThirdPartyCaveatId d) (sigPurpose (dSignature d))), s)
      else
        (let digest = d_digest cr (key_hash cr key) d;
             cachekey = signatureCacheKey cr digest key (dSignature d)
         in if cachekey \<noteq> None \<and> sigCache_verify cr s (nil_bytes cachekey) then (None, s)
            else if \<not> sig_Verify cr (dSignature d) key digest then (Some (BadDischargeSignature (ThirdPartyCaveatId d)), s)
            else (None, sigCache_cache order cr [nil_bytes cachekey] s)))"

definition d_sign :: "'k crypto \<Rightarrow> 'k signer \<Rightarrow> PublicKeyDischarge \<Rightarrow> PublicKeyDischarge option" where
  "d_sign cr sg d =
     (case signer_Sign cr sg dischargePurpose (d_digest cr (key_hash cr (signer_key sg)) d) of
        None \<Rightarrow> None
      | Some sig \<Rightarrow> Some (d\<lparr>dSignature := sig\<rparr>))"

datatype mint_error = CantMintDischarges | CantSignDischarge

text \<open>\<open>details\<close> is the parameter as \<open>ThirdPartyDetails\<close> decodes it.\<close>

definition MintDischarge :: "'k crypto \<Rightarrow> 'k signer \<Rightarrow> (byte list \<Rightarrow> tpParam) \<Rightarrow> Caveat \<Rightarrow> Caveat \<Rightarrow> Caveat list
    \<Rightarrow> mint_error + Discharge" where
  "MintDischarge cr sg details forCaveat caveatOnDischarge additionalCaveatsOnDischarge =
     (if cavId forCaveat \<noteq> PublicKeyThirdPartyCaveat then Inl CantMintDischarges
      else
        (let d = \<lparr>ThirdPartyCaveatId = tp_ID cr (details (ParamVom forCaveat)),
                  dCaveats = additionalCaveatsOnDischarge @ [caveatOnDischarge], dSignature = zero_Signature\<rparr>
         in case d_sign cr sg d of
              None \<Rightarrow> Inl CantSignDischarge
            | Some d \<Rightarrow> Inr (Some d)))"

definition d_ID :: "Discharge \<Rightarrow> string" where
  "d_ID d = (case d of Some v \<Rightarrow> ThirdPartyCaveatId v | None \<Rightarrow> [])"

definition expiryTime :: "(byte list \<Rightarrow> int option) \<Rightarrow> Caveat \<Rightarrow> int option" where
  "expiryTime decode_time cav = (if cavId cav = ExpiryCaveat then decode_time (ParamVom cav) else None)"

definition d_Expiry :: "(byte list \<Rightarrow> int option) \<Rightarrow> Discharge \<Rightarrow> int option" where
  "d_Expiry decode_time d =
     (case d of
        Some v \<Rightarrow> foldl (\<lambda>m cav. min_time m (expiryTime decode_time cav)) None (dCaveats v)
      | None \<Rightarrow> None)"

subsection \<open>The registry\<close>

type_synonym validation = "sigCache \<Rightarrow> (cav_error option \<times> sigCache) option"

record 'k cav_env =
  env_crypto :: "'k crypto"
  env_order :: "byte list list \<Rightarrow> byte list list"
  env_decode :: "param_type \<Rightarrow> byte list \<Rightarrow> cav_param option"
  env_call :: cav_call

text \<open>
  A validator gets the function that validates further caveats. It returns \<open>None\<close> when that does, and, as
  \<open>reflect.Value.Call\<close> panics there, on a parameter that is not of its type.
\<close>

type_synonym 'k validator = "'k cav_env \<Rightarrow> (Caveat \<Rightarrow> validation) \<Rightarrow> cav_param \<Rightarrow> validation"

record 'k registryEntry =
  entry_type :: param_type
  entry_fn :: "'k validator"

type_synonym 'k caveatRegistry = "byte list \<rightharpoonup> 'k registryEntry"

text \<open>What \<open>register\<close> asks of the validator by reflection, and the errors in their order.\<close>

datatype go_type = GoError | GoContext | GoCall | GoParam param_type | GoOther

record reflected =
  is_func :: bool
  fn_outs :: "go_type list"
  fn_ins :: "go_type list"

datatype reg_error =
    CaveatRegisteredTwice
  | BadCaveatDescriptorType
  | BadCaveatDescriptorKind
  | BadCaveatOutputNum
  | BadCaveatOutput
  | BadCaveatInputs
  | BadCaveat1stArg
  | BadCaveat2ndArg
  | BadCaveat3rdArg

definition register_caveat ::
  "byte list \<Rightarrow> param_type option \<Rightarrow> reflected \<Rightarrow> 'k validator \<Rightarrow> 'k caveatRegistry \<Rightarrow> reg_error + 'k caveatRegistry" where
  "register_caveat uid paramType fn validator r =
     (if r uid \<noteq> None then Inl CaveatRegisteredTwice
      else
        (case paramType of
           None \<Rightarrow> Inl BadCaveatDescriptorType
         | Some ty \<Rightarrow>
             if \<not> is_func fn then Inl BadCaveatDescriptorKind
             else if length (fn_outs fn) \<noteq> 1 then Inl BadCaveatOutputNum
             else if fn_outs fn ! 0 \<noteq> GoError then Inl BadCaveatOutput
             else if length (fn_ins fn) \<noteq> 3 then Inl BadCaveatInputs
             else if fn_ins fn ! 0 \<noteq> GoContext then Inl BadCaveat1stArg
             else if fn_ins fn ! 1 \<noteq> GoCall then Inl BadCaveat2ndArg
             else if fn_ins fn ! 2 \<noteq> GoParam ty then Inl BadCaveat3rdArg
             else Inr (r(uid \<mapsto> \<lparr>entry_type = ty, entry_fn = validator\<rparr>))))"

definition registry_validate ::
  "'k caveatRegistry \<Rightarrow> 'k cav_env \<Rightarrow> (Caveat \<Rightarrow> validation) \<Rightarrow> Caveat \<Rightarrow> validation" where
  "registry_validate r env again cav s =
     (case r (cavId cav) of
        None \<Rightarrow> Some (Some (CaveatNotRegistered (cavId cav)), s)
      | Some entry \<Rightarrow>
          (case env_decode env (entry_type entry) (ParamVom cav) of
             None \<Rightarrow> Some (Some (CaveatParamCoding (cavId cav)), s)
           | Some param \<Rightarrow>
               (case entry_fn entry env again param s of
                  None \<Rightarrow> None
                | Some (None, s') \<Rightarrow> Some (None, s')
                | Some (Some err, s') \<Rightarrow> Some (Some (CaveatValidation err), s'))))"

fun validate :: "nat \<Rightarrow> 'k caveatRegistry \<Rightarrow> 'k cav_env \<Rightarrow> Caveat \<Rightarrow> validation" where
  "validate 0 r env cav s = None"
| "validate (Suc n) r env cav s = registry_validate r env (validate n r env) cav s"

text \<open>The loops over caveats stop at the first that fails.\<close>

fun validate_list :: "(Caveat \<Rightarrow> validation) \<Rightarrow> Caveat list \<Rightarrow> sigCache
    \<Rightarrow> ((Caveat \<times> cav_error) option \<times> sigCache) option" where
  "validate_list again [] s = Some (None, s)"
| "validate_list again (cav # cavs) s =
     (case again cav s of
        None \<Rightarrow> None
      | Some (Some err, s') \<Rightarrow> Some (Some (cav, err), s')
      | Some (None, s') \<Rightarrow> validate_list again cavs s')"

definition tp_Dischargeable :: "(Caveat \<Rightarrow> validation) \<Rightarrow> tpParam \<Rightarrow> validation" where
  "tp_Dischargeable again c s =
     (case validate_list again (tpCaveats c) s of
        None \<Rightarrow> None
      | Some (None, s') \<Rightarrow> Some (None, s')
      | Some (Some (cav, err), s') \<Rightarrow> Some (Some (BadCaveatRestriction cav err), s'))"

subsection \<open>The validators of the package\<close>

fun const_validator :: "'k validator" where
  "const_validator env again (PBool isValid) s = Some (if isValid then None else Some ConstCaveatValidation, s)"
| "const_validator env again _ s = None"

fun expiry_validator :: "'k validator" where
  "expiry_validator env again (PTime expiry) s =
     (let now = Timestamp (env_call env)
      in Some (if expiry < now then Some (ExpiryCaveatValidation now expiry) else None, s))"
| "expiry_validator env again _ s = None"

fun method_validator :: "'k validator" where
  "method_validator env again (PStrings methods) s =
     (let m = Method (env_call env)
      in Some (if list_ex (\<lambda>x. m = x) methods then None else Some (MethodCaveatValidation m methods), s))"
| "method_validator env again _ s = None"

fun peer_validator :: "'k validator" where
  "peer_validator env again (PPatterns patterns) s =
     (let lnames = local_names (env_call env)
      in Some (if list_ex (\<lambda>p. MatchedBy p lnames) patterns then None
               else Some (PeerBlessingsCaveatValidation lnames patterns), s))"
| "peer_validator env again _ s = None"

fun third_party_validator :: "'k validator" where
  "third_party_validator env again (PThirdParty params) s =
     (let cr = env_crypto env; id = tp_ID cr params in
      case RemoteDischarges (env_call env) id of
        None \<Rightarrow> Some (Some (MissingDischarge id), s)
      | Some None \<Rightarrow> Some (Some InvalidDischarge, s)
      | Some (Some d) \<Rightarrow>
          (case tp_discharger cr params of
             None \<Rightarrow> Some (Some CantUnmarshalDischargeKey, s)
           | Some key \<Rightarrow>
               (case d_verify (env_order env) cr d key s of
                  (Some err, s') \<Rightarrow> Some (Some err, s')
                | (None, s') \<Rightarrow>
                    (case validate_list again (dCaveats d) s' of
                       None \<Rightarrow> None
                     | Some (None, s'') \<Rightarrow> Some (None, s'')
                     | Some (Some (cav, err), s'') \<Rightarrow> Some (Some (FailedDischarge cav err), s'')))))"
| "third_party_validator env again _ s = None"

definition plain_fn :: "param_type \<Rightarrow> reflected" where
  "plain_fn ty = \<lparr>is_func = True, fn_outs = [GoError], fn_ins = [GoContext, GoCall, GoParam ty]\<rparr>"

text \<open>The registrations of \<open>init\<close>, in their order. A failing registration panics.\<close>

definition init_registry :: "reg_error + 'k caveatRegistry" where
  "init_registry =
     and_then (register_caveat ConstCaveat (Some TBool) (plain_fn TBool) const_validator Map.empty) (\<lambda>r.
     and_then (register_caveat ExpiryCaveat (Some TTime) (plain_fn TTime) expiry_validator r) (\<lambda>r.
     and_then (register_caveat MethodCaveat (Some TStrings) (plain_fn TStrings) method_validator r) (\<lambda>r.
     and_then (register_caveat PeerBlessingsCaveat (Some TPatterns) (plain_fn TPatterns) peer_validator r) (\<lambda>r.
     register_caveat PublicKeyThirdPartyCaveat (Some TThirdParty) (plain_fn TThirdParty) third_party_validator r))))"

definition std_registry :: "'k caveatRegistry" where
  "std_registry = (case init_registry of Inr r \<Rightarrow> r | Inl _ \<Rightarrow> Map.empty)"

lemma ids_distinct:
  "distinct [ConstCaveat, ExpiryCaveat, MethodCaveat, PeerBlessingsCaveat, PublicKeyThirdPartyCaveat]"
  "distinct [PublicKeyThirdPartyCaveat, PeerBlessingsCaveat, MethodCaveat, ExpiryCaveat, ConstCaveat]"
  by code_simp+

lemma init_registry_ok:
  "init_registry = Inr [ConstCaveat \<mapsto> \<lparr>entry_type = TBool, entry_fn = const_validator\<rparr>,
     ExpiryCaveat \<mapsto> \<lparr>entry_type = TTime, entry_fn = expiry_validator\<rparr>,
     MethodCaveat \<mapsto> \<lparr>entry_type = TStrings, entry_fn = method_validator\<rparr>,
     PeerBlessingsCaveat \<mapsto> \<lparr>entry_type = TPatterns, entry_fn = peer_validator\<rparr>,
     PublicKeyThirdPartyCaveat \<mapsto> \<lparr>entry_type = TThirdParty, entry_fn = third_party_validator\<rparr>]"
  using ids_distinct by (simp add: init_registry_def register_caveat_def plain_fn_def and_then_def)

lemma std_registry_entries:
  "std_registry ConstCaveat = Some \<lparr>entry_type = TBool, entry_fn = const_validator\<rparr>"
  "std_registry ExpiryCaveat = Some \<lparr>entry_type = TTime, entry_fn = expiry_validator\<rparr>"
  "std_registry MethodCaveat = Some \<lparr>entry_type = TStrings, entry_fn = method_validator\<rparr>"
  "std_registry PeerBlessingsCaveat = Some \<lparr>entry_type = TPatterns, entry_fn = peer_validator\<rparr>"
  "std_registry PublicKeyThirdPartyCaveat = Some \<lparr>entry_type = TThirdParty, entry_fn = third_party_validator\<rparr>"
  "x \<notin> {ConstCaveat, ExpiryCaveat, MethodCaveat, PeerBlessingsCaveat, PublicKeyThirdPartyCaveat} \<Longrightarrow> std_registry x = None"
  using ids_distinct by (simp_all add: std_registry_def init_registry_ok)

lemma std_registry_dom:
  "std_registry x = Some e \<Longrightarrow> x = ConstCaveat \<or> x = ExpiryCaveat \<or> x = MethodCaveat \<or>
     x = PeerBlessingsCaveat \<or> x = PublicKeyThirdPartyCaveat"
  by (rule ccontr) (simp add: std_registry_entries(6))

section \<open>The meaning of a caveat\<close>

text \<open>The decoder gives a value of the type asked for.\<close>

fun has_type :: "param_type \<Rightarrow> cav_param \<Rightarrow> bool" where
  "has_type TBool (PBool _) = True"
| "has_type TTime (PTime _) = True"
| "has_type TStrings (PStrings _) = True"
| "has_type TPatterns (PPatterns _) = True"
| "has_type TThirdParty (PThirdParty _) = True"
| "has_type _ _ = False"

definition decode_typed :: "'k cav_env \<Rightarrow> bool" where
  "decode_typed env \<longleftrightarrow> (\<forall>ty bs p. env_decode env ty bs = Some p \<longrightarrow> has_type ty p)"

definition discharge_ok :: "'k cav_env \<Rightarrow> tpParam \<Rightarrow> PublicKeyDischarge \<Rightarrow> bool" where
  "discharge_ok env params d \<longleftrightarrow>
     RemoteDischarges (env_call env) (tp_ID (env_crypto env) params) = Some (Some d) \<and>
     sigPurpose (dSignature d) = dischargePurpose \<and>
     (\<exists>key. tp_discharger (env_crypto env) params = Some key \<and>
        sig_Verify (env_crypto env) (dSignature d) key (d_digest (env_crypto env) (key_hash (env_crypto env) key) d))"

inductive satisfied :: "'k cav_env \<Rightarrow> Caveat \<Rightarrow> bool" for env where
  const: "cavId c = ConstCaveat \<Longrightarrow> env_decode env TBool (ParamVom c) = Some (PBool True) \<Longrightarrow> satisfied env c"
| expiry: "cavId c = ExpiryCaveat \<Longrightarrow> env_decode env TTime (ParamVom c) = Some (PTime t) \<Longrightarrow>
    Timestamp (env_call env) \<le> t \<Longrightarrow> satisfied env c"
| by_method: "cavId c = MethodCaveat \<Longrightarrow> env_decode env TStrings (ParamVom c) = Some (PStrings ms) \<Longrightarrow>
    Method (env_call env) \<in> set ms \<Longrightarrow> satisfied env c"
| peer: "cavId c = PeerBlessingsCaveat \<Longrightarrow> env_decode env TPatterns (ParamVom c) = Some (PPatterns ps) \<Longrightarrow>
    p \<in> set ps \<Longrightarrow> MatchedBy p (local_names (env_call env)) \<Longrightarrow> satisfied env c"
| third: "cavId c = PublicKeyThirdPartyCaveat \<Longrightarrow> env_decode env TThirdParty (ParamVom c) = Some (PThirdParty params) \<Longrightarrow>
    discharge_ok env params d \<Longrightarrow> (\<And>c'. c' \<in> set (dCaveats d) \<Longrightarrow> satisfied env c') \<Longrightarrow> satisfied env c"

inductive_cases satisfied_cases: "satisfied env c"

subsection \<open>The cache of verified discharges\<close>

type_synonym 'k signed = "'k \<times> Signature \<times> byte list"

fun signed_key :: "'k crypto \<Rightarrow> 'k signed \<Rightarrow> byte list" where
  "signed_key cr (key, sig, digest) = sha cr SHA256 (nil_bytes (signatureCacheKey cr digest key sig))"

fun signed_ok :: "'k crypto \<Rightarrow> 'k signed \<Rightarrow> bool" where
  "signed_ok cr (key, sig, digest) \<longleftrightarrow> sig_Verify cr sig key digest"

definition d_sound :: "'k crypto \<Rightarrow> 'k signed set \<Rightarrow> sigCache \<Rightarrow> bool" where
  "d_sound cr U s \<longleftrightarrow> (\<forall>k \<in> set (cache_m s). \<exists>t \<in> U. signed_ok cr t \<and> k = signed_key cr t)"

text \<open>The signatures in play: those of the discharges of the call, with every key that can be encoded.\<close>

definition in_play :: "'k cav_env \<Rightarrow> 'k signed set" where
  "in_play env = {(key, dSignature d, d_digest (env_crypto env) (key_hash (env_crypto env) key) d) | key d id.
     marshal_key (env_crypto env) key \<noteq> None \<and> RemoteDischarges (env_call env) id = Some (Some d)}"

definition collision_free :: "'k cav_env \<Rightarrow> 'k signed set \<Rightarrow> bool" where
  "collision_free env U \<longleftrightarrow> in_play env \<subseteq> U \<and> inj_on (signed_key (env_crypto env)) U"

lemma sig_Verify_marshals: "sig_Verify cr sig key m \<Longrightarrow> marshal_key cr key \<noteq> None"
  by (auto simp: sig_Verify_def messageDigest_def split: option.splits)

lemma d_verify_sound:
  assumes "d_sound cr U s" "inj_on (signed_key cr) U"
    "marshal_key cr key \<noteq> None \<Longrightarrow> (key, dSignature d, d_digest cr (key_hash cr key) d) \<in> U"
  shows "fst (d_verify order cr d key s) = None \<longleftrightarrow> sigPurpose (dSignature d) = dischargePurpose \<and>
      sig_Verify cr (dSignature d) key (d_digest cr (key_hash cr key) d)"
    and "d_sound cr U (snd (d_verify order cr d key s))"
proof -
  let ?t = "(key, dSignature d, d_digest cr (key_hash cr key) d)"
  define ck where "ck = signatureCacheKey cr (d_digest cr (key_hash cr key) d) key (dSignature d)"
  have t: "?t \<in> U" if "marshal_key cr key \<noteq> None" using that by (rule assms(3))
  have m: "ck \<noteq> None \<longleftrightarrow> marshal_key cr key \<noteq> None"
    by (auto simp: ck_def signatureCacheKey_def Let_def split: option.splits)
  have key: "signed_key cr ?t = sha cr SHA256 (nil_bytes ck)" by (simp add: ck_def)
  have hit: "signed_ok cr ?t" if c: "ck \<noteq> None" and v: "sigCache_verify cr s (nil_bytes ck)"
  proof -
    obtain u where "u \<in> U" "signed_ok cr u" "signed_key cr ?t = signed_key cr u"
      using v assms(1) unfolding key sigCache_verify_def d_sound_def by blast
    moreover have "?t \<in> U" using c m t by blast
    ultimately show ?thesis using assms(2) by (metis inj_onD)
  qed
  show "fst (d_verify order cr d key s) = None \<longleftrightarrow> sigPurpose (dSignature d) = dischargePurpose \<and>
      sig_Verify cr (dSignature d) key (d_digest cr (key_hash cr key) d)"
    using hit by (auto simp: d_verify_def Let_def simp flip: ck_def)
  have "d_sound cr U (sigCache_cache order cr [nil_bytes ck] s)" if "signed_ok cr ?t"
  proof -
    have "?t \<in> U" using that t sig_Verify_marshals by fastforce
    moreover have "k = signed_key cr ?t \<or> k \<in> set (cache_m s)"
      if "k \<in> set (cache_m (sigCache_cache order cr [nil_bytes ck] s))" for k
      using that set_sigCache_cache [of order cr "[nil_bytes ck]" s] unfolding key by auto
    ultimately show ?thesis using assms(1) that unfolding d_sound_def by blast
  qed
  with assms(1) show "d_sound cr U (snd (d_verify order cr d key s))"
    by (auto simp: d_verify_def Let_def simp flip: ck_def)
qed

subsection \<open>Validation computes the meaning\<close>

lemma third_discharge:
  assumes "collision_free env U" "d_sound (env_crypto env) U s"
    "RemoteDischarges (env_call env) (tp_ID (env_crypto env) params) = Some (Some d)"
    "tp_discharger (env_crypto env) params = Some key"
  shows "fst (d_verify order (env_crypto env) d key s) = None \<longleftrightarrow> discharge_ok env params d"
    and "d_sound (env_crypto env) U (snd (d_verify order (env_crypto env) d key s))"
proof -
  have "(key, dSignature d, d_digest (env_crypto env) (key_hash (env_crypto env) key) d) \<in> U"
    if "marshal_key (env_crypto env) key \<noteq> None"
    using assms(1,3) that by (fastforce simp: collision_free_def in_play_def)
  note v = d_verify_sound [OF assms(2) _ this, of order]
  show "fst (d_verify order (env_crypto env) d key s) = None \<longleftrightarrow> discharge_ok env params d"
    using v(1) assms(1,3,4) by (auto simp: collision_free_def discharge_ok_def)
  show "d_sound (env_crypto env) U (snd (d_verify order (env_crypto env) d key s))"
    using v(2) assms(1) by (simp add: collision_free_def)
qed

lemma validate_list_sound:
  assumes "validate_list again cs s = Some (None, s')" "I s"
    "\<And>c s s'. again c s = Some (None, s') \<Longrightarrow> I s \<Longrightarrow> Q c \<and> I s'"
  shows "(\<forall>c \<in> set cs. Q c) \<and> I s'"
  using assms(1,2)
proof (induction cs arbitrary: s)
  case (Cons c cs)
  from Cons.prems(1) obtain s1 where "again c s = Some (None, s1)" "validate_list again cs s1 = Some (None, s')"
    by (auto split: option.splits prod.splits)
  with Cons.IH assms(3) Cons.prems(2) show ?case by fastforce
qed simp

lemma validate_list_complete:
  assumes "\<And>c s. c \<in> set cs \<Longrightarrow> I s \<Longrightarrow> \<exists>s'. again c s = Some (None, s') \<and> I s'" "I s"
  shows "\<exists>s'. validate_list again cs s = Some (None, s') \<and> I s'"
  using assms
proof (induction cs arbitrary: s)
  case (Cons c cs)
  obtain s1 where "again c s = Some (None, s1)" "I s1" using Cons.prems by fastforce
  with Cons.IH [of s1] Cons.prems(1) show ?case by fastforce
qed simp

lemma registry_validate_sound:
  assumes "decode_typed env" "collision_free env U" "d_sound (env_crypto env) U s"
    "registry_validate std_registry env again cav s = Some (None, s')"
    "\<And>c s s'. again c s = Some (None, s') \<Longrightarrow> d_sound (env_crypto env) U s \<Longrightarrow>
       satisfied env c \<and> d_sound (env_crypto env) U s'"
  shows "satisfied env cav \<and> d_sound (env_crypto env) U s'"
proof -
  obtain entry param where e: "std_registry (cavId cav) = Some entry"
    and p: "env_decode env (entry_type entry) (ParamVom cav) = Some param"
    and fn: "entry_fn entry env again param s = Some (None, s')"
    using assms(4) by (auto simp: registry_validate_def split: option.splits prod.splits)
  have ty: "has_type (entry_type entry) param" using assms(1) p by (auto simp: decode_typed_def)
  from e consider "cavId cav = ConstCaveat" | "cavId cav = ExpiryCaveat" | "cavId cav = MethodCaveat"
    | "cavId cav = PeerBlessingsCaveat" | "cavId cav = PublicKeyThirdPartyCaveat"
    using std_registry_dom by blast
  then show ?thesis
  proof cases
    case 5
    then have entry: "entry = \<lparr>entry_type = TThirdParty, entry_fn = third_party_validator\<rparr>"
      using e by (simp add: std_registry_entries)
    then obtain params where params: "param = PThirdParty params" using ty by (cases param) simp_all
    obtain d key s1 where d: "RemoteDischarges (env_call env) (tp_ID (env_crypto env) params) = Some (Some d)"
      "tp_discharger (env_crypto env) params = Some key"
      "d_verify (env_order env) (env_crypto env) d key s = (None, s1)"
      "validate_list again (dCaveats d) s1 = Some (None, s')"
      using fn by (auto simp: entry params Let_def split: option.splits prod.splits)
    have ok: "discharge_ok env params d" "d_sound (env_crypto env) U s1"
      using third_discharge [OF assms(2,3) d(1,2), of "env_order env"] d(3) by simp_all
    have "(\<forall>c \<in> set (dCaveats d). satisfied env c) \<and> d_sound (env_crypto env) U s'"
      by (rule validate_list_sound [where I = "d_sound (env_crypto env) U" and Q = "satisfied env", OF d(4) ok(2)])
        (rule assms(5))
    moreover have "satisfied env cav" if "\<forall>c \<in> set (dCaveats d). satisfied env c"
      by (rule satisfied.third [OF 5 _ ok(1)]) (use that p entry params in simp_all)
    ultimately show ?thesis by blast
  qed (use e p fn ty assms(3) in
    \<open>cases param; auto simp: std_registry_entries Let_def list_ex_iff split: if_splits intro: satisfied.intros\<close>)+
qed

lemma caveat_validate_sound:
  assumes "decode_typed env" "collision_free env U"
  shows "validate n std_registry env cav s = Some (None, s') \<Longrightarrow> d_sound (env_crypto env) U s \<Longrightarrow>
    satisfied env cav \<and> d_sound (env_crypto env) U s'"
proof (induction n arbitrary: cav s s')
  case (Suc n)
  show ?case
    by (rule registry_validate_sound [OF assms Suc.prems(2) Suc.prems(1)[unfolded validate.simps]]) (rule Suc.IH)
qed simp

text \<open>A satisfied caveat validates with all sufficiently large fuel.\<close>

lemma registry_validate_third:
  assumes "cavId c = PublicKeyThirdPartyCaveat" "env_decode env TThirdParty (ParamVom c) = Some (PThirdParty params)"
    "RemoteDischarges (env_call env) (tp_ID (env_crypto env) params) = Some (Some d)"
    "tp_discharger (env_crypto env) params = Some key"
    "d_verify (env_order env) (env_crypto env) d key s = (None, s1)"
  shows "registry_validate std_registry env again c s =
    (case validate_list again (dCaveats d) s1 of
       None \<Rightarrow> None
     | Some (None, s2) \<Rightarrow> Some (None, s2)
     | Some (Some (cav, err), s2) \<Rightarrow> Some (Some (CaveatValidation (FailedDischarge cav err)), s2))"
  using assms by (auto simp: registry_validate_def std_registry_entries Let_def split: option.splits prod.splits)

lemma uniform_bound:
  assumes "\<And>c. c \<in> set cs \<Longrightarrow> \<exists>N. \<forall>n \<ge> N. P c n"
  shows "\<exists>N :: nat. \<forall>c \<in> set cs. \<forall>n \<ge> N. P c n"
  using assms
proof (induction cs)
  case (Cons c cs)
  obtain N where "\<forall>c \<in> set cs. \<forall>n \<ge> N. P c n" using Cons by (metis list.set_intros(2))
  moreover obtain M where "\<forall>n \<ge> M. P c n" using Cons.prems by (metis list.set_intros(1))
  ultimately have "\<forall>x \<in> set (c # cs). \<forall>n \<ge> max M N. P x n" by auto
  then show ?case by blast
qed simp

lemma validate_complete:
  assumes "collision_free env U"
  shows "satisfied env c \<Longrightarrow> \<exists>N. \<forall>n \<ge> N. \<forall>s. d_sound (env_crypto env) U s \<longrightarrow>
    (\<exists>s'. validate n std_registry env c s = Some (None, s') \<and> d_sound (env_crypto env) U s')"
proof (induction rule: satisfied.induct)
  case (third c params d)
  let ?I = "d_sound (env_crypto env) U"
  obtain N where N: "\<forall>c \<in> set (dCaveats d). \<forall>n \<ge> N. \<forall>s. ?I s \<longrightarrow> (\<exists>s'. validate n std_registry env c s = Some (None, s') \<and> ?I s')"
    using uniform_bound [of "dCaveats d" "\<lambda>c n. \<forall>s. ?I s \<longrightarrow>
      (\<exists>s'. validate n std_registry env c s = Some (None, s') \<and> ?I s')"] third.IH by blast
  obtain key where d: "RemoteDischarges (env_call env) (tp_ID (env_crypto env) params) = Some (Some d)"
    "tp_discharger (env_crypto env) params = Some key"
    using third.hyps(3) by (auto simp: discharge_ok_def)
  have "\<exists>s'. validate n std_registry env c s = Some (None, s') \<and> ?I s'" if n: "Suc N \<le> n" and s: "?I s" for n s
  proof -
    obtain m where m: "n = Suc m" "N \<le> m" using n by (cases n) simp_all
    obtain s1 where v: "d_verify (env_order env) (env_crypto env) d key s = (None, s1)" "?I s1"
      using third_discharge [OF assms s d, of "env_order env"] third.hyps(3)
      by (cases "d_verify (env_order env) (env_crypto env) d key s") simp
    obtain s2 where "validate_list (validate m std_registry env) (dCaveats d) s1 = Some (None, s2)" "?I s2"
      using validate_list_complete [of "dCaveats d" ?I "validate m std_registry env" s1] N m(2) v(2) by blast
    then show ?thesis
      using registry_validate_third [OF third.hyps(1,2) d v(1), of "validate m std_registry env"] by (simp add: m(1))
  qed
  then show ?case by blast
qed (rule exI [of _ "Suc 0"], rule allI, rename_tac n, case_tac n,
  auto simp: registry_validate_def std_registry_entries Let_def list_ex_iff)+

subsection \<open>Fuel\<close>

lemma validate_list_mono:
  assumes "\<And>c s r. again c s = Some r \<Longrightarrow> again' c s = Some r"
  shows "validate_list again cs s = Some r \<Longrightarrow> validate_list again' cs s = Some r"
proof (induction cs arbitrary: s)
  case (Cons c cs)
  then show ?case using assms by (auto split: option.splits prod.splits)
qed simp

definition ranked :: "'k cav_env \<Rightarrow> (Caveat \<Rightarrow> nat) \<Rightarrow> bool" where
  "ranked env rank \<longleftrightarrow> (\<forall>c params d c'.
     cavId c = PublicKeyThirdPartyCaveat \<longrightarrow> env_decode env TThirdParty (ParamVom c) = Some (PThirdParty params) \<longrightarrow>
     RemoteDischarges (env_call env) (tp_ID (env_crypto env) params) = Some (Some d) \<longrightarrow> c' \<in> set (dCaveats d) \<longrightarrow>
     rank c' < rank c)"

lemma validate_list_total:
  assumes "\<And>c s. c \<in> set cs \<Longrightarrow> \<exists>r. again c s = Some r"
  shows "\<exists>r. validate_list again cs s = Some r"
  using assms
proof (induction cs arbitrary: s)
  case (Cons c cs)
  obtain e s1 where "again c s = Some (e, s1)" using Cons.prems [of c s] by auto
  with Cons show ?case by (cases e) auto
qed simp

lemma plain_total:
  assumes "std_registry x = Some e" "x \<noteq> PublicKeyThirdPartyCaveat" "has_type (entry_type e) p"
  shows "entry_fn e env again p s \<noteq> None"
  using std_registry_dom [OF assms(1)] assms by (cases p) (auto simp: std_registry_entries Let_def)

lemma validate_total:
  assumes "decode_typed env" "ranked env rank"
  shows "rank c < n \<Longrightarrow> \<exists>r. validate n std_registry env c s = Some r"
proof (induction n arbitrary: c s)
  case (Suc n)
  have list: "validate_list (validate n std_registry env) (dCaveats d) s \<noteq> None"
    if "cavId c = PublicKeyThirdPartyCaveat" "env_decode env TThirdParty (ParamVom c) = Some (PThirdParty params)"
      "RemoteDischarges (env_call env) (tp_ID (env_crypto env) params) = Some (Some d)" for params d s
  proof -
    have "\<exists>r. validate n std_registry env c' s = Some r" if "c' \<in> set (dCaveats d)" for c' s
    proof -
      have "rank c' < rank c" using assms(2) that \<open>cavId c = PublicKeyThirdPartyCaveat\<close>
        \<open>env_decode env TThirdParty (ParamVom c) = Some (PThirdParty params)\<close>
        \<open>RemoteDischarges (env_call env) (tp_ID (env_crypto env) params) = Some (Some d)\<close>
        unfolding ranked_def by blast
      with Suc show ?thesis by simp
    qed
    from validate_list_total [of "dCaveats d", OF this] show ?thesis by auto
  qed
  show ?case
  proof (cases "cavId c = PublicKeyThirdPartyCaveat")
    case True
    show ?thesis
    proof (cases "env_decode env TThirdParty (ParamVom c)")
      case None
      with True show ?thesis by (simp add: registry_validate_def std_registry_entries)
    next
      case (Some p)
      then have "has_type TThirdParty p" using assms(1) unfolding decode_typed_def by blast
      then obtain params where p: "p = PThirdParty params" by (cases p) simp_all
      show ?thesis
        using True Some p
        by (auto simp: registry_validate_def std_registry_entries Let_def split: option.splits prod.splits
            dest: list [OF True Some [unfolded p]])
    qed
  next
    case False
    then have total: "entry_fn e env again p s \<noteq> None"
      if "std_registry (cavId c) = Some e" "env_decode env (entry_type e) (ParamVom c) = Some p" for e p again
      using plain_total [OF that(1)] assms(1) that(2) unfolding decode_typed_def by blast
    show ?thesis by (auto simp: registry_validate_def split: option.splits prod.splits dest: total)
  qed
qed simp

lemma third_party_mono:
  assumes "\<And>c s r. again c s = Some r \<Longrightarrow> again' c s = Some r" "third_party_validator env again p s = Some r"
  shows "third_party_validator env again' p s = Some r"
proof (cases p)
  case (PThirdParty params)
  have "validate_list again cs s' = Some r \<Longrightarrow> validate_list again' cs s' = Some r" for cs s' r
    by (rule validate_list_mono [OF assms(1)])
  with assms(2) PThirdParty show ?thesis
    by (auto simp: Let_def split: option.splits prod.splits)
qed (use assms(2) in simp_all)

lemma registry_validate_mono:
  assumes "\<And>c s r. again c s = Some r \<Longrightarrow> again' c s = Some r"
    "registry_validate std_registry env again c s = Some r"
  shows "registry_validate std_registry env again' c s = Some r"
proof -
  have "entry_fn e env again' p s = Some r" if "std_registry (cavId c) = Some e" "entry_fn e env again p s = Some r" for e p r
    using std_registry_dom [OF that(1)]
  proof (elim disjE)
    assume "cavId c = PublicKeyThirdPartyCaveat"
    with that have "third_party_validator env again p s = Some r" "e = \<lparr>entry_type = TThirdParty, entry_fn = third_party_validator\<rparr>"
      by (auto simp: std_registry_entries)
    with third_party_mono [of again again', OF assms(1)] show ?thesis by simp
  qed (use that in \<open>cases p; simp add: std_registry_entries; auto\<close>)+
  with assms(2) show ?thesis by (fastforce simp: registry_validate_def split: option.splits prod.splits)
qed

lemma validate_Suc: "validate n std_registry env c s = Some r \<Longrightarrow> validate (Suc n) std_registry env c s = Some r"
proof (induction n arbitrary: c s r)
  case (Suc n)
  show ?case
    using registry_validate_mono [of "validate n std_registry env" "validate (Suc n) std_registry env" env c s r] Suc
    by simp
qed simp

lemma validate_more:
  assumes "n \<le> m" "validate n std_registry env c s = Some r"
  shows "validate m std_registry env c s = Some r"
  using assms by (induction rule: dec_induct) (simp_all add: validate_Suc del: validate.simps)

lemma MintDischarge_facts:
  assumes "signer_ok cr sg" "MintDischarge cr sg details c cd cs = Inr d"
  shows "\<exists>v. d = Some v \<and> ThirdPartyCaveatId v = tp_ID cr (details (ParamVom c)) \<and> dCaveats v = cs @ [cd] \<and>
    sigPurpose (dSignature v) = dischargePurpose \<and>
    sig_Verify cr (dSignature v) (signer_key sg) (d_digest cr (key_hash cr (signer_key sg)) v)"
proof -
  define d0 where "d0 = \<lparr>ThirdPartyCaveatId = tp_ID cr (details (ParamVom c)), dCaveats = cs @ [cd], dSignature = zero_Signature\<rparr>"
  from assms(2) obtain sig where
    sign: "signer_Sign cr sg dischargePurpose (d_digest cr (key_hash cr (signer_key sg)) d0) = Some sig"
    and d: "d = Some (d0\<lparr>dSignature := sig\<rparr>)"
    by (auto simp: MintDischarge_def d_sign_def Let_def d0_def split: if_splits option.splits)
  have "d_digest cr h (d0\<lparr>dSignature := sig\<rparr>) = d_digest cr h d0" for h by (simp add: d_digest_def)
  with signer_Sign_verifies [OF assms(1) sign] d show ?thesis by (simp add: d0_def)
qed

section \<open>Properties\<close>


definition sample_tp :: tpParam where
  "sample_tp = \<lparr>Nonce = [7], tpCaveats = [], DischargerKey = [1], DischargerLocation = ''discharger''\<rparr>"

definition sample_tp_caveat :: Caveat where
  "sample_tp_caveat = \<lparr>cavId = PublicKeyThirdPartyCaveat, ParamVom = [3]\<rparr>"

definition sample_const :: Caveat where
  "sample_const = \<lparr>cavId = ConstCaveat, ParamVom = [1]\<rparr>"

definition sample_discharge :: "Caveat \<Rightarrow> PublicKeyDischarge" where
  "sample_discharge c = the (projr (MintDischarge sample_crypto sample_signer (\<lambda>_. sample_tp) sample_tp_caveat c []))"

definition sample_env :: "Caveat \<Rightarrow> byte list cav_env" where
  "sample_env c = \<lparr>env_crypto = sample_crypto, env_order = id,
     env_decode = (\<lambda>ty bs. case ty of
        TBool \<Rightarrow> if bs = [1] then Some (PBool True) else None
      | TThirdParty \<Rightarrow> if bs = [3] then Some (PThirdParty sample_tp) else None
      | _ \<Rightarrow> None),
     env_call = \<lparr>Timestamp = 0, Method = ''Get'', local_names = [],
       RemoteDischarges = [tp_ID sample_crypto sample_tp \<mapsto> Some (sample_discharge c)]\<rparr>\<rparr>"

lemma sample_minted: "MintDischarge sample_crypto sample_signer (\<lambda>_. sample_tp) sample_tp_caveat c []
    = Inr (Some (sample_discharge c))"
proof -
  let ?m = "MintDischarge sample_crypto sample_signer (\<lambda>_. sample_tp) sample_tp_caveat c []"
  have "d_sign sample_crypto sample_signer d \<noteq> None" for d
    using signer_Sign_total [OF sample_ok(3)] by (auto simp: d_sign_def split: option.splits)
  then have "\<exists>d. ?m = Inr (Some d)"
    by (simp add: MintDischarge_def sample_tp_caveat_def Let_def split: option.splits)
  then show ?thesis by (auto simp: sample_discharge_def)
qed

lemma sample_typed: "decode_typed (sample_env c)"
  by (auto simp: decode_typed_def sample_env_def split: param_type.splits if_splits)

lemma sample_discharge_facts:
  "ThirdPartyCaveatId (sample_discharge c) = tp_ID sample_crypto sample_tp" "dCaveats (sample_discharge c) = [c]"
  "sigPurpose (dSignature (sample_discharge c)) = dischargePurpose"
  "sig_Verify sample_crypto (dSignature (sample_discharge c)) [1] (d_digest sample_crypto (key_hash sample_crypto [1]) (sample_discharge c))"
  using MintDischarge_facts [OF sample_ok(2) sample_minted [of c]] by (simp_all add: sample_signer_def)

lemma sample_in_play:
  "collision_free (sample_env c) (in_play (sample_env c))"
proof -
  have "signed_key sample_crypto (key, dSignature (sample_discharge c), d_digest sample_crypto (key_hash sample_crypto key) (sample_discharge c))
      = hsum sample_crypto (key_hash sample_crypto key) key @ sig_digest sample_crypto (key_hash sample_crypto key) (dSignature (sample_discharge c))
        @ d_digest sample_crypto (key_hash sample_crypto key) (sample_discharge c)" for key
    by (simp add: signatureCacheKey_def Let_def nil_bytes_def sample_crypto_def)
  moreover have "key_hash sample_crypto key = SHA256Hash" "hsum sample_crypto SHA256Hash x = x" for key x
    by (simp_all add: key_hash_def sample_crypto_def Let_def hash_sum_def hash_defs nil_bytes_def)
  ultimately show ?thesis
    by (auto simp: collision_free_def in_play_def sample_env_def inj_on_def split: if_splits)
qed


text \<open>C20: Validation terminates when the discharges of the call can be ranked so that every caveat on a
  discharge ranks below the caveats it discharges: fuel above the rank of the caveat is enough, and more
  fuel gives the same answer.\<close>

theorem validate_terminates:
  assumes "decode_typed env" "ranked env rank" "rank c < n"
  shows "\<exists>r. \<forall>m. n \<le> m \<longrightarrow> validate m std_registry env c s = Some r"
  using validate_total [OF assms] validate_more by blast

theorem validate_terminates_witness:
  "\<exists>r. \<forall>m. 2 \<le> m \<longrightarrow> validate m std_registry (sample_env sample_const) sample_tp_caveat empty_sigCache = Some r"
proof -
  have "ranked (sample_env sample_const) (\<lambda>c. if cavId c = PublicKeyThirdPartyCaveat then 1 else 0)"
    using ids_distinct by (auto simp: ranked_def sample_env_def sample_discharge_facts sample_const_def split: if_splits)
  from validate_terminates [OF sample_typed this, of sample_tp_caveat 2 empty_sigCache] show ?thesis
    by (simp add: sample_tp_caveat_def)
qed

text \<open>C34: Validation need not terminate: a discharger can mint, for a third-party caveat, a discharge whose
  caveat is that third-party caveat. With it among the discharges of the call, validating the caveat
  never returns, with any amount of fuel and in any state of the cache: the Go code recurses until its
  stack overflows.\<close>

theorem self_discharge_diverges:
  assumes "signer_ok (env_crypto env) sg"
    "env_decode env TThirdParty (ParamVom c) = Some (PThirdParty (details (ParamVom c)))"
    "tp_discharger (env_crypto env) (details (ParamVom c)) = Some (signer_key sg)"
    "MintDischarge (env_crypto env) sg details c c [] = Inr d"
    "RemoteDischarges (env_call env) (d_ID d) = Some d"
  shows "validate n std_registry env c s = None"
proof -
  have c: "cavId c = PublicKeyThirdPartyCaveat" using assms(4) by (simp add: MintDischarge_def split: if_splits)
  obtain v where v: "d = Some v" "ThirdPartyCaveatId v = tp_ID (env_crypto env) (details (ParamVom c))" "dCaveats v = [c]"
    "sigPurpose (dSignature v) = dischargePurpose"
    "sig_Verify (env_crypto env) (dSignature v) (signer_key sg)
       (d_digest (env_crypto env) (key_hash (env_crypto env) (signer_key sg)) v)"
    using MintDischarge_facts [OF assms(1,4)] by auto
  have rd: "RemoteDischarges (env_call env) (tp_ID (env_crypto env) (details (ParamVom c))) = Some (Some v)"
    using assms(5) v by (simp add: d_ID_def)
  show ?thesis
  proof (induction n arbitrary: s)
    case (Suc n)
    have "fst (d_verify (env_order env) (env_crypto env) v (signer_key sg) s) = None"
      using v(4,5) by (simp add: d_verify_def Let_def)
    then obtain s1 where "d_verify (env_order env) (env_crypto env) v (signer_key sg) s = (None, s1)"
      by (metis prod.collapse)
    from registry_validate_third [OF c assms(2) rd assms(3) this] show ?case by (simp add: v(3) Suc.IH)
  qed simp
qed

theorem self_discharge_diverges_witness:
  "validate 1000 std_registry (sample_env sample_tp_caveat) sample_tp_caveat empty_sigCache = None"
proof (rule self_discharge_diverges [where details = "\<lambda>_. sample_tp" and sg = sample_signer])
  show "signer_ok (env_crypto (sample_env sample_tp_caveat)) sample_signer" by (simp add: sample_env_def sample_ok)
  show "MintDischarge (env_crypto (sample_env sample_tp_caveat)) sample_signer (\<lambda>_. sample_tp) sample_tp_caveat sample_tp_caveat []
      = Inr (Some (sample_discharge sample_tp_caveat))"
    by (simp add: sample_env_def sample_minted)
qed (simp_all add: sample_env_def sample_tp_caveat_def d_ID_def sample_discharge_facts(1) [unfolded sample_tp_caveat_def],
  simp add: tp_discharger_def sample_tp_def sample_crypto_def sample_signer_def)

end
