(* ===== verification/GoUtf8.thy ===== *)
theory GoUtf8
  imports GoPrelude
begin

text \<open>
  Runes: package unicode/utf8 as a \<open>range\<close> loop over a string and \<open>WriteRune\<close> use it. A rune is a natural
  number; what does not decode is one byte and stands for U+FFFD.
\<close>

type_synonym rune = nat

definition RuneError :: rune where
  "RuneError = 65533"

definition is_cont :: "nat \<Rightarrow> bool" where
  "is_cont b \<longleftrightarrow> 128 \<le> b \<and> b < 192"

text \<open>The first rune of a sequence of bytes and the number of bytes it takes.\<close>

fun decode_rune :: "nat list \<Rightarrow> rune \<times> nat" where
  "decode_rune [] = (RuneError, 0)"
| "decode_rune (a # r) =
     (let err = (RuneError, 1) in
      if a < 128 then (a, 1)
      else if 194 \<le> a \<and> a < 224 then
        (case r of b # _ \<Rightarrow> if is_cont b then ((a - 192) * 64 + (b - 128), 2) else err | _ \<Rightarrow> err)
      else if 224 \<le> a \<and> a < 240 then
        (case r of
           b # c # _ \<Rightarrow>
             if is_cont b \<and> is_cont c \<and> (a = 224 \<longrightarrow> 160 \<le> b) \<and> (a = 237 \<longrightarrow> b < 160)
             then ((a - 224) * 4096 + (b - 128) * 64 + (c - 128), 3) else err
         | _ \<Rightarrow> err)
      else if 240 \<le> a \<and> a < 245 then
        (case r of
           b # c # d # _ \<Rightarrow>
             if is_cont b \<and> is_cont c \<and> is_cont d \<and> (a = 240 \<longrightarrow> 144 \<le> b) \<and> (a = 244 \<longrightarrow> b < 144)
             then ((a - 240) * 262144 + (b - 128) * 4096 + (c - 128) * 64 + (d - 128), 4) else err
         | _ \<Rightarrow> err)
      else err)"

definition codes :: "string \<Rightarrow> nat list" where
  "codes s = map of_char s"

definition DecodeRune :: "string \<Rightarrow> rune" where
  "DecodeRune s = fst (decode_rune (codes s))"

lemma decode_rune_width: "bs \<noteq> [] \<Longrightarrow> 1 \<le> snd (decode_rune bs)"
  by (cases bs) (auto simp: Let_def split: list.split)

text \<open>The runes of a \<open>range\<close> loop.\<close>

function rune_list :: "nat list \<Rightarrow> rune list" where
  "rune_list [] = []"
| "rune_list (b # bs) = fst (decode_rune (b # bs)) # rune_list (drop (snd (decode_rune (b # bs)) - 1) bs)"
  by pat_completeness auto
termination
  by (relation "measure length") simp_all

definition runes :: "string \<Rightarrow> rune list" where
  "runes s = rune_list (codes s)"

definition valid_rune :: "rune \<Rightarrow> bool" where
  "valid_rune r \<longleftrightarrow> r < 55296 \<or> 57344 \<le> r \<and> r < 1114112"

definition encode_valid :: "rune \<Rightarrow> nat list" where
  "encode_valid r =
     (if r < 128 then [r]
      else if r < 2048 then [192 + r div 64, 128 + r mod 64]
      else if r < 65536 then [224 + r div 4096, 128 + r div 64 mod 64, 128 + r mod 64]
      else [240 + r div 262144, 128 + r div 4096 mod 64, 128 + r div 64 mod 64, 128 + r mod 64])"

definition encode_rune :: "rune \<Rightarrow> nat list" where
  "encode_rune r = encode_valid (if valid_rune r then r else RuneError)"

text \<open>What \<open>WriteRune\<close> has written for a list of runes.\<close>

definition string_of_runes :: "rune list \<Rightarrow> string" where
  "string_of_runes rs = map char_of (concat (map encode_rune rs))"

lemma RuneError_valid [simp]: "valid_rune RuneError"
  by (simp add: RuneError_def valid_rune_def)

lemma div_4096: "r div 4096 = r div 64 div (64 :: nat)"
  by (simp add: div_mult2_eq [symmetric])

lemma div_262144: "r div 262144 = r div 64 div 64 div (64 :: nat)"
  by (simp add: div_mult2_eq [symmetric])

lemma digits_3: "r = r div 64 div 64 * 4096 + r div 64 mod 64 * 64 + r mod (64 :: nat)"
  using mult_div_mod_eq [of 64 r] mult_div_mod_eq [of 64 "r div 64"] by linarith

lemma digits_4: "r = r div 64 div 64 div 64 * 262144 + r div 64 div 64 mod 64 * 4096 + r div 64 mod 64 * 64 + r mod (64 :: nat)"
  using digits_3 [of r] mult_div_mod_eq [of 64 "r div 64 div 64"] by linarith

text \<open>Decoding the encoding of a rune gives it back, whatever follows.\<close>

lemma is_cont_add [simp]: "is_cont (128 + a) \<longleftrightarrow> a < 64"
  by (auto simp: is_cont_def)

lemma decode_encode_2:
  assumes "128 \<le> r" "r < 2048"
  shows "decode_rune ((192 + r div 64) # (128 + r mod 64) # rest) = (r, 2)"
proof -
  have "2 \<le> r div 64" "r div 64 < 32" using assms by simp_all
  then show ?thesis by (simp add: Let_def)
qed

lemma decode_encode_3:
  assumes "r = n * 4096 + b * 64 + a" "n < 16" "b < 64" "a < 64" "n = 0 \<longrightarrow> 32 \<le> b" "n = 13 \<longrightarrow> b < 32"
  shows "decode_rune ((224 + n) # (128 + b) # (128 + a) # rest) = (r, 3)"
  using assms by (simp add: Let_def)

lemma decode_encode_4:
  assumes "r = n * 262144 + c * 4096 + b * 64 + a" "n < 5" "c < 64" "b < 64" "a < 64" "n = 0 \<longrightarrow> 16 \<le> c" "n = 4 \<longrightarrow> c < 16"
  shows "decode_rune ((240 + n) # (128 + c) # (128 + b) # (128 + a) # rest) = (r, 4)"
  using assms by (simp add: Let_def)

declare decode_rune.simps(2) [simp del]

lemma decode_ascii [simp]: "a < 128 \<Longrightarrow> decode_rune (a # r) = (a, 1)"
  by (simp add: decode_rune.simps(2))

lemma decode_encode_valid:
  assumes "valid_rune r"
  shows "decode_rune (encode_valid r @ rest) = (r, length (encode_valid r))"
proof -
  consider "r < 128" | "128 \<le> r" "r < 2048" | "2048 \<le> r" "r < 65536" | "65536 \<le> r" "r < 1114112"
    using assms by (fastforce simp: valid_rune_def)
  then show ?thesis
  proof cases
    case 1
    then show ?thesis by (simp add: encode_valid_def)
  next
    case 2
    then show ?thesis using decode_encode_2 [OF 2] by (simp add: encode_valid_def)
  next
    case 3
    define q p where "q = r div 64" and "p = q div 64"
    have r: "r = p * 4096 + q mod 64 * 64 + r mod 64" unfolding p_def q_def by (rule digits_3)
    have "p < 16" "p = 0 \<longrightarrow> 32 \<le> q mod 64" "p = 13 \<longrightarrow> q mod 64 < 32"
      using assms 3 r mod_less_divisor [of 64 r] mod_less_divisor [of 64 q] unfolding valid_rune_def by linarith+
    then show ?thesis using decode_encode_3 [OF r] 3 by (simp add: encode_valid_def div_4096 p_def q_def)
  next
    case 4
    define q p n where "q = r div 64" and "p = q div 64" and "n = p div 64"
    have r: "r = n * 262144 + p mod 64 * 4096 + q mod 64 * 64 + r mod 64" unfolding n_def p_def q_def by (rule digits_4)
    have "n < 5" "n = 0 \<longrightarrow> 16 \<le> p mod 64" "n = 4 \<longrightarrow> p mod 64 < 16"
      using 4 r mod_less_divisor [of 64 r] mod_less_divisor [of 64 q] mod_less_divisor [of 64 p] by linarith+
    then show ?thesis using decode_encode_4 [OF r] 4 by (simp add: encode_valid_def div_4096 div_262144 n_def p_def q_def)
  qed
qed

lemma encode_valid_shape:
  assumes "valid_rune r"
  shows "encode_valid r \<noteq> []" "list_all (\<lambda>b. b < 256) (encode_valid r)"
proof -
  have "r < 2048 \<longrightarrow> r div 64 < 32" "r < 65536 \<longrightarrow> r div 4096 < 16" "r div 262144 < 5" "\<And>x. x mod 64 < (64 :: nat)"
    using assms by (auto simp: valid_rune_def div_less_iff_less_mult)
  then show "encode_valid r \<noteq> []" "list_all (\<lambda>b. b < 256) (encode_valid r)"
    by (auto simp: encode_valid_def intro: less_trans)
qed

text \<open>A string is valid UTF-8 when it is the encoding of valid runes; a \<open>range\<close> loop gives these runes back.\<close>

lemma encode_rune_valid: "valid_rune r \<Longrightarrow> encode_rune r = encode_valid r"
  by (simp add: encode_rune_def)

lemma encode_rune_bytes: "list_all (\<lambda>b. b < 256) (encode_rune r)"
  by (simp add: encode_rune_def encode_valid_shape)

lemma rune_list_encode:
  assumes "valid_rune r"
  shows "rune_list (encode_valid r @ bs) = r # rune_list bs"
proof -
  obtain x xs where e: "encode_valid r = x # xs" using encode_valid_shape [OF assms] by (cases "encode_valid r") auto
  have d: "decode_rune (x # xs @ bs) = (r, Suc (length xs))" using decode_encode_valid [OF assms, of bs] e by simp
  then show ?thesis by (simp add: e)
qed

lemma codes_of_bytes: "list_all (\<lambda>b. b < 256) bs \<Longrightarrow> codes (map char_of bs) = bs"
  by (induction bs) (simp_all add: codes_def)

lemma codes_string_of_runes: "codes (string_of_runes rs) = concat (map encode_rune rs)"
proof -
  have "list_all (\<lambda>b. b < 256) (concat (map encode_rune rs))"
    by (induction rs) (simp_all add: encode_rune_bytes)
  then show ?thesis by (simp add: string_of_runes_def codes_of_bytes)
qed

lemma runes_string_of_runes [simp]: "list_all valid_rune rs \<Longrightarrow> runes (string_of_runes rs) = rs"
  unfolding runes_def codes_string_of_runes
  by (induction rs) (simp_all add: encode_rune_valid rune_list_encode)

lemma string_of_runes_append: "string_of_runes (rs @ qs) = string_of_runes rs @ string_of_runes qs"
  by (simp add: string_of_runes_def)

definition valid_utf8 :: "string \<Rightarrow> bool" where
  "valid_utf8 s \<longleftrightarrow> string_of_runes (runes s) = s"

lemma valid_3:
  assumes "224 \<le> a" "a < 240" "is_cont b" "is_cont c" "a = 224 \<longrightarrow> 160 \<le> b" "a = 237 \<longrightarrow> b < 160"
  shows "valid_rune ((a - 224) * 4096 + (b - 128) * 64 + (c - 128))"
proof -
  obtain i j k where e: "a = 224 + i" "b = 128 + j" "c = 128 + k"
    using assms unfolding is_cont_def by (metis le_Suc_ex)
  then have "i < 16" "j < 64" "k < 64" "i = 13 \<longrightarrow> j < 32" using assms by (auto simp: is_cont_def)
  moreover have "i \<le> 12 \<or> i = 13 \<or> 14 \<le> i" by linarith
  ultimately show ?thesis by (auto simp: valid_rune_def e)
qed

lemma valid_4:
  assumes "240 \<le> a" "a < 245" "is_cont b" "is_cont c" "is_cont d" "a = 240 \<longrightarrow> 144 \<le> b" "a = 244 \<longrightarrow> b < 144"
  shows "valid_rune ((a - 240) * 262144 + (b - 128) * 4096 + (c - 128) * 64 + (d - 128))"
proof -
  obtain i j k l where e: "a = 240 + i" "b = 128 + j" "c = 128 + k" "d = 128 + l"
    using assms unfolding is_cont_def by (metis le_Suc_ex)
  then have "i < 5" "j < 64" "k < 64" "l < 64" "i = 0 \<longrightarrow> 16 \<le> j" "i = 4 \<longrightarrow> j < 16" using assms by (auto simp: is_cont_def)
  moreover have "i = 0 \<or> 1 \<le> i \<and> i \<le> 3 \<or> i = 4" using \<open>i < 5\<close> by linarith
  ultimately show ?thesis by (auto simp: valid_rune_def e)
qed

lemma valid_2: "194 \<le> a \<Longrightarrow> a < 224 \<Longrightarrow> is_cont b \<Longrightarrow> valid_rune ((a - 192) * 64 + (b - 128))"
  by (simp add: valid_rune_def is_cont_def) linarith

lemma decode_rune_valid: "valid_rune (fst (decode_rune bs))"
proof (cases bs)
  case (Cons a r)
  have "valid_rune a" if "a < 128" using that by (simp add: valid_rune_def)
  then show ?thesis
    by (simp add: Cons decode_rune.simps(2) Let_def valid_2 valid_3 valid_4 split: list.split)
qed simp

lemma rune_list_valid: "list_all valid_rune (rune_list bs)"
  by (induction bs rule: rune_list.induct) (simp_all add: decode_rune_valid)

lemma runes_valid [simp]: "list_all valid_rune (runes s)"
  by (simp add: runes_def rune_list_valid)

lemma valid_utf8_iff: "valid_utf8 s \<longleftrightarrow> (\<exists>rs. list_all valid_rune rs \<and> s = string_of_runes rs)"
  unfolding valid_utf8_def by (metis runes_string_of_runes runes_valid)

lemma valid_utf8_runes: "valid_utf8 s \<Longrightarrow> string_of_runes (runes s) = s"
  by (simp add: valid_utf8_def)

lemma runes_eq_iff: "valid_utf8 s \<Longrightarrow> list_all valid_rune rs \<Longrightarrow> runes s = rs \<longleftrightarrow> s = string_of_runes rs"
  by (auto dest: valid_utf8_runes)

text \<open>A prefix in bytes is a prefix in runes.\<close>

lemma rune_list_encode_append: "list_all valid_rune rs \<Longrightarrow> rune_list (concat (map encode_rune rs) @ bs) = rs @ rune_list bs"
  by (induction rs) (simp_all add: encode_rune_valid rune_list_encode)

lemma prefix_runes:
  assumes "valid_utf8 p" "prefix p s"
  shows "prefix (runes p) (runes s)"
proof -
  obtain t where "s = string_of_runes (runes p) @ t" using assms by (auto simp: prefix_def valid_utf8_runes)
  then have "codes s = concat (map encode_rune (runes p)) @ codes t"
    using codes_string_of_runes [of "runes p"] by (simp add: codes_def)
  then have "runes s = runes p @ runes t" by (simp add: runes_def rune_list_encode_append rune_list_valid)
  then show ?thesis by (simp add: prefix_def)
qed

text \<open>An ASCII string is valid, and its runes are the codes of its characters.\<close>

lemma rune_list_ascii: "list_all (\<lambda>b. b < 128) bs \<Longrightarrow> rune_list bs = bs"
  by (induction bs) simp_all

lemma encode_rune_ascii: "b < 128 \<Longrightarrow> encode_rune b = [b]"
  by (simp add: encode_rune_def encode_valid_def valid_rune_def)

lemma string_of_runes_ascii: "list_all (\<lambda>b. b < 128) bs \<Longrightarrow> string_of_runes bs = map char_of bs"
  by (induction bs) (simp_all add: string_of_runes_def encode_rune_ascii)

lemma valid_utf8_ascii:
  assumes "list_all (\<lambda>b. b < 128) (codes s)"
  shows "runes s = codes s" "valid_utf8 s"
proof -
  show "runes s = codes s" using assms by (simp add: runes_def rune_list_ascii)
  then show "valid_utf8 s"
    using assms by (simp add: valid_utf8_def string_of_runes_ascii) (simp add: codes_def comp_def)
qed

lemma codes_Cons: "codes (c # s) = of_char c # codes s" and codes_Nil: "codes [] = []"
  by (simp_all add: codes_def)

lemmas ascii_simps = valid_utf8_ascii codes_Cons codes_Nil

end
