(* ===== verification/LikePattern.thy ===== *)
theory LikePattern
  imports GoUtf8
begin

text \<open>
  LIKE patterns: query/pattern/pattern.go.

  The code translates a pattern to the text of a regular expression and leaves matching to package regexp.
  Here the expression is the list of what its text denotes, in order: a rune that \<open>QuoteMeta\<close> has
  escaped, \<open>.\<close> or \<open>.*?\<close>, between \<open>^\<close> and \<open>$\<close>. It is compiled without flags, so that a dot matches every rune but a
  newline, and matching is on the runes of the string; whether a repetition is greedy does not matter
  for whether the whole string matches. The buffers of the code are the rune lists written to them.
\<close>

subsection \<open>Regular expressions\<close>

datatype re_atom = Lit rune | Dot | DotStar

abbreviation newline :: rune where
  "newline \<equiv> 10"

function re_match :: "re_atom list \<Rightarrow> rune list \<Rightarrow> bool" where
  "re_match [] rs = (rs = [])"
| "re_match (Lit c # as) rs = (case rs of r # rs' \<Rightarrow> r = c \<and> re_match as rs' | [] \<Rightarrow> False)"
| "re_match (Dot # as) rs = (case rs of r # rs' \<Rightarrow> r \<noteq> newline \<and> re_match as rs' | [] \<Rightarrow> False)"
| "re_match (DotStar # as) rs =
     (re_match as rs \<or> (case rs of r # rs' \<Rightarrow> r \<noteq> newline \<and> re_match (DotStar # as) rs' | [] \<Rightarrow> False))"
  by pat_completeness auto
termination
  by (relation "measure (\<lambda>(as, rs). length as + length rs)") auto

subsection \<open>Parsing\<close>

datatype pattern_error = IllegalEscapeChar | InvalidEscape string

record pattern_state =
  buf :: "re_atom list"
  toBeEscapedBuf :: "rune list"
  prefixSoFar :: string
  foundWildcard :: bool
  escapedMode :: bool

record Pattern =
  regex :: "re_atom list"
  fixedPrefix :: string
  noWildcards :: bool

definition percent :: rune where "percent = 37"
definition underscore :: rune where "underscore = 95"

text \<open>What the code does on a wildcard: the characters that wait are written out, the first time they are the fixed prefix.\<close>

definition wildcard :: "re_atom \<Rightarrow> pattern_state \<Rightarrow> pattern_state" where
  "wildcard a st = st\<lparr>
     buf := buf st @ map Lit (toBeEscapedBuf st) @ [a],
     prefixSoFar := (if foundWildcard st then prefixSoFar st else string_of_runes (toBeEscapedBuf st)),
     foundWildcard := True,
     toBeEscapedBuf := []\<rparr>"

definition literal :: "rune \<Rightarrow> pattern_state \<Rightarrow> pattern_state" where
  "literal c st = st\<lparr>toBeEscapedBuf := toBeEscapedBuf st @ [c]\<rparr>"

text \<open>The body of the loop over the runes of the pattern.\<close>

definition pattern_step :: "rune \<Rightarrow> rune \<Rightarrow> pattern_state \<Rightarrow> pattern_error + pattern_state" where
  "pattern_step escChar c st =
     (if escapedMode st then
        (if c = percent \<or> c = underscore \<or> c = escChar
         then Inr ((literal c st)\<lparr>escapedMode := False\<rparr>)
         else Inl (InvalidEscape (string_of_runes [c])))
      else if c = percent then Inr (wildcard DotStar st)
      else if c = underscore then Inr (wildcard Dot st)
      else if c = escChar \<and> escChar \<noteq> 0 then Inr (st\<lparr>escapedMode := True\<rparr>)
      else Inr (literal c st))"

fun pattern_loop :: "rune \<Rightarrow> rune list \<Rightarrow> pattern_state \<Rightarrow> pattern_error + pattern_state" where
  "pattern_loop escChar [] st = Inr st"
| "pattern_loop escChar (c # cs) st = and_then (pattern_step escChar c st) (pattern_loop escChar cs)"

definition ParseWithEscapeChar :: "string \<Rightarrow> rune \<Rightarrow> pattern_error + Pattern" where
  "ParseWithEscapeChar pat escChar =
     (if escChar = percent \<or> escChar = underscore then Inl IllegalEscapeChar
      else and_then
        (pattern_loop escChar (runes pat)
          \<lparr>buf = [], toBeEscapedBuf = [], prefixSoFar = [], foundWildcard = False, escapedMode = False\<rparr>)
        (\<lambda>st. if escapedMode st then Inl (InvalidEscape ''<end>'')
              else Inr \<lparr>regex = buf st @ map Lit (toBeEscapedBuf st),
                        fixedPrefix = (if foundWildcard st then prefixSoFar st else string_of_runes (toBeEscapedBuf st)),
                        noWildcards = (\<not> foundWildcard st)\<rparr>))"

definition DefaultEscapeChar :: rune where
  "DefaultEscapeChar = 92"

definition ParsePattern :: "string \<Rightarrow> pattern_error + Pattern" where
  "ParsePattern pat = ParseWithEscapeChar pat DefaultEscapeChar"

definition MatchString :: "Pattern \<Rightarrow> string \<Rightarrow> bool" where
  "MatchString p s = re_match (regex p) (runes s)"

definition FixedPrefix :: "Pattern \<Rightarrow> string \<times> bool" where
  "FixedPrefix p = (fixedPrefix p, noWildcards p)"

text \<open>Escaping; \<open>None\<close> is a panic.\<close>

definition EscapeWithEscapeChar :: "string \<Rightarrow> rune \<Rightarrow> string option" where
  "EscapeWithEscapeChar s escChar =
     (if escChar = 0 \<or> escChar = percent \<or> escChar = underscore then None
      else Some (string_of_runes (concat
        (map (\<lambda>c. if c = percent \<or> c = underscore \<or> c = escChar then [escChar, c] else [c]) (runes s)))))"

definition EscapePattern :: "string \<Rightarrow> string option" where
  "EscapePattern s = EscapeWithEscapeChar s DefaultEscapeChar"

subsection \<open>The meaning of a pattern\<close>

text \<open>
  A pattern denotes a sequence of literal runes and wildcards, and the strings it matches are described
  directly: a string is cut into one piece for each item.
\<close>

fun like_items :: "rune \<Rightarrow> rune list \<Rightarrow> re_atom list option" where
  "like_items e [] = Some []"
| "like_items e (c # cs) =
     (if c = percent then map_option (Cons DotStar) (like_items e cs)
      else if c = underscore then map_option (Cons Dot) (like_items e cs)
      else if c = e \<and> e \<noteq> 0 then
        (case cs of
           [] \<Rightarrow> None
         | d # ds \<Rightarrow> if d = percent \<or> d = underscore \<or> d = e then map_option (Cons (Lit d)) (like_items e ds) else None)
      else map_option (Cons (Lit c)) (like_items e cs))"

definition piece_of :: "rune list \<Rightarrow> re_atom \<Rightarrow> bool" where
  "piece_of p a =
     (case a of
        Lit c \<Rightarrow> p = [c]
      | Dot \<Rightarrow> length p = 1 \<and> newline \<notin> set p
      | DotStar \<Rightarrow> newline \<notin> set p)"

definition like_matches :: "re_atom list \<Rightarrow> rune list \<Rightarrow> bool" where
  "like_matches as rs \<longleftrightarrow> (\<exists>ps. rs = concat ps \<and> list_all2 piece_of ps as)"

lemma like_matches_Nil [simp]: "like_matches [] rs \<longleftrightarrow> rs = []"
  by (auto simp: like_matches_def)

lemma like_matches_Cons:
  "like_matches (a # as) rs \<longleftrightarrow> (\<exists>p qs. rs = p @ qs \<and> piece_of p a \<and> like_matches as qs)"
proof
  assume "like_matches (a # as) rs"
  then obtain ps where "rs = concat ps" "list_all2 piece_of ps (a # as)" by (auto simp: like_matches_def)
  then show "\<exists>p qs. rs = p @ qs \<and> piece_of p a \<and> like_matches as qs"
    by (cases ps) (auto simp: like_matches_def)
next
  assume "\<exists>p qs. rs = p @ qs \<and> piece_of p a \<and> like_matches as qs"
  then obtain p ps where "rs = p @ concat ps" "piece_of p a" "list_all2 piece_of ps as" by (auto simp: like_matches_def)
  then have "rs = concat (p # ps) \<and> list_all2 piece_of (p # ps) (a # as)" by simp
  then show "like_matches (a # as) rs" unfolding like_matches_def by blast
qed

lemma like_matches_Lit: "like_matches (Lit c # as) rs \<longleftrightarrow> (\<exists>qs. rs = c # qs \<and> like_matches as qs)"
  by (auto simp: like_matches_Cons piece_of_def)

lemma like_matches_Dot: "like_matches (Dot # as) rs \<longleftrightarrow> (\<exists>c qs. rs = c # qs \<and> c \<noteq> newline \<and> like_matches as qs)"
proof
  assume "like_matches (Dot # as) rs"
  then show "\<exists>c qs. rs = c # qs \<and> c \<noteq> newline \<and> like_matches as qs"
    by (auto simp: like_matches_Cons piece_of_def length_Suc_conv)
next
  assume "\<exists>c qs. rs = c # qs \<and> c \<noteq> newline \<and> like_matches as qs"
  then obtain c qs where "rs = [c] @ qs" "c \<noteq> newline" "like_matches as qs" by auto
  moreover from this(2) have "piece_of [c] Dot" by (simp add: piece_of_def)
  ultimately show "like_matches (Dot # as) rs" unfolding like_matches_Cons by blast
qed

lemma like_matches_DotStar:
  "like_matches (DotStar # as) rs \<longleftrightarrow>
     like_matches as rs \<or> (\<exists>c qs. rs = c # qs \<and> c \<noteq> newline \<and> like_matches (DotStar # as) qs)"
  (is "?l rs \<longleftrightarrow> ?r")
proof
  assume "?l rs"
  then obtain p qs where p: "rs = p @ qs" "newline \<notin> set p" "like_matches as qs"
    by (auto simp: like_matches_Cons piece_of_def)
  then show ?r
    by (cases p) (auto simp: like_matches_Cons [of DotStar] piece_of_def)
next
  assume ?r
  then consider "like_matches as rs" | c p qs where "rs = c # p @ qs" "c \<noteq> newline" "newline \<notin> set p" "like_matches as qs"
    by (auto simp: like_matches_Cons [of DotStar] piece_of_def)
  then show "?l rs"
  proof cases
    case 1
    then show ?thesis unfolding like_matches_Cons piece_of_def by (intro exI [of _ "[]"] exI [of _ rs]) simp
  next
    case 2
    then show ?thesis unfolding like_matches_Cons piece_of_def by (intro exI [of _ "c # p"] exI [of _ qs]) simp
  qed
qed

lemma re_match_iff: "re_match as rs \<longleftrightarrow> like_matches as rs"
proof (induction as rs rule: re_match.induct)
  case (2 c as rs)
  then show ?case by (cases rs) (auto simp: like_matches_Lit)
next
  case (3 as rs)
  then show ?case by (cases rs) (auto simp: like_matches_Dot)
next
  case (4 as rs)
  show ?case
    unfolding re_match.simps(4) [of as rs] like_matches_DotStar [of as rs] using 4 by (cases rs) simp_all
qed simp

subsection \<open>The parser finds the meaning\<close>

text \<open>The longest prefix of literals, and whether anything follows it.\<close>

fun literal_prefix :: "re_atom list \<Rightarrow> rune list" where
  "literal_prefix (Lit c # as) = c # literal_prefix as"
| "literal_prefix _ = []"

definition all_literal :: "re_atom list \<Rightarrow> bool" where
  "all_literal as \<longleftrightarrow> as = map Lit (literal_prefix as)"

definition finish_items :: "pattern_state \<Rightarrow> re_atom list" where
  "finish_items st = buf st @ map Lit (toBeEscapedBuf st)"

definition state_inv :: "pattern_state \<Rightarrow> bool" where
  "state_inv st \<longleftrightarrow>
     (if foundWildcard st then prefixSoFar st = string_of_runes (literal_prefix (buf st)) \<and> \<not> all_literal (buf st)
      else buf st = [])"

lemma literal_prefix_map [simp]: "literal_prefix (map Lit rs) = rs"
  by (induction rs) simp_all

lemma all_literal_map [simp]: "all_literal (map Lit rs)"
  by (simp add: all_literal_def)

lemma literal_prefix_append:
  "literal_prefix (as @ bs) = (if all_literal as then literal_prefix as @ literal_prefix bs else literal_prefix as)"
  by (induction as rule: literal_prefix.induct) (auto simp: all_literal_def)

lemma all_literal_append: "all_literal (as @ bs) \<longleftrightarrow> all_literal as \<and> all_literal bs"
  by (induction as rule: literal_prefix.induct) (auto simp: all_literal_def)

lemma all_literal_single: "all_literal [a] \<longleftrightarrow> (\<exists>c. a = Lit c)"
  by (cases a) (simp_all add: all_literal_def)

lemma all_literal_Nil [simp]: "all_literal []"
  by (simp add: all_literal_def)

lemma state_inv_wildcard:
  assumes "state_inv st" "\<And>d. a \<noteq> Lit d"
  shows "state_inv (wildcard a st)"
proof -
  have "\<not> all_literal [a]" "literal_prefix [a] = []" using assms(2) by (cases a; auto simp: all_literal_single)+
  then show ?thesis using assms(1)
    by (simp add: state_inv_def wildcard_def literal_prefix_append all_literal_append split: if_splits)
qed

lemma state_inv_other [simp]:
  "state_inv (literal c st) = state_inv st" "state_inv (st\<lparr>escapedMode := e\<rparr>) = state_inv st"
  by (simp_all add: state_inv_def literal_def)

lemma finish_items_step [simp]:
  "finish_items (wildcard a st) = finish_items st @ [a]"
  "finish_items (literal c st) = finish_items st @ [Lit c]"
  "finish_items (st\<lparr>escapedMode := e\<rparr>) = finish_items st"
  by (simp_all add: finish_items_def wildcard_def literal_def)

lemma escapedMode_step [simp]:
  "escapedMode (wildcard a st) = escapedMode st"
  "escapedMode (literal c st) = escapedMode st"
  by (simp_all add: wildcard_def literal_def)

lemma pattern_step_inv:
  assumes "pattern_step e c st = Inr st'" "state_inv st"
  shows "state_inv st'"
  using assms state_inv_wildcard [of st DotStar] state_inv_wildcard [of st Dot]
  by (auto simp: pattern_step_def split: if_splits)

lemma pattern_loop_inv: "pattern_loop e cs st = Inr st' \<Longrightarrow> state_inv st \<Longrightarrow> state_inv st'"
  by (induction cs arbitrary: st) (auto simp: and_then_Inr_iff dest: pattern_step_inv)

text \<open>The loop reads what \<open>like_items\<close> reads; in escaped mode the state stands for an escape character seen.\<close>

definition read_items :: "rune \<Rightarrow> bool \<Rightarrow> rune list \<Rightarrow> re_atom list option" where
  "read_items e esc cs = like_items e (if esc then e # cs else cs)"

lemma pattern_loop_items:
  assumes "e \<noteq> percent" "e \<noteq> underscore" "escapedMode st \<Longrightarrow> e \<noteq> 0"
  shows "(case read_items e (escapedMode st) cs of
            None \<Rightarrow> (\<forall>st'. pattern_loop e cs st = Inr st' \<longrightarrow> escapedMode st')
          | Some as \<Rightarrow> \<exists>st'. pattern_loop e cs st = Inr st' \<and> \<not> escapedMode st' \<and> finish_items st' = finish_items st @ as)"
  using assms(3)
proof (induction cs arbitrary: st)
  case Nil
  then show ?case using assms(1,2) by (auto simp: read_items_def)
next
  case (Cons c cs)
  note ih = Cons.IH [unfolded read_items_def]
  show ?case
  proof (cases "escapedMode st")
    case True
    then show ?thesis using ih [of "(literal c st)\<lparr>escapedMode := False\<rparr>"] assms(1,2) Cons.prems
      by (auto simp: read_items_def pattern_step_def split: option.splits)
  next
    case False
    consider "c = percent" | "c = underscore" | "c = e" "e \<noteq> 0" | "c \<noteq> percent" "c \<noteq> underscore" "\<not> (c = e \<and> e \<noteq> 0)"
      by blast
    then show ?thesis
    proof cases
      case 1
      then show ?thesis using False ih [of "wildcard DotStar st"] by (auto simp: read_items_def pattern_step_def split: option.splits)
    next
      case 2
      then show ?thesis using False ih [of "wildcard Dot st"]
        by (auto simp: read_items_def pattern_step_def percent_def underscore_def split: option.splits)
    next
      case 3
      then show ?thesis using False ih [of "st\<lparr>escapedMode := True\<rparr>"] assms(1,2)
        by (auto simp: read_items_def pattern_step_def split: option.splits)
    next
      case 4
      then show ?thesis using False ih [of "literal c st"] by (auto simp: read_items_def pattern_step_def split: option.splits)
    qed
  qed
qed

definition initial_state :: pattern_state where
  "initial_state = \<lparr>buf = [], toBeEscapedBuf = [], prefixSoFar = [], foundWildcard = False, escapedMode = False\<rparr>"

lemma initial_simps [simp]:
  "\<not> escapedMode initial_state" "finish_items initial_state = []" "state_inv initial_state"
  by (simp_all add: initial_state_def finish_items_def state_inv_def)

definition pattern_of :: "re_atom list \<Rightarrow> Pattern" where
  "pattern_of as = \<lparr>regex = as, fixedPrefix = string_of_runes (literal_prefix as), noWildcards = all_literal as\<rparr>"

lemma finish_pattern:
  assumes "state_inv st"
  shows "\<lparr>regex = buf st @ map Lit (toBeEscapedBuf st),
            fixedPrefix = (if foundWildcard st then prefixSoFar st else string_of_runes (toBeEscapedBuf st)),
            noWildcards = (\<not> foundWildcard st)\<rparr> = pattern_of (finish_items st)"
  using assms by (auto simp: state_inv_def pattern_of_def finish_items_def literal_prefix_append all_literal_append split: if_splits)

text \<open>What \<open>ParseWithEscapeChar\<close> returns, on every input.\<close>

lemma ParseWithEscapeChar_eq:
  "(\<exists>err. ParseWithEscapeChar pat e = Inl err) \<longleftrightarrow> e = percent \<or> e = underscore \<or> like_items e (runes pat) = None"
  "e \<noteq> percent \<Longrightarrow> e \<noteq> underscore \<Longrightarrow> like_items e (runes pat) = Some as \<Longrightarrow> ParseWithEscapeChar pat e = Inr (pattern_of as)"
proof -
  have P: "ParseWithEscapeChar pat e =
      (if e = percent \<or> e = underscore then Inl IllegalEscapeChar
       else and_then (pattern_loop e (runes pat) initial_state)
         (\<lambda>st. if escapedMode st then Inl (InvalidEscape ''<end>'') else
           Inr \<lparr>regex = buf st @ map Lit (toBeEscapedBuf st),
                fixedPrefix = (if foundWildcard st then prefixSoFar st else string_of_runes (toBeEscapedBuf st)),
                noWildcards = (\<not> foundWildcard st)\<rparr>))"
    by (simp add: ParseWithEscapeChar_def initial_state_def)
  have some: "ParseWithEscapeChar pat e = Inr (pattern_of as)"
    if e: "e \<noteq> percent" "e \<noteq> underscore" and items: "like_items e (runes pat) = Some as" for as
  proof -
    obtain st where st: "pattern_loop e (runes pat) initial_state = Inr st" "\<not> escapedMode st" "finish_items st = as"
      using pattern_loop_items [OF e, of initial_state "runes pat"] items by (auto simp: read_items_def)
    have "state_inv st" by (rule pattern_loop_inv [OF st(1)]) simp
    then show ?thesis using st e by (simp add: P finish_pattern)
  qed
  moreover have "\<exists>err. ParseWithEscapeChar pat e = Inl err"
    if e: "e \<noteq> percent" "e \<noteq> underscore" and items: "like_items e (runes pat) = None"
  proof (cases "pattern_loop e (runes pat) initial_state")
    case (Inr st)
    then have "escapedMode st" using pattern_loop_items [OF e, of initial_state "runes pat"] items by (auto simp: read_items_def)
    then show ?thesis using Inr e by (simp add: P)
  qed (use e in \<open>simp add: P\<close>)
  moreover have "ParseWithEscapeChar pat e = Inl IllegalEscapeChar" if "e = percent \<or> e = underscore" using that by (simp add: P)
  ultimately show "(\<exists>err. ParseWithEscapeChar pat e = Inl err) \<longleftrightarrow> e = percent \<or> e = underscore \<or> like_items e (runes pat) = None"
    "e \<noteq> percent \<Longrightarrow> e \<noteq> underscore \<Longrightarrow> like_items e (runes pat) = Some as \<Longrightarrow> ParseWithEscapeChar pat e = Inr (pattern_of as)"
    by (cases "like_items e (runes pat)"; metis Inl_Inr_False)+
qed

lemma ParseWithEscapeChar_Inr:
  assumes "ParseWithEscapeChar pat e = Inr p"
  obtains as where "like_items e (runes pat) = Some as" "p = pattern_of as"
proof -
  have e: "e \<noteq> percent" "e \<noteq> underscore" "like_items e (runes pat) \<noteq> None"
    using ParseWithEscapeChar_eq(1) [of pat e] assms by auto
  then show thesis using ParseWithEscapeChar_eq(2) [of e pat] assms by (auto intro: that)
qed

subsection \<open>Fixed prefixes\<close>

lemma like_matches_prefix: "like_matches as rs \<Longrightarrow> \<exists>qs. rs = literal_prefix as @ qs"
proof (induction as arbitrary: rs rule: literal_prefix.induct)
  case (1 c as)
  then obtain qs where "rs = c # qs" "like_matches as qs" by (auto simp: like_matches_Lit)
  then show ?case using 1(1) by fastforce
qed simp_all

lemma like_matches_literals [simp]: "like_matches (map Lit cs) rs \<longleftrightarrow> rs = cs"
  by (induction cs arbitrary: rs) (auto simp: like_matches_Lit)

lemma like_matches_literals_append: "like_matches (map Lit cs @ as) rs \<longleftrightarrow> (\<exists>qs. rs = cs @ qs \<and> like_matches as qs)"
  by (induction cs arbitrary: rs) (auto simp: like_matches_Lit)

text \<open>The prefix of a matching string, for every pattern the parser can make.\<close>

lemma pattern_of_prefix:
  assumes "MatchString (pattern_of as) s" "valid_utf8 s"
  shows "prefix (fixedPrefix (pattern_of as)) s"
proof -
  have "like_matches as (runes s)" using assms(1) by (simp add: MatchString_def pattern_of_def re_match_iff)
  then obtain qs where "runes s = literal_prefix as @ qs" using like_matches_prefix by blast
  then have "s = string_of_runes (literal_prefix as @ qs)" using valid_utf8_runes [OF assms(2)] by simp
  then show ?thesis by (simp add: pattern_of_def string_of_runes_append)
qed

lemma like_items_valid:
  "like_items e cs = Some as \<Longrightarrow> list_all valid_rune cs \<Longrightarrow> list_all valid_rune (literal_prefix as)"
  by (induction e cs arbitrary: as rule: like_items.induct) (auto split: if_splits list.splits)

subsection \<open>Escaping\<close>

definition escape_runes :: "rune \<Rightarrow> rune list \<Rightarrow> rune list" where
  "escape_runes e rs = concat (map (\<lambda>c. if c = percent \<or> c = underscore \<or> c = e then [e, c] else [c]) rs)"

lemma like_items_escape_runes:
  assumes "e \<noteq> 0" "e \<noteq> percent" "e \<noteq> underscore"
  shows "like_items e (escape_runes e rs @ cs) = map_option (\<lambda>as. map Lit rs @ as) (like_items e cs)"
proof (induction rs)
  case Nil
  then show ?case by (simp add: escape_runes_def option.map_ident)
next
  case (Cons c rs)
  have eq: "escape_runes e (c # rs) @ cs =
      (if c = percent \<or> c = underscore \<or> c = e then [e, c] else [c]) @ escape_runes e rs @ cs"
    by (simp add: escape_runes_def)
  show ?case unfolding eq using assms Cons.IH by (auto simp: option.map_comp comp_def)
qed

lemma escape_runes_valid: "valid_rune e \<Longrightarrow> list_all valid_rune rs \<Longrightarrow> list_all valid_rune (escape_runes e rs)"
  by (induction rs) (auto simp: escape_runes_def)

lemma string_of_ascii: "c < 128 \<Longrightarrow> string_of_runes [c] = [char_of c]"
  by (simp add: string_of_runes_def encode_rune_def encode_valid_def valid_rune_def)

lemma string_of_percent: "string_of_runes [percent] = ''%''"
proof -
  have "(char_of (37 :: nat) :: char) = CHR ''%''" by code_simp
  then show ?thesis by (simp add: string_of_ascii percent_def)
qed

lemma EscapeWithEscapeChar_Some:
  "EscapeWithEscapeChar s e = Some t \<longleftrightarrow> e \<noteq> 0 \<and> e \<noteq> percent \<and> e \<noteq> underscore \<and> t = string_of_runes (escape_runes e (runes s))"
  by (auto simp: EscapeWithEscapeChar_def escape_runes_def)

lemma FixedPrefix_facts:
  assumes "ParseWithEscapeChar pat e = Inr p" "valid_utf8 s"
  shows "(MatchString p s \<longrightarrow> prefix (fst (FixedPrefix p)) s) \<and>
    (snd (FixedPrefix p) \<longrightarrow> MatchString p s = (s = fst (FixedPrefix p)))"
proof -
  obtain as where as: "like_items e (runes pat) = Some as" "p = pattern_of as"
    by (rule ParseWithEscapeChar_Inr [OF assms(1)])
  have v: "list_all valid_rune (literal_prefix as)" by (rule like_items_valid [OF as(1)]) simp
  have m: "MatchString p s \<longleftrightarrow> like_matches as (runes s)" by (simp add: MatchString_def as pattern_of_def re_match_iff)
  have "prefix (string_of_runes (literal_prefix as)) s" if "like_matches as (runes s)"
    using pattern_of_prefix [of as s] that m assms(2) by (simp add: as pattern_of_def)
  moreover have "like_matches as (runes s) \<longleftrightarrow> s = string_of_runes (literal_prefix as)" if "all_literal as"
  proof -
    have "like_matches as (runes s) \<longleftrightarrow> runes s = literal_prefix as"
      using that like_matches_literals [of "literal_prefix as" "runes s"] by (simp add: all_literal_def)
    then show ?thesis using runes_eq_iff [OF assms(2) v] by simp
  qed
  ultimately show ?thesis by (simp add: m FixedPrefix_def) (simp add: as pattern_of_def)
qed

subsection \<open>Properties\<close>


text \<open>
  \<open>FixedPrefix\<close> keeps its promise on strings in UTF-8: a string that a pattern matches starts with the fixed
  prefix, and a pattern without wildcards matches its fixed prefix and nothing else, so that
  the query checker may replace it by a comparison.
\<close>

theorem FixedPrefix_promise:
  assumes "ParseWithEscapeChar pat e = Inr p" "valid_utf8 s"
  shows "(MatchString p s \<longrightarrow> prefix (fst (FixedPrefix p)) s) \<and>
    (snd (FixedPrefix p) \<longrightarrow> MatchString p s = (s = fst (FixedPrefix p)))"
  using assms by (rule FixedPrefix_facts)

text \<open>
  Escaping is undone by parsing: for an escape character that can be one, an escaped string parses to a
  pattern without wildcards whose fixed prefix is the string.
\<close>

theorem Escape_roundtrip:
  assumes "EscapeWithEscapeChar s e = Some t" "valid_rune e" "valid_utf8 s"
  shows "\<exists>p. ParseWithEscapeChar t e = Inr p \<and> FixedPrefix p = (s, True)"
proof -
  have e: "e \<noteq> 0" "e \<noteq> percent" "e \<noteq> underscore" and t: "t = string_of_runes (escape_runes e (runes s))"
    using assms(1) by (simp_all add: EscapeWithEscapeChar_Some)
  have "runes t = escape_runes e (runes s)" by (simp add: t escape_runes_valid assms(2))
  then have "like_items e (runes t) = Some (map Lit (runes s))" using like_items_escape_runes [OF e, of "runes s" "[]"] by simp
  from ParseWithEscapeChar_eq(2) [OF e(2,3) this] show ?thesis
    by (simp add: FixedPrefix_def pattern_of_def valid_utf8_runes [OF assms(3)])
qed

text \<open>
  The pattern that \<open>RowPrefixPattern\<close> of syncbase makes, an escaped prefix and \<open>%\<close>, matches a string in UTF-8 exactly when
  it starts with the prefix and has no newline after it.
\<close>

theorem prefix_pattern_matches:
  assumes "EscapePattern pre = Some t" "valid_utf8 pre" "valid_utf8 s"
  shows "\<exists>p. ParsePattern (t @ ''%'') = Inr p \<and>
    (MatchString p s \<longleftrightarrow> prefix pre s \<and> newline \<notin> set (drop (length (runes pre)) (runes s)))"
proof -
  let ?e = DefaultEscapeChar
  have e: "?e \<noteq> 0" "?e \<noteq> percent" "?e \<noteq> underscore" "valid_rune ?e"
    by (simp_all add: DefaultEscapeChar_def percent_def underscore_def valid_rune_def)
  have "t @ ''%'' = string_of_runes (escape_runes ?e (runes pre) @ [percent])"
    using assms(1) by (simp add: EscapePattern_def EscapeWithEscapeChar_Some string_of_runes_append string_of_percent)
  moreover have "list_all valid_rune (escape_runes ?e (runes pre) @ [percent])"
    by (simp add: escape_runes_valid e(4)) (simp add: percent_def valid_rune_def)
  ultimately have r: "runes (t @ ''%'') = escape_runes ?e (runes pre) @ [percent]" by (metis runes_string_of_runes)
  have "like_items ?e (runes (t @ ''%'')) = Some (map Lit (runes pre) @ [DotStar])"
    using like_items_escape_runes [OF e(1-3), of "runes pre" "[percent]"] by (simp add: r)
  from ParseWithEscapeChar_eq(2) [OF e(2,3) this]
  have p: "ParsePattern (t @ ''%'') = Inr (pattern_of (map Lit (runes pre) @ [DotStar]))" by (simp add: ParsePattern_def)
  have star: "like_matches [DotStar] qs \<longleftrightarrow> newline \<notin> set qs" for qs
    by (auto simp: like_matches_Cons piece_of_def)
  have "(\<exists>qs. runes s = runes pre @ qs \<and> newline \<notin> set qs) \<longleftrightarrow> prefix pre s \<and> newline \<notin> set (drop (length (runes pre)) (runes s))"
  proof (intro iffI conjI)
    assume "\<exists>qs. runes s = runes pre @ qs \<and> newline \<notin> set qs"
    then obtain qs where qs: "runes s = runes pre @ qs" "newline \<notin> set qs" by blast
    have "string_of_runes (runes s) = pre @ string_of_runes qs"
      by (simp add: qs(1) string_of_runes_append valid_utf8_runes [OF assms(2)])
    then show "prefix pre s" by (simp add: valid_utf8_runes [OF assms(3)])
    show "newline \<notin> set (drop (length (runes pre)) (runes s))" using qs by simp
  next
    assume h: "prefix pre s \<and> newline \<notin> set (drop (length (runes pre)) (runes s))"
    have "prefix (runes pre) (runes s)" by (rule prefix_runes) (use h assms in auto)
    then show "\<exists>qs. runes s = runes pre @ qs \<and> newline \<notin> set qs" using h by (auto simp: prefix_def)
  qed
  then show ?thesis using p by (simp add: MatchString_def pattern_of_def re_match_iff like_matches_literals_append star)
qed

lemmas pattern_simps = ParseWithEscapeChar_def pattern_step_def percent_def underscore_def wildcard_def literal_def
  ascii_simps string_of_runes_ascii pattern_of_def


theorem FixedPrefix_promise_witness:
  "MatchString (pattern_of [Lit 97, DotStar]) ''ab'' \<and> prefix ''a'' ''ab''"
proof -
  have "MatchString (pattern_of [Lit 97, DotStar]) ''ab''" by (simp add: MatchString_def pattern_simps)
  moreover have "ParseWithEscapeChar ''a%'' 94 = Inr (pattern_of [Lit 97, DotStar])" by (simp add: pattern_simps all_literal_def)
  moreover have "fst (FixedPrefix (pattern_of [Lit 97, DotStar])) = ''a''"
    using string_of_runes_ascii [of "[97]"] by (simp add: FixedPrefix_def pattern_simps) code_simp
  ultimately show ?thesis using \<open>MatchString _ _\<close> FixedPrefix_promise [of "''a%''" 94 "pattern_of [Lit 97, DotStar]" "''ab''"]
    by (simp add: ascii_simps)
qed

theorem Escape_roundtrip_witness:
  "\<exists>p. ParseWithEscapeChar ''a^%^^'' 94 = Inr p \<and> FixedPrefix p = (''a%^'', True)"
proof (rule Escape_roundtrip)
  show "EscapeWithEscapeChar ''a%^'' 94 = Some ''a^%^^''"
    by (simp add: EscapeWithEscapeChar_def pattern_simps) code_simp
qed (simp_all add: valid_rune_def ascii_simps)

theorem prefix_pattern_matches_witness:
  "\<exists>p. ParsePattern (''a'' @ ''%'') = Inr p \<and>
    (MatchString p ''ab'' \<longleftrightarrow> prefix ''a'' ''ab'' \<and> newline \<notin> set (drop (length (runes ''a'')) (runes ''ab'')))"
proof (rule prefix_pattern_matches)
  show "EscapePattern ''a'' = Some ''a''"
    by (simp add: EscapePattern_def DefaultEscapeChar_def EscapeWithEscapeChar_def pattern_simps) code_simp
qed (simp_all add: ascii_simps)

end
