(* ===== verification/QueryParser.thy ===== *)
theory QueryParser
  imports LikePattern
begin

text \<open>
  The parser of the query language: query/engine/internal/query_parser/query_parser.go.

  The input is the sequence of tokens that \<open>text/scanner\<close> delivers, each with its class, text, offset and
  whether an error has been counted so far, followed by the end-of-input token for ever. From there on
  everything is modelled: \<open>scanToken\<close>, the recursive-descent parser with its errors, and the substitution
  of values for parameter markers. A parser returns a syntax error, or a tree, the token after it and the
  scanner; its recursion is bounded by fuel, \<open>None\<close> when it runs out. \<open>Parse_returns\<close> shows that fuel linear in the
  number of tokens is enough, so that \<open>None\<close> never is the answer of \<open>Parse\<close>. \<open>strconv.ParseFloat\<close> is a
  parameter; values of floats are their bits.
\<close>

subsection \<open>The standard library\<close>

text \<open>
  \<open>strings.ToLower\<close> for comparison with a word in ASCII: the only letters beyond ASCII whose lower case is
  in ASCII are the Kelvin sign (in UTF-8 E2 84 AA) and the dotted capital I (C4 B0).
\<close>

definition lower_char :: "char \<Rightarrow> char" where
  "lower_char c = (if CHR ''A'' \<le> c \<and> c \<le> CHR ''Z'' then char_of (of_char c + 32 :: nat) else c)"

fun to_lower :: "string \<Rightarrow> string" where
  "to_lower [] = []"
| "to_lower (c # s) =
     (if c = CHR 0xE2 \<and> take 2 s = [CHR 0x84, CHR 0xAA] then CHR ''k'' # to_lower (drop 2 s)
      else if c = CHR 0xC4 \<and> take 1 s = [CHR 0xB0] then CHR ''i'' # to_lower (drop 1 s)
      else lower_char c # to_lower s)"

definition digit_value :: "char \<Rightarrow> int option" where
  "digit_value c =
     (let n = of_char c :: int in
      if CHR ''0'' \<le> c \<and> c \<le> CHR ''9'' then Some (n - 48)
      else if CHR ''a'' \<le> c \<and> c \<le> CHR ''z'' then Some (n - 97 + 10)
      else if CHR ''A'' \<le> c \<and> c \<le> CHR ''Z'' then Some (n - 65 + 10)
      else None)"

fun digits_value :: "int \<Rightarrow> int \<Rightarrow> string \<Rightarrow> int option" where
  "digits_value base n [] = Some n"
| "digits_value base n (c # cs) =
     (case digit_value c of
        None \<Rightarrow> None
      | Some d \<Rightarrow> if base \<le> d then None else digits_value base (n * base + d) cs)"

text \<open>\<open>strconv.ParseInt(s, 0, 64)\<close>.\<close>

definition parse_magnitude :: "string \<Rightarrow> int option" where
  "parse_magnitude s =
     (case s of
        [] \<Rightarrow> None
      | c # r \<Rightarrow>
          if c = CHR ''0'' \<and> r \<noteq> [] \<and> (hd r = CHR ''x'' \<or> hd r = CHR ''X'')
          then (if length s < 3 then None else digits_value 16 0 (tl r))
          else if c = CHR ''0'' then digits_value 8 0 r
          else digits_value 10 0 s)"

definition ParseInt :: "string \<Rightarrow> int option" where
  "ParseInt s =
     (let neg = (s \<noteq> [] \<and> hd s = CHR ''-'');
          u = (if s \<noteq> [] \<and> (hd s = CHR ''-'' \<or> hd s = CHR ''+'') then tl s else s)
      in case parse_magnitude u of
           None \<Rightarrow> None
         | Some n \<Rightarrow>
             if \<not> neg \<and> 2 ^ 63 \<le> n then None
             else if neg \<and> 2 ^ 63 < n then None
             else Some (if neg then - n else n))"

subsection \<open>Tokens\<close>

datatype TokenType =
    TokNONE
  | TokCHAR
  | TokCOMMA
  | TokEOF
  | TokEQUAL
  | TokFLOAT
  | TokIDENT
  | TokINT
  | TokLEFTANGLEBRACKET
  | TokLEFTBRACKET
  | TokLEFTPAREN
  | TokMINUS
  | TokParameter
  | TokPERIOD
  | TokRIGHTANGLEBRACKET
  | TokRIGHTBRACKET
  | TokRIGHTPAREN
  | TokSTRING
  | TokERROR

record Token =
  Tok :: TokenType
  tokValue :: string
  tokOff :: int

text \<open>What \<open>Scan\<close>, \<open>TokenText\<close>, \<open>Position\<close> and \<open>ErrorCount\<close> of the scanner report.\<close>

datatype scan_class = SEOF | SIdent | SInt | SFloat | SChar | SString | SRune char | SOther

record raw_token =
  raw_class :: scan_class
  raw_text :: string
  raw_off :: int
  raw_err :: bool

record scanner =
  sc_toks :: "raw_token list"
  sc_eof :: "int \<times> bool"

definition MaxStatementLen :: nat where
  "MaxStatementLen = 10000"

definition unquote :: "string \<Rightarrow> string" where
  "unquote s = take (length s - 2) (drop 1 s)"

definition token_of :: "raw_token \<Rightarrow> Token" where
  "token_of r =
     (if raw_err r then \<lparr>Tok = TokERROR, tokValue = raw_text r, tokOff = raw_off r\<rparr>
      else
        (let t = (\<lambda>ty. \<lparr>Tok = ty, tokValue = raw_text r, tokOff = raw_off r\<rparr>) in
         case raw_class r of
           SRune c \<Rightarrow>
             if c = CHR ''.'' then t TokPERIOD
             else if c = CHR '','' then t TokCOMMA
             else if c = CHR ''-'' then t TokMINUS
             else if c = CHR ''('' then t TokLEFTPAREN
             else if c = CHR '')'' then t TokRIGHTPAREN
             else if c = CHR ''='' then t TokEQUAL
             else if c = CHR ''<'' then t TokLEFTANGLEBRACKET
             else if c = CHR ''>'' then t TokRIGHTANGLEBRACKET
             else if c = CHR ''['' then t TokLEFTBRACKET
             else if c = CHR '']'' then t TokRIGHTBRACKET
             else if c = CHR ''?'' then t TokParameter
             else t TokNONE
         | SEOF \<Rightarrow> t TokEOF
         | SIdent \<Rightarrow> t TokIDENT
         | SInt \<Rightarrow> t TokINT
         | SFloat \<Rightarrow> t TokFLOAT
         | SChar \<Rightarrow> \<lparr>Tok = TokCHAR, tokValue = unquote (raw_text r), tokOff = raw_off r\<rparr>
         | SString \<Rightarrow> \<lparr>Tok = TokSTRING, tokValue = unquote (raw_text r), tokOff = raw_off r\<rparr>
         | SOther \<Rightarrow> t TokNONE))"

text \<open>At the end the scanner keeps returning \<open>EOF\<close> with an empty text.\<close>

definition scanToken :: "scanner \<Rightarrow> Token \<times> scanner" where
  "scanToken s =
     (case sc_toks s of
        [] \<Rightarrow> (token_of \<lparr>raw_class = SEOF, raw_text = [], raw_off = fst (sc_eof s), raw_err = snd (sc_eof s)\<rparr>, s)
      | r # rs \<Rightarrow> (token_of r, s\<lparr>sc_toks := rs\<rparr>))"

subsection \<open>Trees\<close>

datatype BinaryOperatorType =
  And | Equal | GreaterThan | GreaterThanOrEqual | Is | IsNot | LessThan | LessThanOrEqual | Like | NotEqual | NotLike | Or

record BinaryOperator =
  opType :: BinaryOperatorType
  opOff :: int

text \<open>
  The operand types that the parser, the substitution and the checker make; \<open>'v\<close> are VDL values. A function carries the
  value that the checker has computed for it, if any. \<open>TypPattern\<close> is a \<open>TypStr\<close> operand whose \<open>Prefix\<close> and \<open>Pattern\<close> the checker
  has set. No code makes operands of the types \<open>TypBigInt\<close>, \<open>TypBigRat\<close> and \<open>TypUint\<close>.
\<close>

datatype 'v Operand = Operand (operandOff: int) (operandBody: "'v body")
and 'v body =
    TypBool bool
  | TypNil
  | TypInt int
  | TypFloat "64 word"
  | TypStr string
  | TypPattern string string Pattern
  | TypField "'v Field"
  | TypFunction "'v Function"
  | TypExpr "'v Expression"
  | TypParameter
  | TypTime int
  | TypObject 'v
and 'v Segment = Segment (segOff: int) (segValue: string) (segKeys: "'v Operand list")
and 'v Field = Field (fieldOff: int) (fieldSegments: "'v Segment list")
and 'v Function = Function (funcOff: int) (funcName: string) (funcArgs: "'v Operand list") (funcRet: "'v Operand option")
and 'v Expression = Expression (exprOff: int) "'v Operand" BinaryOperator "'v Operand"

datatype 'v selector_body = TypSelField "'v Field" | TypSelFunc "'v Function"

record 'v Selector =
  selOff :: int
  selBody :: "'v selector_body"
  selAs :: "(int \<times> string \<times> int) option"

record 'v SelectClause =
  scOff :: int
  Selectors :: "'v Selector list"

record FromClause =
  fromOff :: int
  tableOff :: int
  tableName :: string

record 'v WhereClause =
  whereOff :: int
  whereExpr :: "'v Expression"

record EscapeClause =
  escOff :: int
  escCharOff :: int
  EscapeChar :: nat

record LimitClause =
  limOff :: int
  limValueOff :: int
  Limit :: int

record 'v SelectStatement =
  selStOff :: int
  stSelect :: "'v SelectClause"
  stFrom :: FromClause
  stWhere :: "'v WhereClause option"
  stEscape :: "EscapeClause option"
  stLimit :: "LimitClause option"
  stResultsOffset :: "LimitClause option"

record 'v DeleteStatement =
  delOff :: int
  delFrom :: FromClause
  delWhere :: "'v WhereClause option"
  delEscape :: "EscapeClause option"
  delLimit :: "LimitClause option"

datatype 'v Statement = SelectSt "'v SelectStatement" | DeleteSt "'v DeleteStatement"

datatype q_error =
    MaxStatementLenExceeded nat
  | NoStatementFound int
  | ExpectedIdentifier int string
  | UnknownIdentifier int string
  | UnexpectedEndOfStatement int
  | Unexpected int string
  | Expected int string
  | ExpectedFrom int string
  | ExpectedOperand int string
  | ExpectedOperator int string
  | CouldNotConvert int string string
  | TooManyParamValuesSpecified int
  | NotEnoughParamValuesSpecified int
  | ConvertError
  | InvalidIndexField string string

subsection \<open>Parsing\<close>

type_synonym 'a parsed = "(q_error + 'a \<times> Token \<times> scanner) option"

definition done_with :: "'a \<Rightarrow> Token \<Rightarrow> scanner \<Rightarrow> 'a parsed" where
  "done_with x token s = Some (Inr (x, token, s))"

definition done_next :: "'a \<Rightarrow> scanner \<Rightarrow> 'a parsed" where
  "done_next x s = (case scanToken s of (token, s') \<Rightarrow> done_with x token s')"

definition fail :: "q_error \<Rightarrow> 'a parsed" where
  "fail e = Some (Inl e)"

definition p_bind :: "'a parsed \<Rightarrow> ('a \<Rightarrow> Token \<Rightarrow> scanner \<Rightarrow> 'b parsed) \<Rightarrow> 'b parsed" where
  "p_bind m f =
     (case m of
        None \<Rightarrow> None
      | Some (Inl e) \<Rightarrow> Some (Inl e)
      | Some (Inr (x, token, s)) \<Rightarrow> f x token s)"

definition lower_is :: "Token \<Rightarrow> string \<Rightarrow> bool" where
  "lower_is token w \<longleftrightarrow> to_lower (tokValue token) = w"

text \<open>The operands of one token, or of a minus sign and a number: the cases of \<open>parseOperand\<close> without recursion.\<close>

definition parse_number :: "(string \<Rightarrow> 64 word option) \<Rightarrow> int \<Rightarrow> string \<Rightarrow> Token \<Rightarrow> scanner \<Rightarrow> 'v Operand parsed" where
  "parse_number pf off sign token s =
     (if Tok token = TokINT then
        (case ParseInt (sign @ tokValue token) of
           None \<Rightarrow> fail (CouldNotConvert off (sign @ tokValue token) ''int64'')
         | Some i \<Rightarrow> done_next (Operand off (TypInt i)) s)
      else
        (case pf (sign @ tokValue token) of
           None \<Rightarrow> fail (CouldNotConvert off (sign @ tokValue token) ''float64'')
         | Some f \<Rightarrow> done_next (Operand off (TypFloat f)) s))"

definition parse_literal :: "(string \<Rightarrow> 64 word option) \<Rightarrow> scanner \<Rightarrow> Token \<Rightarrow> 'v Operand parsed" where
  "parse_literal pf s token =
     (let off = tokOff token in
      case Tok token of
        TokINT \<Rightarrow> parse_number pf off [] token s
      | TokFLOAT \<Rightarrow> parse_number pf off [] token s
      | TokCHAR \<Rightarrow> done_next (Operand off (TypInt (int (DecodeRune (tokValue token))))) s
      | TokSTRING \<Rightarrow> done_next (Operand off (TypStr (tokValue token))) s
      | TokMINUS \<Rightarrow>
          (case scanToken s of (token', s') \<Rightarrow>
             if Tok token' = TokINT \<or> Tok token' = TokFLOAT then parse_number pf off ''-'' token' s'
             else fail (Expected (tokOff token') ''int or float''))
      | TokParameter \<Rightarrow> done_next (Operand off TypParameter) s
      | _ \<Rightarrow> fail (ExpectedOperand off (tokValue token)))"

text \<open>
  \<open>parseSegment\<close> and \<open>parseFunction\<close>, with the parser of operands, on which they depend recursively, as an
  argument. The loops are functions of their own: over the keys of a segment, the segments of a field,
  and the arguments of a function.
\<close>

type_synonym 'v operand_parser = "scanner \<Rightarrow> Token \<Rightarrow> 'v Operand parsed"

fun keys_loop :: "'v operand_parser \<Rightarrow> nat \<Rightarrow> 'v Operand list \<Rightarrow> scanner \<Rightarrow> Token \<Rightarrow> 'v Operand list parsed" where
  "keys_loop po 0 keys s token = None"
| "keys_loop po (Suc n) keys s token =
     (if Tok token = TokLEFTBRACKET then
        (case scanToken s of (token1, s1) \<Rightarrow>
           p_bind (po s1 token1) (\<lambda>key token2 s2.
             if Tok token2 \<noteq> TokRIGHTBRACKET then fail (Expected (tokOff token2) '']'')
             else (case scanToken s2 of (token3, s3) \<Rightarrow> keys_loop po n (keys @ [key]) s3 token3)))
      else done_with keys token s)"

definition parseSegment :: "'v operand_parser \<Rightarrow> nat \<Rightarrow> scanner \<Rightarrow> Token \<Rightarrow> 'v Segment parsed" where
  "parseSegment po n s token =
     (case scanToken s of (token1, s1) \<Rightarrow>
        p_bind (keys_loop po n [] s1 token1) (\<lambda>keys token2 s2.
          done_with (Segment (tokOff token) (tokValue token) keys) token2 s2))"

fun segments_loop :: "'v operand_parser \<Rightarrow> nat \<Rightarrow> 'v Segment list \<Rightarrow> scanner \<Rightarrow> Token \<Rightarrow> 'v Segment list parsed" where
  "segments_loop po 0 segments s token = None"
| "segments_loop po (Suc n) segments s token =
     (if Tok token = TokPERIOD then
        (case scanToken s of (token1, s1) \<Rightarrow>
           if Tok token1 \<noteq> TokIDENT then fail (ExpectedIdentifier (tokOff token1) (tokValue token1))
           else p_bind (parseSegment po n s1 token1) (\<lambda>segment token2 s2.
                  segments_loop po n (segments @ [segment]) s2 token2))
      else done_with segments token s)"

fun args_loop :: "'v operand_parser \<Rightarrow> nat \<Rightarrow> 'v Operand list \<Rightarrow> scanner \<Rightarrow> Token \<Rightarrow> 'v Operand list parsed" where
  "args_loop po 0 args s token = None"
| "args_loop po (Suc n) args s token =
     (if Tok token = TokRIGHTPAREN then done_with args token s
      else if Tok token = TokEOF then fail (Expected (tokOff token) '')'')
      else p_bind (po s token) (\<lambda>arg token1 s1.
             if Tok token1 = TokCOMMA then
               (case scanToken s1 of (token2, s2) \<Rightarrow>
                  if Tok token2 = TokRIGHTPAREN then fail (ExpectedOperand (tokOff token2) (tokValue token2))
                  else args_loop po n (args @ [arg]) s2 token2)
             else if Tok token1 \<noteq> TokRIGHTPAREN then fail (Unexpected (tokOff token1) (tokValue token1))
             else args_loop po n (args @ [arg]) s1 token1))"

definition parseFunction :: "'v operand_parser \<Rightarrow> nat \<Rightarrow> string \<Rightarrow> int \<Rightarrow> scanner \<Rightarrow> 'v Function parsed" where
  "parseFunction po n name funcOffset s =
     (case scanToken s of (token1, s1) \<Rightarrow>
        p_bind (args_loop po n [] s1 token1) (\<lambda>args token2 s2.
          done_next (Function funcOffset name args None) s2))"

fun parseOperand :: "(string \<Rightarrow> 64 word option) \<Rightarrow> nat \<Rightarrow> 'v operand_parser" where
  "parseOperand pf 0 s token = None"
| "parseOperand pf (Suc n) s token =
     (if Tok token = TokEOF then fail (UnexpectedEndOfStatement (tokOff token))
      else if Tok token = TokIDENT then
        p_bind (parseSegment (parseOperand pf n) n s token) (\<lambda>segment token1 s1.
          if Tok token1 \<noteq> TokPERIOD \<and> (to_lower (segValue segment) = ''true'' \<or> to_lower (segValue segment) = ''false'')
          then done_with (Operand (tokOff token) (TypBool (to_lower (segValue segment) = ''true''))) token1 s1
          else if Tok token1 \<noteq> TokPERIOD \<and> to_lower (segValue segment) = ''nil''
          then done_with (Operand (tokOff token) TypNil) token1 s1
          else if Tok token1 = TokLEFTPAREN then
            (if length (segKeys segment) \<noteq> 0 then fail (Unexpected (tokOff token1) (tokValue token1))
             else p_bind (parseFunction (parseOperand pf n) n (segValue segment) (segOff segment) s1) (\<lambda>f token2 s2.
                    done_with (Operand (tokOff token) (TypFunction f)) token2 s2))
          else p_bind (segments_loop (parseOperand pf n) n [segment] s1 token1) (\<lambda>segments token2 s2.
                 done_with (Operand (tokOff token) (TypField (Field (tokOff token) segments))) token2 s2))
      else parse_literal pf s token)"

definition parseBinaryOperator :: "scanner \<Rightarrow> Token \<Rightarrow> BinaryOperator parsed" where
  "parseBinaryOperator s token =
     (let off = tokOff token; mk = (\<lambda>ty. \<lparr>opType = ty, opOff = off\<rparr>) in
      if Tok token = TokEOF then fail (UnexpectedEndOfStatement off)
      else if Tok token = TokIDENT then
        (if lower_is token ''equal'' then done_next (mk Equal) s
         else if lower_is token ''is'' then
           (case scanToken s of (token1, s1) \<Rightarrow>
              if Tok token1 \<noteq> TokEOF \<and> lower_is token1 ''not'' then done_next (mk IsNot) s1
              else done_with (mk Is) token1 s1)
         else if lower_is token ''like'' then done_next (mk Like) s
         else if lower_is token ''not'' then
           (case scanToken s of (token1, s1) \<Rightarrow>
              if Tok token1 = TokEOF \<or> (\<not> lower_is token1 ''equal'' \<and> \<not> lower_is token1 ''like'')
              then fail (Expected (tokOff token1) (CHR 0x27 # ''equal'' @ [CHR 0x27] @ '' or '' @ [CHR 0x27] @ ''like'' @ [CHR 0x27]))
              else if lower_is token1 ''equal'' then done_next (mk NotEqual) s1
              else done_next (mk NotLike) s1)
         else fail (ExpectedOperator off (tokValue token)))
      else
        (case Tok token of
           TokEQUAL \<Rightarrow> done_next (mk Equal) s
         | TokLEFTANGLEBRACKET \<Rightarrow>
             (case scanToken s of (token1, s1) \<Rightarrow>
                if Tok token1 = TokRIGHTANGLEBRACKET then done_next (mk NotEqual) s1
                else if Tok token1 = TokEQUAL then done_next (mk LessThanOrEqual) s1
                else done_with (mk LessThan) token1 s1)
         | TokRIGHTANGLEBRACKET \<Rightarrow>
             (case scanToken s of (token1, s1) \<Rightarrow>
                if Tok token1 = TokEQUAL then done_next (mk GreaterThanOrEqual) s1
                else done_with (mk GreaterThan) token1 s1)
         | _ \<Rightarrow> fail (ExpectedOperator off (tokValue token))))"

definition parseLogicalOperator :: "scanner \<Rightarrow> Token \<Rightarrow> BinaryOperator parsed" where
  "parseLogicalOperator s token =
     (let off = tokOff token in
      if Tok token = TokEOF then fail (UnexpectedEndOfStatement off)
      else if lower_is token ''and'' then done_next \<lparr>opType = And, opOff = off\<rparr> s
      else if lower_is token ''or'' then done_next \<lparr>opType = Or, opOff = off\<rparr> s
      else fail (ExpectedOperator off (tokValue token)))"

definition parseLikeEqualExpression ::
  "(string \<Rightarrow> 64 word option) \<Rightarrow> nat \<Rightarrow> scanner \<Rightarrow> Token \<Rightarrow> 'v Expression parsed" where
  "parseLikeEqualExpression pf n s token =
     p_bind (parseOperand pf n s token) (\<lambda>operand1 token1 s1.
     p_bind (parseBinaryOperator s1 token1) (\<lambda>operator token2 s2.
       if Tok token2 = TokEOF then fail (UnexpectedEndOfStatement (tokOff token2))
       else p_bind (parseOperand pf n s2 token2) (\<lambda>operand2 token3 s3.
              done_with (Expression (tokOff token) operand1 operator operand2) token3 s3)))"

text \<open>
  \<open>parseParenthesizedExpression\<close> and the loop of \<open>parseExpression\<close> over the logical operators, with the
  parser of expressions as an argument.
\<close>

type_synonym 'v expr_parser = "scanner \<Rightarrow> Token \<Rightarrow> 'v Expression parsed"

definition parseParenthesizedExpression :: "'v expr_parser \<Rightarrow> scanner \<Rightarrow> 'v Expression parsed" where
  "parseParenthesizedExpression pe s =
     (case scanToken s of (token1, s1) \<Rightarrow>
        p_bind (pe s1 token1) (\<lambda>expr token2 s2.
          if Tok token2 = TokEOF then fail (UnexpectedEndOfStatement (tokOff token2))
          else if Tok token2 \<noteq> TokRIGHTPAREN then fail (Expected (tokOff token2) '')'')
          else done_next expr s2))"

text \<open>What stands between the logical operators.\<close>

definition parse_term :: "(string \<Rightarrow> 64 word option) \<Rightarrow> 'v expr_parser \<Rightarrow> nat \<Rightarrow> 'v expr_parser" where
  "parse_term pf pe n s token =
     (if Tok token = TokLEFTPAREN then parseParenthesizedExpression pe s
      else parseLikeEqualExpression pf n s token)"

fun logical_loop :: "(string \<Rightarrow> 64 word option) \<Rightarrow> 'v expr_parser \<Rightarrow> nat \<Rightarrow> 'v Expression \<Rightarrow> scanner \<Rightarrow> Token
    \<Rightarrow> 'v Expression parsed" where
  "logical_loop pf pe 0 expr s token = None"
| "logical_loop pf pe (Suc n) expr s token =
     (if Tok token \<noteq> TokEOF \<and> Tok token \<noteq> TokRIGHTPAREN then
        (if \<not> lower_is token ''and'' \<and> \<not> lower_is token ''or'' then done_with expr token s
         else
           p_bind (parseLogicalOperator s token) (\<lambda>operator token1 s1.
           p_bind (parse_term pf pe (Suc n) s1 token1) (\<lambda>expr2 token2 s2.
                logical_loop pf pe n
                  (Expression (exprOff expr) (Operand (exprOff expr) (TypExpr expr)) operator
                     (Operand (exprOff expr2) (TypExpr expr2))) s2 token2)))
      else done_with expr token s)"

fun parseExpression :: "(string \<Rightarrow> 64 word option) \<Rightarrow> nat \<Rightarrow> 'v expr_parser" where
  "parseExpression pf 0 s token = None"
| "parseExpression pf (Suc n) s token =
     (if Tok token = TokEOF then fail (UnexpectedEndOfStatement (tokOff token))
      else p_bind (parse_term pf (parseExpression pf n) (Suc n) s token)
        (\<lambda>expr token1 s1. logical_loop pf (parseExpression pf n) (Suc n) expr s1 token1))"

subsection \<open>Clauses and statements\<close>

definition parseSelector :: "(string \<Rightarrow> 64 word option) \<Rightarrow> nat \<Rightarrow> scanner \<Rightarrow> Token \<Rightarrow> 'v Selector parsed" where
  "parseSelector pf n s token =
     (if Tok token \<noteq> TokIDENT then fail (ExpectedIdentifier (tokOff token) (tokValue token))
      else
        p_bind (parseSegment (parseOperand pf n) n s token) (\<lambda>segment token1 s1.
        p_bind
          (if Tok token1 = TokLEFTPAREN then
             (if length (segKeys segment) \<noteq> 0 then fail (Unexpected (tokOff token1) (tokValue token1))
              else p_bind (parseFunction (parseOperand pf n) n (segValue segment) (segOff segment) s1)
                     (\<lambda>f token2 s2. done_with (TypSelFunc f) token2 s2))
           else p_bind (segments_loop (parseOperand pf n) n [segment] s1 token1)
                  (\<lambda>segments token2 s2. done_with (TypSelField (Field (tokOff token) segments)) token2 s2))
          (\<lambda>body token2 s2.
             if Tok token2 = TokIDENT \<and> lower_is token2 ''as'' then
               (case scanToken s2 of (token3, s3) \<Rightarrow>
                  if Tok token3 \<noteq> TokIDENT then fail (ExpectedIdentifier (tokOff token3) (tokValue token3))
                  else done_next \<lparr>selOff = tokOff token, selBody = body,
                         selAs = Some (tokOff token2, tokValue token3, tokOff token3)\<rparr> s3)
             else done_with \<lparr>selOff = tokOff token, selBody = body, selAs = None\<rparr> token2 s2)))"

fun selectors_loop :: "(string \<Rightarrow> 64 word option) \<Rightarrow> nat \<Rightarrow> 'v Selector list \<Rightarrow> scanner \<Rightarrow> Token \<Rightarrow> 'v Selector list parsed" where
  "selectors_loop pf 0 sels s token = None"
| "selectors_loop pf (Suc n) sels s token =
     (if Tok token = TokCOMMA then
        (case scanToken s of (token1, s1) \<Rightarrow>
           p_bind (parseSelector pf (Suc n) s1 token1) (\<lambda>sel token2 s2. selectors_loop pf n (sels @ [sel]) s2 token2))
      else done_with sels token s)"

definition parseSelectClause :: "(string \<Rightarrow> 64 word option) \<Rightarrow> nat \<Rightarrow> scanner \<Rightarrow> Token \<Rightarrow> 'v SelectClause parsed" where
  "parseSelectClause pf n s token =
     (case scanToken s of (token1, s1) \<Rightarrow>
        if Tok token1 = TokEOF then fail (UnexpectedEndOfStatement (tokOff token1))
        else
          p_bind (parseSelector pf n s1 token1) (\<lambda>sel token2 s2.
          p_bind (selectors_loop pf n [sel] s2 token2) (\<lambda>sels token3 s3.
            done_with \<lparr>scOff = tokOff token, Selectors = sels\<rparr> token3 s3)))"

definition parseFromClause :: "scanner \<Rightarrow> Token \<Rightarrow> FromClause parsed" where
  "parseFromClause s token =
     (if \<not> lower_is token ''from'' then fail (ExpectedFrom (tokOff token) (tokValue token))
      else
        (case scanToken s of (token1, s1) \<Rightarrow>
           if Tok token1 = TokEOF then fail (UnexpectedEndOfStatement (tokOff token1))
           else if Tok token1 \<noteq> TokIDENT then fail (ExpectedIdentifier (tokOff token1) (tokValue token1))
           else done_next \<lparr>fromOff = tokOff token, tableOff = tokOff token1, tableName = tokValue token1\<rparr> s1))"

definition parseWhereClause :: "(string \<Rightarrow> 64 word option) \<Rightarrow> nat \<Rightarrow> scanner \<Rightarrow> Token \<Rightarrow> 'v WhereClause option parsed" where
  "parseWhereClause pf n s token =
     (if Tok token \<noteq> TokEOF then
        (if \<not> lower_is token ''where'' then done_with None token s
         else
           (case scanToken s of (token1, s1) \<Rightarrow>
              p_bind (parseExpression pf n s1 token1) (\<lambda>expr token2 s2.
                done_with (Some \<lparr>whereOff = tokOff token, whereExpr = expr\<rparr>) token2 s2)))
      else done_with None token s)"

definition parseEscapeClause :: "scanner \<Rightarrow> Token \<Rightarrow> EscapeClause parsed" where
  "parseEscapeClause s token =
     (case scanToken s of (token1, s1) \<Rightarrow>
        if Tok token1 = TokEOF then fail (UnexpectedEndOfStatement (tokOff token1))
        else if Tok token1 \<noteq> TokCHAR then fail (Expected (tokOff token1) ''char literal'')
        else done_next \<lparr>escOff = tokOff token, escCharOff = tokOff token1, EscapeChar = DecodeRune (tokValue token1)\<rparr> s1)"

definition parseNonNegInt64 :: "scanner \<Rightarrow> Token \<Rightarrow> (int \<times> int) parsed" where
  "parseNonNegInt64 s token =
     (if Tok token = TokEOF then fail (UnexpectedEndOfStatement (tokOff token))
      else if Tok token \<noteq> TokINT then fail (Expected (tokOff token) ''positive integer literal'')
      else
        (case ParseInt (tokValue token) of
           None \<Rightarrow> fail (CouldNotConvert (tokOff token) (tokValue token) ''int64'')
         | Some i \<Rightarrow> done_next (tokOff token, i) s))"

definition parseLimitClause :: "scanner \<Rightarrow> Token \<Rightarrow> LimitClause parsed" where
  "parseLimitClause s token =
     (case scanToken s of (token1, s1) \<Rightarrow>
        p_bind (parseNonNegInt64 s1 token1) (\<lambda>(off, i) token2 s2.
          done_with \<lparr>limOff = tokOff token, limValueOff = off, Limit = i\<rparr> token2 s2))"

definition parseResultsOffsetClause :: "scanner \<Rightarrow> Token \<Rightarrow> LimitClause parsed" where
  "parseResultsOffsetClause s token =
     (case scanToken s of (token1, s1) \<Rightarrow>
        p_bind (parseNonNegInt64 s1 token1) (\<lambda>(off, i) token2 s2.
          done_with \<lparr>limOff = tokOff token, limValueOff = off, Limit = i\<rparr> token2 s2))"

type_synonym final_clauses = "EscapeClause option \<times> LimitClause option \<times> LimitClause option"

fun parseEscapeLimitResultsOffsetClauses :: "nat \<Rightarrow> final_clauses \<Rightarrow> scanner \<Rightarrow> Token \<Rightarrow> final_clauses parsed" where
  "parseEscapeLimitResultsOffsetClauses 0 c s token = None"
| "parseEscapeLimitResultsOffsetClauses (Suc n) (ec, lc, oc) s token =
     (if Tok token \<noteq> TokEOF then
        (if Tok token = TokIDENT \<and> lower_is token ''escape'' then
           p_bind (parseEscapeClause s token) (\<lambda>e token1 s1.
             parseEscapeLimitResultsOffsetClauses n (Some e, lc, oc) s1 token1)
         else if Tok token = TokIDENT \<and> lower_is token ''limit'' then
           p_bind (parseLimitClause s token) (\<lambda>l token1 s1.
             parseEscapeLimitResultsOffsetClauses n (ec, Some l, oc) s1 token1)
         else if Tok token = TokIDENT \<and> lower_is token ''offset'' then
           p_bind (parseResultsOffsetClause s token) (\<lambda>l token1 s1.
             parseEscapeLimitResultsOffsetClauses n (ec, lc, Some l) s1 token1)
         else done_with (ec, lc, oc) token s)
      else done_with (ec, lc, oc) token s)"

fun parseEscapeLimitClauses :: "nat \<Rightarrow> EscapeClause option \<times> LimitClause option \<Rightarrow> scanner \<Rightarrow> Token
    \<Rightarrow> (EscapeClause option \<times> LimitClause option) parsed" where
  "parseEscapeLimitClauses 0 c s token = None"
| "parseEscapeLimitClauses (Suc n) (ec, lc) s token =
     (if Tok token \<noteq> TokEOF then
        (if Tok token = TokIDENT \<and> lower_is token ''escape'' then
           p_bind (parseEscapeClause s token) (\<lambda>e token1 s1. parseEscapeLimitClauses n (Some e, lc) s1 token1)
         else if Tok token = TokIDENT \<and> lower_is token ''limit'' then
           p_bind (parseLimitClause s token) (\<lambda>l token1 s1. parseEscapeLimitClauses n (ec, Some l) s1 token1)
         else done_with (ec, lc) token s)
      else done_with (ec, lc) token s)"

definition selectStatement :: "(string \<Rightarrow> 64 word option) \<Rightarrow> nat \<Rightarrow> scanner \<Rightarrow> Token \<Rightarrow> 'v SelectStatement parsed" where
  "selectStatement pf n s token =
     p_bind (parseSelectClause pf n s token) (\<lambda>sel token1 s1.
     p_bind (parseFromClause s1 token1) (\<lambda>from token2 s2.
     p_bind (parseWhereClause pf n s2 token2) (\<lambda>wh token3 s3.
     p_bind (parseEscapeLimitResultsOffsetClauses n (None, None, None) s3 token3) (\<lambda>(ec, lc, oc) token4 s4.
       if Tok token4 \<noteq> TokEOF then fail (Unexpected (tokOff token4) (tokValue token4))
       else done_with \<lparr>selStOff = tokOff token, stSelect = sel, stFrom = from, stWhere = wh, stEscape = ec,
              stLimit = lc, stResultsOffset = oc\<rparr> token4 s4))))"

definition deleteStatement :: "(string \<Rightarrow> 64 word option) \<Rightarrow> nat \<Rightarrow> scanner \<Rightarrow> Token \<Rightarrow> 'v DeleteStatement parsed" where
  "deleteStatement pf n s token =
     (case scanToken s of (token0, s0) \<Rightarrow>
        if Tok token0 = TokEOF then fail (UnexpectedEndOfStatement (tokOff token0))
        else
          p_bind (parseFromClause s0 token0) (\<lambda>from token2 s2.
          p_bind (parseWhereClause pf n s2 token2) (\<lambda>wh token3 s3.
          p_bind (parseEscapeLimitClauses n (None, None) s3 token3) (\<lambda>(ec, lc) token4 s4.
            if Tok token4 \<noteq> TokEOF then fail (Unexpected (tokOff token4) (tokValue token4))
            else done_with \<lparr>delOff = tokOff token, delFrom = from, delWhere = wh, delEscape = ec, delLimit = lc\<rparr>
                   token4 s4))))"

text \<open>The fuel of a parse, from the tokens left.\<close>

definition parse_fuel :: "scanner \<Rightarrow> nat" where
  "parse_fuel s = length (sc_toks s) + 3"

text \<open>\<open>len\<close> is the length of the source text, \<open>s\<close> the scanner over it.\<close>

definition Parse :: "(string \<Rightarrow> 64 word option) \<Rightarrow> nat \<Rightarrow> scanner \<Rightarrow> (q_error + 'v Statement) option" where
  "Parse pf len s =
     (if MaxStatementLen < len then Some (Inl (MaxStatementLenExceeded len))
      else
        (case scanToken s of (token, s1) \<Rightarrow>
           if Tok token = TokEOF then Some (Inl (NoStatementFound (tokOff token)))
           else if Tok token \<noteq> TokIDENT then Some (Inl (ExpectedIdentifier (tokOff token) (tokValue token)))
           else if lower_is token ''select'' then
             map_option (map_sum id (\<lambda>(st, _, _). SelectSt st)) (selectStatement pf (parse_fuel s) s1 token)
           else if lower_is token ''delete'' then
             map_option (map_sum id (\<lambda>(st, _, _). DeleteSt st)) (deleteStatement pf (parse_fuel s) s1 token)
           else Some (Inl (UnknownIdentifier (tokOff token) (tokValue token)))))"

definition ParseIndexField :: "(string \<Rightarrow> 64 word option) \<Rightarrow> string \<Rightarrow> string \<Rightarrow> scanner \<Rightarrow> (q_error + 'v Field) option" where
  "ParseIndexField pf fieldName tableName0 s =
     (let invalid = Some (Inl (InvalidIndexField fieldName tableName0)) in
      case scanToken s of (token, s1) \<Rightarrow>
        if Tok token = TokEOF then invalid
        else
          (case parseOperand pf (parse_fuel s) s1 token of
             None \<Rightarrow> None
           | Some (Inl _) \<Rightarrow> invalid
           | Some (Inr (op, token1, _)) \<Rightarrow>
               (case operandBody op of
                  TypField column \<Rightarrow>
                    if Tok token1 \<noteq> TokEOF then invalid
                    else if length (segKeys (last (fieldSegments column))) \<noteq> 0 then invalid
                    else Some (Inr column)
                | _ \<Rightarrow> invalid)))"

subsection \<open>Parameters\<close>

text \<open>
  The kinds of VDL values as \<open>ConvertValueToAnOperand\<close> distinguishes them; \<open>VTime None\<close> is a time that
  does not convert.
\<close>

datatype 'v vdl_view =
    VBool bool
  | VEnum string
  | VInt int
  | VUint "64 word"
  | VFloat "64 word"
  | VString string
  | VTime "int option"
  | VObject

definition ConvertValueToAnOperand :: "('v \<Rightarrow> 'v vdl_view) \<Rightarrow> 'v \<Rightarrow> int \<Rightarrow> q_error + 'v Operand" where
  "ConvertValueToAnOperand view value off =
     (case view value of
        VBool b \<Rightarrow> Inr (Operand off (TypBool b))
      | VEnum s \<Rightarrow> Inr (Operand off (TypStr s))
      | VInt i \<Rightarrow> Inr (Operand off (TypInt i))
      | VUint u \<Rightarrow> Inr (Operand off (TypInt (sint u)))
      | VFloat f \<Rightarrow> Inr (Operand off (TypFloat f))
      | VString s \<Rightarrow> Inr (Operand off (TypStr s))
      | VTime (Some t) \<Rightarrow> Inr (Operand off (TypTime t))
      | VTime None \<Rightarrow> Inl ConvertError
      | VObject \<Rightarrow> Inr (Operand off (TypObject value)))"

text \<open>The cursor into the values is the list of those not used yet.\<close>

fun subst_operand :: "('v \<Rightarrow> 'v vdl_view) \<Rightarrow> 'v Operand \<Rightarrow> 'v list \<Rightarrow> q_error + 'v Operand \<times> 'v list"
and subst_function :: "('v \<Rightarrow> 'v vdl_view) \<Rightarrow> 'v Function \<Rightarrow> 'v list \<Rightarrow> q_error + 'v Function \<times> 'v list"
and subst_args :: "('v \<Rightarrow> 'v vdl_view) \<Rightarrow> 'v Operand list \<Rightarrow> 'v list \<Rightarrow> q_error + 'v Operand list \<times> 'v list"
and subst_expr :: "('v \<Rightarrow> 'v vdl_view) \<Rightarrow> 'v Expression \<Rightarrow> 'v list \<Rightarrow> q_error + 'v Expression \<times> 'v list" where
  "subst_operand view (Operand off (TypExpr e)) vs =
     and_then (subst_expr view e vs) (\<lambda>(e', vs'). Inr (Operand off (TypExpr e'), vs'))"
| "subst_operand view (Operand off (TypFunction f)) vs =
     and_then (subst_function view f vs) (\<lambda>(f', vs'). Inr (Operand off (TypFunction f'), vs'))"
| "subst_operand view (Operand off TypParameter) vs =
     (case vs of
        [] \<Rightarrow> Inl (NotEnoughParamValuesSpecified off)
      | v # vs' \<Rightarrow> and_then (ConvertValueToAnOperand view v off) (\<lambda>op. Inr (op, vs')))"
| "subst_operand view op vs = Inr (op, vs)"
| "subst_function view (Function off name args ret) vs =
     and_then (subst_args view args vs) (\<lambda>(args', vs').
       case ret of
         None \<Rightarrow> Inr (Function off name args' None, vs')
       | Some r \<Rightarrow> and_then (subst_operand view r vs') (\<lambda>(r', vs''). Inr (Function off name args' (Some r'), vs'')))"
| "subst_args view [] vs = Inr ([], vs)"
| "subst_args view (a # args) vs =
     and_then (subst_operand view a vs) (\<lambda>(a', vs').
       and_then (subst_args view args vs') (\<lambda>(args', vs''). Inr (a' # args', vs'')))"
| "subst_expr view (Expression off o1 op o2) vs =
     and_then (subst_operand view o1 vs) (\<lambda>(o1', vs').
       and_then (subst_operand view o2 vs') (\<lambda>(o2', vs''). Inr (Expression off o1' op o2', vs'')))"

definition where_CopyAndSubstitute :: "('v \<Rightarrow> 'v vdl_view) \<Rightarrow> 'v WhereClause \<Rightarrow> 'v list \<Rightarrow> q_error + 'v WhereClause" where
  "where_CopyAndSubstitute view w paramValues =
     and_then (subst_expr view (whereExpr w) paramValues) (\<lambda>(e, rest).
       if 0 < length rest then Inl (TooManyParamValuesSpecified (whereOff w)) else Inr (w\<lparr>whereExpr := e\<rparr>))"

definition select_CopyAndSubstitute :: "('v \<Rightarrow> 'v vdl_view) \<Rightarrow> 'v SelectStatement \<Rightarrow> 'v list \<Rightarrow> q_error + 'v SelectStatement" where
  "select_CopyAndSubstitute view st paramValues =
     (case stWhere st of
        Some w \<Rightarrow> and_then (where_CopyAndSubstitute view w paramValues) (\<lambda>w'. Inr (st\<lparr>stWhere := Some w'\<rparr>))
      | None \<Rightarrow> if 0 < length paramValues then Inl (TooManyParamValuesSpecified (selStOff st)) else Inr st)"

definition delete_CopyAndSubstitute :: "('v \<Rightarrow> 'v vdl_view) \<Rightarrow> 'v DeleteStatement \<Rightarrow> 'v list \<Rightarrow> q_error + 'v DeleteStatement" where
  "delete_CopyAndSubstitute view st paramValues =
     (case delWhere st of
        Some w \<Rightarrow> and_then (where_CopyAndSubstitute view w paramValues) (\<lambda>w'. Inr (st\<lparr>delWhere := Some w'\<rparr>))
      | None \<Rightarrow> if 0 < length paramValues then Inl (TooManyParamValuesSpecified (delOff st)) else Inr st)"

definition CopyAndSubstitute :: "('v \<Rightarrow> 'v vdl_view) \<Rightarrow> 'v Statement \<Rightarrow> 'v list \<Rightarrow> q_error + 'v Statement" where
  "CopyAndSubstitute view st paramValues =
     (case st of
        SelectSt s \<Rightarrow> map_sum id SelectSt (select_CopyAndSubstitute view s paramValues)
      | DeleteSt s \<Rightarrow> map_sum id DeleteSt (delete_CopyAndSubstitute view s paramValues))"

end
