(* ===== verification/QueryTermination.thy ===== *)
theory QueryTermination
  imports QueryParser
begin

text \<open>
  Every parser of query_parser.go returns: with fuel linear in the number of tokens no recursion or loop
  runs out. The interface \<open>bounded_parser\<close> states what the loops need of the parser they call; it is interpreted
  on \<open>parseOperand\<close> and \<open>parseExpression\<close>.
\<close>

subsection \<open>Every parser returns\<close>

text \<open>
  The tokens still to be read, the current one included. What the scanner delivers at the end of the input,
  an end or an error without text, is not counted: no parser accepts it.
\<close>

definition at_end :: "Token \<Rightarrow> bool" where
  "at_end token \<longleftrightarrow> tokValue token = [] \<and> (Tok token = TokEOF \<or> Tok token = TokERROR)"

definition bud :: "scanner \<Rightarrow> Token \<Rightarrow> nat" where
  "bud s token = length (sc_toks s) + (if at_end token then 0 else 1)"

text \<open>An error, or a result that leaves at most \<open>k\<close> tokens.\<close>

definition ends_within :: "nat \<Rightarrow> 'a parsed \<Rightarrow> bool" where
  "ends_within k r \<longleftrightarrow>
     (case r of
        None \<Rightarrow> False
      | Some (Inl e) \<Rightarrow> True
      | Some (Inr (x, token, s)) \<Rightarrow> bud s token \<le> k)"

named_theorems ends_intro \<open>rules for \<open>ends_within\<close>\<close>

lemma not_at_end [simp]: "Tok token \<noteq> TokEOF \<Longrightarrow> Tok token \<noteq> TokERROR \<Longrightarrow> \<not> at_end token"
  by (simp add: at_end_def)

lemma lower_is_not_at_end: "lower_is token (c # w) \<Longrightarrow> \<not> at_end token"
  by (auto simp: lower_is_def at_end_def)

lemma bud_not_at_end: "\<not> at_end token \<Longrightarrow> bud s token = Suc (length (sc_toks s))"
  by (simp add: bud_def)

lemma length_le_bud: "length (sc_toks s) \<le> bud s token"
  by (simp add: bud_def)

lemma scanToken_bud: "scanToken s = (token, s1) \<Longrightarrow> bud s1 token \<le> length (sc_toks s)"
  by (auto simp: scanToken_def bud_def at_end_def token_of_def split: list.splits)

lemma ends_fail [simp]: "ends_within k (fail e)"
  by (simp add: ends_within_def fail_def)

lemma ends_done_with [simp]: "ends_within k (done_with x token s) \<longleftrightarrow> bud s token \<le> k"
  by (simp add: ends_within_def done_with_def)

lemma ends_done_next [ends_intro]: "length (sc_toks s) \<le> k \<Longrightarrow> ends_within k (done_next x s)"
  by (auto simp: done_next_def dest!: scanToken_bud split: prod.split)

lemma ends_bind [ends_intro]:
  assumes "ends_within j m" "\<And>x token s. bud s token \<le> j \<Longrightarrow> ends_within k (f x token s)"
  shows "ends_within k (p_bind m f)"
proof (cases m)
  case (Some r)
  then show ?thesis
    using assms by (cases r) (auto simp: p_bind_def ends_within_def [of k "Some (Inl _)"] ends_within_def [of j])
qed (use assms(1) in \<open>simp add: ends_within_def\<close>)

lemma ends_scan [ends_intro]:
  assumes "\<And>token s1. bud s1 token \<le> length (sc_toks s) \<Longrightarrow> ends_within k (f token s1)"
  shows "ends_within k (case scanToken s of (token, s1) \<Rightarrow> f token s1)"
  using assms scanToken_bud by (auto split: prod.split)

lemma p_bind_fail [simp]: "p_bind (fail e) f = fail e"
  by (simp add: p_bind_def fail_def)

lemma ends_mono: "ends_within j m \<Longrightarrow> j \<le> k \<Longrightarrow> ends_within k m"
  by (auto simp: ends_within_def split: option.splits sum.splits)

lemma ends_not_None: "ends_within k m \<Longrightarrow> m \<noteq> None"
  by (cases m) (auto simp: ends_within_def)

text \<open>The interface on which the loops rely: a parser that returns when at most \<open>b\<close> tokens are left, and consumes one.\<close>

locale bounded_parser =
  fixes p :: "scanner \<Rightarrow> Token \<Rightarrow> 'a parsed" and b :: nat
  assumes consumes: "bud s token < b \<Longrightarrow> ends_within (length (sc_toks s)) (p s token)"
    and rejects: "at_end token \<Longrightarrow> bud s token < b \<Longrightarrow> \<exists>e. p s token = fail e"

locale bounded_operand = bounded_parser po b for po :: "'v operand_parser" and b
begin

lemma keys_loop_ends:
  "bud s token < n \<Longrightarrow> bud s token \<le> b \<Longrightarrow> ends_within (bud s token) (keys_loop po n keys s token)"
proof (induction n arbitrary: keys s token)
  case (Suc n)
  show ?case
  proof (cases "Tok token = TokLEFTBRACKET")
    case True
    then have B: "bud s token = Suc (length (sc_toks s))" by (simp add: bud_not_at_end)
    show ?thesis
      unfolding keys_loop.simps if_P [OF True]
    proof (rule ends_scan, rule ends_bind)
      fix token1 s1 assume 1: "bud s1 token1 \<le> length (sc_toks s)"
      show "ends_within (length (sc_toks s1)) (po s1 token1)" using 1 B Suc.prems by (intro consumes) simp
      fix key token2 s2 assume 2: "bud s2 token2 \<le> length (sc_toks s1)"
      have L: "length (sc_toks s1) \<le> length (sc_toks s)" using 1 length_le_bud [of s1 token1] by simp
      show "ends_within (bud s token)
        (if Tok token2 \<noteq> TokRIGHTBRACKET then fail (Expected (tokOff token2) '']'')
         else (case scanToken s2 of (token3, s3) \<Rightarrow> keys_loop po n (keys @ [key]) s3 token3))"
      proof (cases "Tok token2 = TokRIGHTBRACKET")
        case True
        then have "Suc (length (sc_toks s2)) \<le> length (sc_toks s)" using 2 L by (simp add: bud_not_at_end)
        then show ?thesis
          using True B Suc.prems by (auto intro!: ends_scan intro: ends_mono [OF Suc.IH])
      qed simp
    qed
  qed simp
qed simp

lemma parseSegment_ends:
  "length (sc_toks s) < n \<Longrightarrow> length (sc_toks s) \<le> b \<Longrightarrow> ends_within (length (sc_toks s)) (parseSegment po n s token)"
  unfolding parseSegment_def
  by (intro ends_scan ends_bind [where j = "length (sc_toks s)"])
    (auto intro: ends_mono [OF keys_loop_ends])

lemma segments_loop_ends:
  "bud s token < n \<Longrightarrow> bud s token \<le> b \<Longrightarrow> ends_within (bud s token) (segments_loop po n segments s token)"
proof (induction n arbitrary: segments s token)
  case (Suc n)
  show ?case
  proof (cases "Tok token = TokPERIOD")
    case True
    then have B: "bud s token = Suc (length (sc_toks s))" by (simp add: bud_not_at_end)
    have "ends_within (bud s token) (p_bind (parseSegment po n s1 token1)
            (\<lambda>segment token2 s2. segments_loop po n (segments @ [segment]) s2 token2))"
      if "bud s1 token1 \<le> length (sc_toks s)" for token1 s1
    proof (rule ends_bind)
      have "length (sc_toks s1) \<le> length (sc_toks s)" using that length_le_bud [of s1 token1] by simp
      then show "ends_within (length (sc_toks s)) (parseSegment po n s1 token1)"
        using B Suc.prems by (intro ends_mono [OF parseSegment_ends]) auto
      show "ends_within (bud s token) (segments_loop po n (segments @ [segment]) s2 token2)"
        if "bud s2 token2 \<le> length (sc_toks s)" for segment token2 s2
        using that B Suc.prems by (intro ends_mono [OF Suc.IH]) auto
    qed
    then show ?thesis by (auto simp: True intro!: ends_scan)
  qed simp
qed simp

lemma args_loop_ends:
  "bud s token < n \<Longrightarrow> bud s token < b \<Longrightarrow> ends_within (bud s token) (args_loop po n args s token)"
proof (induction n arbitrary: args s token)
  case (Suc n)
  show ?case
  proof (cases "at_end token")
    case True
    then obtain e where "po s token = fail e" using rejects Suc.prems by blast
    then show ?thesis by simp
  next
    case False
    then have B: "bud s token = Suc (length (sc_toks s))" by (rule bud_not_at_end)
    have next_ends: "ends_within (bud s token) (args_loop po n args' s2 token2)"
      if "bud s2 token2 \<le> length (sc_toks s)" for args' s2 token2
      using that B Suc.prems by (intro ends_mono [OF Suc.IH]) auto
    have "ends_within (length (sc_toks s)) (po s token)" by (rule consumes) (use Suc.prems in simp)
    moreover have "bud s2 token2 \<le> length (sc_toks s)"
      if "bud s1 token1 \<le> length (sc_toks s)" "bud s2 token2 \<le> length (sc_toks s1)" for s1 token1 s2 token2
      using that length_le_bud [of s1 token1] by simp
    ultimately show ?thesis
      by (auto intro!: ends_bind [where j = "length (sc_toks s)"] ends_scan next_ends)
  qed
qed simp

lemma parseFunction_ends:
  "length (sc_toks s) < n \<Longrightarrow> length (sc_toks s) < b \<Longrightarrow> ends_within (length (sc_toks s)) (parseFunction po n name off s)"
  unfolding parseFunction_def
  by (intro ends_scan ends_bind [where j = "length (sc_toks s)"] ends_done_next)
    (auto intro: ends_mono [OF args_loop_ends] order_trans [OF length_le_bud])

end

lemma parse_number_ends: "ends_within (length (sc_toks s)) (parse_number pf off sign token s)"
  by (auto simp: parse_number_def intro!: ends_done_next split: option.split)

lemma parse_literal_ends: "ends_within (length (sc_toks s)) (parse_literal pf s token)"
proof -
  have "ends_within (length (sc_toks s)) (parse_number pf off sign token1 s1)"
    if "bud s1 token1 \<le> length (sc_toks s)" for off sign token1 s1
    using that length_le_bud [of s1 token1] by (intro ends_mono [OF parse_number_ends]) simp
  then show ?thesis
    by (auto simp: parse_literal_def Let_def intro!: ends_done_next ends_scan parse_number_ends split: TokenType.split)
qed

lemma parseOperand_rejects: "at_end token \<Longrightarrow> \<exists>e. parseOperand pf (Suc n) s token = fail e"
  by (auto simp: at_end_def parse_literal_def Let_def)

text \<open>One level of \<open>parseOperand\<close>, over a bounded parser for the operands inside.\<close>

lemma parseOperand_step:
  assumes "bounded_operand (parseOperand pf n :: 'v operand_parser) n" and fuel: "bud s token < Suc n"
  shows "ends_within (length (sc_toks s)) (parseOperand pf (Suc n) s token :: 'v Operand parsed)"
proof (cases "Tok token = TokIDENT")
  case False
  then show ?thesis by (simp add: parse_literal_ends)
next
  case True
  then have L: "length (sc_toks s) < n" using fuel by (simp add: bud_not_at_end)
  note ends = bounded_operand.parseSegment_ends bounded_operand.segments_loop_ends bounded_operand.parseFunction_ends
  have seg: "ends_within (length (sc_toks s)) (parseSegment (parseOperand pf n :: 'v operand_parser) n s token)"
    using L by (intro ends [OF assms(1)]) auto
  have fn: "ends_within (length (sc_toks s)) (parseFunction (parseOperand pf n :: 'v operand_parser) n name off s1)"
    if "bud s1 token1 \<le> length (sc_toks s)" for name off s1 token1
    using that L length_le_bud [of s1 token1] by (intro ends_mono [OF ends(3) [OF assms(1)]]) auto
  have fld: "ends_within (length (sc_toks s)) (segments_loop (parseOperand pf n :: 'v operand_parser) n segs s1 token1)"
    if "bud s1 token1 \<le> length (sc_toks s)" for segs s1 token1
    using that L by (intro ends_mono [OF ends(2) [OF assms(1)]]) auto
  show ?thesis
    by (auto simp: True intro!: ends_bind [OF seg] ends_bind [OF fn] ends_bind [OF fld])
qed

lemma parseOperand_bounded: "bounded_operand (parseOperand pf n) n"
proof (induction n)
  case (Suc n)
  show ?case
    by unfold_locales (erule parseOperand_step [OF Suc.IH], erule parseOperand_rejects)
qed (unfold_locales, auto)

interpretation operand: bounded_operand "parseOperand pf n" n for pf n
  by (rule parseOperand_bounded)

lemma parseBinaryOperator_ends: "ends_within (length (sc_toks s)) (parseBinaryOperator s token)"
  by (auto simp: parseBinaryOperator_def Let_def intro!: ends_done_next ends_scan
      intro: order_trans [OF length_le_bud] split: TokenType.split)

lemma parseLogicalOperator_ends: "ends_within (length (sc_toks s)) (parseLogicalOperator s token)"
  by (auto simp: parseLogicalOperator_def Let_def intro!: ends_done_next)

lemma parseLikeEqualExpression_ends:
  assumes "bud s token < n"
  shows "ends_within (length (sc_toks s)) (parseLikeEqualExpression pf n s token)"
proof -
  have "ends_within (length (sc_toks s)) (parseBinaryOperator s1 token1)"
    if "bud s1 token1 \<le> length (sc_toks s)" for s1 token1
    using that length_le_bud [of s1 token1] by (intro ends_mono [OF parseBinaryOperator_ends]) simp
  moreover have "ends_within (length (sc_toks s)) (parseOperand pf n s1 token1 :: 'a Operand parsed)"
    if "bud s1 token1 \<le> length (sc_toks s)" for s1 token1
    using that assms length_le_bud [of s1 token1] length_le_bud [of s token] by (intro ends_mono [OF operand.consumes]) auto
  moreover have "ends_within (length (sc_toks s)) (parseOperand pf n s token :: 'a Operand parsed)"
    using assms by (rule operand.consumes)
  ultimately show ?thesis
    unfolding parseLikeEqualExpression_def by (auto intro!: ends_bind [where j = "length (sc_toks s)"])
qed

locale bounded_expression = bounded_parser pe b for pe :: "'v expr_parser" and b
begin

lemma parenthesized_ends:
  assumes "length (sc_toks s) < b"
  shows "ends_within (length (sc_toks s)) (parseParenthesizedExpression pe s)"
proof -
  have "ends_within (length (sc_toks s)) (pe s1 token1)" if "bud s1 token1 \<le> length (sc_toks s)" for s1 token1
    using that assms length_le_bud [of s1 token1] by (intro ends_mono [OF consumes]) auto
  then show ?thesis
    unfolding parseParenthesizedExpression_def
    by (auto intro!: ends_scan ends_bind [where j = "length (sc_toks s)"] ends_done_next intro: order_trans [OF length_le_bud])
qed

lemma parse_term_ends:
  "bud s token < n \<Longrightarrow> bud s token \<le> b \<Longrightarrow> ends_within (length (sc_toks s)) (parse_term pf pe n s token)"
  unfolding parse_term_def
  by (auto simp: bud_not_at_end intro!: parenthesized_ends parseLikeEqualExpression_ends)

lemma logical_loop_ends:
  "bud s token < n \<Longrightarrow> bud s token \<le> b \<Longrightarrow> ends_within (bud s token) (logical_loop pf pe n expr s token)"
proof (induction n arbitrary: expr s token)
  case (Suc n)
  show ?case
  proof (cases "lower_is token ''and'' \<or> lower_is token ''or''")
    case True
    then have B: "bud s token = Suc (length (sc_toks s))" by (auto dest: lower_is_not_at_end simp: bud_not_at_end)
    have operand: "ends_within (length (sc_toks s)) (parse_term pf pe (Suc n) s1 token1)"
      if "bud s1 token1 \<le> length (sc_toks s)" for s1 token1
      using that B Suc.prems length_le_bud [of s1 token1] by (intro ends_mono [OF parse_term_ends]) auto
    have more: "ends_within (bud s token) (logical_loop pf pe n expr' s1 token1)"
      if "bud s1 token1 \<le> length (sc_toks s)" for expr' s1 token1
      using that B Suc.prems by (intro ends_mono [OF Suc.IH]) auto
    show ?thesis
      by (auto intro!: ends_bind [OF parseLogicalOperator_ends] ends_bind [OF operand] more)
  qed simp
qed simp

end

lemma parseExpression_rejects: "at_end token \<Longrightarrow> \<exists>e. parseExpression pf (Suc n) s token = fail e"
  by (auto simp: at_end_def parse_term_def parseLikeEqualExpression_def parse_literal_def Let_def)

lemma parseExpression_step:
  assumes "bounded_expression (parseExpression pf n :: 'v expr_parser) n" and fuel: "bud s token < Suc n"
  shows "ends_within (length (sc_toks s)) (parseExpression pf (Suc n) s token :: 'v Expression parsed)"
proof -
  have "ends_within (length (sc_toks s)) (parse_term pf (parseExpression pf n :: 'v expr_parser) (Suc n) s token)"
    using fuel by (intro bounded_expression.parse_term_ends [OF assms(1)]) auto
  moreover have "ends_within (length (sc_toks s)) (logical_loop pf (parseExpression pf n :: 'v expr_parser) (Suc n) expr s1 token1)"
    if "bud s1 token1 \<le> length (sc_toks s)" for expr s1 token1
    using that fuel length_le_bud [of s token] by (intro ends_mono [OF bounded_expression.logical_loop_ends [OF assms(1)]]) auto
  ultimately show ?thesis
    by (auto intro!: ends_bind [where j = "length (sc_toks s)"] simp del: logical_loop.simps)
qed

lemma parseExpression_bounded: "bounded_expression (parseExpression pf n) n"
proof (induction n)
  case (Suc n)
  show ?case
    by unfold_locales (erule parseExpression_step [OF Suc.IH], erule parseExpression_rejects)
qed (unfold_locales, auto)

interpretation expression: bounded_expression "parseExpression pf n" n for pf n
  by (rule parseExpression_bounded)

subsection \<open>Clauses and statements\<close>

lemma parseSelector_ends:
  assumes fuel: "bud s token \<le> n"
  shows "ends_within (length (sc_toks s)) (parseSelector pf n s token :: 'v Selector parsed)"
proof (cases "Tok token = TokIDENT")
  case True
  then have L: "length (sc_toks s) < n" using fuel by (simp add: bud_not_at_end)
  have seg: "ends_within (length (sc_toks s)) (parseSegment (parseOperand pf n :: 'v operand_parser) n s token)"
    using L by (intro operand.parseSegment_ends) auto
  have fn: "ends_within (length (sc_toks s)) (parseFunction (parseOperand pf n :: 'v operand_parser) n name off s1)"
    if "bud s1 token1 \<le> length (sc_toks s)" for name off s1 token1
    using that L length_le_bud [of s1 token1] by (intro ends_mono [OF operand.parseFunction_ends]) auto
  have fld: "ends_within (length (sc_toks s)) (segments_loop (parseOperand pf n :: 'v operand_parser) n segs s1 token1)"
    if "bud s1 token1 \<le> length (sc_toks s)" for segs s1 token1
    using that L by (intro ends_mono [OF operand.segments_loop_ends]) auto
  show ?thesis
    unfolding parseSelector_def
    by (auto simp: True bud_not_at_end intro!: ends_bind [OF seg] ends_bind [where j = "length (sc_toks s)"] fn fld ends_scan ends_done_next
        intro: order_trans [OF length_le_bud])
qed (simp add: parseSelector_def)

lemma selectors_loop_ends:
  "bud s token < n \<Longrightarrow> ends_within (bud s token) (selectors_loop pf n (sels :: 'v Selector list) s token)"
proof (induction n arbitrary: sels s token)
  case (Suc n)
  show ?case
  proof (cases "Tok token = TokCOMMA")
    case True
    then have B: "bud s token = Suc (length (sc_toks s))" by (simp add: bud_not_at_end)
    have sel: "ends_within (length (sc_toks s)) (parseSelector pf (Suc n) s1 token1 :: 'v Selector parsed)"
      if "bud s1 token1 \<le> length (sc_toks s)" for s1 token1
      using that B Suc.prems length_le_bud [of s1 token1] by (intro ends_mono [OF parseSelector_ends]) auto
    have "ends_within (bud s token) (selectors_loop pf n sels' s1 token1)"
      if "bud s1 token1 \<le> length (sc_toks s)" for sels' :: "'v Selector list" and s1 token1
      using that B Suc.prems by (intro ends_mono [OF Suc.IH]) auto
    then show ?thesis by (auto simp: True intro!: ends_scan ends_bind [OF sel])
  qed simp
qed simp

lemma parseSelectClause_ends:
  assumes "length (sc_toks s) < n"
  shows "ends_within (length (sc_toks s)) (parseSelectClause pf n s token :: 'v SelectClause parsed)"
proof -
  have sel: "ends_within (length (sc_toks s)) (parseSelector pf n s1 token1 :: 'v Selector parsed)"
    if "bud s1 token1 \<le> length (sc_toks s)" for s1 token1
    using that assms length_le_bud [of s1 token1] by (intro ends_mono [OF parseSelector_ends]) auto
  have sels: "ends_within (length (sc_toks s)) (selectors_loop pf n sels s1 token1)"
    if "bud s1 token1 \<le> length (sc_toks s)" for sels :: "'v Selector list" and s1 token1
    using that assms by (intro ends_mono [OF selectors_loop_ends]) auto
  show ?thesis
    unfolding parseSelectClause_def by (auto intro!: ends_scan ends_bind [OF sel] ends_bind [OF sels])
qed

lemma parseFromClause_ends: "ends_within (length (sc_toks s)) (parseFromClause s token)"
  unfolding parseFromClause_def
  by (auto intro!: ends_scan ends_done_next intro: order_trans [OF length_le_bud])

lemma parseWhereClause_ends:
  assumes "bud s token < n"
  shows "ends_within (bud s token) (parseWhereClause pf n s token :: 'v WhereClause option parsed)"
proof -
  have expr: "ends_within (bud s token) (parseExpression pf n s1 token1 :: 'v Expression parsed)"
    if "bud s1 token1 \<le> length (sc_toks s)" for s1 token1
    using that assms length_le_bud [of s1 token1] length_le_bud [of s token]
    by (intro ends_mono [OF expression.consumes]) auto
  show ?thesis
    unfolding parseWhereClause_def by (auto intro!: ends_scan ends_bind [OF expr])
qed

lemma parseEscapeClause_ends: "ends_within (length (sc_toks s)) (parseEscapeClause s token)"
  unfolding parseEscapeClause_def
  by (auto simp: bud_not_at_end intro!: ends_scan ends_done_next)

lemma parseNonNegInt64_ends: "ends_within (length (sc_toks s)) (parseNonNegInt64 s token)"
  unfolding parseNonNegInt64_def by (auto intro!: ends_done_next split: option.split)

lemma parseLimitClause_ends: "ends_within (length (sc_toks s)) (parseLimitClause s token)"
proof -
  have "ends_within (length (sc_toks s)) (parseNonNegInt64 s1 token1)" if "bud s1 token1 \<le> length (sc_toks s)" for s1 token1
    using that length_le_bud [of s1 token1] by (intro ends_mono [OF parseNonNegInt64_ends]) simp
  then show ?thesis
    unfolding parseLimitClause_def by (auto intro!: ends_scan ends_bind [where j = "length (sc_toks s)"])
qed

lemma parseResultsOffsetClause_eq: "parseResultsOffsetClause = parseLimitClause"
  by (simp add: fun_eq_iff parseResultsOffsetClause_def parseLimitClause_def)

lemmas clause_ends = parseEscapeClause_ends parseLimitClause_ends

lemma parseEscapeLimitResultsOffsetClauses_ends:
  "bud s token < n \<Longrightarrow> ends_within (bud s token) (parseEscapeLimitResultsOffsetClauses n c s token)"
proof (induction n arbitrary: c s token)
  case (Suc n)
  obtain ec lc oc where c: "c = (ec, lc, oc)" by (cases c)
  show ?case
  proof (cases "Tok token = TokIDENT")
    case True
    then have B: "bud s token = Suc (length (sc_toks s))" by (simp add: bud_not_at_end)
    have "ends_within (bud s token) (parseEscapeLimitResultsOffsetClauses n c' s1 token1)"
      if "bud s1 token1 \<le> length (sc_toks s)" for c' s1 token1
      using that B Suc.prems by (intro ends_mono [OF Suc.IH]) auto
    then show ?thesis by (auto simp: c True parseResultsOffsetClause_eq intro!: clause_ends [THEN ends_bind])
  qed (simp add: c)
qed simp

lemma parseEscapeLimitClauses_ends:
  "bud s token < n \<Longrightarrow> ends_within (bud s token) (parseEscapeLimitClauses n c s token)"
proof (induction n arbitrary: c s token)
  case (Suc n)
  obtain ec lc where c: "c = (ec, lc)" by (cases c)
  show ?case
  proof (cases "Tok token = TokIDENT")
    case True
    then have B: "bud s token = Suc (length (sc_toks s))" by (simp add: bud_not_at_end)
    have "ends_within (bud s token) (parseEscapeLimitClauses n c' s1 token1)"
      if "bud s1 token1 \<le> length (sc_toks s)" for c' s1 token1
      using that B Suc.prems by (intro ends_mono [OF Suc.IH]) auto
    then show ?thesis by (auto simp: c True intro!: clause_ends [THEN ends_bind])
  qed (simp add: c)
qed simp

text \<open>The clauses after the first token of a statement, with more fuel than tokens.\<close>

lemma tail_ends:
  assumes "k < n" "bud s token \<le> k"
  shows from_tail: "ends_within k (parseFromClause s token)"
    and where_tail: "ends_within k (parseWhereClause pf n s token :: 'v WhereClause option parsed)"
    and select_tail: "ends_within k (parseEscapeLimitResultsOffsetClauses n c s token)"
    and delete_tail: "ends_within k (parseEscapeLimitClauses n c' s token)"
  using assms length_le_bud [of s token]
  by (auto intro: ends_mono [OF parseFromClause_ends] ends_mono [OF parseWhereClause_ends]
      ends_mono [OF parseEscapeLimitResultsOffsetClauses_ends] ends_mono [OF parseEscapeLimitClauses_ends])

lemma selectStatement_ends:
  assumes "length (sc_toks s) < n"
  shows "ends_within (length (sc_toks s)) (selectStatement pf n s token)"
  unfolding selectStatement_def
  by (auto intro!: parseSelectClause_ends [OF assms, THEN ends_bind] tail_ends [OF assms, THEN ends_bind])

lemma deleteStatement_ends:
  assumes "length (sc_toks s) < n"
  shows "ends_within (length (sc_toks s)) (deleteStatement pf n s token)"
  unfolding deleteStatement_def
  by (auto intro!: ends_scan tail_ends [OF assms, THEN ends_bind])

lemma scanToken_length: "scanToken s = (token, s1) \<Longrightarrow> length (sc_toks s1) \<le> length (sc_toks s)"
  using scanToken_bud [of s token s1] length_le_bud [of s1 token] by simp

text \<open>C32: 
  \<open>Parse\<close> and \<open>ParseIndexField\<close> return a statement or an error on every sequence of tokens: the recursion is
  bounded by the number of tokens, and no loop turns without consuming one.
\<close>

theorem Parse_returns:
  "(\<exists>r :: q_error + 'v Statement. Parse pf len s = Some r) \<and>
   (\<exists>r :: q_error + 'v Field. ParseIndexField pf fieldName table s = Some r)"
proof -
  obtain token s1 where sc: "scanToken s = (token, s1)" by (cases "scanToken s")
  then have L: "length (sc_toks s1) < parse_fuel s" and B: "bud s1 token < parse_fuel s"
    using scanToken_length [OF sc] scanToken_bud [OF sc] by (auto simp: parse_fuel_def)
  have "(Parse pf len s :: (q_error + 'v Statement) option) \<noteq> None"
    using selectStatement_ends [OF L, THEN ends_not_None] deleteStatement_ends [OF L, THEN ends_not_None]
    by (auto simp: Parse_def sc)
  moreover obtain r where r: "(parseOperand pf (parse_fuel s) s1 token :: 'v Operand parsed) = Some r"
    using operand.consumes [OF B, THEN ends_not_None] by blast
  have "(ParseIndexField pf fieldName table s :: (q_error + 'v Field) option) \<noteq> None"
    by (auto simp: ParseIndexField_def sc r Let_def split: sum.split body.split)
  ultimately show ?thesis by auto
qed

end
