(* ===== verification/GoFloat.thy ===== *)
theory GoFloat
  imports GoPrelude
begin

text \<open>
  What the query language uses of Go's \<open>float64\<close>: IEEE 754 doubles as their bits, compared as the
  machine does, and the conversion of an \<open>int64\<close>, which rounds to the nearest double, ties to even.
\<close>

type_synonym float64 = "64 word"

definition f64_magnitude :: "float64 \<Rightarrow> int" where
  "f64_magnitude w = uint w mod 2 ^ 63"

definition f64_negative :: "float64 \<Rightarrow> bool" where
  "f64_negative w \<longleftrightarrow> 2 ^ 63 \<le> uint w"

definition f64_inf :: int where
  "f64_inf = 0x7FF0000000000000"

definition f64_is_nan :: "float64 \<Rightarrow> bool" where
  "f64_is_nan w \<longleftrightarrow> f64_inf < f64_magnitude w"

text \<open>Magnitudes are ordered like the numbers they stand for; both zeros have key 0.\<close>

definition f64_key :: "float64 \<Rightarrow> int" where
  "f64_key w = (if f64_negative w then - f64_magnitude w else f64_magnitude w)"

definition f64_less :: "float64 \<Rightarrow> float64 \<Rightarrow> bool" where
  "f64_less a b \<longleftrightarrow> \<not> f64_is_nan a \<and> \<not> f64_is_nan b \<and> f64_key a < f64_key b"

definition f64_eq :: "float64 \<Rightarrow> float64 \<Rightarrow> bool" where
  "f64_eq a b \<longleftrightarrow> \<not> f64_is_nan a \<and> \<not> f64_is_nan b \<and> f64_key a = f64_key b"

definition f64_le :: "float64 \<Rightarrow> float64 \<Rightarrow> bool" where
  "f64_le a b \<longleftrightarrow> f64_less a b \<or> f64_eq a b"

text \<open>\<open>math.NaN\<close>, \<open>math.Inf\<close> and \<open>math.IsInf\<close>.\<close>

definition f64_NaN :: float64 where
  "f64_NaN = 0x7FF8000000000001"

definition f64_Inf :: "int \<Rightarrow> float64" where
  "f64_Inf sign = (if 0 \<le> sign then 0x7FF0000000000000 else 0xFFF0000000000000)"

definition f64_is_inf :: "float64 \<Rightarrow> int \<Rightarrow> bool" where
  "f64_is_inf w sign \<longleftrightarrow> f64_magnitude w = f64_inf \<and> (0 \<le> sign \<and> \<not> f64_negative w \<or> sign \<le> 0 \<and> f64_negative w)"

text \<open>The position of the highest bit of a positive number.\<close>

function top_bit :: "int \<Rightarrow> nat" where
  "top_bit m = (if m < 2 then 0 else Suc (top_bit (m div 2)))"
  by pat_completeness auto
termination
  by (relation "measure nat") auto

declare top_bit.simps [simp del]

text \<open>
  The bits of the double nearest to \<open>m > 0\<close>: exponent and the 52 bits below the top bit. A rounding that carries
  into the exponent gives the next power of two, as it should.
\<close>

definition f64_of_pos :: "int \<Rightarrow> int" where
  "f64_of_pos m =
     (let e = top_bit m in
      if e \<le> 52 then (int e + 1022) * 2 ^ 52 + m * 2 ^ (52 - e)
      else
        let d = 2 ^ (e - 52); q = m div d; r = m mod d;
            q' = (if 2 * r < d \<or> 2 * r = d \<and> even q then q else q + 1)
        in (int e + 1022) * 2 ^ 52 + q')"

definition f64_of_int :: "int \<Rightarrow> float64" where
  "f64_of_int i =
     (if i = 0 then 0
      else if 0 < i then word_of_int (f64_of_pos i)
      else word_of_int (f64_of_pos (- i) + 2 ^ 63))"

lemma f64_of_int_examples:
  "f64_of_int 1 = 0x3FF0000000000000"
  "f64_of_int (- 2) = 0xC000000000000000"
  "f64_of_int 9007199254740993 = f64_of_int 9007199254740992"
  "f64_of_int 9223372036854775807 = 0x43E0000000000000"
  by code_simp+

lemma f64_order:
  "\<not> f64_less a a"
  "f64_less a b \<Longrightarrow> f64_less b c \<Longrightarrow> f64_less a c"
  "f64_eq a b \<Longrightarrow> f64_eq b a"
  "\<not> f64_is_nan a \<Longrightarrow> \<not> f64_is_nan b \<Longrightarrow> f64_less a b \<or> f64_eq a b \<or> f64_less b a"
  "f64_is_nan a \<Longrightarrow> \<not> f64_less a b \<and> \<not> f64_eq a b \<and> \<not> f64_less b a"
  by (auto simp: f64_less_def f64_eq_def)

lemma f64_special:
  "f64_is_nan f64_NaN" "\<not> f64_is_nan (f64_Inf s)" "f64_is_inf (f64_Inf s) s"
  by (simp_all add: f64_is_nan_def f64_NaN_def f64_Inf_def f64_is_inf_def f64_magnitude_def f64_negative_def f64_inf_def)

end
