(* ===== verification/QueryFunctions.thy ===== *)
theory QueryFunctions
  imports QueryParser GoStrings GoFloat
begin

text \<open>
  The functions of the query language: query/engine/internal/query_functions and
  query/engine/internal/conversions.

  A result is \<open>None\<close> when the Go code panics. What the bodies call of the standard library is either
  defined here (strings, floats as bits) or, where it rests on tables, formatting or real arithmetic, a field
  of the record \<open>go_std\<close>, together with the values of VDL that the functions read and make. A time is its instant.
\<close>

subsection \<open>Operand types and conversions\<close>

datatype OperandType =
  OBool | OExpr | OField | OFloat | OFunction | OInt | ONil | OParameter | OStr | OTime | OObject

fun body_type :: "'v body \<Rightarrow> OperandType" where
  "body_type (TypBool _) = OBool"
| "body_type TypNil = ONil"
| "body_type (TypInt _) = OInt"
| "body_type (TypFloat _) = OFloat"
| "body_type (TypStr _) = OStr"
| "body_type (TypPattern _ _ _) = OStr"
| "body_type (TypField _) = OField"
| "body_type (TypFunction _) = OFunction"
| "body_type (TypExpr _) = OExpr"
| "body_type TypParameter = OParameter"
| "body_type (TypTime _) = OTime"
| "body_type (TypObject _) = OObject"

definition operand_type :: "'v Operand \<Rightarrow> OperandType" where
  "operand_type o1 = body_type (operandBody o1)"

datatype f_error =
    CannotConvert OperandType
  | StdError string
  | FunctionTypeInvalidArg int
  | FunctionLenInvalidArg int
  | FunctionNotFound int string
  | DidYouMeanFunction int string
  | FunctionArgCount int string nat nat
  | FunctionAtLeastArgCount int string nat nat
  | ConversionError OperandType int
  | LocationConversionError int
  | ArgMustBeField int

definition ConvertValueToString :: "'v Operand \<Rightarrow> f_error + 'v Operand" where
  "ConvertValueToString o1 =
     (case operandBody o1 of
        TypStr s \<Rightarrow> Inr o1
      | TypPattern s p q \<Rightarrow> Inr o1
      | _ \<Rightarrow> Inl (CannotConvert OStr))"

definition ConvertValueToTime :: "'v Operand \<Rightarrow> f_error + 'v Operand" where
  "ConvertValueToTime o1 = (case operandBody o1 of TypTime t \<Rightarrow> Inr o1 | _ \<Rightarrow> Inl (CannotConvert OTime))"

text \<open>The other conversions leave the offset of the new operand at zero.\<close>

definition ConvertValueToFloat :: "'v Operand \<Rightarrow> f_error + 'v Operand" where
  "ConvertValueToFloat o1 =
     (case operandBody o1 of
        TypFloat f \<Rightarrow> Inr (Operand 0 (TypFloat f))
      | TypInt i \<Rightarrow> Inr (Operand 0 (TypFloat (f64_of_int i)))
      | _ \<Rightarrow> Inl (CannotConvert OFloat))"

definition ConvertValueToBool :: "'v Operand \<Rightarrow> f_error + 'v Operand" where
  "ConvertValueToBool o1 =
     (let of_str = (\<lambda>s. if to_lower s = ''true'' then Inr (Operand 0 (TypBool True))
                        else if to_lower s = ''false'' then Inr (Operand 0 (TypBool False))
                        else Inl (CannotConvert OBool))
      in case operandBody o1 of
           TypBool b \<Rightarrow> Inr (Operand 0 (TypBool b))
         | TypStr s \<Rightarrow> of_str s
         | TypPattern s p q \<Rightarrow> of_str s
         | _ \<Rightarrow> Inl (CannotConvert OBool))"

definition ConvertValueToInt :: "'v Operand \<Rightarrow> f_error + 'v Operand" where
  "ConvertValueToInt o1 =
     (case operandBody o1 of TypInt i \<Rightarrow> Inr (Operand 0 (TypInt i)) | _ \<Rightarrow> Inl (CannotConvert OInt))"

text \<open>The fields \<open>Str\<close>, \<open>Int\<close>, \<open>Float\<close> and \<open>Time\<close>, zero in an operand of another type.\<close>

definition op_Str :: "'v Operand \<Rightarrow> string" where
  "op_Str o1 = (case operandBody o1 of TypStr s \<Rightarrow> s | TypPattern s _ _ \<Rightarrow> s | _ \<Rightarrow> [])"

definition op_Int :: "'v Operand \<Rightarrow> int" where
  "op_Int o1 = (case operandBody o1 of TypInt i \<Rightarrow> i | _ \<Rightarrow> 0)"

definition op_Float :: "'v Operand \<Rightarrow> float64" where
  "op_Float o1 = (case operandBody o1 of TypFloat f \<Rightarrow> f | _ \<Rightarrow> 0)"

definition op_Time :: "'v Operand \<Rightarrow> int" where
  "op_Time o1 = (case operandBody o1 of TypTime t \<Rightarrow> t | _ \<Rightarrow> 0)"

subsection \<open>The standard library\<close>

record civil =
  cYear :: int
  cMonth :: int
  cDay :: int
  cHour :: int
  cMinute :: int
  cSecond :: int
  cNanosecond :: int
  cWeekday :: int
  cYearDay :: int

text \<open>
  \<open>std_math\<close> are the functions of package math by name. \<open>obj_len\<close> is the length of an array, list, map or set,
  \<open>obj_type\<close> and \<open>obj_str\<close> what \<open>Type\<close> and \<open>Str\<close> print of a value.
\<close>

record 'v go_std =
  std_parseTime :: "string \<Rightarrow> string \<Rightarrow> int option"
  std_now :: int
  std_loadLocation :: "string \<Rightarrow> (int \<Rightarrow> civil) option"
  std_formatTime :: "int \<Rightarrow> string"
  std_parseFloat :: "string \<Rightarrow> float64 option"
  std_formatFloat :: "float64 \<Rightarrow> string"
  std_formatInt :: "int \<Rightarrow> string"
  std_string :: "string \<Rightarrow> string \<Rightarrow> string"
  std_sprintf :: "string \<Rightarrow> 'v Operand list \<Rightarrow> string"
  std_math :: "string \<Rightarrow> float64 list \<Rightarrow> float64"
  std_pow10 :: "int \<Rightarrow> float64"
  std_split :: "string \<Rightarrow> string \<Rightarrow> 'v"
  obj_len :: "'v \<Rightarrow> nat option"
  obj_type :: "'v \<Rightarrow> string"
  obj_str :: "'v \<Rightarrow> string"

text \<open>\<open>strings.Index\<close> and \<open>strings.LastIndex\<close>: \<open>split_once\<close> finds the first occurrence.\<close>

definition str_index :: "string \<Rightarrow> string \<Rightarrow> int" where
  "str_index s sep = (case split_once sep s of None \<Rightarrow> -1 | Some (a, _) \<Rightarrow> int (length a))"

fun str_last_index :: "string \<Rightarrow> string \<Rightarrow> int" where
  "str_last_index [] sep = (if sep = [] then 0 else -1)"
| "str_last_index (c # s) sep =
     (let i = str_last_index s sep in
      if 0 \<le> i then i + 1 else if prefix sep (c # s) then 0 else -1)"

text \<open>\<open>strings.Replace\<close> with count 1.\<close>

definition replace_first :: "string \<Rightarrow> string \<Rightarrow> string \<Rightarrow> string" where
  "replace_first s old new = (case split_once old s of None \<Rightarrow> s | Some (a, b) \<Rightarrow> a @ new @ b)"

text \<open>\<open>strconv.ParseInt(s, 10, 64)\<close>.\<close>

definition ParseInt10 :: "string \<Rightarrow> int option" where
  "ParseInt10 s =
     (let neg = (s \<noteq> [] \<and> hd s = CHR ''-'');
          m = (if neg \<or> s \<noteq> [] \<and> hd s = CHR ''+'' then tl s else s)
      in if m = [] then None
         else case digits_value 10 0 m of
                None \<Rightarrow> None
              | Some n \<Rightarrow>
                  if \<not> neg \<and> 2 ^ 63 \<le> n then None
                  else if neg \<and> 2 ^ 63 < n then None
                  else Some (if neg then - n else n))"

subsection \<open>Function bodies\<close>

type_synonym 'v f_result = "(f_error + 'v Operand) option"
type_synonym 'v f_body = "int \<Rightarrow> 'v Operand list \<Rightarrow> 'v f_result"

text \<open>\<open>args[i]\<close> with a conversion, and what follows; an index out of range panics.\<close>

definition with_arg ::
  "('v Operand \<Rightarrow> f_error + 'v Operand) \<Rightarrow> ('v Operand \<Rightarrow> 'a) \<Rightarrow> 'v Operand list \<Rightarrow> nat
    \<Rightarrow> ('a \<Rightarrow> 'v f_result) \<Rightarrow> 'v f_result" where
  "with_arg conv get args i k =
     (if i < length args
      then (case conv (args ! i) of Inl e \<Rightarrow> Some (Inl e) | Inr x \<Rightarrow> k (get x))
      else None)"

abbreviation "with_str \<equiv> with_arg ConvertValueToString op_Str"
abbreviation "with_int \<equiv> with_arg ConvertValueToInt op_Int"
abbreviation "with_float \<equiv> with_arg ConvertValueToFloat op_Float"
abbreviation "with_time \<equiv> with_arg ConvertValueToTime op_Time"
abbreviation "with_raw \<equiv> with_arg Inr id"

definition return_op :: "int \<Rightarrow> 'v body \<Rightarrow> 'v f_result" where
  "return_op off b = Some (Inr (Operand off b))"

text \<open>Times.\<close>

definition timeFunc :: "'v go_std \<Rightarrow> 'v f_body" where
  "timeFunc std off args =
     with_str args 0 (\<lambda>layout. with_str args 1 (\<lambda>value.
       case std_parseTime std layout value of
         None \<Rightarrow> Some (Inl (StdError value))
       | Some t \<Rightarrow> return_op off (TypTime t)))"

definition now :: "'v go_std \<Rightarrow> 'v f_body" where
  "now std off args = return_op off (TypTime (std_now std))"

definition timeInLocation :: "'v go_std \<Rightarrow> (civil \<Rightarrow> int) \<Rightarrow> 'v f_body" where
  "timeInLocation std part off args =
     with_time args 0 (\<lambda>t. with_str args 1 (\<lambda>loc.
       case std_loadLocation std loc of
         None \<Rightarrow> Some (Inl (StdError loc))
       | Some l \<Rightarrow> return_op off (TypInt (part (l t)))))"

text \<open>Strings.\<close>

definition str_fn :: "'v go_std \<Rightarrow> 'v f_body" where
  "str_fn std off args =
     with_raw args 0 (\<lambda>o1.
       case ConvertValueToString o1 of
         Inr s \<Rightarrow> Some (Inr s)
       | Inl _ \<Rightarrow> return_op (operandOff o1) (TypStr
           (case operandBody o1 of
              TypBool b \<Rightarrow> (if b then ''true'' else ''false'')
            | TypFloat f \<Rightarrow> std_formatFloat std f
            | TypInt i \<Rightarrow> std_formatInt std i
            | TypTime t \<Rightarrow> std_formatTime std t
            | TypObject v \<Rightarrow> obj_str std v
            | _ \<Rightarrow> [])))"

definition atoi :: "'v f_body" where
  "atoi off args =
     with_raw args 0 (\<lambda>o1.
       if operand_type o1 = OStr then
         (case ParseInt10 (op_Str o1) of None \<Rightarrow> Some (Inl (StdError (op_Str o1))) | Some i \<Rightarrow> return_op off (TypInt i))
       else Some (Inl (CannotConvert OInt)))"

definition atof :: "'v go_std \<Rightarrow> 'v f_body" where
  "atof std off args =
     with_raw args 0 (\<lambda>o1.
       if operand_type o1 = OStr then
         (case std_parseFloat std (op_Str o1) of None \<Rightarrow> Some (Inl (StdError (op_Str o1))) | Some f \<Rightarrow> return_op off (TypFloat f))
       else Some (Inl (CannotConvert OFloat)))"

text \<open>\<open>htmlEscapeFunc\<close>, \<open>htmlUnescapeFunc\<close>, \<open>lowerCase\<close>, \<open>upperCase\<close>, \<open>trim\<close>, \<open>trimLeft\<close> and \<open>trimRight\<close>.\<close>

definition string_fn :: "'v go_std \<Rightarrow> string \<Rightarrow> 'v f_body" where
  "string_fn std name off args = with_str args 0 (\<lambda>s. return_op off (TypStr (std_string std name s)))"

definition typeFunc :: "'v go_std \<Rightarrow> 'v f_body" where
  "typeFunc std off args =
     with_raw args 0 (\<lambda>o1.
       case operandBody o1 of
         TypObject v \<Rightarrow> return_op off (TypStr (obj_type std v))
       | _ \<Rightarrow> Some (Inl (FunctionTypeInvalidArg (operandOff o1))))"

definition split_fn :: "'v go_std \<Rightarrow> 'v f_body" where
  "split_fn std off args =
     with_str args 0 (\<lambda>s. with_str args 1 (\<lambda>sep.
       return_op (operandOff (args ! 0)) (TypObject (std_split std s sep))))"

definition sprintf :: "'v go_std \<Rightarrow> 'v f_body" where
  "sprintf std off args = with_raw args 0 (\<lambda>o1. return_op off (TypStr (std_sprintf std (op_Str o1) (tl args))))"

fun strCat_loop :: "string \<Rightarrow> 'v Operand list \<Rightarrow> f_error + string" where
  "strCat_loop val [] = Inr val"
| "strCat_loop val (a # args) = and_then (ConvertValueToString a) (\<lambda>s. strCat_loop (val @ op_Str s) args)"

definition strCat :: "'v f_body" where
  "strCat off args =
     (case strCat_loop [] args of Inl e \<Rightarrow> Some (Inl e) | Inr s \<Rightarrow> return_op off (TypStr s))"

definition strIndex :: "'v f_body" where
  "strIndex off args = with_str args 0 (\<lambda>s. with_str args 1 (\<lambda>sep. return_op off (TypInt (str_index s sep))))"

definition strLastIndex :: "'v f_body" where
  "strLastIndex off args =
     with_str args 0 (\<lambda>s. with_str args 1 (\<lambda>sep. return_op off (TypInt (str_last_index s sep))))"

text \<open>\<open>strings.Repeat\<close> panics when the length of the result overflows an \<open>int\<close>.\<close>

definition strRepeat :: "'v f_body" where
  "strRepeat off args =
     with_str args 0 (\<lambda>s. with_int args 1 (\<lambda>count.
       if 0 \<le> count then
         (if 2 ^ 63 \<le> int (length s) * count then None
          else return_op off (TypStr (concat (replicate (nat count) s))))
       else return_op off (TypStr [])))"

definition strReplace :: "'v f_body" where
  "strReplace off args =
     with_str args 0 (\<lambda>s. with_str args 1 (\<lambda>old. with_str args 2 (\<lambda>new.
       return_op off (TypStr (replace_first s old new)))))"

definition runeCount :: "'v f_body" where
  "runeCount off args = with_str args 0 (\<lambda>s. return_op off (TypInt (int (length (runes s)))))"

text \<open>
  Mathematics. \<open>math_fn\<close> stands for \<open>ceilingFunc\<close>, \<open>floorFunc\<close>, \<open>logFunc\<close>, \<open>log10Func\<close> and \<open>truncateFunc\<close>, and \<open>math_fn2\<close> for \<open>powFunc\<close>,
  \<open>modFunc\<close> and \<open>remainderFunc\<close>.
\<close>

definition math_fn :: "'v go_std \<Rightarrow> string \<Rightarrow> 'v f_body" where
  "math_fn std name off args = with_float args 0 (\<lambda>x. return_op off (TypFloat (std_math std name [x])))"

definition math_fn2 :: "'v go_std \<Rightarrow> string \<Rightarrow> 'v f_body" where
  "math_fn2 std name off args =
     with_float args 0 (\<lambda>x. with_float args 1 (\<lambda>y. return_op off (TypFloat (std_math std name [x, y]))))"

definition nanFunc :: "'v f_body" where
  "nanFunc off args = return_op off (TypFloat f64_NaN)"

definition isNanFunc :: "'v f_body" where
  "isNanFunc off args = with_float args 0 (\<lambda>x. return_op off (TypBool (f64_is_nan x)))"

definition infFunc :: "'v f_body" where
  "infFunc off args = with_int args 0 (\<lambda>i. return_op off (TypFloat (f64_Inf i)))"

definition isInfFunc :: "'v f_body" where
  "isInfFunc off args = with_float args 0 (\<lambda>x. with_int args 1 (\<lambda>i. return_op off (TypBool (f64_is_inf x i))))"

definition pow10Func :: "'v go_std \<Rightarrow> 'v f_body" where
  "pow10Func std off args = with_int args 0 (\<lambda>i. return_op off (TypFloat (std_pow10 std i)))"

definition lenFunc :: "'v go_std \<Rightarrow> 'v f_body" where
  "lenFunc std off args =
     with_raw args 0 (\<lambda>o1.
       let bad = Some (Inl (FunctionLenInvalidArg (operandOff o1))); len = (\<lambda>n. return_op (operandOff o1) (TypInt n)) in
       case operandBody o1 of
         TypNil \<Rightarrow> len 0
       | TypObject v \<Rightarrow> (case obj_len std v of Some n \<Rightarrow> len (int n) | None \<Rightarrow> bad)
       | TypStr s \<Rightarrow> len (int (length s))
       | TypPattern s _ _ \<Rightarrow> len (int (length s))
       | _ \<Rightarrow> bad)"

subsection \<open>The table of functions\<close>

text \<open>A check of the arguments: an error, or \<open>None\<close> for \<open>nil\<close>.\<close>

type_synonym 'v f_check = "int \<Rightarrow> 'v Operand list \<Rightarrow> f_error option"

record 'v function_entry =
  argTypes :: "OperandType list"
  hasVarArgs :: bool
  varArgsType :: OperandType
  returnType :: OperandType
  funcAddr :: "'v f_body"
  checkArgsAddr :: "'v f_check option"

definition is_literal_arg :: "'v Operand \<Rightarrow> bool" where
  "is_literal_arg a \<longleftrightarrow> operand_type a \<in> {OBool, OFloat, OInt, OStr, OTime}"

definition computed :: "'v Operand \<Rightarrow> 'v Operand option" where
  "computed a = (case operandBody a of TypFunction f \<Rightarrow> funcRet f | _ \<Rightarrow> None)"

text \<open>What an argument stands for when that is known before execution.\<close>

definition known_arg :: "'v Operand \<Rightarrow> 'v Operand option" where
  "known_arg a = (if is_literal_arg a then Some a else computed a)"

definition secondArgLocationCheck :: "'v go_std \<Rightarrow> 'v f_check" where
  "secondArgLocationCheck std off args =
     (let a = args ! 1 in
      case known_arg a of
        None \<Rightarrow> None
      | Some x \<Rightarrow>
          (case ConvertValueToString x of
             Inl _ \<Rightarrow> Some (LocationConversionError (operandOff a))
           | Inr s \<Rightarrow>
               if std_loadLocation std (op_Str s) = None then Some (LocationConversionError (operandOff a)) else None))"

definition typeFuncFieldCheck :: "'v f_check" where
  "typeFuncFieldCheck off args =
     (let a = args ! 0; bad = Some (ArgMustBeField (operandOff a)) in
      case operandBody a of
        TypField c \<Rightarrow>
          (case fieldSegments c of
             [] \<Rightarrow> bad
           | sg # _ \<Rightarrow> if segValue sg \<noteq> ''v'' then bad else None)
      | _ \<Rightarrow> bad)"

abbreviation fixed :: "OperandType list \<Rightarrow> OperandType \<Rightarrow> 'v f_body \<Rightarrow> 'v f_check option \<Rightarrow> 'v function_entry" where
  "fixed args ret body chk \<equiv>
     \<lparr>argTypes = args, hasVarArgs = False, varArgsType = ONil, returnType = ret, funcAddr = body, checkArgsAddr = chk\<rparr>"

abbreviation varargs :: "OperandType list \<Rightarrow> OperandType \<Rightarrow> OperandType \<Rightarrow> 'v f_body \<Rightarrow> 'v function_entry" where
  "varargs args others ret body \<equiv>
     \<lparr>argTypes = args, hasVarArgs = True, varArgsType = others, returnType = ret, funcAddr = body, checkArgsAddr = None\<rparr>"

definition time_functions :: "'v go_std \<Rightarrow> (string \<times> 'v function_entry) list" where
  "time_functions std =
     (let part = (\<lambda>p. fixed [OTime, OStr] OInt (timeInLocation std p) (Some (secondArgLocationCheck std))) in
      [(''Time'', fixed [OStr, OStr] OTime (timeFunc std) None),
       (''Now'', fixed [] OTime (now std) None),
       (''Year'', part cYear),
       (''Month'', part cMonth),
       (''Day'', part cDay),
       (''Hour'', part cHour),
       (''Minute'', part cMinute),
       (''Second'', part cSecond),
       (''Nanosecond'', part cNanosecond),
       (''Weekday'', part cWeekday),
       (''YearDay'', part cYearDay)])"

definition string_functions :: "'v go_std \<Rightarrow> (string \<times> 'v function_entry) list" where
  "string_functions std =
     (let unary = (\<lambda>name. (name, fixed [OStr] OStr (string_fn std name) None)) in
      [(''Atoi'', fixed [OStr] OInt atoi None),
       (''Atof'', fixed [OStr] OFloat (atof std) None),
       unary ''HtmlEscape'',
       unary ''HtmlUnescape'',
       unary ''Lowercase'',
       (''Split'', fixed [OStr, OStr] OObject (split_fn std) None),
       (''Type'', fixed [OObject] OStr (typeFunc std) (Some typeFuncFieldCheck)),
       unary ''Uppercase'',
       (''RuneCount'', fixed [OStr] OInt runeCount None),
       (''Sprintf'', varargs [OStr] ONil OStr (sprintf std)),
       (''Str'', fixed [ONil] OStr (str_fn std) None),
       (''StrCat'', varargs [OStr, OStr] OStr OStr strCat),
       (''StrIndex'', fixed [OStr, OStr] OInt strIndex None),
       (''StrRepeat'', fixed [OStr, OInt] OStr strRepeat None),
       (''StrReplace'', fixed [OStr, OStr, OStr] OStr strReplace None),
       (''StrLastIndex'', fixed [OStr, OStr] OInt strLastIndex None),
       unary ''Trim'',
       unary ''TrimLeft'',
       unary ''TrimRight''])"

definition math_functions :: "'v go_std \<Rightarrow> (string \<times> 'v function_entry) list" where
  "math_functions std =
     (let unary = (\<lambda>name. (name, fixed [OFloat] OFloat (math_fn std name) None));
          binary = (\<lambda>name. (name, fixed [OFloat, OFloat] OFloat (math_fn2 std name) None)) in
      [unary ''Ceiling'',
       unary ''Floor'',
       (''Inf'', fixed [OInt] OFloat infFunc None),
       (''IsInf'', fixed [OFloat, OInt] OBool isInfFunc None),
       (''IsNaN'', fixed [OFloat] OBool isNanFunc None),
       unary ''Log'',
       unary ''Log10'',
       (''NaN'', fixed [] OFloat nanFunc None),
       binary ''Pow'',
       (''Pow10'', fixed [OInt] OFloat (pow10Func std) None),
       binary ''Mod'',
       unary ''Truncate'',
       binary ''Remainder'',
       (''Len'', fixed [OObject] OInt (lenFunc std) None)])"

definition function_table :: "'v go_std \<Rightarrow> (string \<times> 'v function_entry) list" where
  "function_table std = time_functions std @ string_functions std @ math_functions std"

subsection \<open>Checking and executing\<close>

definition lookupFuncName :: "'v go_std \<Rightarrow> 'v Function \<Rightarrow> f_error + 'v function_entry" where
  "lookupFuncName std f =
     (case map_of (function_table std) (funcName f) of
        Some entry \<Rightarrow> Inr entry
      | None \<Rightarrow>
          (case find (\<lambda>(n, _). to_lower n = to_lower (funcName f)) (function_table std) of
             None \<Rightarrow> Inl (FunctionNotFound (funcOff f) (funcName f))
           | Some (correctCase, _) \<Rightarrow> Inl (DidYouMeanFunction (funcOff f) correctCase)))"

definition ExecFunction :: "'v go_std \<Rightarrow> 'v Function \<Rightarrow> 'v Operand list \<Rightarrow> 'v f_result" where
  "ExecFunction std f args =
     (case lookupFuncName std f of Inl e \<Rightarrow> Some (Inl e) | Inr entry \<Rightarrow> funcAddr entry (funcOff f) args)"

definition FuncCheck :: "'v go_std \<Rightarrow> 'v Function \<Rightarrow> 'v Operand list \<Rightarrow> f_error option" where
  "FuncCheck std f args =
     (case lookupFuncName std f of
        Inl e \<Rightarrow> Some e
      | Inr entry \<Rightarrow> (case checkArgsAddr entry of None \<Rightarrow> None | Some chk \<Rightarrow> chk (funcOff f) args))"

definition checkArg :: "OperandType \<Rightarrow> 'v Operand \<Rightarrow> f_error option" where
  "checkArg ty a =
     (case known_arg a of
        None \<Rightarrow> None
      | Some x \<Rightarrow>
          (let result = (\<lambda>r. case r of Inl _ \<Rightarrow> Some (ConversionError ty (operandOff a)) | Inr _ \<Rightarrow> None) in
           case ty of
             OBool \<Rightarrow> result (ConvertValueToBool x)
           | OFloat \<Rightarrow> result (ConvertValueToFloat x)
           | OInt \<Rightarrow> result (ConvertValueToInt x)
           | OStr \<Rightarrow> result (ConvertValueToString x)
           | OTime \<Rightarrow> result (ConvertValueToTime x)
           | _ \<Rightarrow> None))"

text \<open>The first error of a check of every argument against its type.\<close>

fun first_error :: "(OperandType \<times> 'v Operand) list \<Rightarrow> f_error option" where
  "first_error [] = None"
| "first_error ((ty, a) # rest) = (case checkArg ty a of Some e \<Rightarrow> Some e | None \<Rightarrow> first_error rest)"

definition argsStandardCheck :: "'v function_entry \<Rightarrow> 'v Operand list \<Rightarrow> f_error option" where
  "argsStandardCheck entry args =
     first_error
       (zip (argTypes entry) args @
        (if hasVarArgs entry \<and> varArgsType entry \<noteq> ONil
         then map (Pair (varArgsType entry)) (drop (length (argTypes entry)) args) else []))"

text \<open>The end of \<open>CheckFunction\<close>: execution now if all arguments are known, the function's own check otherwise.\<close>

definition execute_early :: "'v go_std \<Rightarrow> 'v Function \<Rightarrow> (f_error + 'v Function) option" where
  "execute_early std f =
     (if list_all (\<lambda>a. known_arg a \<noteq> None) (funcArgs f) then
        (case ExecFunction std f (funcArgs f) of
           None \<Rightarrow> None
         | Some (Inl e) \<Rightarrow> Some (Inl e)
         | Some (Inr op) \<Rightarrow> Some (Inr (Function (funcOff f) (funcName f) (funcArgs f) (Some op))))
      else
        (case FuncCheck std f (funcArgs f) of
           Some e \<Rightarrow> Some (Inl e)
         | None \<Rightarrow> Some (Inr f)))"

definition CheckFunction :: "'v go_std \<Rightarrow> 'v Function \<Rightarrow> (f_error + 'v Function) option" where
  "CheckFunction std f =
     (case lookupFuncName std f of
        Inl e \<Rightarrow> Some (Inl e)
      | Inr entry \<Rightarrow>
          (let args = funcArgs f; n = length (argTypes entry) in
           if \<not> hasVarArgs entry \<and> length args \<noteq> n
           then Some (Inl (FunctionArgCount (funcOff f) (funcName f) n (length args)))
           else if hasVarArgs entry \<and> length args < n
           then Some (Inl (FunctionAtLeastArgCount (funcOff f) (funcName f) n (length args)))
           else case argsStandardCheck entry args of
             Some e \<Rightarrow> Some (Inl e)
           | None \<Rightarrow> execute_early std f))"

subsection \<open>The declared types are right\<close>

text \<open>
  A body with enough arguments does not index out of range, and what it returns has the declared type. Only \<open>StrRepeat\<close>
  panics for another reason.
\<close>

definition body_ok :: "nat \<Rightarrow> OperandType \<Rightarrow> 'v f_body \<Rightarrow> bool" where
  "body_ok n ty body \<longleftrightarrow>
     (\<forall>off args. n \<le> length args \<longrightarrow>
        (case body off args of None \<Rightarrow> False | Some (Inl e) \<Rightarrow> True | Some (Inr op) \<Rightarrow> operand_type op = ty))"

definition entry_ok :: "'v function_entry \<Rightarrow> bool" where
  "entry_ok entry \<longleftrightarrow> body_ok (length (argTypes entry)) (returnType entry) (funcAddr entry)"

lemma operand_type_simps [simp]: "operand_type (Operand off b) = body_type b"
  by (simp add: operand_type_def)

lemma ConvertValueToString_type [simp]: "ConvertValueToString a = Inr b \<Longrightarrow> operand_type b = OStr"
  by (auto simp: ConvertValueToString_def operand_type_def split: body.splits)

lemmas body_defs = timeFunc_def now_def timeInLocation_def str_fn_def atoi_def atof_def string_fn_def typeFunc_def
  split_fn_def sprintf_def strCat_def strIndex_def strLastIndex_def strReplace_def runeCount_def math_fn_def math_fn2_def
  nanFunc_def isNanFunc_def infFunc_def isInfFunc_def pow10Func_def lenFunc_def

lemma bodies_ok:
  "body_ok 2 OTime (timeFunc std)" "body_ok 0 OTime (now std)" "body_ok 2 OInt (timeInLocation std p)"
  "body_ok 1 OStr (str_fn std)" "body_ok 1 OInt atoi" "body_ok 1 OFloat (atof std)" "body_ok 1 OStr (string_fn std n)"
  "body_ok 1 OStr (typeFunc std)" "body_ok 2 OObject (split_fn std)" "body_ok 1 OStr (sprintf std)"
  "body_ok 2 OStr strCat" "body_ok 2 OInt strIndex" "body_ok 2 OInt strLastIndex" "body_ok 3 OStr strReplace"
  "body_ok 1 OInt runeCount" "body_ok 1 OFloat (math_fn std n)" "body_ok 2 OFloat (math_fn2 std n)" "body_ok 0 OFloat nanFunc"
  "body_ok 1 OBool isNanFunc" "body_ok 1 OFloat infFunc" "body_ok 2 OBool isInfFunc" "body_ok 1 OFloat (pow10Func std)"
  "body_ok 1 OInt (lenFunc std)"
  unfolding body_ok_def body_defs with_arg_def return_op_def Let_def
  by (auto split: sum.splits option.splits body.splits)

lemma table_ok: "list_all (\<lambda>(name, entry). name = ''StrRepeat'' \<or> entry_ok entry) (function_table std)"
  by (simp add: function_table_def time_functions_def string_functions_def math_functions_def Let_def entry_ok_def bodies_ok [unfolded One_nat_def]
      numeral_2_eq_2 [symmetric] numeral_3_eq_3 [symmetric])

lemma strRepeat_ok:
  assumes "2 \<le> length args"
  shows "case strRepeat off args of
      None \<Rightarrow> 2 ^ 63 \<le> int (length (op_Str (args ! 0))) * op_Int (args ! 1)
    | Some (Inl e) \<Rightarrow> True
    | Some (Inr op) \<Rightarrow> operand_type op = OStr"
  using assms
proof -
  obtain a b rest where args: "args = a # b # rest"
    using assms by (cases args; cases "tl args") auto
  show ?thesis
  proof (cases "ConvertValueToString a")
    case (Inr s)
    then have "s = a" by (auto simp: ConvertValueToString_def split: body.splits)
    then show ?thesis using Inr
      by (cases "operandBody b") (simp_all add: args strRepeat_def with_arg_def return_op_def ConvertValueToInt_def op_Int_def)
  qed (simp add: args strRepeat_def with_arg_def)
qed

lemma map_of_list_all: "list_all (\<lambda>(k, v). P k v) xs \<Longrightarrow> map_of xs k = Some v \<Longrightarrow> P k v"
  by (auto simp: list_all_iff dest: map_of_SomeD)

lemma StrRepeat_entry: "map_of (function_table std) ''StrRepeat'' = Some (fixed [OStr, OInt] OStr strRepeat None)"
  by (simp add: function_table_def time_functions_def string_functions_def math_functions_def Let_def)

lemma lookup_Inr: "lookupFuncName std f = Inr entry \<longleftrightarrow> map_of (function_table std) (funcName f) = Some entry"
  by (auto simp: lookupFuncName_def split: option.splits)

definition f_outcome :: "(f_error + 'a) option \<Rightarrow> bool \<Rightarrow> ('a \<Rightarrow> bool) \<Rightarrow> bool" where
  "f_outcome r may_panic good \<longleftrightarrow> (case r of None \<Rightarrow> may_panic | Some (Inl e) \<Rightarrow> True | Some (Inr x) \<Rightarrow> good x)"

lemma f_outcome_simps [simp]:
  "f_outcome None p g \<longleftrightarrow> p" "f_outcome (Some (Inl e)) p g" "f_outcome (Some (Inr x)) p g \<longleftrightarrow> g x"
  by (simp_all add: f_outcome_def)

lemma f_outcome_mono: "f_outcome r p g \<Longrightarrow> (\<And>x. g x \<Longrightarrow> h x) \<Longrightarrow> f_outcome r p h"
  by (auto simp: f_outcome_def split: option.splits sum.splits)

lemma ExecFunction_outcome:
  assumes "lookupFuncName std f = Inr entry" "length (argTypes entry) \<le> length args"
  shows "f_outcome (ExecFunction std f args) (funcName f = ''StrRepeat'') (\<lambda>op. operand_type op = returnType entry)"
proof (cases "funcName f = ''StrRepeat''")
  case True
  then have "entry = fixed [OStr, OInt] OStr strRepeat None" using assms(1) by (simp add: lookup_Inr StrRepeat_entry)
  then show ?thesis using strRepeat_ok [of args "funcOff f"] assms True
    by (simp add: ExecFunction_def f_outcome_def split: option.splits sum.splits)
next
  case False
  then have "entry_ok entry" using map_of_list_all [OF table_ok] assms(1) by (fastforce simp: lookup_Inr)
  then have "case funcAddr entry (funcOff f) args of None \<Rightarrow> False | Some (Inl e) \<Rightarrow> True
      | Some (Inr op) \<Rightarrow> operand_type op = returnType entry"
    using assms(2) unfolding entry_ok_def body_ok_def by blast
  then show ?thesis using assms(1) by (simp add: ExecFunction_def f_outcome_def split: option.splits sum.splits)
qed

lemma CheckFunction_cases:
  assumes "lookupFuncName std f = Inr entry"
  shows "(\<exists>e. CheckFunction std f = Some (Inl e)) \<or>
    CheckFunction std f = execute_early std f \<and> length (argTypes entry) \<le> length (funcArgs f)"
  using assms by (cases "argsStandardCheck entry (funcArgs f)") (auto simp: CheckFunction_def Let_def)

lemma function_outcome:
  "f_outcome (CheckFunction std f) (funcName f = ''StrRepeat'') (\<lambda>f'.
     \<exists>entry. map_of (function_table std) (funcName f) = Some entry \<and> length (argTypes entry) \<le> length (funcArgs f) \<and>
       (f' = f \<or> (\<exists>op. f' = Function (funcOff f) (funcName f) (funcArgs f) (Some op) \<and> operand_type op = returnType entry)) \<and>
       (\<forall>args. length args = length (funcArgs f) \<longrightarrow>
          f_outcome (ExecFunction std f' args) (funcName f = ''StrRepeat'') (\<lambda>op. operand_type op = returnType entry)))"
proof (cases "lookupFuncName std f")
  case (Inr entry)
  have exec: "f_outcome (ExecFunction std g args) (funcName f = ''StrRepeat'') (\<lambda>op. operand_type op = returnType entry)"
    if "funcName g = funcName f" "length (argTypes entry) \<le> length args" for g :: "'a Function" and args
    using ExecFunction_outcome [of std g entry args] Inr that by (simp add: lookup_Inr)
  show ?thesis
  proof (cases "length (funcArgs f) < length (argTypes entry)")
    case False
    then have le: "length (argTypes entry) \<le> length (funcArgs f)" by simp
    have e: "f_outcome (ExecFunction std f (funcArgs f)) (funcName f = ''StrRepeat'') (\<lambda>op. operand_type op = returnType entry)"
      by (rule exec) (simp_all add: le)
    have ex: "\<forall>args. length args = length (funcArgs f) \<longrightarrow>
        f_outcome (ExecFunction std g args) (funcName f = ''StrRepeat'') (\<lambda>op. operand_type op = returnType entry)"
      if "funcName g = funcName f" for g :: "'a Function"
      using exec [OF that] le by simp
    have "f_outcome (execute_early std f) (funcName f = ''StrRepeat'') (\<lambda>f'.
        f' = f \<or> (\<exists>op. f' = Function (funcOff f) (funcName f) (funcArgs f) (Some op) \<and> operand_type op = returnType entry))"
      using e by (simp add: execute_early_def f_outcome_def split: option.splits sum.splits)
    then have "f_outcome (execute_early std f) (funcName f = ''StrRepeat'') (\<lambda>f'.
        \<exists>entry. map_of (function_table std) (funcName f) = Some entry \<and> length (argTypes entry) \<le> length (funcArgs f) \<and>
          (f' = f \<or> (\<exists>op. f' = Function (funcOff f) (funcName f) (funcArgs f) (Some op) \<and> operand_type op = returnType entry)) \<and>
          (\<forall>args. length args = length (funcArgs f) \<longrightarrow>
            f_outcome (ExecFunction std f' args) (funcName f = ''StrRepeat'') (\<lambda>op. operand_type op = returnType entry)))"
    proof (rule f_outcome_mono)
      fix f'
      assume f': "f' = f \<or> (\<exists>op. f' = Function (funcOff f) (funcName f) (funcArgs f) (Some op) \<and> operand_type op = returnType entry)"
      then have "funcName f' = funcName f" by auto
      then show "\<exists>entry. map_of (function_table std) (funcName f) = Some entry \<and> length (argTypes entry) \<le> length (funcArgs f) \<and>
          (f' = f \<or> (\<exists>op. f' = Function (funcOff f) (funcName f) (funcArgs f) (Some op) \<and> operand_type op = returnType entry)) \<and>
          (\<forall>args. length args = length (funcArgs f) \<longrightarrow>
            f_outcome (ExecFunction std f' args) (funcName f = ''StrRepeat'') (\<lambda>op. operand_type op = returnType entry))"
        using f' ex [of f'] le Inr unfolding lookup_Inr by blast
    qed
    then show ?thesis using CheckFunction_cases [OF Inr] by (elim disjE exE conjE) (simp, simp only:)
  next
    case True
    then show ?thesis using Inr by (simp add: CheckFunction_def Let_def)
  qed
qed (simp add: CheckFunction_def)

text \<open>C30: 
  What the table declares of the functions is right. A function that passes \<open>CheckFunction\<close> is in the table with a number
  of arguments it accepts; executing it on that many operands gives an error or an operand of the
  declared return type, and so does executing it early. No function indexes its arguments out of range: the one way to panic, for the
  check and the execution, is a result of \<open>StrRepeat\<close> that is too long.
\<close>

theorem function_types_sound:
  "f_outcome (CheckFunction std f) (funcName f = ''StrRepeat'') (\<lambda>f'.
     \<exists>entry. map_of (function_table std) (funcName f) = Some entry \<and> length (argTypes entry) \<le> length (funcArgs f) \<and>
       (f' = f \<or> (\<exists>op. f' = Function (funcOff f) (funcName f) (funcArgs f) (Some op) \<and> operand_type op = returnType entry)) \<and>
       (\<forall>args. length args = length (funcArgs f) \<longrightarrow>
          f_outcome (ExecFunction std f' args) (funcName f = ''StrRepeat'') (\<lambda>op. operand_type op = returnType entry)))"
  by (rule function_outcome)

text \<open>A standard library for examples: all that it computes is empty or zero.\<close>

definition sample_std :: "'v \<Rightarrow> 'v go_std" where
  "sample_std v = \<lparr>std_parseTime = (\<lambda>_ _. None), std_now = 0, std_loadLocation = (\<lambda>_. None), std_formatTime = (\<lambda>_. []),
     std_parseFloat = (\<lambda>_. None), std_formatFloat = (\<lambda>_. []), std_formatInt = (\<lambda>_. []), std_string = (\<lambda>_ s. s),
     std_sprintf = (\<lambda>s _. s), std_math = (\<lambda>_ _. 0), std_pow10 = (\<lambda>_. 0), std_split = (\<lambda>_ _. v),
     obj_len = (\<lambda>_. None), obj_type = (\<lambda>_. []), obj_str = (\<lambda>_. [])\<rparr>"

definition sample_cat :: "nat Function" where
  "sample_cat = Function 0 ''StrCat'' [Operand 7 (TypStr ''a''), Operand 12 (TypStr ''b'')] None"

lemma sample_cat_checked:
  "CheckFunction (sample_std 0) sample_cat =
     Some (Inr (Function 0 ''StrCat'' (funcArgs sample_cat) (Some (Operand 0 (TypStr ''ab'')))))"
  by code_simp

theorem function_types_sound_witness:
  "f_outcome (ExecFunction (sample_std 0) sample_cat [Operand 0 (TypInt 1), Operand 0 (TypInt 2)]) False (\<lambda>op. operand_type op = OStr)"
proof -
  have "map_of (function_table (sample_std (0 :: nat))) (funcName sample_cat) = Some (varargs [OStr, OStr] OStr OStr strCat)"
    by (simp add: function_table_def time_functions_def string_functions_def math_functions_def Let_def sample_cat_def)
  then show ?thesis
    using function_types_sound [of "sample_std 0" sample_cat] unfolding sample_cat_checked
    by (auto simp: ExecFunction_def lookupFuncName_def sample_cat_def)
qed

text \<open>
  A function that is executed without having been checked can panic: \<open>Uppercase()\<close> reads an argument that is not there.
\<close>

theorem unchecked_function_panics: "ExecFunction std (Function off ''Uppercase'' [] None) [] = None"
  by (simp add: ExecFunction_def lookupFuncName_def function_table_def time_functions_def string_functions_def
      math_functions_def Let_def string_fn_def with_arg_def)

end
