(* ===== verification/QueryRanges.thy ===== *)
theory QueryRanges
  imports LikePattern
begin

text \<open>
  Ranges of keys: the second half of query/engine/internal/query_checker/query_checker.go, which turns
  comparisons with a key into ranges of strings for the scan of a table.

  A range runs from \<open>Start\<close> to before \<open>Limit\<close>, where the empty limit means no limit. Go compares strings by their bytes,
  which is the order of lists of characters here. \<open>sort.Sort\<close> sorts by \<open>Start\<close>; the invariant below shows that the starts of a list
  are distinct, so that it does not matter that this sort is not stable.
\<close>

record StringFieldRange =
  rStart :: string
  rLimit :: string

abbreviation MaxRangeLimit :: string where
  "MaxRangeLimit \<equiv> []"

abbreviation mk_range :: "string \<Rightarrow> string \<Rightarrow> StringFieldRange" where
  "mk_range s l \<equiv> \<lparr>rStart = s, rLimit = l\<rparr>"

definition StringFieldRangeAll :: StringFieldRange where
  "StringFieldRangeAll = mk_range [] MaxRangeLimit"

definition in_range :: "string \<Rightarrow> StringFieldRange \<Rightarrow> bool" where
  "in_range k r \<longleftrightarrow> rStart r \<le> k \<and> (rLimit r = MaxRangeLimit \<or> k < rLimit r)"

definition in_ranges :: "string \<Rightarrow> StringFieldRange list \<Rightarrow> bool" where
  "in_ranges k rs \<longleftrightarrow> list_ex (in_range k) rs"

subsection \<open>The code\<close>

text \<open>\<open>afterPrefix\<close> works from the last byte, so the loop is over the reversed string.\<close>

fun after_rev :: "string \<Rightarrow> string" where
  "after_rev [] = []"
| "after_rev (c # cs) = (if c = CHR 0xFF then after_rev cs else char_of (of_char c + 1 :: nat) # cs)"

definition afterPrefix :: "string \<Rightarrow> string" where
  "afterPrefix p = rev (after_rev (rev p))"

definition NUL :: char where
  "NUL = CHR 0x00"

definition computeStringFieldRangeForLike :: "string \<Rightarrow> StringFieldRange" where
  "computeStringFieldRangeForLike p =
     (if p = [] then StringFieldRangeAll else mk_range p (afterPrefix p))"

definition computeStringFieldRangesForNotLike :: "string \<Rightarrow> StringFieldRange list" where
  "computeStringFieldRangesForNotLike p =
     (if p = [] then [StringFieldRangeAll] else [mk_range [] p, mk_range (afterPrefix p) []])"

definition computeStringFieldRangeForSingleValue :: "string \<Rightarrow> StringFieldRange" where
  "computeStringFieldRangeForSingleValue s = mk_range s (s @ [NUL])"

definition compareLimits :: "string \<Rightarrow> string \<Rightarrow> int" where
  "compareLimits a b =
     (if a = b then 0
      else if a = MaxRangeLimit then 1
      else if b = MaxRangeLimit then -1
      else if a < b then -1
      else 1)"

definition compareStartToLimit :: "string \<Rightarrow> string \<Rightarrow> int" where
  "compareStartToLimit a b =
     (if b = MaxRangeLimit then -1
      else if a = b then 0
      else if a < b then -1
      else 1)"

definition compareLimitToStart :: "string \<Rightarrow> string \<Rightarrow> int" where
  "compareLimitToStart a b =
     (if a = MaxRangeLimit then -1
      else if a = b then 0
      else if a < b then -1
      else 1)"

definition computeRangeIntersection :: "StringFieldRange \<Rightarrow> StringFieldRange \<Rightarrow> StringFieldRange option" where
  "computeRangeIntersection lhs rhs =
     (if (rStart lhs \<ge> rStart rhs \<and> compareStartToLimit (rStart lhs) (rLimit rhs) < 0) \<or>
         (rStart rhs \<ge> rStart lhs \<and> compareStartToLimit (rStart rhs) (rLimit lhs) < 0)
      then Some (mk_range
        (if rStart lhs < rStart rhs then rStart rhs else rStart lhs)
        (if compareLimits (rLimit lhs) (rLimit rhs) < 0 then rLimit lhs else rLimit rhs))
      else None)"

definition overlaps :: "StringFieldRange \<Rightarrow> StringFieldRange \<Rightarrow> bool" where
  "overlaps fr r \<longleftrightarrow>
     (rStart fr \<ge> rStart r \<and> compareStartToLimit (rStart fr) (rLimit r) \<le> 0) \<or>
     (compareLimitToStart (rLimit fr) (rStart r) \<ge> 0 \<and> compareLimits (rLimit fr) (rLimit r) \<le> 0) \<or>
     (rStart fr \<le> rStart r \<and> compareLimits (rLimit fr) (rLimit r) \<ge> 0)"

definition encompass :: "StringFieldRange \<Rightarrow> StringFieldRange \<Rightarrow> StringFieldRange" where
  "encompass fr r = mk_range
     (if rStart fr < rStart r then rStart fr else rStart r)
     (if compareLimits (rLimit fr) (rLimit r) > 0 then rLimit fr else rLimit r)"

text \<open>The first range that overlaps is taken out, and the range that covers both is added instead.\<close>

function addStringFieldRange :: "StringFieldRange \<Rightarrow> StringFieldRange list \<Rightarrow> StringFieldRange list" where
  "addStringFieldRange fr rs =
     sort_key rStart
       (case List.extract (overlaps fr) rs of
          None \<Rightarrow> rs @ [fr]
        | Some (before, r, after) \<Rightarrow> addStringFieldRange (encompass fr r) (before @ after))"
  by pat_completeness auto
termination
proof (relation "measure (\<lambda>(fr, rs). length rs)")
  fix fr :: StringFieldRange and rs before after :: "StringFieldRange list" and r x y
  assume "List.extract (overlaps fr) rs = Some x" "(before, y) = x" "(r, after) = y"
  then have "rs = before @ r # after" by (auto dest: extract_SomeE)
  then show "((encompass fr r, before @ after), (fr, rs)) \<in> measure (\<lambda>(fr, rs). length rs)" by simp
qed simp

declare addStringFieldRange.simps [simp del]

text \<open>The loop of \<open>fieldRangeIntersection\<close> with the ranges from the cursors on, and the union in \<open>collectStringFieldRanges\<close>.\<close>

function intersection_loop ::
  "StringFieldRange list \<Rightarrow> StringFieldRange list \<Rightarrow> StringFieldRange list \<Rightarrow> StringFieldRange list" where
  "intersection_loop (l # ls) (r # rs) acc =
     (let acc' = (case computeRangeIntersection l r of Some i \<Rightarrow> addStringFieldRange i acc | None \<Rightarrow> acc);
          c = compareLimits (rLimit l) (rLimit r)
      in if c = -1 then intersection_loop ls (r # rs) acc'
         else if c = 1 then intersection_loop (l # ls) rs acc'
         else intersection_loop ls rs acc')"
| "intersection_loop [] rs acc = acc"
| "intersection_loop (l # ls) [] acc = acc"
  by pat_completeness auto
termination
  by (relation "measure (\<lambda>(ls, rs, acc). length ls + length rs)") auto

definition fieldRangeIntersection :: "StringFieldRange list \<Rightarrow> StringFieldRange list \<Rightarrow> StringFieldRange list" where
  "fieldRangeIntersection lhs rhs = intersection_loop lhs rhs []"

definition range_union :: "StringFieldRange list \<Rightarrow> StringFieldRange list \<Rightarrow> StringFieldRange list" where
  "range_union lhs rhs = fold addStringFieldRange rhs lhs"

subsection \<open>Ranges as sets of keys\<close>

definition nonempty :: "StringFieldRange \<Rightarrow> bool" where
  "nonempty r \<longleftrightarrow> rLimit r = MaxRangeLimit \<or> rStart r < rLimit r"

text \<open>The order of the ranges of a list, by starts and by limits.\<close>

definition limit_le :: "string \<Rightarrow> string \<Rightarrow> bool" where
  "limit_le a b \<longleftrightarrow> b = MaxRangeLimit \<or> a \<noteq> MaxRangeLimit \<and> a \<le> b"

definition comes_before :: "StringFieldRange \<Rightarrow> StringFieldRange \<Rightarrow> bool" where
  "comes_before r s \<longleftrightarrow> rStart r < rStart s \<and> limit_le (rLimit r) (rLimit s)"

text \<open>The stronger order: there is a gap between two ranges.\<close>

definition gap_between :: "StringFieldRange \<Rightarrow> StringFieldRange \<Rightarrow> bool" where
  "gap_between r s \<longleftrightarrow> rLimit r \<noteq> MaxRangeLimit \<and> rLimit r < rStart s"

lemma compareLimits_cases:
  "compareLimits a b < 0 \<longleftrightarrow> \<not> limit_le b a"
  "compareLimits a b \<le> 0 \<longleftrightarrow> limit_le a b"
  "compareLimits a b > 0 \<longleftrightarrow> \<not> limit_le a b"
  "compareLimits a b \<ge> 0 \<longleftrightarrow> limit_le b a"
  "compareLimits a b = - 1 \<longleftrightarrow> \<not> limit_le b a"
  "compareLimits a b = 1 \<longleftrightarrow> \<not> limit_le a b"
  by (auto simp: compareLimits_def limit_le_def)

lemma compare_start_cases:
  "compareStartToLimit a b < 0 \<longleftrightarrow> b = MaxRangeLimit \<or> a < b"
  "compareStartToLimit a b \<le> 0 \<longleftrightarrow> b = MaxRangeLimit \<or> a \<le> b"
  "compareLimitToStart a b \<ge> 0 \<longleftrightarrow> a \<noteq> MaxRangeLimit \<and> b \<le> a"
  by (auto simp: compareStartToLimit_def compareLimitToStart_def)

lemma limit_le_refl [simp]: "limit_le a a"
  by (simp add: limit_le_def)

lemma limit_le_trans: "limit_le a b \<Longrightarrow> limit_le b c \<Longrightarrow> limit_le a c"
  by (auto simp: limit_le_def)

lemma limit_le_linear: "limit_le a b \<or> limit_le b a"
  by (auto simp: limit_le_def)

lemma in_range_intersection:
  "in_range k l \<and> in_range k r \<longleftrightarrow> (case computeRangeIntersection l r of None \<Rightarrow> False | Some i \<Rightarrow> in_range k i)"
  unfolding computeRangeIntersection_def compareLimits_cases compare_start_cases in_range_def limit_le_def
  by (auto split: if_splits)

lemma nonempty_intersection: "nonempty l \<Longrightarrow> nonempty r \<Longrightarrow> computeRangeIntersection l r = Some i \<Longrightarrow> nonempty i"
  unfolding computeRangeIntersection_def compareLimits_cases compare_start_cases nonempty_def limit_le_def
  by (auto split: if_splits)

lemma encompass_exact:
  assumes "overlaps fr r" "nonempty fr" "nonempty r"
  shows "in_range k (encompass fr r) \<longleftrightarrow> in_range k fr \<or> in_range k r" "nonempty (encompass fr r)"
proof -
  show "in_range k (encompass fr r) \<longleftrightarrow> in_range k fr \<or> in_range k r"
    using assms unfolding overlaps_def encompass_def compareLimits_cases compare_start_cases in_range_def nonempty_def limit_le_def
    by (cases "rLimit fr = []"; cases "rLimit r = []") auto
  show "nonempty (encompass fr r)"
    using assms unfolding overlaps_def encompass_def compareLimits_cases compare_start_cases nonempty_def limit_le_def
    by (cases "rLimit fr = []"; cases "rLimit r = []") auto
qed

lemma not_overlaps:
  assumes "nonempty fr" "nonempty r"
  shows "\<not> overlaps fr r \<longleftrightarrow> gap_between fr r \<or> gap_between r fr"
  using assms
  unfolding overlaps_def gap_between_def compareLimits_cases compare_start_cases nonempty_def limit_le_def
  by (cases "rLimit fr = []"; cases "rLimit r = []") auto

subsection \<open>Union and intersection\<close>

lemma extract_cases:
  obtains (none) "List.extract (overlaps fr) rs = None" "list_all (\<lambda>r. \<not> overlaps fr r) rs"
  | (some) before r after where "List.extract (overlaps fr) rs = Some (before, r, after)"
      "rs = before @ r # after" "overlaps fr r"
proof (cases "List.extract (overlaps fr) rs")
  case None
  then show thesis using none by (auto simp: extract_None_iff list_all_iff)
next
  case (Some p)
  obtain before r after where p: "p = (before, r, after)" by (cases p) auto
  show thesis using extract_SomeE [OF Some [unfolded p]] by (intro some [OF Some [unfolded p]]) blast+
qed

lemma in_ranges_set: "set rs = set qs \<Longrightarrow> in_ranges k rs = in_ranges k qs"
  by (simp add: in_ranges_def list_ex_iff)

lemma in_ranges_simps [simp]:
  "\<not> in_ranges k []"
  "in_ranges k (r # rs) \<longleftrightarrow> in_range k r \<or> in_ranges k rs"
  "in_ranges k (rs @ qs) \<longleftrightarrow> in_ranges k rs \<or> in_ranges k qs"
  "in_ranges k (sort_key f rs) \<longleftrightarrow> in_ranges k rs"
  by (auto simp: in_ranges_def list_ex_iff)

lemma add_exact:
  assumes "nonempty fr" "list_all nonempty rs"
  shows "in_ranges k (addStringFieldRange fr rs) \<longleftrightarrow> in_range k fr \<or> in_ranges k rs"
  using assms
proof (induction fr rs rule: addStringFieldRange.induct)
  case (1 fr rs)
  show ?case
  proof (cases fr rs rule: extract_cases)
    case none
    then show ?thesis by (subst addStringFieldRange.simps) auto
  next
    case (some before r after)
    then have n: "nonempty r" "list_all nonempty (before @ after)" using 1 by simp_all
    note e = encompass_exact [OF some(3) 1(2) n(1)]
    have "in_ranges k (addStringFieldRange (encompass fr r) (before @ after)) \<longleftrightarrow>
        in_range k (encompass fr r) \<or> in_ranges k (before @ after)"
      by (rule 1(1) [OF some(1) refl refl e(2) n(2)])
    then show ?thesis using some e by (subst addStringFieldRange.simps) auto
  qed
qed

lemma add_nonempty: "nonempty fr \<Longrightarrow> list_all nonempty rs \<Longrightarrow> list_all nonempty (addStringFieldRange fr rs)"
proof (induction fr rs rule: addStringFieldRange.induct)
  case (1 fr rs)
  show ?case
  proof (cases fr rs rule: extract_cases)
    case none
    then show ?thesis using 1 by (subst addStringFieldRange.simps) (auto simp: list_all_iff)
  next
    case (some before r after)
    then have n: "nonempty r" "list_all nonempty (before @ after)" using 1 by simp_all
    show ?thesis
      using 1(1) [OF some(1) refl refl encompass_exact(2) [OF some(3) 1(2) n(1)] n(2)] some(1)
      by (subst addStringFieldRange.simps) (simp add: list_all_iff)
  qed
qed

lemma sorted_wrt_remove: "sorted_wrt P (xs @ y # zs) \<Longrightarrow> sorted_wrt P (xs @ zs)"
  by (simp add: sorted_wrt_append)

text \<open>
  The orders that adding a range keeps: they contain the gaps, and put starts in order.
\<close>

definition range_order :: "(StringFieldRange \<Rightarrow> StringFieldRange \<Rightarrow> bool) \<Rightarrow> bool" where
  "range_order P \<longleftrightarrow>
     (\<forall>r s. nonempty r \<longrightarrow> nonempty s \<longrightarrow> (gap_between r s \<longrightarrow> P r s) \<and> (P r s \<longrightarrow> rStart r < rStart s))"

definition arranged :: "(StringFieldRange \<Rightarrow> StringFieldRange \<Rightarrow> bool) \<Rightarrow> StringFieldRange list \<Rightarrow> bool" where
  "arranged P rs \<longleftrightarrow> list_all nonempty rs \<and> sorted_wrt P rs"

lemma range_order_gap: "range_order gap_between"
  by (auto simp: range_order_def gap_between_def nonempty_def)

lemma range_order_before: "range_order comes_before"
  by (auto simp: range_order_def gap_between_def nonempty_def comes_before_def limit_le_def)

lemma arranged_sort:
  assumes P: "range_order P" and n: "list_all nonempty rs" and d: "distinct rs"
    and c: "\<And>r s. r \<in> set rs \<Longrightarrow> s \<in> set rs \<Longrightarrow> r \<noteq> s \<Longrightarrow> P r s \<or> P s r"
  shows "arranged P (sort_key rStart rs)"
proof -
  let ?q = "sort_key rStart rs"
  have "sorted_wrt (\<lambda>r s. rStart r \<le> rStart s) ?q" using sorted_sort_key [of rStart rs] by (simp add: sorted_map)
  moreover have "distinct ?q" using d by simp
  ultimately have "sorted_wrt (\<lambda>r s. rStart r \<le> rStart s \<and> r \<noteq> s) ?q"
    by (induction ?q arbitrary: rs) (auto simp: sorted_wrt_iff_nth_less distinct_conv_nth)
  then have "sorted_wrt P ?q"
  proof (rule sorted_wrt_mono_rel [rotated])
    fix r s
    assume "r \<in> set ?q" "s \<in> set ?q" "rStart r \<le> rStart s \<and> r \<noteq> s"
    then show "P r s" using c [of r s] P n by (fastforce simp: range_order_def list_all_iff)
  qed
  then show ?thesis using n by (simp add: arranged_def list_all_iff)
qed

lemma arranged_pairs:
  assumes "arranged P rs" "range_order P"
  shows "distinct rs" "r \<in> set rs \<Longrightarrow> s \<in> set rs \<Longrightarrow> r \<noteq> s \<Longrightarrow> P r s \<or> P s r"
  using assms by (induction rs) (auto simp: arranged_def range_order_def list_all_iff)

lemma arranged_sort_id: "arranged P rs \<Longrightarrow> range_order P \<Longrightarrow> arranged P (sort_key rStart rs)"
  by (rule arranged_sort) (auto simp: arranged_pairs arranged_def)

lemma add_arranged:
  assumes "range_order P" "nonempty fr" "arranged P rs"
  shows "arranged P (addStringFieldRange fr rs)"
  using assms(2,3)
proof (induction fr rs rule: addStringFieldRange.induct)
  case (1 fr rs)
  show ?case
  proof (cases fr rs rule: extract_cases)
    case none
    have rs: "list_all nonempty rs" using 1 by (simp add: arranged_def)
    have g: "gap_between fr r \<or> gap_between r fr" if "r \<in> set rs" for r
      using that none(2) rs not_overlaps [OF 1(2), of r] by (auto simp: list_all_iff)
    have "P fr r \<or> P r fr" if "r \<in> set rs" for r
      using g [OF that] that rs 1(2) assms(1) by (auto simp: range_order_def list_all_iff)
    moreover have "\<not> gap_between fr fr" using 1(2) by (auto simp: gap_between_def nonempty_def)
    then have "fr \<notin> set rs" using g by blast
    ultimately have "arranged P (sort_key rStart (rs @ [fr]))"
      using rs 1(2) arranged_pairs [OF 1(3) assms(1)] by (intro arranged_sort [OF assms(1)]) auto
    then show ?thesis by (subst addStringFieldRange.simps) (simp add: none)
  next
    case (some before r after)
    then have n: "nonempty r" "arranged P (before @ after)"
      using 1 by (auto simp: arranged_def intro: sorted_wrt_remove)
    note e = encompass_exact [OF some(3) 1(2) n(1)]
    have "arranged P (addStringFieldRange (encompass fr r) (before @ after))"
      by (rule 1(1) [OF some(1) refl refl e(2) n(2)])
    then show ?thesis using some arranged_sort_id [OF _ assms(1)] by (subst addStringFieldRange.simps) simp
  qed
qed

abbreviation ok_ranges :: "StringFieldRange list \<Rightarrow> bool" where
  "ok_ranges \<equiv> arranged comes_before"

lemma arranged_simps [simp]:
  "arranged P []"
  "arranged P (r # rs) \<longleftrightarrow> nonempty r \<and> list_all (P r) rs \<and> arranged P rs"
  by (auto simp: arranged_def list_all_iff)

lemma arranged_nonempty: "arranged P rs \<Longrightarrow> list_all nonempty rs"
  by (simp add: arranged_def)

text \<open>A key in a range that ends no later than the first range of a list can only be in the first range.\<close>

lemma in_first_range:
  assumes "in_range k l" "limit_le (rLimit l) (rLimit r)" "in_ranges k (r # rs)" "ok_ranges (r # rs)"
  shows "in_range k r"
proof -
  have "rStart r \<le> k"
    using assms(3,4) by (auto simp: in_ranges_def list_ex_iff list_all_iff in_range_def comes_before_def)
  then show ?thesis using assms(1,2) by (auto simp: in_range_def limit_le_def)
qed

lemma intersection_loop_exact:
  assumes "ok_ranges ls" "ok_ranges rs" "list_all nonempty acc"
  shows "in_ranges k (intersection_loop ls rs acc) \<longleftrightarrow> in_ranges k acc \<or> in_ranges k ls \<and> in_ranges k rs"
  using assms
proof (induction ls rs acc rule: intersection_loop.induct)
  case (1 l ls r rs acc)
  define acc' where "acc' = (case computeRangeIntersection l r of Some i \<Rightarrow> addStringFieldRange i acc | None \<Rightarrow> acc)"
  have acc': "in_ranges k acc' \<longleftrightarrow> in_ranges k acc \<or> in_range k l \<and> in_range k r"
    using in_range_intersection [of k l r] 1(4-6) nonempty_intersection [of l r]
    by (auto simp: acc'_def add_exact split: option.splits)
  have n: "list_all nonempty acc'"
    using 1(4-6) nonempty_intersection [of l r] by (auto simp: acc'_def add_nonempty split: option.splits)
  note ih = 1(1-3) [OF acc'_def refl]
  have left: "in_range k r" if "limit_le (rLimit l) (rLimit r)" "in_range k l" "in_ranges k (r # rs)"
    using in_first_range [OF that(2,1,3)] 1(5) by blast
  have right: "in_range k l" if "limit_le (rLimit r) (rLimit l)" "in_range k r" "in_ranges k (l # ls)"
    using in_first_range [OF that(2,1,3)] 1(4) by blast
  have ok: "ok_ranges ls" "ok_ranges rs" using 1(4,5) by simp_all
  have step: "intersection_loop (l # ls) (r # rs) acc =
      (if \<not> limit_le (rLimit r) (rLimit l) then intersection_loop ls (r # rs) acc'
       else if \<not> limit_le (rLimit l) (rLimit r) then intersection_loop (l # ls) rs acc'
       else intersection_loop ls rs acc')"
    by (simp add: acc'_def Let_def compareLimits_cases)
  have ih: "\<not> limit_le (rLimit r) (rLimit l) \<Longrightarrow>
        in_ranges k (intersection_loop ls (r # rs) acc') \<longleftrightarrow> in_ranges k acc' \<or> in_ranges k ls \<and> in_ranges k (r # rs)"
    "limit_le (rLimit r) (rLimit l) \<Longrightarrow> \<not> limit_le (rLimit l) (rLimit r) \<Longrightarrow>
        in_ranges k (intersection_loop (l # ls) rs acc') \<longleftrightarrow> in_ranges k acc' \<or> in_ranges k (l # ls) \<and> in_ranges k rs"
    "limit_le (rLimit r) (rLimit l) \<Longrightarrow> limit_le (rLimit l) (rLimit r) \<Longrightarrow>
        in_ranges k (intersection_loop ls rs acc') \<longleftrightarrow> in_ranges k acc' \<or> in_ranges k ls \<and> in_ranges k rs"
    by (rule 1(1) [OF acc'_def refl _ ok(1) 1(5) n], simp add: compareLimits_cases,
        rule 1(2) [OF acc'_def refl _ _ 1(4) ok(2) n], simp_all add: compareLimits_cases,
        rule 1(3) [OF acc'_def refl _ _ ok n], simp_all add: compareLimits_cases)
  show ?case
    unfolding step using ih left right limit_le_linear [of "rLimit l" "rLimit r"] by (auto simp: acc')
qed simp_all

lemma intersection_loop_arranged:
  assumes "range_order P" "list_all nonempty ls" "list_all nonempty rs" "arranged P acc"
  shows "arranged P (intersection_loop ls rs acc)"
  using assms(2-4)
proof (induction ls rs acc rule: intersection_loop.induct)
  case (1 l ls r rs acc)
  define acc' where "acc' = (case computeRangeIntersection l r of Some i \<Rightarrow> addStringFieldRange i acc | None \<Rightarrow> acc)"
  have acc': "arranged P acc'"
    using 1(4-6) add_arranged [OF assms(1)] nonempty_intersection [of l r] by (auto simp: acc'_def split: option.splits)
  show ?case
    using 1(1-3) [OF acc'_def refl] acc' 1(4-6) by (simp add: Let_def acc'_def [symmetric] del: arranged_simps)
qed simp_all

lemma range_union_exact:
  "list_all nonempty lhs \<Longrightarrow> list_all nonempty rhs \<Longrightarrow>
   in_ranges k (range_union lhs rhs) \<longleftrightarrow> in_ranges k lhs \<or> in_ranges k rhs"
  unfolding range_union_def by (induction rhs arbitrary: lhs) (auto simp: add_exact add_nonempty)

lemma range_union_arranged:
  "range_order P \<Longrightarrow> arranged P lhs \<Longrightarrow> list_all nonempty rhs \<Longrightarrow> arranged P (range_union lhs rhs)"
  unfolding range_union_def by (induction rhs arbitrary: lhs) (auto simp: add_arranged)

lemma gap_comes_before:
  assumes "arranged gap_between rs"
  shows "ok_ranges rs"
proof -
  have "sorted_wrt comes_before rs"
  proof (rule sorted_wrt_mono_rel)
    show "sorted_wrt gap_between rs" using assms by (simp add: arranged_def)
    fix r s
    assume "r \<in> set rs" "s \<in> set rs" "gap_between r s"
    then show "comes_before r s"
      using assms range_order_before by (auto simp: arranged_def list_all_iff range_order_def)
  qed
  then show ?thesis using assms by (simp add: arranged_def)
qed

subsection \<open>The interface of a set of keys\<close>

text \<open>
  What the compiler of where clauses uses of the ranges: representations of sets of keys with a union and an intersection. For a
  condition \<open>P\<close> on keys, \<open>covers P a\<close> says that \<open>a\<close> contains every key that satisfies it.
\<close>

locale key_sets =
  fixes ok :: "'r \<Rightarrow> bool"
    and mem :: "'k \<Rightarrow> 'r \<Rightarrow> bool"
    and join :: "'r \<Rightarrow> 'r \<Rightarrow> 'r"
    and meet :: "'r \<Rightarrow> 'r \<Rightarrow> 'r"
  assumes ok_join: "ok a \<Longrightarrow> ok b \<Longrightarrow> ok (join a b)"
    and ok_meet: "ok a \<Longrightarrow> ok b \<Longrightarrow> ok (meet a b)"
    and mem_join: "ok a \<Longrightarrow> ok b \<Longrightarrow> mem k (join a b) \<longleftrightarrow> mem k a \<or> mem k b"
    and mem_meet: "ok a \<Longrightarrow> ok b \<Longrightarrow> mem k (meet a b) \<longleftrightarrow> mem k a \<and> mem k b"
begin

definition covers :: "('k \<Rightarrow> bool) \<Rightarrow> 'r \<Rightarrow> bool" where
  "covers P a \<longleftrightarrow> ok a \<and> (\<forall>k. P k \<longrightarrow> mem k a)"

lemma covers_join: "covers P a \<Longrightarrow> covers Q b \<Longrightarrow> covers (\<lambda>k. P k \<or> Q k) (join a b)"
  by (simp add: covers_def ok_join mem_join)

lemma covers_meet: "covers P a \<Longrightarrow> covers Q b \<Longrightarrow> covers (\<lambda>k. P k \<and> Q k) (meet a b)"
  by (simp add: covers_def ok_meet mem_meet)

lemma covers_mem: "covers P a \<Longrightarrow> P k \<Longrightarrow> mem k a"
  by (simp add: covers_def)

lemma covers_mono: "covers P a \<Longrightarrow> (\<And>k. Q k \<Longrightarrow> P k) \<Longrightarrow> covers Q a"
  by (simp add: covers_def)

end

interpretation ranges: key_sets ok_ranges in_ranges range_union fieldRangeIntersection
  by unfold_locales
    (simp_all add: range_union_arranged range_order_before arranged_nonempty fieldRangeIntersection_def
      intersection_loop_arranged range_union_exact intersection_loop_exact)

text \<open>Ranges with gaps between them are closed under the same operations.\<close>

interpretation gaps: key_sets "arranged gap_between" in_ranges range_union fieldRangeIntersection
  by unfold_locales
    (simp_all add: range_union_arranged range_order_gap arranged_nonempty fieldRangeIntersection_def
      intersection_loop_arranged range_union_exact intersection_loop_exact gap_comes_before)

subsection \<open>The ranges of single comparisons\<close>

lemma NUL_least [simp]: "NUL \<le> c" "\<not> c < NUL"
  by (simp_all add: NUL_def less_eq_char_def less_char_def)

lemma FF_code: "(of_char c :: nat) = 255 \<longleftrightarrow> c = CHR 0xFF"
proof
  assume "(of_char c :: nat) = 255"
  then have "char_of (of_char c :: nat) = (char_of (255 :: nat) :: char)" by simp
  moreover have "(char_of (255 :: nat) :: char) = CHR 0xFF" by code_simp
  ultimately show "c = CHR 0xFF" by simp
qed simp

lemma FF_greatest: "CHR 0xFF \<le> c \<longleftrightarrow> c = CHR 0xFF"
proof -
  have "(of_char c :: nat) < 256" by simp
  then have "255 \<le> (of_char c :: nat) \<longleftrightarrow> (of_char c :: nat) = 255" by linarith
  then show ?thesis by (simp add: less_eq_char_def FF_code [symmetric])
qed

lemma FF_max: "\<not> CHR 0xFF < c"
  using FF_greatest [of c] by (auto simp: order.order_iff_strict)

lemma less_snoc_NUL: "k < s @ [NUL] \<longleftrightarrow> k \<le> s"
proof (induction s arbitrary: k)
  case Nil
  then show ?case by (cases k) simp_all
next
  case (Cons a s)
  then show ?case by (cases k) simp_all
qed

lemma snoc_NUL_le: "s @ [NUL] \<le> k \<longleftrightarrow> s < k"
  using less_snoc_NUL [of k s] by (simp add: linorder_not_less [symmetric] linorder_not_le [symmetric, of k s])

lemma between_snoc: "p @ [c] \<le> (k :: string) \<and> k < p @ [d] \<longleftrightarrow> (\<exists>e t. k = p @ e # t \<and> c \<le> e \<and> e < d)"
proof (induction p arbitrary: k)
  case Nil
  then show ?case by (cases k) auto
next
  case (Cons a p)
  then show ?case by (cases k) auto
qed

lemma prefix_le: "prefix p k \<Longrightarrow> p \<le> (k :: string)"
proof (induction p arbitrary: k)
  case (Cons a p)
  then show ?case by (cases k) auto
qed simp

lemma next_char:
  assumes "c \<noteq> CHR 0xFF"
  shows "c \<le> e \<and> e < char_of (Suc (of_char c)) \<longleftrightarrow> e = c"
proof -
  have "(of_char c :: nat) \<noteq> 255" using assms by (simp add: FF_code)
  moreover have "(of_char c :: nat) < 256" by simp
  ultimately have "Suc (of_char c) < 256" by linarith
  then have "(of_char (char_of (Suc (of_char c))) :: nat) = Suc (of_char c)" by simp
  then have "c \<le> e \<and> e < char_of (Suc (of_char c)) \<longleftrightarrow>
      (of_char c :: nat) \<le> of_char e \<and> (of_char e :: nat) < Suc (of_char c)"
    by (simp only: less_eq_char_def less_char_def)
  also have "\<dots> \<longleftrightarrow> (of_char e :: nat) = of_char c" by linarith
  finally show ?thesis by simp
qed

text \<open>The range from a string to the one after its extensions holds exactly its extensions.\<close>

lemma afterPrefix_snoc:
  "afterPrefix (p @ [c]) = (if c = CHR 0xFF then afterPrefix p else p @ [char_of (of_char c + 1 :: nat)])"
  by (simp add: afterPrefix_def)

lemma prefix_range_iff: "p \<le> k \<and> (afterPrefix p = [] \<or> k < afterPrefix p) \<longleftrightarrow> prefix p k"
proof (induction p rule: rev_induct)
  case Nil
  then show ?case by (simp add: afterPrefix_def)
next
  case (snoc c p)
  show ?case
  proof (cases "c = CHR 0xFF")
    case True
    have cancel: "q @ [c] \<le> q @ t \<longleftrightarrow> [c] \<le> t" for q t by (induction q) simp_all
    have single: "[c] \<le> t \<longleftrightarrow> prefix [c] t" for t
      by (cases t) (simp_all add: True FF_max eq_commute)
    have "p @ [c] \<le> k \<and> prefix p k \<longleftrightarrow> prefix (p @ [c]) k"
    proof (cases "prefix p k")
      case True
      then obtain t where "k = p @ t" by (auto simp: prefix_def)
      then show ?thesis using cancel [of p t] single [of t] by simp
    next
      case False
      then show ?thesis using append_prefixD [of p "[c]" k] by blast
    qed
    moreover have "p @ [c] \<le> k \<Longrightarrow> p \<le> k" using prefix_le [of p "p @ [c]"] by (rule order.trans) simp
    ultimately show ?thesis using snoc.IH by (auto simp: afterPrefix_snoc True)
  next
    case False
    then show ?thesis by (simp add: afterPrefix_snoc between_snoc) (simp add: next_char [OF False] prefix_def)
  qed
qed

lemma prefix_range: "in_range k (computeStringFieldRangeForLike p) \<longleftrightarrow> prefix p k"
  using prefix_range_iff [of p k] by (auto simp: computeStringFieldRangeForLike_def in_range_def StringFieldRangeAll_def)

end
