(* ===== verification/QueryChecker.thy ===== *)
theory QueryChecker
  imports QueryFunctions QueryRanges
begin

text \<open>
  The checker of the query language: query/engine/internal/query_checker/query_checker.go.

  A check returns an error, or the tree with what the checker writes into it: functions computed early in the place of their
  operands, compiled LIKE patterns, and LIKE without wildcards turned into a comparison. \<open>None\<close> is a panic. The database is
  a parameter: \<open>get_table name write\<close> is an error or a table.
\<close>

subsection \<open>Predicates on trees\<close>

definition IsLogicalOperator :: "BinaryOperator \<Rightarrow> bool" where
  "IsLogicalOperator o1 \<longleftrightarrow> opType o1 = And \<or> opType o1 = Or"

definition IsField :: "'v Operand \<Rightarrow> bool" where
  "IsField o1 \<longleftrightarrow> operand_type o1 = OField"

definition IsFunction :: "'v Operand \<Rightarrow> bool" where
  "IsFunction o1 \<longleftrightarrow> operand_type o1 = OFunction"

definition IsExpr :: "'v Operand \<Rightarrow> bool" where
  "IsExpr o1 \<longleftrightarrow> operand_type o1 = OExpr"

definition isStringLiteral :: "'v Operand \<Rightarrow> bool" where
  "isStringLiteral o1 \<longleftrightarrow> operand_type o1 = OStr"

definition isLiteral :: "'v Operand \<Rightarrow> bool" where
  "isLiteral o1 \<longleftrightarrow> operand_type o1 \<in> {OBool, OFloat, OInt, OStr, OTime}"

text \<open>The value of the first segment of a field; the parser makes no field without one.\<close>

definition first_segment :: "'v Field \<Rightarrow> string" where
  "first_segment f = segValue (hd (fieldSegments f))"

definition IsKeyField :: "'v Field \<Rightarrow> bool" where
  "IsKeyField f \<longleftrightarrow> first_segment f = ''k''"

definition IsValueField :: "'v Field \<Rightarrow> bool" where
  "IsValueField f \<longleftrightarrow> first_segment f = ''v''"

definition operand_field :: "'v Operand \<Rightarrow> 'v Field option" where
  "operand_field o1 = (case operandBody o1 of TypField f \<Rightarrow> Some f | _ \<Rightarrow> None)"

definition IsKey :: "'v Operand \<Rightarrow> bool" where
  "IsKey o1 \<longleftrightarrow> (case operand_field o1 of None \<Rightarrow> False | Some f \<Rightarrow> IsKeyField f)"

definition IsExactField :: "'v Field \<Rightarrow> 'v Operand \<Rightarrow> bool" where
  "IsExactField f o1 \<longleftrightarrow>
     (case operand_field o1 of
        None \<Rightarrow> False
      | Some g \<Rightarrow> map segValue (fieldSegments f) = map segValue (fieldSegments g))"

fun ContainsKeyOperand :: "'v Expression \<Rightarrow> bool" where
  "ContainsKeyOperand (Expression off o1 op o2) \<longleftrightarrow> IsKey o1 \<or> IsKey o2"

fun ContainsFieldOperand :: "'v Field \<Rightarrow> 'v Expression \<Rightarrow> bool" where
  "ContainsFieldOperand f (Expression off o1 op o2) \<longleftrightarrow> IsExactField f o1 \<or> IsExactField f o2"

fun ContainsFunctionOperand :: "'v Expression \<Rightarrow> bool" where
  "ContainsFunctionOperand (Expression off o1 op o2) \<longleftrightarrow> IsFunction o1 \<or> IsFunction o2"

definition is_value_operand :: "'v Operand \<Rightarrow> bool" where
  "is_value_operand o1 \<longleftrightarrow> (case operand_field o1 of None \<Rightarrow> False | Some f \<Rightarrow> IsValueField f)"

fun ContainsValueFieldOperand :: "'v Expression \<Rightarrow> bool" where
  "ContainsValueFieldOperand (Expression off o1 op o2) \<longleftrightarrow> is_value_operand o1 \<or> is_value_operand o2"

subsection \<open>The checks\<close>

datatype check_error =
    FunctionError f_error
  | DotNotationDisallowedForKey int
  | DidYouMeanLowercaseK int
  | DidYouMeanLowercaseV int
  | InvalidSelectField int
  | BadFieldInWhere int
  | LikeExpressionsRequireRhsString int
  | InvalidLikePattern int pattern_error
  | IsIsNotRequireLhsValue int
  | IsIsNotRequireRhsNil int
  | KeyExpressionLiteral int
  | BoolInvalidExpression int
  | TableCantAccess int string
  | InvalidEscapeChar int rune
  | LimitMustBeGt0 int
  | OffsetMustBeGe0 int

type_synonym 'a checked = "(check_error + 'a) option"

definition c_bind :: "'a checked \<Rightarrow> ('a \<Rightarrow> 'b checked) \<Rightarrow> 'b checked" where
  "c_bind m f = (case m of None \<Rightarrow> None | Some (Inl e) \<Rightarrow> Some (Inl e) | Some (Inr x) \<Rightarrow> f x)"

lemma c_bind_simps [simp]:
  "c_bind None f = None" "c_bind (Some (Inl e)) f = Some (Inl e)" "c_bind (Some (Inr x)) f = f x"
  by (simp_all add: c_bind_def)

lemma c_bind_cong [fundef_cong]:
  "m = m' \<Longrightarrow> (\<And>x. m' = Some (Inr x) \<Longrightarrow> f x = g x) \<Longrightarrow> c_bind m f = c_bind m' g"
  by (auto simp: c_bind_def split: option.splits sum.splits)

lemma c_bind_Inr: "c_bind m f = Some (Inr y) \<longleftrightarrow> (\<exists>x. m = Some (Inr x) \<and> f x = Some (Inr y))"
  by (auto simp: c_bind_def split: option.splits sum.splits)

abbreviation c_ok :: "'a \<Rightarrow> 'a checked" where
  "c_ok x \<equiv> Some (Inr x)"

abbreviation c_err :: "check_error \<Rightarrow> 'a checked" where
  "c_err e \<equiv> Some (Inl e)"

text \<open>\<open>CheckFunction\<close> as the checker calls it.\<close>

definition check_fn :: "'v go_std \<Rightarrow> 'v Function \<Rightarrow> 'v Function checked" where
  "check_fn std f = map_option (map_sum FunctionError id) (CheckFunction std f)"

definition err_or :: "check_error option \<Rightarrow> 'a \<Rightarrow> 'a checked" where
  "err_or e x = (case e of Some e \<Rightarrow> c_err e | None \<Rightarrow> c_ok x)"

text \<open>The field of an operand or a selector; the error for another first segment differs.\<close>

definition check_field :: "(int \<Rightarrow> check_error) \<Rightarrow> 'v Field \<Rightarrow> unit checked" where
  "check_field other f =
     (case fieldSegments f of
        [] \<Rightarrow> None
      | sg # rest \<Rightarrow>
          err_or
            (if segValue sg = ''k'' then (if rest \<noteq> [] then Some (DotNotationDisallowedForKey (segOff (hd rest))) else None)
             else if segValue sg = ''v'' then None
             else if segValue sg = ''K'' then Some (DidYouMeanLowercaseK (segOff sg))
             else if segValue sg = ''V'' then Some (DidYouMeanLowercaseV (segOff sg))
             else Some (other (segOff sg)))
            ())"

definition parseLikePattern :: "int \<Rightarrow> string \<Rightarrow> EscapeClause option \<Rightarrow> check_error + Pattern" where
  "parseLikePattern off s ec =
     (case ParseWithEscapeChar s (case ec of None \<Rightarrow> 0 | Some e \<Rightarrow> EscapeChar e) of
        Inl e \<Rightarrow> Inl (InvalidLikePattern off e)
      | Inr p \<Rightarrow> Inr p)"

text \<open>
  The part of \<open>checkExpression\<close> for LIKE: the operator and the second operand after it. The pattern of an operand that is
  compared as a whole stays attached in the code and is never read again.
\<close>

definition check_like :: "BinaryOperator \<Rightarrow> 'v Operand \<Rightarrow> EscapeClause option \<Rightarrow> check_error + BinaryOperator \<times> 'v Operand" where
  "check_like op o2 ec =
     (if opType op = Like \<or> opType op = NotLike then
        (if operand_type o2 \<noteq> OStr then Inl (LikeExpressionsRequireRhsString (operandOff o2))
         else and_then (parseLikePattern (operandOff o2) (op_Str o2) ec) (\<lambda>p.
           case FixedPrefix p of (fp, whole) \<Rightarrow>
             if whole
             then Inr (op\<lparr>opType := (if opType op = Like then Equal else NotEqual)\<rparr>, Operand (operandOff o2) (TypPattern fp fp p))
             else Inr (op, Operand (operandOff o2) (TypPattern (op_Str o2) fp p))))
      else Inr (op, o2))"

text \<open>The rest of \<open>checkExpression\<close>, after the operands and LIKE.\<close>

definition check_operands :: "'v Operand \<Rightarrow> BinaryOperator \<Rightarrow> 'v Operand \<Rightarrow> check_error option" where
  "check_operands o1 op o2 =
     (if (opType op = Is \<or> opType op = IsNot) \<and> \<not> IsField o1 \<and> \<not> IsFunction o1
      then Some (IsIsNotRequireLhsValue (operandOff o1))
      else if (opType op = Is \<or> opType op = IsNot) \<and> operand_type o2 \<noteq> ONil
      then Some (IsIsNotRequireRhsNil (operandOff o2))
      else if (IsKey o1 \<or> IsKey o2) \<and>
          ((isLiteral o1 \<and> \<not> isStringLiteral o1) \<or> (isLiteral o2 \<and> \<not> isStringLiteral o2))
      then Some (KeyExpressionLiteral (if isLiteral o2 then operandOff o2 else operandOff o1))
      else if (operand_type o1 = OBool \<or> operand_type o2 = OBool) \<and> opType op \<noteq> Equal \<and> opType op \<noteq> NotEqual
      then Some (BoolInvalidExpression (opOff op))
      else None)"

fun checkExpression :: "'v go_std \<Rightarrow> EscapeClause option \<Rightarrow> 'v Expression \<Rightarrow> 'v Expression checked"
and checkOperand :: "'v go_std \<Rightarrow> EscapeClause option \<Rightarrow> 'v Operand \<Rightarrow> 'v Operand checked"
and check_args :: "'v go_std \<Rightarrow> EscapeClause option \<Rightarrow> 'v Operand list \<Rightarrow> 'v Operand list checked" where
  "checkExpression std ec (Expression off o1 op o2) =
     c_bind (checkOperand std ec o1) (\<lambda>o1'.
     c_bind (checkOperand std ec o2) (\<lambda>o2'.
       case check_like op o2' ec of
         Inl e \<Rightarrow> c_err e
       | Inr (op', o2'') \<Rightarrow> err_or (check_operands o1' op' o2'') (Expression off o1' op' o2'')))"
| "checkOperand std ec (Operand off (TypExpr e)) =
     c_bind (checkExpression std ec e) (\<lambda>e'. c_ok (Operand off (TypExpr e')))"
| "checkOperand std ec (Operand off (TypField f)) =
     c_bind (check_field BadFieldInWhere f) (\<lambda>_. c_ok (Operand off (TypField f)))"
| "checkOperand std ec (Operand off (TypFunction (Function foff name args ret))) =
     c_bind (check_args std ec args) (\<lambda>args'.
     c_bind (check_fn std (Function foff name args' ret)) (\<lambda>f.
       c_ok (case funcRet f of Some r \<Rightarrow> r | None \<Rightarrow> Operand off (TypFunction f))))"
| "checkOperand std ec op = c_ok op"
| "check_args std ec [] = c_ok []"
| "check_args std ec (a # args) =
     c_bind (checkOperand std ec a) (\<lambda>a'. c_bind (check_args std ec args) (\<lambda>args'. c_ok (a' # args')))"

definition checkSelector :: "'v go_std \<Rightarrow> 'v Selector \<Rightarrow> 'v Selector checked" where
  "checkSelector std s =
     (case selBody s of
        TypSelField f \<Rightarrow> c_bind (check_field InvalidSelectField f) (\<lambda>_. c_ok s)
      | TypSelFunc f \<Rightarrow> c_bind (check_fn std f) (\<lambda>f'. c_ok (s\<lparr>selBody := TypSelFunc f'\<rparr>)))"

fun checkSelectors :: "'v go_std \<Rightarrow> 'v Selector list \<Rightarrow> 'v Selector list checked" where
  "checkSelectors std [] = c_ok []"
| "checkSelectors std (s # ss) =
     c_bind (checkSelector std s) (\<lambda>s'. c_bind (checkSelectors std ss) (\<lambda>ss'. c_ok (s' # ss')))"

definition checkSelectClause :: "'v go_std \<Rightarrow> 'v SelectClause \<Rightarrow> 'v SelectClause checked" where
  "checkSelectClause std s = c_bind (checkSelectors std (Selectors s)) (\<lambda>ss. c_ok (s\<lparr>Selectors := ss\<rparr>))"

definition checkFromClause :: "(string \<Rightarrow> bool \<Rightarrow> 't option) \<Rightarrow> FromClause \<Rightarrow> bool \<Rightarrow> 't checked" where
  "checkFromClause get_table f writeAccessReq =
     (case get_table (tableName f) writeAccessReq of
        None \<Rightarrow> c_err (TableCantAccess (tableOff f) (tableName f))
      | Some t \<Rightarrow> c_ok t)"

definition checkWhereClause ::
  "'v go_std \<Rightarrow> 'v WhereClause option \<Rightarrow> EscapeClause option \<Rightarrow> 'v WhereClause option checked" where
  "checkWhereClause std w ec =
     (case w of
        None \<Rightarrow> c_ok None
      | Some wh \<Rightarrow> c_bind (checkExpression std ec (whereExpr wh)) (\<lambda>e. c_ok (Some (wh\<lparr>whereExpr := e\<rparr>))))"

definition checkEscapeClause :: "EscapeClause option \<Rightarrow> check_error option" where
  "checkEscapeClause e =
     (case e of
        None \<Rightarrow> None
      | Some ec \<Rightarrow> if EscapeChar ec \<in> {0, underscore, percent, 32, 92}
                   then Some (InvalidEscapeChar (escCharOff ec) (EscapeChar ec)) else None)"

definition checkLimitClause :: "LimitClause option \<Rightarrow> check_error option" where
  "checkLimitClause l =
     (case l of None \<Rightarrow> None | Some lc \<Rightarrow> if Limit lc < 1 then Some (LimitMustBeGt0 (limValueOff lc)) else None)"

definition checkResultsOffsetClause :: "LimitClause option \<Rightarrow> check_error option" where
  "checkResultsOffsetClause l =
     (case l of None \<Rightarrow> None | Some lc \<Rightarrow> if Limit lc < 0 then Some (OffsetMustBeGe0 (limValueOff lc)) else None)"

definition checkSelectStatement ::
  "'v go_std \<Rightarrow> (string \<Rightarrow> bool \<Rightarrow> 't option) \<Rightarrow> 'v SelectStatement \<Rightarrow> ('v SelectStatement \<times> 't) checked" where
  "checkSelectStatement std get_table s =
     c_bind (checkSelectClause std (stSelect s)) (\<lambda>sel.
     c_bind (checkFromClause get_table (stFrom s) False) (\<lambda>t.
     c_bind (err_or (checkEscapeClause (stEscape s)) ()) (\<lambda>_.
     c_bind (checkWhereClause std (stWhere s) (stEscape s)) (\<lambda>w.
     c_bind (err_or (checkLimitClause (stLimit s)) ()) (\<lambda>_.
     c_bind (err_or (checkResultsOffsetClause (stResultsOffset s)) ()) (\<lambda>_.
       c_ok (s\<lparr>stSelect := sel, stWhere := w\<rparr>, t)))))))"

definition checkDeleteStatement ::
  "'v go_std \<Rightarrow> (string \<Rightarrow> bool \<Rightarrow> 't option) \<Rightarrow> 'v DeleteStatement \<Rightarrow> ('v DeleteStatement \<times> 't) checked" where
  "checkDeleteStatement std get_table s =
     c_bind (checkFromClause get_table (delFrom s) True) (\<lambda>t.
     c_bind (err_or (checkEscapeClause (delEscape s)) ()) (\<lambda>_.
     c_bind (checkWhereClause std (delWhere s) (delEscape s)) (\<lambda>w.
     c_bind (err_or (checkLimitClause (delLimit s)) ()) (\<lambda>_.
       c_ok (s\<lparr>delWhere := w\<rparr>, t)))))"

definition Check ::
  "'v go_std \<Rightarrow> (string \<Rightarrow> bool \<Rightarrow> 't option) \<Rightarrow> 'v Statement \<Rightarrow> ('v Statement \<times> 't) checked" where
  "Check std get_table s =
     (case s of
        SelectSt st \<Rightarrow> c_bind (checkSelectStatement std get_table st) (\<lambda>(st', t). c_ok (SelectSt st', t))
      | DeleteSt st \<Rightarrow> c_bind (checkDeleteStatement std get_table st) (\<lambda>(st', t). c_ok (DeleteSt st', t)))"

end
