(* ===== verification/QueryIndex.thy ===== *)
theory QueryIndex
  imports QueryChecker
begin

text \<open>
  From where clauses to index ranges: the functions of query_checker.go that compute, for a field with an index, the ranges
  of its values for which a where clause can hold. \<open>None\<close> is the panic on a missing second expression.
\<close>

definition op_Prefix :: "'v Operand \<Rightarrow> string" where
  "op_Prefix o1 = (case operandBody o1 of TypPattern _ p _ \<Rightarrow> p | _ \<Rightarrow> [])"

text \<open>The ranges for one comparison, the case of \<open>collectStringFieldRanges\<close> in which the first operand is not an expression.\<close>

definition literal_on_right :: "BinaryOperatorType \<Rightarrow> 'v Operand \<Rightarrow> StringFieldRange list" where
  "literal_on_right ty o2 =
     (let s = op_Str o2 in
      case ty of
        Equal \<Rightarrow> [computeStringFieldRangeForSingleValue s]
      | GreaterThan \<Rightarrow> [mk_range (s @ [NUL]) MaxRangeLimit]
      | GreaterThanOrEqual \<Rightarrow> [mk_range s MaxRangeLimit]
      | Like \<Rightarrow> [computeStringFieldRangeForLike (op_Prefix o2)]
      | NotLike \<Rightarrow> computeStringFieldRangesForNotLike (op_Prefix o2)
      | LessThan \<Rightarrow> [mk_range [] s]
      | LessThanOrEqual \<Rightarrow> [mk_range [] (s @ [NUL])]
      | _ \<Rightarrow> [mk_range [] s, mk_range (s @ [NUL]) MaxRangeLimit])"

definition literal_on_left :: "BinaryOperatorType \<Rightarrow> 'v Operand \<Rightarrow> StringFieldRange list" where
  "literal_on_left ty o1 =
     (let s = op_Str o1 in
      case ty of
        Equal \<Rightarrow> [computeStringFieldRangeForSingleValue s]
      | GreaterThan \<Rightarrow> [mk_range [] s]
      | GreaterThanOrEqual \<Rightarrow> [mk_range [] (s @ [NUL])]
      | LessThan \<Rightarrow> [mk_range (s @ [NUL]) MaxRangeLimit]
      | LessThanOrEqual \<Rightarrow> [mk_range s MaxRangeLimit]
      | _ \<Rightarrow> [mk_range [] s, mk_range (s @ [NUL]) MaxRangeLimit])"

definition comparison_ranges :: "'v Field \<Rightarrow> 'v Operand \<Rightarrow> BinaryOperatorType \<Rightarrow> 'v Operand \<Rightarrow> StringFieldRange list" where
  "comparison_ranges idx o1 ty o2 =
     (if IsExactField idx o1 \<or> IsExactField idx o2 then
        (if IsField o1 \<and> IsField o2 then
           (if ty = Equal \<or> ty = GreaterThanOrEqual \<or> ty = LessThanOrEqual then [StringFieldRangeAll] else [])
         else if ty = Is then []
         else if ty = IsNot then [StringFieldRangeAll]
         else if isStringLiteral o2 then literal_on_right ty o2
         else if isStringLiteral o1 then literal_on_left ty o1
         else [StringFieldRangeAll])
      else [StringFieldRangeAll])"

fun collectStringFieldRanges :: "'v Field \<Rightarrow> 'v Expression \<Rightarrow> StringFieldRange list option" where
  "collectStringFieldRanges idx (Expression off (Operand p1 b1) op (Operand p2 b2)) =
     (case b1 of
        TypExpr e1 \<Rightarrow>
          (case b2 of
             TypExpr e2 \<Rightarrow>
               (case (collectStringFieldRanges idx e1, collectStringFieldRanges idx e2) of
                  (Some l, Some r) \<Rightarrow> Some (if opType op = And then fieldRangeIntersection l r else range_union l r)
                | _ \<Rightarrow> None)
           | _ \<Rightarrow> None)
      | _ \<Rightarrow> Some (comparison_ranges idx (Operand p1 b1) (opType op) (Operand p2 b2)))"

fun determineIfNilAllowed :: "'v Field \<Rightarrow> 'v Expression \<Rightarrow> bool option" where
  "determineIfNilAllowed idx (Expression off (Operand p1 b1) op (Operand p2 b2)) =
     (case b1 of
        TypExpr e1 \<Rightarrow>
          (case b2 of
             TypExpr e2 \<Rightarrow>
               (case (determineIfNilAllowed idx e1, determineIfNilAllowed idx e2) of
                  (Some l, Some r) \<Rightarrow> Some (if opType op = And then l \<and> r else l \<or> r)
                | _ \<Rightarrow> None)
           | _ \<Rightarrow> None)
      | _ \<Rightarrow> Some (if IsExactField idx (Operand p1 b1) \<or> IsExactField idx (Operand p2 b2) then opType op = Is else True))"

text \<open>The kinds of types, vdl/type.go, and their names.\<close>

datatype Kind =
    KAny
  | KOptional
  | KBool
  | KByte
  | KUint16
  | KUint32
  | KUint64
  | KInt8
  | KInt16
  | KInt32
  | KInt64
  | KFloat32
  | KFloat64
  | KString
  | KEnum
  | KTypeObject
  | KArray
  | KList
  | KSet
  | KMap
  | KStruct
  | KUnion

record IndexRanges =
  irFieldName :: string
  irKind :: Kind
  NilAllowed :: bool
  StringRanges :: "StringFieldRange list"

definition CompileIndexRanges :: "'v Field \<Rightarrow> Kind \<Rightarrow> 'v WhereClause option \<Rightarrow> IndexRanges option" where
  "CompileIndexRanges idx kind wh =
     (let name = join ''.'' (map segValue (fieldSegments idx)) in
      case wh of
        None \<Rightarrow> Some \<lparr>irFieldName = name, irKind = kind, NilAllowed = True, StringRanges = [StringFieldRangeAll]\<rparr>
      | Some w \<Rightarrow>
          (case (collectStringFieldRanges idx (whereExpr w), determineIfNilAllowed idx (whereExpr w)) of
             (Some rs, Some n) \<Rightarrow> Some \<lparr>irFieldName = name, irKind = kind, NilAllowed = n, StringRanges = rs\<rparr>
           | _ \<Rightarrow> None))"

end
