(* ===== verification/QueryEval.thy ===== *)
theory QueryEval
  imports QueryIndex
begin

text \<open>
  Evaluation of where clauses: query/engine/internal/eval.go.

  A result is \<open>None\<close> when the Go code panics. Values are the trees of vdl.Value (vdl/value.go) as far as
  evaluation looks into them; a map or set carries the name of its key type. What \<open>vdl.Convert\<close> and
  \<open>reflect.DeepEqual\<close> do is a parameter, as are the functions of the query language's library.
\<close>

subsection \<open>Values\<close>

datatype vvalue =
    VvBool bool
  | VvUint "64 word"
  | VvInt int
  | VvFloat float64
  | VvString string
  | VvEnum string
  | VvTypeObject string
  | VvAny "vvalue option"
  | VvOptional "vvalue option"
  | VvSeq "vvalue list"
  | VvSet string "vvalue list"
  | VvMap string "(vvalue \<times> vvalue) list"
  | VvStruct string "(string \<times> vvalue) list"
  | VvUnion string string vvalue

text \<open>\<open>vdl.ValueOf(nil)\<close>\<close>

definition nil_value :: vvalue where
  "nil_value = VvAny None"

fun is_nil :: "vvalue \<Rightarrow> bool" where
  "is_nil (VvAny None) = True"
| "is_nil (VvOptional None) = True"
| "is_nil _ = False"

record eval_env =
  env_std :: "vvalue go_std"
  env_time :: "vvalue \<Rightarrow> int option"
  env_index :: "vvalue body \<Rightarrow> int option"
  env_key :: "string \<Rightarrow> vvalue body \<Rightarrow> vvalue option"
  env_deepEqual :: "vvalue \<Rightarrow> vvalue \<Rightarrow> bool"

text \<open>What \<open>ConvertValueToAnOperand\<close> looks at.\<close>

definition value_view :: "eval_env \<Rightarrow> vvalue \<Rightarrow> vvalue vdl_view" where
  "value_view env v =
     (case v of
        VvBool b \<Rightarrow> VBool b
      | VvEnum s \<Rightarrow> VEnum s
      | VvInt i \<Rightarrow> VInt i
      | VvUint u \<Rightarrow> VUint u
      | VvFloat f \<Rightarrow> VFloat f
      | VvString s \<Rightarrow> VString s
      | VvStruct name _ \<Rightarrow> if name = ''time.Time'' then VTime (env_time env v) else VObject
      | _ \<Rightarrow> VObject)"

fun autoDereference :: "vvalue \<Rightarrow> vvalue" where
  "autoDereference (VvAny (Some x)) = autoDereference x"
| "autoDereference (VvOptional (Some x)) = autoDereference x"
| "autoDereference (VvAny None) = nil_value"
| "autoDereference (VvOptional None) = nil_value"
| "autoDereference v = v"

text \<open>\<open>valueFromResolvedOperand\<close>: whether there is a value at all.\<close>

definition has_value :: "'v Operand \<Rightarrow> bool" where
  "has_value o1 \<longleftrightarrow> operand_type o1 \<in> {OBool, OFloat, OInt, OStr, OTime, OObject}"

text \<open>One step of \<open>resolveWithKey\<close>: the value under a key, or \<open>None\<close> where the code returns nil.\<close>

definition index_value :: "eval_env \<Rightarrow> vvalue \<Rightarrow> vvalue Operand \<Rightarrow> vvalue option" where
  "index_value env object o1 =
     (if \<not> has_value o1 then None
      else case object of
        VvSeq xs \<Rightarrow>
          (case env_index env (operandBody o1) of
             None \<Rightarrow> None
           | Some i \<Rightarrow> if i < 0 \<or> int (length xs) \<le> i then None else Some (xs ! nat i))
      | VvMap kt kvs \<Rightarrow> Option.bind (env_key env kt (operandBody o1)) (map_of kvs)
      | VvSet kt xs \<Rightarrow> map_option (\<lambda>key. VvBool (key \<in> set xs)) (env_key env kt (operandBody o1))
      | _ \<Rightarrow> None)"

text \<open>The field of a struct or of a union with a name.\<close>

definition field_value :: "vvalue \<Rightarrow> string \<Rightarrow> vvalue option" where
  "field_value object name =
     (case object of
        VvStruct _ fs \<Rightarrow> map_of fs name
      | VvUnion _ fname x \<Rightarrow> if fname = name then Some x else None
      | _ \<Rightarrow> None)"

subsection \<open>Resolving operands\<close>

text \<open>
  The outer option of a result is the panic, an inner one Go's nil. In \<open>resolveWithKey\<close> and the loop over the segments a
  missing value ends with the nil value; the flag says that the code has returned.
\<close>

fun resolveOperand :: "eval_env \<Rightarrow> string \<Rightarrow> vvalue option \<Rightarrow> vvalue Operand \<Rightarrow> vvalue Operand option option"
and resolveArgs :: "eval_env \<Rightarrow> string \<Rightarrow> vvalue option \<Rightarrow> vvalue Operand list \<Rightarrow> vvalue Operand list option option"
and ResolveField :: "eval_env \<Rightarrow> string \<Rightarrow> vvalue option \<Rightarrow> vvalue Field \<Rightarrow> vvalue option"
and resolveSegments :: "eval_env \<Rightarrow> string \<Rightarrow> vvalue option \<Rightarrow> vvalue Segment list \<Rightarrow> vvalue \<Rightarrow> vvalue option"
and resolveWithKey :: "eval_env \<Rightarrow> string \<Rightarrow> vvalue option \<Rightarrow> vvalue Operand list \<Rightarrow> vvalue \<Rightarrow> vvalue option" where
  "resolveOperand env k v (Operand off b) =
     (case b of
        TypFunction (Function foff name args ret) \<Rightarrow>
          (case resolveArgs env k v args of
             None \<Rightarrow> None
           | Some None \<Rightarrow> Some None
           | Some (Some callingArgs) \<Rightarrow>
               (case ExecFunction (env_std env) (Function foff name args ret) callingArgs of
                  None \<Rightarrow> None
                | Some (Inl e) \<Rightarrow> Some None
                | Some (Inr op) \<Rightarrow> Some (Some op)))
      | TypField c \<Rightarrow>
          (case ResolveField env k v c of
             None \<Rightarrow> None
           | Some x \<Rightarrow>
               if is_nil x then Some None
               else (case ConvertValueToAnOperand (value_view env) x off of
                       Inl e \<Rightarrow> Some None
                     | Inr op \<Rightarrow> Some (Some op)))
      | _ \<Rightarrow> Some (Some (Operand off b)))"
| "resolveArgs env k v [] = Some (Some [])"
| "resolveArgs env k v (a # args) =
     (case resolveOperand env k v a of
        None \<Rightarrow> None
      | Some None \<Rightarrow> Some None
      | Some (Some x) \<Rightarrow>
          (case resolveArgs env k v args of
             None \<Rightarrow> None
           | Some None \<Rightarrow> Some None
           | Some (Some xs) \<Rightarrow> Some (Some (x # xs))))"
| "ResolveField env k v (Field off []) = None"
| "ResolveField env k v (Field off (Segment soff name keys # segs)) =
     (if name = ''k'' then Some (VvString k)
      else case v of
        None \<Rightarrow> None
      | Some x \<Rightarrow>
          (case resolveWithKey env k v keys (autoDereference x) of
             None \<Rightarrow> None
           | Some object \<Rightarrow> resolveSegments env k v segs object))"
| "resolveSegments env k v [] object = Some object"
| "resolveSegments env k v (Segment soff name keys # segs) object =
     (case field_value (autoDereference object) name of
        None \<Rightarrow> Some nil_value
      | Some x \<Rightarrow>
          (case resolveWithKey env k v keys x of
             None \<Rightarrow> None
           | Some object' \<Rightarrow> resolveSegments env k v segs object'))"
| "resolveWithKey env k v [] object = Some object"
| "resolveWithKey env k v (key # keys) object =
     (case resolveOperand env k v key of
        None \<Rightarrow> None
      | Some None \<Rightarrow> Some nil_value
      | Some (Some x) \<Rightarrow>
          (case index_value env object x of
             None \<Rightarrow> Some nil_value
           | Some object' \<Rightarrow> resolveWithKey env k v keys object'))"

subsection \<open>Comparing\<close>

text \<open>The branches for \<open>TypBigRat\<close>, \<open>TypBigInt\<close> and \<open>TypUint\<close> are never taken.\<close>

definition coerceValues :: "'v Operand \<Rightarrow> 'v Operand \<Rightarrow> f_error + 'v Operand \<times> 'v Operand" where
  "coerceValues lhs rhs =
     (let both = (\<lambda>conv. and_then (conv lhs) (\<lambda>l. and_then (conv rhs) (\<lambda>r. Inr (l, r)))) in
      if operand_type lhs = OStr \<or> operand_type rhs = OStr then both ConvertValueToString
      else if operand_type lhs = OFloat \<or> operand_type rhs = OFloat then both ConvertValueToFloat
      else if operand_type lhs = OInt \<or> operand_type rhs = OInt then both ConvertValueToInt
      else if operand_type lhs \<noteq> operand_type rhs then Inl (CannotConvert (operand_type lhs))
      else Inr (lhs, rhs))"

definition compareBools :: "bool \<Rightarrow> bool \<Rightarrow> BinaryOperatorType \<Rightarrow> bool" where
  "compareBools a b ty = (case ty of Equal \<Rightarrow> a = b | NotEqual \<Rightarrow> a \<noteq> b | _ \<Rightarrow> False)"

definition compareFloats :: "float64 \<Rightarrow> float64 \<Rightarrow> BinaryOperatorType \<Rightarrow> bool" where
  "compareFloats a b ty =
     (case ty of
        Equal \<Rightarrow> f64_eq a b
      | NotEqual \<Rightarrow> \<not> f64_eq a b
      | LessThan \<Rightarrow> f64_less a b
      | LessThanOrEqual \<Rightarrow> f64_le a b
      | GreaterThan \<Rightarrow> f64_less b a
      | GreaterThanOrEqual \<Rightarrow> f64_le b a
      | _ \<Rightarrow> False)"

text \<open>\<open>compareInts\<close>, and \<open>compareTimes\<close> on instants.\<close>

definition compareInts :: "int \<Rightarrow> int \<Rightarrow> BinaryOperatorType \<Rightarrow> bool" where
  "compareInts a b ty =
     (case ty of
        Equal \<Rightarrow> a = b
      | NotEqual \<Rightarrow> a \<noteq> b
      | LessThan \<Rightarrow> a < b
      | LessThanOrEqual \<Rightarrow> a \<le> b
      | GreaterThan \<Rightarrow> a > b
      | GreaterThanOrEqual \<Rightarrow> a \<ge> b
      | _ \<Rightarrow> False)"

definition compareTimes :: "int \<Rightarrow> int \<Rightarrow> BinaryOperatorType \<Rightarrow> bool" where
  "compareTimes a b ty =
     (case ty of
        Equal \<Rightarrow> a = b
      | NotEqual \<Rightarrow> a \<noteq> b
      | LessThan \<Rightarrow> a < b
      | LessThanOrEqual \<Rightarrow> a < b \<or> a = b
      | GreaterThan \<Rightarrow> a > b
      | GreaterThanOrEqual \<Rightarrow> a > b \<or> a = b
      | _ \<Rightarrow> False)"

definition op_Pattern :: "'v Operand \<Rightarrow> Pattern option" where
  "op_Pattern o1 = (case operandBody o1 of TypPattern _ _ p \<Rightarrow> Some p | _ \<Rightarrow> None)"

text \<open>A comparison with a pattern that is not there panics.\<close>

definition compareStrings :: "'v Operand \<Rightarrow> 'v Operand \<Rightarrow> BinaryOperatorType \<Rightarrow> bool option" where
  "compareStrings l r ty =
     (let a = op_Str l; b = op_Str r in
      case ty of
        Equal \<Rightarrow> Some (a = b)
      | NotEqual \<Rightarrow> Some (a \<noteq> b)
      | LessThan \<Rightarrow> Some (a < b)
      | LessThanOrEqual \<Rightarrow> Some (a \<le> b)
      | GreaterThan \<Rightarrow> Some (a > b)
      | GreaterThanOrEqual \<Rightarrow> Some (a \<ge> b)
      | Like \<Rightarrow> map_option (\<lambda>p. MatchString p a) (op_Pattern r)
      | NotLike \<Rightarrow> map_option (\<lambda>p. \<not> MatchString p a) (op_Pattern r)
      | _ \<Rightarrow> Some False)"

definition compareObjects :: "eval_env \<Rightarrow> vvalue \<Rightarrow> vvalue \<Rightarrow> BinaryOperatorType \<Rightarrow> bool" where
  "compareObjects env a b ty =
     (case ty of Equal \<Rightarrow> env_deepEqual env a b | NotEqual \<Rightarrow> \<not> env_deepEqual env a b | _ \<Rightarrow> False)"

text \<open>The end of \<open>evalComparisonOperators\<close>, on the coerced values.\<close>

definition compare_values :: "eval_env \<Rightarrow> vvalue Operand \<Rightarrow> vvalue Operand \<Rightarrow> BinaryOperatorType \<Rightarrow> bool option" where
  "compare_values env l r ty =
     (case (operandBody l, operandBody r) of
        (TypBool a, TypBool b) \<Rightarrow> Some (compareBools a b ty)
      | (TypFloat a, TypFloat b) \<Rightarrow> Some (compareFloats a b ty)
      | (TypInt a, TypInt b) \<Rightarrow> Some (compareInts a b ty)
      | (TypTime a, TypTime b) \<Rightarrow> Some (compareTimes a b ty)
      | (TypObject a, TypObject b) \<Rightarrow> Some (compareObjects env a b ty)
      | _ \<Rightarrow> if operand_type l = OStr then compareStrings l r ty else Some False)"

definition evalComparisonOperators ::
  "eval_env \<Rightarrow> string \<Rightarrow> vvalue option \<Rightarrow> vvalue Operand \<Rightarrow> BinaryOperatorType \<Rightarrow> vvalue Operand \<Rightarrow> bool option" where
  "evalComparisonOperators env k v o1 ty o2 =
     (case resolveOperand env k v o1 of
        None \<Rightarrow> None
      | Some lhs \<Rightarrow>
          if ty = Is \<and> operand_type o2 = ONil then Some (lhs = None)
          else if ty = IsNot \<and> operand_type o2 = ONil then Some (lhs \<noteq> None)
          else case lhs of
            None \<Rightarrow> Some False
          | Some l \<Rightarrow>
              (case resolveOperand env k v o2 of
                 None \<Rightarrow> None
               | Some None \<Rightarrow> Some False
               | Some (Some r) \<Rightarrow>
                   (case coerceValues l r of
                      Inl e \<Rightarrow> Some False
                    | Inr (l', r') \<Rightarrow> compare_values env l' r' ty)))"

subsection \<open>Where clauses\<close>

fun Eval :: "eval_env \<Rightarrow> string \<Rightarrow> vvalue option \<Rightarrow> vvalue Expression \<Rightarrow> bool option" where
  "Eval env k v (Expression off (Operand p1 b1) op (Operand p2 b2)) =
     (if IsLogicalOperator op then
        (case b1 of
           TypExpr e1 \<Rightarrow>
             (case Eval env k v e1 of
                None \<Rightarrow> None
              | Some r1 \<Rightarrow>
                  if opType op = And \<and> \<not> r1 then Some False
                  else if opType op = Or \<and> r1 then Some True
                  else (case b2 of TypExpr e2 \<Rightarrow> Eval env k v e2 | _ \<Rightarrow> None))
         | _ \<Rightarrow> None)
      else evalComparisonOperators env k v (Operand p1 b1) (opType op) (Operand p2 b2))"

datatype EvalWithKeyResult = INCLUDE | EXCLUDE | FETCH_VALUE

fun evalExprUsingOnlyKey :: "eval_env \<Rightarrow> vvalue Expression \<Rightarrow> string \<Rightarrow> EvalWithKeyResult option" where
  "evalExprUsingOnlyKey env (Expression off (Operand p1 b1) op (Operand p2 b2)) k =
     (if IsLogicalOperator op then
        (case b1 of
           TypExpr e1 \<Rightarrow>
             (case b2 of
                TypExpr e2 \<Rightarrow>
                  (case (evalExprUsingOnlyKey env e1 k, evalExprUsingOnlyKey env e2 k) of
                     (Some r1, Some r2) \<Rightarrow>
                       Some (if opType op = And then
                               (if r1 = INCLUDE \<and> r2 = INCLUDE then INCLUDE
                                else if r1 = EXCLUDE \<or> r2 = EXCLUDE then EXCLUDE
                                else FETCH_VALUE)
                             else
                               (if r1 = INCLUDE \<or> r2 = INCLUDE then INCLUDE
                                else if r1 = EXCLUDE \<and> r2 = EXCLUDE then EXCLUDE
                                else FETCH_VALUE))
                   | _ \<Rightarrow> None)
              | _ \<Rightarrow> None)
         | _ \<Rightarrow> None)
      else
        (let e = Expression off (Operand p1 b1) op (Operand p2 b2) in
         if \<not> ContainsKeyOperand e then Some FETCH_VALUE
         else if ContainsFunctionOperand e \<or> ContainsValueFieldOperand e then Some FETCH_VALUE
         else map_option (\<lambda>b. if b then INCLUDE else EXCLUDE)
                (evalComparisonOperators env k None (Operand p1 b1) (opType op) (Operand p2 b2))))"

definition EvalWhereUsingOnlyKey :: "eval_env \<Rightarrow> vvalue WhereClause option \<Rightarrow> string \<Rightarrow> EvalWithKeyResult option" where
  "EvalWhereUsingOnlyKey env wh k =
     (case wh of None \<Rightarrow> Some INCLUDE | Some w \<Rightarrow> evalExprUsingOnlyKey env (whereExpr w) k)"

end
