(* ===== verification/QuerySound.thy ===== *)
theory QuerySound
  imports QueryEval
begin

text \<open>
  The query engine is right to scan ranges and to decide by the key: what the checker computes from a where clause agrees with its evaluation.
\<close>

subsection \<open>Trees of comparisons\<close>

text \<open>An expression whose logical operators join expressions and whose comparisons satisfy a condition.\<close>

fun holds_all :: "('v Operand \<Rightarrow> BinaryOperatorType \<Rightarrow> 'v Operand \<Rightarrow> bool) \<Rightarrow> 'v Expression \<Rightarrow> bool" where
  "holds_all P (Expression off (Operand p1 b1) op (Operand p2 b2)) =
     (if IsLogicalOperator op then
        (case b1 of
           TypExpr e1 \<Rightarrow> (case b2 of TypExpr e2 \<Rightarrow> holds_all P e1 \<and> holds_all P e2 | _ \<Rightarrow> False)
         | _ \<Rightarrow> False)
      else P (Operand p1 b1) (opType op) (Operand p2 b2))"

lemma logical_cases: "IsLogicalOperator op \<Longrightarrow> opType op = And \<or> opType op = Or"
  by (simp add: IsLogicalOperator_def)

text \<open>Induction over such trees: comparisons, and two trees joined by AND or OR.\<close>

lemma holds_all_induct [consumes 1, case_names comparison logical]:
  assumes "holds_all P e"
    and "\<And>off o1 op o2. \<not> IsLogicalOperator op \<Longrightarrow> P o1 (opType op) o2 \<Longrightarrow> Q (Expression off o1 op o2)"
    and "\<And>off p1 e1 op p2 e2. opType op = And \<or> opType op = Or \<Longrightarrow> holds_all P e1 \<Longrightarrow> holds_all P e2 \<Longrightarrow> Q e1 \<Longrightarrow> Q e2 \<Longrightarrow>
      Q (Expression off (Operand p1 (TypExpr e1)) op (Operand p2 (TypExpr e2)))"
  shows "Q e"
  using assms
proof (induction P e rule: holds_all.induct)
  case (1 P off p1 b1 op p2 b2)
  show ?case
  proof (cases "IsLogicalOperator op")
    case True
    then obtain e1 e2 where b: "b1 = TypExpr e1" "b2 = TypExpr e2" using 1(3) by (auto split: body.splits)
    then have h: "holds_all P e1" "holds_all P e2" using 1(3) True by simp_all
    show ?thesis
      unfolding b using 1(1) [OF True b h(1) 1(4,5)] 1(2) [OF True b h(2) 1(4,5)]
      by (intro 1(5) logical_cases [OF True] h)
  next
    case False
    then show ?thesis using 1(3,4) by simp
  qed
qed

lemma holds_all_mono: "holds_all P e \<Longrightarrow> (\<And>o1 ty o2. P o1 ty o2 \<Longrightarrow> Q o1 ty o2) \<Longrightarrow> holds_all Q e"
  by (induction rule: holds_all_induct)
    (auto simp: IsLogicalOperator_def, metis Operand.exhaust holds_all.simps IsLogicalOperator_def)

lemma holds_comparison: "\<not> IsLogicalOperator op \<Longrightarrow> holds_all P (Expression off o1 op o2) \<longleftrightarrow> P o1 (opType op) o2"
  by (cases o1; cases o2) simp

lemma Expression_simps:
  assumes "\<not> IsLogicalOperator op"
  shows "Eval env k v (Expression off o1 op o2) = evalComparisonOperators env k v o1 (opType op) o2"
    and "evalExprUsingOnlyKey env (Expression off o1 op o2) k =
      (if \<not> (IsKey o1 \<or> IsKey o2) \<or> IsFunction o1 \<or> IsFunction o2 \<or> is_value_operand o1 \<or> is_value_operand o2
       then Some FETCH_VALUE
       else map_option (\<lambda>b. if b then INCLUDE else EXCLUDE) (evalComparisonOperators env k None o1 (opType op) o2))"
  using assms by (cases o1; cases o2; simp add: Let_def)+

subsection \<open>Deciding by the key\<close>

text \<open>What the checker allows as a field: a path that starts with \<open>k\<close> or \<open>v\<close>.\<close>

definition known_field :: "'v Operand \<Rightarrow> bool" where
  "known_field o1 \<longleftrightarrow>
     (case operand_field o1 of None \<Rightarrow> True | Some f \<Rightarrow> fieldSegments f \<noteq> [] \<and> (IsKeyField f \<or> IsValueField f))"

definition known_fields :: "'v Operand \<Rightarrow> BinaryOperatorType \<Rightarrow> 'v Operand \<Rightarrow> bool" where
  "known_fields o1 ty o2 \<longleftrightarrow> known_field o1 \<and> known_field o2"

text \<open>Without functions and value fields, the value does not matter.\<close>

lemma resolve_key_only:
  assumes "known_field o1" "\<not> IsFunction o1" "\<not> is_value_operand o1"
  shows "resolveOperand env k v o1 = resolveOperand env k w o1"
proof (cases o1)
  case (Operand off b)
  show ?thesis
  proof (cases b)
    case (TypField f)
    then obtain foff sg segs where f: "f = Field foff (sg # segs)" and k: "segValue sg = ''k''"
      using assms Operand
      by (cases f; cases "fieldSegments f")
        (auto simp: known_field_def operand_field_def is_value_operand_def IsKeyField_def first_segment_def)
    obtain soff keys where "sg = Segment soff ''k'' keys" using k by (cases sg) simp
    then show ?thesis by (simp add: Operand TypField f)
  qed (use assms Operand in \<open>simp_all add: IsFunction_def operand_type_def\<close>)
qed

lemma evalComparison_cong:
  assumes "resolveOperand env k v o1 = resolveOperand env k w o1" "resolveOperand env k v o2 = resolveOperand env k w o2"
  shows "evalComparisonOperators env k v o1 ty o2 = evalComparisonOperators env k w o1 ty o2"
  unfolding evalComparisonOperators_def assms by (rule refl)

definition key_result_sound :: "EvalWithKeyResult option \<Rightarrow> bool option \<Rightarrow> bool" where
  "key_result_sound r b \<longleftrightarrow> (r = Some INCLUDE \<longrightarrow> b \<noteq> Some False) \<and> (r = Some EXCLUDE \<longrightarrow> b \<noteq> Some True)"

lemma key_only_agrees:
  assumes "holds_all known_fields e"
  shows "key_result_sound (evalExprUsingOnlyKey env e k) (Eval env k v e)"
  using assms
proof (induction rule: holds_all_induct)
  case (comparison off o1 op o2)
  have "evalComparisonOperators env k v o1 (opType op) o2 = evalComparisonOperators env k None o1 (opType op) o2"
    if "\<not> IsFunction o1" "\<not> IsFunction o2" "\<not> is_value_operand o1" "\<not> is_value_operand o2"
    using resolve_key_only [of o1 env k v None] resolve_key_only [of o2 env k v None] that comparison(2)
    by (intro evalComparison_cong) (simp_all add: known_fields_def)
  then show ?case
    by (auto simp: key_result_sound_def Expression_simps [OF comparison(1)])
next
  case (logical off p1 e1 op p2 e2)
  then show ?case
    by (auto simp: key_result_sound_def IsLogicalOperator_def split: option.splits if_splits)
qed

text \<open>
  \<open>EvalWhereUsingOnlyKey\<close> agrees with \<open>Eval\<close>: when it includes a row, the where clause does not evaluate to false on the
  row, whatever its value, and when it excludes one, it does not evaluate to true. The fields of the clause have to start
  with \<open>k\<close> or \<open>v\<close>, as the checker demands.
\<close>

theorem key_only_sound:
  assumes "holds_all known_fields e"
  shows "key_result_sound (evalExprUsingOnlyKey env e k) (Eval env k v e)"
  by (rule key_only_agrees [OF assms])

subsection \<open>Scanning ranges\<close>

text \<open>
  The comparisons for which the ranges are right: an indexed field is not compared with another field, there is no
  NOT LIKE with a fixed prefix on it, and a field that the code takes for the indexed one, by its names, has no keys.
\<close>

definition keyless_field :: "'v Field \<Rightarrow> bool" where
  "keyless_field f \<longleftrightarrow> fieldSegments f \<noteq> [] \<and> (IsKeyField f \<or> list_all (\<lambda>sg. segKeys sg = []) (fieldSegments f))"

definition keyless :: "'v Operand \<Rightarrow> bool" where
  "keyless o1 \<longleftrightarrow> (case operand_field o1 of None \<Rightarrow> True | Some f \<Rightarrow> keyless_field f)"

definition range_safe :: "'v Field \<Rightarrow> 'v Operand \<Rightarrow> BinaryOperatorType \<Rightarrow> 'v Operand \<Rightarrow> bool" where
  "range_safe idx o1 ty o2 \<longleftrightarrow>
     \<not> IsExpr o1 \<and>
     (IsField o1 \<and> IsField o2 \<longrightarrow> IsExactField idx o1 = IsExactField idx o2) \<and>
     (ty = NotLike \<and> IsExactField idx o1 \<longrightarrow> op_Prefix o2 = []) \<and>
     (IsExactField idx o1 \<longrightarrow> keyless o1) \<and> (IsExactField idx o2 \<longrightarrow> keyless o2)"

text \<open>The pattern of a LIKE was made by the parser of patterns, and its prefix is the fixed prefix.\<close>

definition checked_pattern :: "'v Operand \<Rightarrow> bool" where
  "checked_pattern o2 \<longleftrightarrow>
     (case operandBody o2 of TypPattern _ p q \<Rightarrow> q = pattern_of (regex q) \<and> p = fixedPrefix q | _ \<Rightarrow> True)"

lemma checked_pattern_prefix:
  assumes "checked_pattern o2" "op_Pattern o2 = Some q" "MatchString q s" "valid_utf8 s"
  shows "prefix (op_Prefix o2) s"
proof -
  obtain t p where "operandBody o2 = TypPattern t p q" using assms(2) by (auto simp: op_Pattern_def split: body.splits)
  then have "q = pattern_of (regex q)" and p: "op_Prefix o2 = fixedPrefix q"
    using assms(1) by (simp_all add: checked_pattern_def op_Prefix_def)
  then show ?thesis using pattern_of_prefix [of "regex q" s] assms(3,4) by simp
qed

text \<open>The indexed field has the value \<open>s\<close> in a row.\<close>

definition index_is :: "eval_env \<Rightarrow> string \<Rightarrow> vvalue option \<Rightarrow> vvalue Field \<Rightarrow> string \<Rightarrow> bool" where
  "index_is env k v idx s \<longleftrightarrow>
     resolveOperand env k v (Operand 0 (TypField idx)) = Some (Some (Operand 0 (TypStr s)))"

definition index_is_nil :: "eval_env \<Rightarrow> string \<Rightarrow> vvalue option \<Rightarrow> vvalue Field \<Rightarrow> bool" where
  "index_is_nil env k v idx \<longleftrightarrow> resolveOperand env k v (Operand 0 (TypField idx)) = Some None"

text \<open>A field with the names of the indexed one resolves to the same value.\<close>

lemma resolveSegments_keyless:
  assumes "list_all (\<lambda>sg. segKeys sg = []) segs" "list_all (\<lambda>sg. segKeys sg = []) segs'" "map segValue segs = map segValue segs'"
  shows "resolveSegments env k v segs object = resolveSegments env k v segs' object"
  using assms
proof (induction segs arbitrary: segs' object)
  case (Cons sg segs)
  obtain sg' segs'' where s: "segs' = sg' # segs''" using Cons.prems(3) by auto
  obtain o1 n o2 where sg: "sg = Segment o1 n []" "sg' = Segment o2 n []"
    using Cons.prems by (cases sg; cases sg') (simp add: s)
  have "resolveSegments env k v segs x = resolveSegments env k v segs'' x" for x
    by (rule Cons.IH) (use Cons.prems in \<open>simp_all add: s\<close>)
  then show ?case by (simp add: s sg split: option.split)
qed simp

lemma ResolveField_keyless:
  assumes "keyless_field f" "keyless_field g" "map segValue (fieldSegments f) = map segValue (fieldSegments g)"
  shows "ResolveField env k v f = ResolveField env k v g"
proof -
  obtain o1 sg segs o2 sg' segs' where f: "f = Field o1 (sg # segs)" and g: "g = Field o2 (sg' # segs')"
    using assms(1,2) by (cases f; cases g; cases "fieldSegments f"; cases "fieldSegments g") (auto simp: keyless_field_def)
  obtain s1 n keys s2 keys' where sg: "sg = Segment s1 n keys" "sg' = Segment s2 n keys'"
    using assms(3) by (cases sg; cases sg') (simp add: f g)
  show ?thesis
  proof (cases "n = ''k''")
    case False
    then have k: "keys = []" "keys' = []" and l: "list_all (\<lambda>sg. segKeys sg = []) segs" "list_all (\<lambda>sg. segKeys sg = []) segs'"
      using assms(1,2) by (simp_all add: keyless_field_def IsKeyField_def first_segment_def f g sg)
    have "resolveSegments env k v segs object = resolveSegments env k v segs' object" for object
      using resolveSegments_keyless [OF l] assms(3) by (simp add: f g)
    then have "resolveSegments env k v segs = resolveSegments env k v segs'" by (intro ext)
    then show ?thesis by (cases v) (simp_all add: f g sg k)
  qed (simp add: f g sg)
qed

lemma ConvertValueToAnOperand_off:
  "ConvertValueToAnOperand view x off = map_sum id (\<lambda>o1. Operand off (operandBody o1)) (ConvertValueToAnOperand view x 0)"
  by (simp add: ConvertValueToAnOperand_def split: vdl_view.split option.split)

lemma exact_resolves:
  assumes "IsExactField idx o1" "keyless_field idx" "keyless o1"
  shows "resolveOperand env k v o1 =
    map_option (map_option (\<lambda>o2. Operand (operandOff o1) (operandBody o2))) (resolveOperand env k v (Operand 0 (TypField idx)))"
proof -
  obtain off f where o1: "o1 = Operand off (TypField f)"
    using assms(1) by (cases o1; cases "operandBody o1") (auto simp: IsExactField_def operand_field_def)
  have "keyless_field f" "map segValue (fieldSegments idx) = map segValue (fieldSegments f)"
    using assms(1,3) by (simp_all add: o1 IsExactField_def keyless_def operand_field_def)
  then have "ResolveField env k v f = ResolveField env k v idx" using assms(2) by (intro ResolveField_keyless) simp_all
  then show ?thesis
    by (simp add: o1 ConvertValueToAnOperand_off [of "value_view env" _ off] split: option.split sum.split)
qed

lemma index_resolves:
  assumes "keyless_field idx" "IsExactField idx o1" "keyless o1"
  shows "index_is env k v idx s \<Longrightarrow> \<exists>off. resolveOperand env k v o1 = Some (Some (Operand off (TypStr s)))"
    and "index_is_nil env k v idx \<Longrightarrow> resolveOperand env k v o1 = Some None"
  using exact_resolves [OF assms(2,1,3)] by (simp_all add: index_is_def index_is_nil_def)

lemma coerce_left_str:
  "operandBody l = TypStr s \<Longrightarrow> coerceValues l r = Inr (l', r') \<longleftrightarrow> l' = l \<and> r' = r \<and> operand_type r = OStr"
  by (auto simp: coerceValues_def Let_def operand_type_def ConvertValueToString_def and_then_Inr_iff split: body.splits)

lemma coerce_right_str:
  "operandBody r = TypStr s \<Longrightarrow> coerceValues l r = Inr (l', r') \<longleftrightarrow> l' = l \<and> r' = r \<and> operand_type l = OStr"
  by (auto simp: coerceValues_def Let_def operand_type_def ConvertValueToString_def and_then_Inr_iff split: body.splits)

lemma compare_strings: "operand_type l = OStr \<Longrightarrow> compare_values env l r ty = compareStrings l r ty"
  by (cases "operandBody l") (simp_all add: compare_values_def operand_type_def)

text \<open>When a comparison is true, for an operator that is not IS or IS NOT.\<close>

lemma comparison_true:
  assumes "evalComparisonOperators env k v o1 ty o2 = Some True" "ty \<noteq> Is" "ty \<noteq> IsNot"
  obtains l r l' r' where "resolveOperand env k v o1 = Some (Some l)" "resolveOperand env k v o2 = Some (Some r)"
    "coerceValues l r = Inr (l', r')" "compare_values env l' r' ty = Some True"
  using assms by (auto simp: evalComparisonOperators_def split: option.splits sum.splits if_splits)

lemma string_literal_resolves:
  assumes "isStringLiteral o1"
  shows "resolveOperand env k v o1 = Some (Some o1)"
  using assms by (cases o1; cases "operandBody o1") (simp_all add: isStringLiteral_def operand_type_def)

lemma literal_on_right_sound:
  assumes "compareStrings l o2 ty = Some True" "op_Str l = s"
    and "ty = NotLike \<longrightarrow> op_Prefix o2 = []"
    and "ty = Like \<longrightarrow> (\<forall>p. op_Pattern o2 = Some p \<longrightarrow> MatchString p s \<longrightarrow> prefix (op_Prefix o2) s)"
  shows "in_ranges s (literal_on_right ty o2)"
proof (cases ty)
  case Like
  then show ?thesis using assms by (auto simp: literal_on_right_def Let_def compareStrings_def prefix_range)
qed (use assms in \<open>auto simp: literal_on_right_def Let_def compareStrings_def in_range_def less_snoc_NUL snoc_NUL_le
    computeStringFieldRangeForSingleValue_def computeStringFieldRangesForNotLike_def StringFieldRangeAll_def\<close>)

lemma literal_on_left_sound:
  assumes "compareStrings o1 r ty = Some True" "op_Str r = s" "op_Pattern r = None"
  shows "in_ranges s (literal_on_left ty o1)"
  using assms
  by (cases ty) (auto simp: literal_on_left_def Let_def compareStrings_def in_range_def less_snoc_NUL snoc_NUL_le
    computeStringFieldRangeForSingleValue_def)

lemma compare_other:
  assumes "ty \<in> {Is, IsNot, And, Or}"
  shows "\<not> compareBools a b ty" "\<not> compareFloats x y ty" "\<not> compareInts i j ty" "\<not> compareTimes i j ty"
    "\<not> compareObjects env c d ty" "compareStrings l r ty = Some False"
  using assms by (auto simp: compareBools_def compareFloats_def compareInts_def compareTimes_def compareObjects_def
    compareStrings_def Let_def)

lemma compare_values_other: "ty \<in> {Is, IsNot, And, Or} \<Longrightarrow> compare_values env l r ty \<noteq> Some True"
  by (cases "operandBody l"; cases "operandBody r"; simp only: compare_values_def compare_other prod.case body.case)
    (simp_all add: compare_other)

lemma exact_is_field: "IsExactField idx o1 \<Longrightarrow> IsField o1"
  by (auto simp: IsExactField_def operand_field_def IsField_def operand_type_def split: option.splits body.splits)

lemma field_not_literal: "IsField o1 \<Longrightarrow> \<not> isStringLiteral o1" "IsField o1 \<Longrightarrow> operand_type o1 \<noteq> ONil"
  by (simp_all add: IsField_def isStringLiteral_def)

lemma in_All [simp]: "in_range s StringFieldRangeAll"
  by (simp add: in_range_def StringFieldRangeAll_def)

lemma comparison_ranges_sound:
  assumes safe: "range_safe idx o1 ty o2" and pat: "ty = Like \<longrightarrow> checked_pattern o2"
    and ev: "evalComparisonOperators env k v o1 ty o2 = Some True"
    and idx: "index_is env k v idx s" "keyless_field idx" and utf8: "valid_utf8 s"
  shows "in_ranges s (comparison_ranges idx o1 ty o2)"
proof -
  have res: "\<exists>off. resolveOperand env k v o3 = Some (Some (Operand off (TypStr s)))" if "IsExactField idx o3" "o3 = o1 \<or> o3 = o2" for o3
    using index_resolves(1) [OF idx(2) that(1)] idx(1) that(2) safe that(1) by (auto simp: range_safe_def)
  have f: "IsExactField idx o1 \<longrightarrow> IsField o1 \<and> \<not> isStringLiteral o1" "IsExactField idx o2 \<longrightarrow> IsField o2 \<and> \<not> isStringLiteral o2"
    "IsField o1 \<and> IsField o2 \<longrightarrow> IsExactField idx o1 = IsExactField idx o2"
    using safe exact_is_field [of idx o1] exact_is_field [of idx o2] field_not_literal(1)
    by (auto simp: range_safe_def)
  have "comparison_ranges idx o1 ty o2 = [StringFieldRangeAll] \<or>
    IsExactField idx o1 \<and> IsExactField idx o2 \<and> \<not> (ty = Equal \<or> ty = GreaterThanOrEqual \<or> ty = LessThanOrEqual) \<or>
    (IsExactField idx o1 \<or> IsExactField idx o2) \<and> ty = Is \<or>
    IsExactField idx o1 \<and> isStringLiteral o2 \<and> comparison_ranges idx o1 ty o2 = literal_on_right ty o2 \<or>
    IsExactField idx o2 \<and> isStringLiteral o1 \<and> comparison_ranges idx o1 ty o2 = literal_on_left ty o1"
    using f by (cases "IsExactField idx o1"; cases "IsExactField idx o2"; cases "isStringLiteral o1"; cases "isStringLiteral o2")
      (auto simp: comparison_ranges_def)
  then consider (all) "comparison_ranges idx o1 ty o2 = [StringFieldRangeAll]"
    | (fields) "IsExactField idx o1" "IsExactField idx o2" "\<not> (ty = Equal \<or> ty = GreaterThanOrEqual \<or> ty = LessThanOrEqual)"
    | (is_nil) "IsExactField idx o1 \<or> IsExactField idx o2" "ty = Is"
    | (right) "IsExactField idx o1" "isStringLiteral o2" "comparison_ranges idx o1 ty o2 = literal_on_right ty o2"
    | (left) "IsExactField idx o2" "isStringLiteral o1" "comparison_ranges idx o1 ty o2 = literal_on_left ty o1"
    by blast
  then show ?thesis
  proof cases
    case all
    then show ?thesis by simp
  next
    case fields
    have "operand_type o2 \<noteq> ONil" using exact_is_field [OF fields(2)] by (rule field_not_literal)
    then show ?thesis using ev res [OF fields(1)] res [OF fields(2)] fields(3)
      by (cases ty) (auto simp: evalComparisonOperators_def coerceValues_def ConvertValueToString_def compare_values_def
          compareStrings_def op_Pattern_def op_Str_def Let_def)
  next
    case is_nil
    show ?thesis
    proof (cases "operand_type o2 = ONil")
      case True
      then have "IsExactField idx o1" using is_nil(1) exact_is_field [of idx o2] field_not_literal [of o2] by blast
      then show ?thesis using res [of o1] ev is_nil(2) True by (auto simp: evalComparisonOperators_def)
    next
      case False
      then show ?thesis using ev is_nil(2) compare_values_other [of Is env]
        by (auto simp: evalComparisonOperators_def split: option.splits sum.splits)
    qed
  next
    case right
    obtain off where l: "resolveOperand env k v o1 = Some (Some (Operand off (TypStr s)))" using res [OF right(1)] by blast
    have "operand_type o2 = OStr" using right(2) by (simp add: isStringLiteral_def)
    then have "coerceValues (Operand off (TypStr s)) o2 = Inr (Operand off (TypStr s), o2)" by (simp add: coerce_left_str)
    then have c: "compareStrings (Operand off (TypStr s)) o2 ty = Some True"
      using ev l string_literal_resolves [OF right(2), of env k v] \<open>operand_type o2 = OStr\<close>
      by (simp add: evalComparisonOperators_def compare_strings)
    show ?thesis unfolding right(3)
    proof (rule literal_on_right_sound [OF c])
      show "op_Str (Operand off (TypStr s)) = s" by (simp add: op_Str_def)
      show "ty = NotLike \<longrightarrow> op_Prefix o2 = []" using safe right(1) by (simp add: range_safe_def)
      show "ty = Like \<longrightarrow> (\<forall>p. op_Pattern o2 = Some p \<longrightarrow> MatchString p s \<longrightarrow> prefix (op_Prefix o2) s)"
        using checked_pattern_prefix [OF _ _ _ utf8] pat by blast
    qed
  next
    case left
    obtain off where r: "resolveOperand env k v o2 = Some (Some (Operand off (TypStr s)))" using res [OF left(1)] by blast
    have n: "operand_type o2 \<noteq> ONil" using exact_is_field [OF left(1)] by (rule field_not_literal)
    have "operand_type o1 = OStr" using left(2) by (simp add: isStringLiteral_def)
    then have "coerceValues o1 (Operand off (TypStr s)) = Inr (o1, Operand off (TypStr s))" by (simp add: coerce_right_str)
    then have "compareStrings o1 (Operand off (TypStr s)) ty = Some True"
      using ev r n string_literal_resolves [OF left(2), of env k v] \<open>operand_type o1 = OStr\<close>
      by (simp add: evalComparisonOperators_def compare_strings)
    then show ?thesis unfolding left(3) by (rule literal_on_left_sound) (simp_all add: op_Str_def op_Pattern_def)
  qed
qed

lemma append_NUL_greater: "s < s @ [NUL]"
  by (simp add: less_snoc_NUL)

lemma nil_least_string: "[] < (s :: string) \<longleftrightarrow> s \<noteq> []"
  by (cases s) simp_all

lemmas range_defs = nonempty_def comes_before_def limit_le_def StringFieldRangeAll_def nil_least_string

lemma ok_pair: "ok_ranges [mk_range [] s, mk_range (s @ [NUL]) []]"
  by (simp add: range_defs)

lemma comparison_ranges_ok:
  assumes "range_safe idx o1 ty o2"
  shows "ok_ranges (comparison_ranges idx o1 ty o2)"
proof -
  have all: "ok_ranges [StringFieldRangeAll]" by (simp add: range_defs)
  have prefix: "ok_ranges [computeStringFieldRangeForLike p]" for p
    using prefix_range [of p p] by (auto simp: nonempty_def in_range_def)
  have "ok_ranges (literal_on_right ty o2)" if "ty = NotLike \<longrightarrow> op_Prefix o2 = []"
    using that all prefix
    by (cases ty) (simp_all add: literal_on_right_def Let_def range_defs computeStringFieldRangeForSingleValue_def append_NUL_greater
        computeStringFieldRangesForNotLike_def)
  moreover have "ok_ranges (literal_on_left ty o1)"
    by (cases ty) (simp_all add: literal_on_left_def Let_def range_defs computeStringFieldRangeForSingleValue_def append_NUL_greater)
  moreover have "IsExactField idx o1 \<or> \<not> IsExactField idx o1 \<and> IsExactField idx o2 \<longrightarrow> \<not> isStringLiteral o2 \<or> IsExactField idx o1"
    using exact_is_field [of idx o2] field_not_literal(1) [of o2] by blast
  ultimately show ?thesis
    using assms all exact_is_field [of idx o2] field_not_literal(1) [of o2] by (auto simp: comparison_ranges_def range_safe_def)
qed

definition range_safe_comparison :: "'v Field \<Rightarrow> 'v Operand \<Rightarrow> BinaryOperatorType \<Rightarrow> 'v Operand \<Rightarrow> bool" where
  "range_safe_comparison idx o1 ty o2 \<longleftrightarrow> range_safe idx o1 ty o2 \<and> (ty = Like \<longrightarrow> checked_pattern o2)"

text \<open>A row, with a value of the indexed field, for which an expression holds.\<close>

definition selects :: "eval_env \<Rightarrow> vvalue Field \<Rightarrow> vvalue Expression \<Rightarrow> string \<Rightarrow> bool" where
  "selects env idx e s \<longleftrightarrow> keyless_field idx \<and> valid_utf8 s \<and> (\<exists>k v. index_is env k v idx s \<and> Eval env k v e = Some True)"

lemma collect_comparison:
  assumes "\<not> IsExpr o1"
  shows "collectStringFieldRanges idx (Expression off o1 op o2) = Some (comparison_ranges idx o1 (opType op) o2)"
  using assms by (cases o1; cases o2; cases "operandBody o1") (simp_all add: IsExpr_def)

lemma nil_comparison:
  assumes "\<not> IsExpr o1"
  shows "determineIfNilAllowed idx (Expression off o1 op o2) =
    Some (if IsExactField idx o1 \<or> IsExactField idx o2 then opType op = Is else True)"
  using assms by (cases o1; cases o2; cases "operandBody o1") (simp_all add: IsExpr_def)

lemma collect_covers:
  assumes "holds_all (range_safe_comparison idx) e"
  shows "\<exists>rs. collectStringFieldRanges idx e = Some rs \<and> ranges.covers (selects env idx e) rs"
  using assms
proof (induction rule: holds_all_induct)
  case (comparison off o1 op o2)
  have safe: "range_safe idx o1 (opType op) o2" "opType op = Like \<longrightarrow> checked_pattern o2"
    using comparison(2) by (simp_all add: range_safe_comparison_def)
  have "collectStringFieldRanges idx (Expression off o1 op o2) = Some (comparison_ranges idx o1 (opType op) o2)"
    by (rule collect_comparison) (use safe(1) in \<open>simp add: range_safe_def\<close>)
  moreover have "ranges.covers (selects env idx (Expression off o1 op o2)) (comparison_ranges idx o1 (opType op) o2)"
    using comparison_ranges_ok [OF safe(1)] comparison_ranges_sound [OF safe]
    by (auto simp: ranges.covers_def selects_def Expression_simps [OF comparison(1)])
  ultimately show ?case by blast
next
  case (logical off p1 e1 op p2 e2)
  let ?e = "Expression off (Operand p1 (TypExpr e1)) op (Operand p2 (TypExpr e2))"
  obtain l r where lr: "collectStringFieldRanges idx e1 = Some l" "ranges.covers (selects env idx e1) l"
    "collectStringFieldRanges idx e2 = Some r" "ranges.covers (selects env idx e2) r"
    using logical(4,5) by blast
  show ?case
  proof (cases "opType op = And")
    case True
    have "ranges.covers (selects env idx ?e) (fieldRangeIntersection l r)"
      by (rule ranges.covers_mono [OF ranges.covers_meet [OF lr(2,4)]])
        (auto simp: selects_def True IsLogicalOperator_def split: option.splits if_splits)
    then show ?thesis using lr True by simp
  next
    case False
    have "ranges.covers (selects env idx ?e) (range_union l r)"
      by (rule ranges.covers_mono [OF ranges.covers_join [OF lr(2,4)]])
        (use False logical(1) in \<open>auto simp: selects_def IsLogicalOperator_def split: option.splits if_splits\<close>)
    then show ?thesis using lr False by simp
  qed
qed

subsection \<open>Rows without a value for the index\<close>

lemma nil_decided:
  assumes "holds_all (\<lambda>o1 ty o2. \<not> IsExpr o1) e"
  shows "\<exists>b. determineIfNilAllowed idx e = Some b"
  using assms by (induction rule: holds_all_induct) (auto simp: nil_comparison)

lemma nil_allowed:
  assumes "holds_all (range_safe_comparison idx) e" "keyless_field idx" "index_is_nil env k v idx" "Eval env k v e = Some True"
  shows "determineIfNilAllowed idx e = Some True"
proof -
  have "\<exists>b. determineIfNilAllowed idx e = Some b \<and> (Eval env k v e = Some True \<longrightarrow> b)"
    using assms(1)
  proof (induction rule: holds_all_induct)
    case (comparison off o1 op o2)
    have "determineIfNilAllowed idx (Expression off o1 op o2) =
        Some (if IsExactField idx o1 \<or> IsExactField idx o2 then opType op = Is else True)"
      using comparison(2) by (intro nil_comparison) (simp add: range_safe_comparison_def range_safe_def)
    moreover have "evalComparisonOperators env k v o1 (opType op) o2 \<noteq> Some True"
      if "IsExactField idx o1 \<or> IsExactField idx o2" "opType op \<noteq> Is"
    proof -
      have "resolveOperand env k v o1 = Some None \<or> operand_type o2 \<noteq> ONil \<and> resolveOperand env k v o2 = Some None"
        using that(1) index_resolves(2) [OF assms(2) _ _ assms(3)] comparison(2) exact_is_field [of idx o2] field_not_literal(2) [of o2]
        by (auto simp: range_safe_comparison_def range_safe_def)
      then show ?thesis using that(2) by (auto simp: evalComparisonOperators_def split: option.splits)
    qed
    ultimately show ?case unfolding Expression_simps [OF comparison(1)] by (metis (full_types))
  next
    case (logical off p1 e1 op p2 e2)
    then show ?case by (auto simp: IsLogicalOperator_def split: option.splits if_splits)
  qed
  then show ?thesis using assms(4) by auto
qed

subsection \<open>Properties\<close>

text \<open>\<open>kField\<close> of \<open>getIndexRanges\<close>; the key is the value of this index.\<close>

definition kField :: "'v Field" where
  "kField = Field 0 [Segment 0 ''k'' []]"

lemma key_index: "index_is env k v kField k"
  by (simp add: index_is_def kField_def ConvertValueToAnOperand_def value_view_def)

lemma keyless_kField [simp]: "keyless_field kField"
  by (simp add: keyless_field_def kField_def IsKeyField_def first_segment_def)

lemma index_ranges_cover:
  assumes "holds_all (range_safe_comparison idx) (whereExpr w)" "keyless_field idx" "Eval env k v (whereExpr w) = Some True"
  shows "\<exists>r. CompileIndexRanges idx kind (Some w) = Some r \<and>
    (\<forall>s. index_is env k v idx s \<longrightarrow> valid_utf8 s \<longrightarrow> in_ranges s (StringRanges r)) \<and>
    (index_is_nil env k v idx \<longrightarrow> NilAllowed r)"
proof -
  obtain rs where rs: "collectStringFieldRanges idx (whereExpr w) = Some rs" "ranges.covers (selects env idx (whereExpr w)) rs"
    using collect_covers [OF assms(1)] by blast
  have in_rs: "in_ranges s rs" if "index_is env k v idx s" "valid_utf8 s" for s
    by (rule ranges.covers_mem [OF rs(2)]) (use that assms(2,3) in \<open>auto simp: selects_def\<close>)
  have wf: "holds_all (\<lambda>o1 ty o2. \<not> IsExpr o1) (whereExpr w)"
    by (rule holds_all_mono [OF assms(1)]) (simp add: range_safe_comparison_def range_safe_def)
  obtain b where b: "determineIfNilAllowed idx (whereExpr w) = Some b" "index_is_nil env k v idx \<longrightarrow> b"
    using nil_decided [OF wf] nil_allowed [OF assms(1,2) _ assms(3)] by (metis option.inject)
  show ?thesis using rs(1) b in_rs by (auto simp: CompileIndexRanges_def Let_def)
qed


text \<open>Comparisons that give ranges with gaps: nothing is unequal to the empty string, and no prefix has only the greatest byte.\<close>

definition gap_safe :: "'v Operand \<Rightarrow> BinaryOperatorType \<Rightarrow> 'v Operand \<Rightarrow> bool" where
  "gap_safe o1 ty o2 \<longleftrightarrow>
     \<not> IsExpr o1 \<and>
     (ty \<in> {NotEqual, And, Or, Is, IsNot} \<longrightarrow> (isStringLiteral o1 \<longrightarrow> op_Str o1 \<noteq> []) \<and> (isStringLiteral o2 \<longrightarrow> op_Str o2 \<noteq> [])) \<and>
     (ty \<in> {Like, NotLike} \<longrightarrow> \<not> isStringLiteral o1 \<and> (op_Prefix o2 \<noteq> [] \<longrightarrow> afterPrefix (op_Prefix o2) \<noteq> []))"

lemma before_afterPrefix: "afterPrefix p \<noteq> [] \<Longrightarrow> p < afterPrefix p"
  using prefix_range_iff [of p p] by simp

lemma comparison_ranges_gaps:
  assumes "gap_safe o1 ty o2"
  shows "arranged gap_between (comparison_ranges idx o1 ty o2)"
proof -
  have simps: "nonempty (mk_range [] s)" "nonempty (mk_range s [])" "nonempty (mk_range s (s @ [NUL]))"
      "gap_between (mk_range [] s) (mk_range (s @ [NUL]) []) \<longleftrightarrow> s \<noteq> []"
      "afterPrefix s \<noteq> [] \<Longrightarrow> gap_between (mk_range [] s) (mk_range (afterPrefix s) []) \<longleftrightarrow> s \<noteq> []"
      "nonempty (mk_range s (afterPrefix s))" for s
    by (simp_all add: nonempty_def gap_between_def nil_least_string append_NUL_greater before_afterPrefix)
      (use before_afterPrefix [of s] in blast)
  have r: "arranged gap_between (literal_on_right ty o2)" if "isStringLiteral o2"
    using assms that
    by (cases ty) (auto simp: gap_safe_def literal_on_right_def Let_def simps StringFieldRangeAll_def
        computeStringFieldRangeForSingleValue_def computeStringFieldRangesForNotLike_def computeStringFieldRangeForLike_def)
  have l: "arranged gap_between (literal_on_left ty o1)" if "isStringLiteral o1"
    using assms that
    by (cases ty) (auto simp: gap_safe_def literal_on_left_def Let_def simps computeStringFieldRangeForSingleValue_def)
  show ?thesis using r l by (auto simp: comparison_ranges_def StringFieldRangeAll_def simps)
qed

text \<open>
  The ranges of an index are sorted and disjoint, and they do not touch: between the limit of a range and the start of
  the next there is a key in no range. The exceptions are comparisons with the empty string, for which
  the code makes a range without limit next to others.
\<close>

theorem index_ranges_sorted:
  assumes "holds_all gap_safe e"
  shows "\<exists>rs. collectStringFieldRanges idx e = Some rs \<and> arranged gap_between rs"
  using assms
proof (induction rule: holds_all_induct)
  case (comparison off o1 op o2)
  then have "\<not> IsExpr o1" by (simp add: gap_safe_def)
  then show ?case using comparison_ranges_gaps [OF comparison(2)] by (simp add: collect_comparison)
next
  case (logical off p1 e1 op p2 e2)
  then show ?case using gaps.ok_join gaps.ok_meet by auto
qed

subsection \<open>Examples\<close>

definition sample_env :: eval_env where
  "sample_env = \<lparr>env_std = sample_std nil_value, env_time = (\<lambda>_. None),
     env_index = (\<lambda>b. case b of TypInt i \<Rightarrow> Some i | _ \<Rightarrow> None), env_key = (\<lambda>_ _. None), env_deepEqual = (=)\<rparr>"

definition k_operand :: "vvalue Operand" where
  "k_operand = Operand 0 (TypField kField)"

definition v_operand :: "vvalue Operand" where
  "v_operand = Operand 5 (TypField (Field 5 [Segment 5 ''v'' []]))"

definition comparison :: "vvalue Operand \<Rightarrow> BinaryOperatorType \<Rightarrow> vvalue Operand \<Rightarrow> vvalue Expression" where
  "comparison o1 ty o2 = Expression 0 o1 \<lparr>opType = ty, opOff = 2\<rparr> o2"

definition str_operand :: "string \<Rightarrow> vvalue Operand" where
  "str_operand s = Operand 5 (TypStr s)"

definition sample_where :: "vvalue Expression" where
  "sample_where = Expression 0 (Operand 0 (TypExpr (comparison k_operand GreaterThan (str_operand ''a''))))
     \<lparr>opType = And, opOff = 8\<rparr> (Operand 12 (TypExpr (comparison k_operand NotEqual (str_operand ''c''))))"

definition field_where :: "vvalue Expression" where
  "field_where = comparison (Operand 7 (TypField (Field 7 [Segment 7 ''v'' [], Segment 9 ''a'' []]))) Equal (str_operand ''x'')"

lemmas sample_defs = sample_env_def k_operand_def v_operand_def comparison_def str_operand_def sample_where_def kField_def

theorem key_only_sound_witness:
  "key_result_sound (evalExprUsingOnlyKey sample_env sample_where ''b'') (Eval sample_env ''b'' None sample_where)"
  by (rule key_only_sound) code_simp


theorem index_ranges_sorted_witness:
  "\<exists>rs. collectStringFieldRanges kField sample_where = Some rs \<and> arranged gap_between rs"
  by (rule index_ranges_sorted) code_simp

text \<open>
  The restrictions are needed. \<open>k not like 'a%b'\<close> holds for the key \<open>ac\<close>, but the ranges that the checker makes of it leave
  out every key that starts with \<open>a\<close>.
\<close>

definition not_like_checked :: "vvalue Expression" where
  "not_like_checked =
     comparison k_operand NotLike (Operand 5 (TypPattern ''a%b'' ''a'' (pattern_of [Lit 97, DotStar, Lit 98])))"

theorem not_like_loses_rows:
  "checkExpression std None (comparison k_operand NotLike (str_operand ''a%b'')) = c_ok not_like_checked"
  "Eval sample_env ''ac'' v not_like_checked = Some True"
  "\<exists>rs. collectStringFieldRanges kField not_like_checked = Some rs \<and> \<not> in_ranges ''ac'' rs"
proof -
  have "ParseWithEscapeChar ''a%b'' 0 = Inr (pattern_of [Lit 97, DotStar, Lit 98])"
    by (simp add: pattern_simps all_literal_def)
  moreover have "FixedPrefix (pattern_of [Lit 97, DotStar, Lit 98]) = (''a'', False)"
    by (simp add: FixedPrefix_def pattern_simps all_literal_def) code_simp
  ultimately show "checkExpression std None (comparison k_operand NotLike (str_operand ''a%b'')) = c_ok not_like_checked"
    by (simp add: sample_defs not_like_checked_def check_field_def err_or_def check_like_def check_operands_def isLiteral_def
        parseLikePattern_def op_Str_def isStringLiteral_def)
  have "\<not> MatchString (pattern_of [Lit 97, DotStar, Lit 98]) ''ac''"
    by (simp add: MatchString_def pattern_of_def ascii_simps)
  then show "Eval sample_env ''ac'' v not_like_checked = Some True"
    by (simp add: sample_defs not_like_checked_def IsLogicalOperator_def evalComparisonOperators_def ConvertValueToAnOperand_def
        value_view_def coerceValues_def ConvertValueToString_def compare_values_def compareStrings_def op_Str_def op_Pattern_def)
  have "collectStringFieldRanges kField not_like_checked = Some [mk_range [] ''a'', mk_range ''b'' []]"
  proof -
    have "afterPrefix ''a'' = ''b''" by code_simp
    then show ?thesis
      by (simp add: not_like_checked_def sample_defs comparison_ranges_def IsExactField_def operand_field_def IsField_def
          isStringLiteral_def literal_on_right_def Let_def op_Prefix_def computeStringFieldRangesForNotLike_def)
  qed
  moreover have "\<not> in_ranges ''ac'' [mk_range [] ''a'', mk_range ''b'' []]" by code_simp
  ultimately show "\<exists>rs. collectStringFieldRanges kField not_like_checked = Some rs \<and> \<not> in_ranges ''ac'' rs" by blast
qed

text \<open>
  A comparison of the key with another field is taken for one of the key with itself: \<open>k <> v\<close> holds for a row with key \<open>a\<close> and value \<open>b\<close>, but there
  is no range for it.
\<close>

theorem field_comparison_loses_rows:
  "checkExpression std None (comparison k_operand NotEqual v_operand) = c_ok (comparison k_operand NotEqual v_operand)"
  "Eval sample_env ''a'' (Some (VvString ''b'')) (comparison k_operand NotEqual v_operand) = Some True"
  "collectStringFieldRanges kField (comparison k_operand NotEqual v_operand) = Some []"
proof -
  show "checkExpression std None (comparison k_operand NotEqual v_operand) = c_ok (comparison k_operand NotEqual v_operand)"
    by (simp add: sample_defs check_field_def err_or_def check_like_def check_operands_def isLiteral_def)
qed code_simp+


text \<open>
  The code tells fields apart by the names of their segments only. With an index on \<open>v.a\<close>, the clause \<open>v['x'].a is nil\<close> holds for
  a struct with a string in field \<open>a\<close>, but there is no range for the string.
\<close>

definition a_field :: "vvalue Field" where
  "a_field = Field 0 [Segment 0 ''v'' [], Segment 2 ''a'' []]"

definition keyed_where :: "vvalue Expression" where
  "keyed_where = comparison (Operand 0 (TypField (Field 0 [Segment 0 ''v'' [str_operand ''x''], Segment 7 ''a'' []]))) Is (Operand 5 TypNil)"

theorem keyed_field_loses_rows:
  "checkExpression std None keyed_where = c_ok keyed_where"
  "Eval sample_env ''k1'' (Some (VvStruct ''S'' [(''a'', VvString ''s'')])) keyed_where = Some True"
  "index_is sample_env ''k1'' (Some (VvStruct ''S'' [(''a'', VvString ''s'')])) a_field ''s''"
  "collectStringFieldRanges a_field keyed_where = Some []"
proof -
  show "checkExpression std None keyed_where = c_ok keyed_where"
    by (simp add: sample_defs keyed_where_def check_field_def err_or_def check_like_def check_operands_def isLiteral_def IsKey_def
        operand_field_def IsKeyField_def first_segment_def IsField_def operand_type_def)
qed code_simp+

end
