(* ===== verification/QuerySubst.thy ===== *)
theory QuerySubst
  imports QueryParser
begin

text \<open>
  The parameters of a query: what \<open>CopyAndSubstitute\<close> of query_parser.go computes. The reference is in two phases:
  convert the values one by one for the parameters of the where clause, in the order in which they stand,
  then fill them in. The code threads a cursor through one recursive copy instead.
\<close>

subsection \<open>The reference: holes and what fills them\<close>

text \<open>The offsets of the parameters that are replaced, from left to right. Those in the keys of a field are not among them.\<close>

fun operand_holes :: "'v Operand \<Rightarrow> int list"
and function_holes :: "'v Function \<Rightarrow> int list"
and args_holes :: "'v Operand list \<Rightarrow> int list"
and expr_holes :: "'v Expression \<Rightarrow> int list" where
  "operand_holes (Operand off (TypExpr e)) = expr_holes e"
| "operand_holes (Operand off (TypFunction f)) = function_holes f"
| "operand_holes (Operand off TypParameter) = [off]"
| "operand_holes _ = []"
| "function_holes (Function off name args ret) =
     args_holes args @ (case ret of None \<Rightarrow> [] | Some r \<Rightarrow> operand_holes r)"
| "args_holes [] = []"
| "args_holes (a # args) = operand_holes a @ args_holes args"
| "expr_holes (Expression off o1 op o2) = operand_holes o1 @ operand_holes o2"

text \<open>The values for some holes: the first value that is missing or does not convert decides the error.\<close>

fun convert_all :: "('v \<Rightarrow> 'v vdl_view) \<Rightarrow> int list \<Rightarrow> 'v list \<Rightarrow> q_error + 'v Operand list" where
  "convert_all view [] vs = Inr []"
| "convert_all view (off # offs) [] = Inl (NotEnoughParamValuesSpecified off)"
| "convert_all view (off # offs) (v # vs) =
     and_then (ConvertValueToAnOperand view v off) (\<lambda>op.
       and_then (convert_all view offs vs) (\<lambda>ops. Inr (op # ops)))"

fun fill_operand :: "'v Operand \<Rightarrow> 'v Operand list \<Rightarrow> 'v Operand"
and fill_function :: "'v Function \<Rightarrow> 'v Operand list \<Rightarrow> 'v Function"
and fill_args :: "'v Operand list \<Rightarrow> 'v Operand list \<Rightarrow> 'v Operand list"
and fill_expr :: "'v Expression \<Rightarrow> 'v Operand list \<Rightarrow> 'v Expression" where
  "fill_operand (Operand off (TypExpr e)) ops = Operand off (TypExpr (fill_expr e ops))"
| "fill_operand (Operand off (TypFunction f)) ops = Operand off (TypFunction (fill_function f ops))"
| "fill_operand (Operand off TypParameter) ops = hd ops"
| "fill_operand op ops = op"
| "fill_function (Function off name args ret) ops =
     Function off name (fill_args args (take (length (args_holes args)) ops))
       (case ret of None \<Rightarrow> None | Some r \<Rightarrow> Some (fill_operand r (drop (length (args_holes args)) ops)))"
| "fill_args [] ops = []"
| "fill_args (a # args) ops =
     fill_operand a (take (length (operand_holes a)) ops) # fill_args args (drop (length (operand_holes a)) ops)"
| "fill_expr (Expression off o1 op o2) ops =
     Expression off (fill_operand o1 (take (length (operand_holes o1)) ops)) op
       (fill_operand o2 (drop (length (operand_holes o1)) ops))"

subsection \<open>One pass equals two\<close>

lemma convert_all_length: "convert_all view offs vs = Inr ops \<Longrightarrow> length ops = length offs \<and> length offs \<le> length vs"
  by (induction view offs vs arbitrary: ops rule: convert_all.induct) (auto simp: and_then_Inr_iff)

lemma convert_all_append:
  "convert_all view (os @ ps) vs =
     and_then (convert_all view os vs) (\<lambda>xs.
       and_then (convert_all view ps (drop (length os) vs)) (\<lambda>ys. Inr (xs @ ys)))"
  by (induction view os vs rule: convert_all.induct) (auto simp: and_then_def split: sum.splits)

text \<open>The form of every equation: what a copy returns from what the conversions return.\<close>

definition two_phase :: "('v \<Rightarrow> 'v vdl_view) \<Rightarrow> int list \<Rightarrow> ('v Operand list \<Rightarrow> 'a) \<Rightarrow> 'v list \<Rightarrow> q_error + 'a \<times> 'v list" where
  "two_phase view offs fill vs = and_then (convert_all view offs vs) (\<lambda>ops. Inr (fill ops, drop (length offs) vs))"

lemma two_phase_Nil [simp]: "two_phase view [] fill vs = Inr (fill [], vs)"
  by (simp add: two_phase_def)

lemma two_phase_bind:
  assumes "m = two_phase view os f vs" "\<And>x vs'. m = Inr (x, vs') \<Longrightarrow> n vs' = two_phase view ps g vs'"
    and "\<And>xs ys. length xs = length os \<Longrightarrow> h (xs @ ys) = k (f xs) (g ys)"
  shows "and_then m (\<lambda>(x, vs'). and_then (n vs') (\<lambda>(y, vs''). Inr (k x y, vs''))) = two_phase view (os @ ps) h vs"
  using assms
  by (auto simp: two_phase_def convert_all_append and_then_def add.commute split: sum.splits dest: convert_all_length)

lemma two_phase_map:
  assumes "\<And>xs. length xs = length os \<Longrightarrow> h xs = k (f xs)"
  shows "and_then (two_phase view os f vs) (\<lambda>(x, vs'). Inr (k x, vs')) = two_phase view os h vs"
  using assms by (auto simp: two_phase_def and_then_def split: sum.splits dest: convert_all_length)

lemma subst_two_phase:
  "subst_operand view op vs = two_phase view (operand_holes op) (fill_operand op) vs"
  "subst_function view f vs = two_phase view (function_holes f) (fill_function f) vs"
  "subst_args view args vs = two_phase view (args_holes args) (fill_args args) vs"
  "subst_expr view e vs = two_phase view (expr_holes e) (fill_expr e) vs"
proof (induction view op vs and view f vs and view args vs and view e vs
    rule: subst_operand_subst_function_subst_args_subst_expr.induct)
  case (3 view off vs)
  then show ?case by (cases vs) (auto simp: two_phase_def and_then_def split: sum.splits)
next
  case (5 view off name args ret vs)
  show ?case
  proof (cases ret)
    case (Some r)
    then show ?thesis using 5 by (auto intro!: two_phase_bind [where k = "\<lambda>x y. Function off name x (Some y)"])
  qed (use 5 in \<open>auto intro!: two_phase_map\<close>)
next
  case (7 view a args vs)
  then show ?case by (auto intro!: two_phase_bind [where k = "\<lambda>x y. x # y"])
next
  case (8 view off o1 op o2 vs)
  then show ?case by (auto intro!: two_phase_bind [where k = "\<lambda>x y. Expression off x op y"])
qed (auto intro!: two_phase_map)

lemma converted_not_parameter: "ConvertValueToAnOperand view v off = Inr op \<Longrightarrow> operand_holes op = []"
  by (auto simp: ConvertValueToAnOperand_def split: vdl_view.splits option.splits)

lemma convert_all_no_holes: "convert_all view offs vs = Inr ops \<Longrightarrow> op \<in> set ops \<Longrightarrow> operand_holes op = []"
  by (induction view offs vs arbitrary: ops rule: convert_all.induct)
    (auto simp: and_then_Inr_iff dest: converted_not_parameter)

lemma list_all_take_drop [simp]:
  "list_all P xs \<Longrightarrow> list_all P (take n xs)"
  "list_all P xs \<Longrightarrow> list_all P (drop n xs)"
  by (auto simp: list_all_iff dest: in_set_takeD in_set_dropD)

abbreviation closed :: "'v Operand list \<Rightarrow> bool" where
  "closed \<equiv> list_all (\<lambda>op. operand_holes op = [])"

lemma filled_no_holes:
  "length ops = length (operand_holes op) \<Longrightarrow> closed ops \<Longrightarrow> operand_holes (fill_operand op ops) = []"
  "length ops = length (function_holes f) \<Longrightarrow> closed ops \<Longrightarrow> function_holes (fill_function f ops) = []"
  "length ops = length (args_holes args) \<Longrightarrow> closed ops \<Longrightarrow> args_holes (fill_args args ops) = []"
  "length ops = length (expr_holes e) \<Longrightarrow> closed ops \<Longrightarrow> expr_holes (fill_expr e ops) = []"
proof (induction op ops and f ops and args ops and e ops
    rule: fill_operand_fill_function_fill_args_fill_expr.induct)
  case (3 off ops)
  then show ?case by (cases ops) auto
next
  case (5 off name args ret ops)
  then show ?case by (cases ret) simp_all
qed simp_all

lemma filled_nothing:
  "operand_holes op = [] \<Longrightarrow> fill_operand op ops = op"
  "function_holes f = [] \<Longrightarrow> fill_function f ops = f"
  "args_holes args = [] \<Longrightarrow> fill_args args ops = args"
  "expr_holes e = [] \<Longrightarrow> fill_expr e ops = e"
proof (induction op ops and f ops and args ops and e ops
    rule: fill_operand_fill_function_fill_args_fill_expr.induct)
  case (5 off name args ret ops)
  then show ?case by (cases ret) simp_all
qed simp_all

subsection \<open>Statements\<close>

definition st_where :: "'v Statement \<Rightarrow> 'v WhereClause option" where
  "st_where st = (case st of SelectSt s \<Rightarrow> stWhere s | DeleteSt s \<Rightarrow> delWhere s)"

definition st_off :: "'v Statement \<Rightarrow> int" where
  "st_off st = (case st of SelectSt s \<Rightarrow> selStOff s | DeleteSt s \<Rightarrow> delOff s)"

definition with_where :: "'v WhereClause \<Rightarrow> 'v Statement \<Rightarrow> 'v Statement" where
  "with_where w st =
     (case st of SelectSt s \<Rightarrow> SelectSt (s\<lparr>stWhere := Some w\<rparr>) | DeleteSt s \<Rightarrow> DeleteSt (s\<lparr>delWhere := Some w\<rparr>))"

definition st_holes :: "'v Statement \<Rightarrow> int list" where
  "st_holes st = (case st_where st of None \<Rightarrow> [] | Some w \<Rightarrow> expr_holes (whereExpr w))"

lemma st_where_with_where [simp]: "st_where (with_where w st) = Some w"
  by (simp add: st_where_def with_where_def split: Statement.split)

lemma where_CopyAndSubstitute_eq:
  "where_CopyAndSubstitute view w vs =
     and_then (convert_all view (expr_holes (whereExpr w)) vs) (\<lambda>ops.
       if length (expr_holes (whereExpr w)) < length vs then Inl (TooManyParamValuesSpecified (whereOff w))
       else Inr (w\<lparr>whereExpr := fill_expr (whereExpr w) ops\<rparr>))"
  by (auto simp: where_CopyAndSubstitute_def subst_two_phase two_phase_def and_then_def split: sum.split)

lemma CopyAndSubstitute_eq:
  "CopyAndSubstitute view st vs =
     (case st_where st of
        None \<Rightarrow> if vs = [] then Inr st else Inl (TooManyParamValuesSpecified (st_off st))
      | Some w \<Rightarrow> and_then (where_CopyAndSubstitute view w vs) (\<lambda>w'. Inr (with_where w' st)))"
  by (auto simp: CopyAndSubstitute_def select_CopyAndSubstitute_def delete_CopyAndSubstitute_def st_where_def st_off_def
      with_where_def and_then_def split: Statement.split option.split sum.split)

lemma convert_all_succeeds:
  "(\<exists>ops. convert_all view offs vs = Inr ops) \<longleftrightarrow>
   length offs \<le> length vs \<and>
   list_all2 (\<lambda>v off. \<not> isl (ConvertValueToAnOperand view v off)) (take (length offs) vs) offs"
proof (induction view offs vs rule: convert_all.induct)
  case (3 view off offs v vs)
  then show ?case
    by (cases "ConvertValueToAnOperand view v off") (auto simp: and_then_Inr_iff)
qed auto


text \<open>The tokens of \<open>select k from t where v[?] = 1\<close>, and its tree.\<close>

definition ident :: "string \<Rightarrow> int \<Rightarrow> raw_token" where
  "ident w off = \<lparr>raw_class = SIdent, raw_text = w, raw_off = off, raw_err = False\<rparr>"

definition rune :: "char \<Rightarrow> int \<Rightarrow> raw_token" where
  "rune c off = \<lparr>raw_class = SRune c, raw_text = [c], raw_off = off, raw_err = False\<rparr>"

definition key_query :: scanner where
  "key_query = \<lparr>sc_toks = [ident ''select'' 0, ident ''k'' 7, ident ''from'' 9, ident ''t'' 14, ident ''where'' 16,
     ident ''v'' 22, rune CHR ''['' 23, rune CHR ''?'' 24, rune CHR '']'' 25, rune CHR ''='' 27,
     \<lparr>raw_class = SInt, raw_text = ''1'', raw_off = 29, raw_err = False\<rparr>], sc_eof = (30, False)\<rparr>"

definition key_expr :: "nat Expression" where
  "key_expr = Expression 22 (Operand 22 (TypField (Field 22 [Segment 22 ''v'' [Operand 24 TypParameter]])))
     \<lparr>opType = Equal, opOff = 27\<rparr> (Operand 29 (TypInt 1))"

definition key_statement :: "nat Statement" where
  "key_statement = SelectSt \<lparr>selStOff = 0,
     stSelect = \<lparr>scOff = 0, Selectors = [\<lparr>selOff = 7, selBody = TypSelField (Field 7 [Segment 7 ''k'' []]), selAs = None\<rparr>]\<rparr>,
     stFrom = \<lparr>fromOff = 9, tableOff = 14, tableName = ''t''\<rparr>,
     stWhere = Some \<lparr>whereOff = 16, whereExpr = key_expr\<rparr>, stEscape = None, stLimit = None, stResultsOffset = None\<rparr>"

text \<open>
  A parameter in the key of a field is no parameter to the substitution: \<open>where v[?] = 1\<close> parses, but a value
  for its parameter is one too many, and without values the statement is returned with the parameter in it.
\<close>

theorem key_parameters_ignored:
  "Parse pf 30 key_query = Some (Inr key_statement) \<and>
   CopyAndSubstitute view key_statement [v] = Inl (TooManyParamValuesSpecified 16) \<and>
   CopyAndSubstitute view key_statement [] = Inr key_statement"
proof (intro conjI)
  show "CopyAndSubstitute view key_statement [v] = Inl (TooManyParamValuesSpecified 16)"
    by (simp add: CopyAndSubstitute_eq where_CopyAndSubstitute_eq key_statement_def key_expr_def st_where_def)
  show "CopyAndSubstitute view key_statement [] = Inr key_statement"
    by (simp add: CopyAndSubstitute_eq where_CopyAndSubstitute_eq key_statement_def key_expr_def st_where_def with_where_def)
  have short: "\<not> MaxStatementLen < 30" by (simp add: MaxStatementLen_def)
  show "Parse pf 30 key_query = Some (Inr key_statement)"
    unfolding Parse_def if_not_P [OF short] by code_simp
qed

end
