(* ===== verification/QueryTyped.thy ===== *)
theory QueryTyped
  imports QuerySound QuerySubst
begin

text \<open>
  A type discipline for the trees of query_parser.go, which are untagged records in the code: the parser makes only
  well-typed trees, the substitution and the checker keep them so, and what is well-typed and checked evaluates without a panic.
\<close>

subsection \<open>Well-typed trees\<close>

text \<open>
  An operand of a comparison or a function is no expression, a field has a segment, and no function has been computed.
\<close>

fun wf_operand :: "'v Operand \<Rightarrow> bool"
and wf_field :: "'v Field \<Rightarrow> bool"
and wf_function :: "'v Function \<Rightarrow> bool"
and wf_segment :: "'v Segment \<Rightarrow> bool" where
  "wf_operand (Operand off b) =
     (case b of TypField f \<Rightarrow> wf_field f | TypFunction f \<Rightarrow> wf_function f | TypExpr e \<Rightarrow> False | _ \<Rightarrow> True)"
| "wf_field (Field off segs) \<longleftrightarrow> segs \<noteq> [] \<and> list_all wf_segment segs"
| "wf_function (Function off name args ret) \<longleftrightarrow> list_all wf_operand args \<and> ret = None"
| "wf_segment (Segment off name keys) \<longleftrightarrow> list_all wf_operand keys"

text \<open>Logical operators join expressions, the other operators compare operands.\<close>

definition wf_comparison :: "'v Operand \<Rightarrow> BinaryOperatorType \<Rightarrow> 'v Operand \<Rightarrow> bool" where
  "wf_comparison o1 ty o2 \<longleftrightarrow> wf_operand o1 \<and> wf_operand o2"

abbreviation wf_expr :: "'v Expression \<Rightarrow> bool" where
  "wf_expr \<equiv> holds_all wf_comparison"

definition wf_where :: "'v WhereClause option \<Rightarrow> bool" where
  "wf_where wh \<longleftrightarrow> (case wh of None \<Rightarrow> True | Some w \<Rightarrow> wf_expr (whereExpr w))"

definition wf_selector :: "'v Selector \<Rightarrow> bool" where
  "wf_selector s \<longleftrightarrow> (case selBody s of TypSelField f \<Rightarrow> wf_field f | TypSelFunc f \<Rightarrow> wf_function f)"

definition wf_statement :: "'v Statement \<Rightarrow> bool" where
  "wf_statement st \<longleftrightarrow> wf_where (st_where st) \<and>
     (case st of SelectSt s \<Rightarrow> list_all wf_selector (Selectors (stSelect s)) | DeleteSt s \<Rightarrow> True)"

subsection \<open>What a parser returns\<close>

definition yields :: "('a \<Rightarrow> bool) \<Rightarrow> 'a parsed \<Rightarrow> bool" where
  "yields P m \<longleftrightarrow> (case m of Some (Inr (x, _, _)) \<Rightarrow> P x | _ \<Rightarrow> True)"

named_theorems yields_intro \<open>rules for \<open>yields\<close>\<close>

lemma yields_fail [simp]: "yields P (fail e)"
  by (simp add: yields_def fail_def)

lemma yields_None [simp]: "yields P None"
  by (simp add: yields_def)

lemma yields_done [simp]: "yields P (done_with x token s) \<longleftrightarrow> P x" "yields P (done_next x s) \<longleftrightarrow> P x"
  by (simp_all add: yields_def done_with_def done_next_def split: prod.split)

lemma yields_bind [yields_intro]:
  "yields P m \<Longrightarrow> (\<And>x token s. P x \<Longrightarrow> yields Q (f x token s)) \<Longrightarrow> yields Q (p_bind m f)"
  by (fastforce simp: yields_def p_bind_def split: option.splits sum.splits)

lemma yields_scan [yields_intro]:
  "(\<And>token s1. yields P (f token s1)) \<Longrightarrow> yields P (case scanToken s of (token, s1) \<Rightarrow> f token s1)"
  by (auto split: prod.split)

lemma yields_mono: "yields P m \<Longrightarrow> (\<And>x. P x \<Longrightarrow> Q x) \<Longrightarrow> yields Q m"
  by (auto simp: yields_def split: option.splits sum.splits)

lemma yields_if [yields_intro]: "(b \<Longrightarrow> yields P m) \<Longrightarrow> (\<not> b \<Longrightarrow> yields P n) \<Longrightarrow> yields P (if b then m else n)"
  by simp

text \<open>The loops, for a parser of well-typed operands.\<close>

locale typed_operand =
  fixes po :: "'v operand_parser"
  assumes po: "yields wf_operand (po s token)"
begin

lemma keys_loop: "list_all wf_operand keys \<Longrightarrow> yields (list_all wf_operand) (keys_loop po n keys s token)"
  by (induction n arbitrary: keys s token) (auto intro!: yields_scan yields_bind [OF po])

lemma parseSegment: "yields wf_segment (parseSegment po n s token)"
  unfolding parseSegment_def by (intro yields_scan yields_bind [OF keys_loop]) simp_all

lemma segments_loop:
  "segs \<noteq> [] \<Longrightarrow> list_all wf_segment segs \<Longrightarrow> yields (\<lambda>segs. segs \<noteq> [] \<and> list_all wf_segment segs) (segments_loop po n segs s token)"
  by (induction n arbitrary: segs s token) (auto intro!: yields_scan yields_bind [OF parseSegment])

lemma args_loop: "list_all wf_operand args \<Longrightarrow> yields (list_all wf_operand) (args_loop po n args s token)"
  by (induction n arbitrary: args s token) (auto intro!: yields_scan yields_bind [OF po] yields_if)

lemma parseFunction: "yields wf_function (parseFunction po n name off s)"
  unfolding parseFunction_def by (intro yields_scan yields_bind [OF args_loop]) simp_all

end

lemma yields_literal: "yields wf_operand (parse_literal pf s token)"
  by (auto simp: parse_literal_def parse_number_def Let_def split: TokenType.split option.split prod.split)

lemma parseOperand_typed: "typed_operand (parseOperand pf n)"
proof (induction n)
  case (Suc n)
  note po = typed_operand.parseSegment [OF Suc] typed_operand.parseFunction [OF Suc] typed_operand.segments_loop [OF Suc]
  show ?case
    by unfold_locales
      (auto intro!: yields_if yields_literal yields_bind [OF po(1)] yields_bind [OF po(2)] yields_bind [OF po(3)])
qed (simp add: typed_operand_def)

interpretation operands: typed_operand "parseOperand pf n" for pf n
  by (rule parseOperand_typed)

subsection \<open>The parser makes well-typed statements\<close>

definition is_comparison :: "BinaryOperator \<Rightarrow> bool" where
  "is_comparison op \<longleftrightarrow> \<not> IsLogicalOperator op"

lemma yields_operator: "yields is_comparison (parseBinaryOperator s token)"
  unfolding parseBinaryOperator_def Let_def
  by (auto simp: is_comparison_def IsLogicalOperator_def split: TokenType.split intro!: yields_scan)

lemma yields_logical: "yields IsLogicalOperator (parseLogicalOperator s token)"
  by (simp add: parseLogicalOperator_def Let_def IsLogicalOperator_def)

lemma parseLikeEqualExpression_typed: "yields wf_expr (parseLikeEqualExpression pf n s token)"
  unfolding parseLikeEqualExpression_def
  by (intro yields_bind [OF operands.po] yields_bind [OF yields_operator] yields_if yields_fail)
    (simp add: is_comparison_def holds_comparison wf_comparison_def)

lemma parse_term_typed:
  assumes "\<And>s token. yields wf_expr (pe s token)"
  shows "yields wf_expr (parse_term pf pe n s token)"
  unfolding parse_term_def parseParenthesizedExpression_def
  by (intro yields_if yields_scan yields_bind [OF assms] parseLikeEqualExpression_typed) simp_all

lemma logical_loop_typed:
  assumes "\<And>s token. yields (wf_expr :: 'v Expression \<Rightarrow> bool) (pe s token)"
  shows "wf_expr e \<Longrightarrow> yields wf_expr (logical_loop pf pe n e s token)"
proof (induction n arbitrary: e s token)
  case (Suc n)
  show ?case
    unfolding logical_loop.simps
  proof (intro yields_if yields_bind [OF yields_logical] yields_bind [OF parse_term_typed [OF assms]] Suc.IH)
    fix op and e2 :: "'v Expression"
    assume "IsLogicalOperator op" "wf_expr e2"
    then show "wf_expr (Expression (exprOff e) (Operand (exprOff e) (TypExpr e)) op (Operand (exprOff e2) (TypExpr e2)))"
      using Suc.prems by simp
  qed (use Suc.prems in simp_all)
qed simp

lemma parseExpression_typed: "yields wf_expr (parseExpression pf n s token)"
proof (induction n arbitrary: s token)
  case (Suc n)
  show ?case
    unfolding parseExpression.simps
    by (intro yields_if yields_fail yields_bind [OF parse_term_typed [OF Suc]] logical_loop_typed Suc)
qed simp

lemma parseSelector_typed: "yields wf_selector (parseSelector pf n s token)"
proof -
  have body: "yields (\<lambda>b. case b of TypSelField f \<Rightarrow> wf_field f | TypSelFunc f \<Rightarrow> wf_function f)
      (if Tok token1 = TokLEFTPAREN then
         (if length (segKeys segment) \<noteq> 0 then fail (Unexpected (tokOff token1) (tokValue token1))
          else p_bind (parseFunction (parseOperand pf n) n (segValue segment) (segOff segment) s1)
                 (\<lambda>f token2 s2. done_with (TypSelFunc f) token2 s2))
       else p_bind (segments_loop (parseOperand pf n) n [segment] s1 token1)
              (\<lambda>segments token2 s2. done_with (TypSelField (Field (tokOff token) segments)) token2 s2))"
    if "wf_segment segment" for segment :: "'a Segment" and token1 s1
    using that by (auto intro!: yields_bind [OF operands.parseFunction] yields_bind [OF operands.segments_loop])
  show ?thesis
    unfolding parseSelector_def
    by (intro yields_if yields_fail yields_bind [OF operands.parseSegment] yields_bind [OF body] yields_scan)
      (simp_all add: wf_selector_def)
qed

lemma selectors_loop_typed:
  "list_all wf_selector sels \<Longrightarrow> yields (list_all wf_selector) (selectors_loop pf n sels s token)"
proof (induction n arbitrary: sels s token)
  case (Suc n)
  then show ?case
    unfolding selectors_loop.simps
    by (intro yields_if yields_scan yields_bind [OF parseSelector_typed] Suc.IH) simp_all
qed simp

lemma parseSelectClause_typed: "yields (\<lambda>c. list_all wf_selector (Selectors c)) (parseSelectClause pf n s token)"
  unfolding parseSelectClause_def
  by (intro yields_if yields_scan yields_fail yields_bind [OF parseSelector_typed] yields_bind [OF selectors_loop_typed]) simp_all

lemma parseWhereClause_typed: "yields wf_where (parseWhereClause pf n s token)"
  unfolding parseWhereClause_def
  by (intro yields_if yields_scan yields_bind [OF parseExpression_typed]) (simp_all add: wf_where_def)

lemma yields_any: "yields (\<lambda>_. True) m"
  by (auto simp: yields_def split: option.splits sum.splits)

lemma selectStatement_typed: "yields (\<lambda>s. wf_statement (SelectSt s)) (selectStatement pf n s token)"
  unfolding selectStatement_def
  by (intro yields_bind [OF parseSelectClause_typed] yields_bind [OF yields_any] yields_bind [OF parseWhereClause_typed])
    (auto simp: wf_statement_def st_where_def)

lemma deleteStatement_typed: "yields (\<lambda>s. wf_statement (DeleteSt s)) (deleteStatement pf n s token)"
  unfolding deleteStatement_def
  by (intro yields_scan yields_if yields_fail yields_bind [OF yields_any] yields_bind [OF parseWhereClause_typed])
    (auto simp: wf_statement_def st_where_def)

definition on_success :: "('a \<Rightarrow> bool) \<Rightarrow> ('e + 'a) option \<Rightarrow> bool" where
  "on_success P r \<longleftrightarrow> (case r of Some (Inr x) \<Rightarrow> P x | _ \<Rightarrow> True)"

lemma on_success_simps [simp]: "on_success P None" "on_success P (Some (Inl e))" "on_success P (Some (Inr x)) = P x"
  by (simp_all add: on_success_def)

lemma yields_map:
  assumes "yields (\<lambda>x. Q (f x)) m"
  shows "on_success Q (map_option (map_sum id (\<lambda>(st, _, _). f st)) m)"
proof (cases m)
  case (Some r)
  then show ?thesis using assms by (cases r) (auto simp: yields_def)
qed simp

text \<open>C28: 
  Every statement that \<open>Parse\<close> returns is well-typed: AND and OR join expressions and nothing else, comparisons and functions have
  operands that are no expressions, and every field has a segment.
\<close>

theorem Parse_typed: "on_success wf_statement (Parse pf len s)"
  by (simp add: Parse_def yields_map [of wf_statement SelectSt, OF selectStatement_typed]
      yields_map [of wf_statement DeleteSt, OF deleteStatement_typed] split: prod.split)

subsection \<open>Substitution keeps types\<close>

text \<open>An operand of any operator: an expression, or an operand of a comparison.\<close>

definition wf_sub :: "'v Operand \<Rightarrow> bool" where
  "wf_sub o1 \<longleftrightarrow> (case operandBody o1 of TypExpr e \<Rightarrow> wf_expr e | _ \<Rightarrow> wf_operand o1)"

lemma wf_sub_simps [simp]:
  "wf_sub (Operand off (TypExpr e)) = wf_expr e"
  "\<not> IsExpr (Operand off b) \<Longrightarrow> wf_sub (Operand off b) = wf_operand (Operand off b)"
  by (auto simp: wf_sub_def IsExpr_def split: body.split)

lemma wf_operand_sub: "wf_operand o1 \<longleftrightarrow> wf_sub o1 \<and> \<not> IsExpr o1"
  by (cases o1; cases "operandBody o1") (auto simp: wf_sub_def IsExpr_def)

lemma IsExpr_iff: "IsExpr o1 \<longleftrightarrow> (\<exists>p e. o1 = Operand p (TypExpr e))"
  by (cases o1; cases "operandBody o1") (auto simp: IsExpr_def)

lemma wf_expr_sub:
  "wf_expr (Expression off o1 op o2) \<longleftrightarrow>
     wf_sub o1 \<and> wf_sub o2 \<and> IsExpr o1 = IsLogicalOperator op \<and> IsExpr o2 = IsLogicalOperator op"
proof (cases "IsLogicalOperator op")
  case True
  show ?thesis
  proof (cases "IsExpr o1 \<and> IsExpr o2")
    case True
    then obtain p1 e1 p2 e2 where "o1 = Operand p1 (TypExpr e1)" "o2 = Operand p2 (TypExpr e2)" by (auto simp: IsExpr_iff)
    then show ?thesis using \<open>IsLogicalOperator op\<close> by (simp add: IsExpr_def)
  next
    case False
    then show ?thesis using \<open>IsLogicalOperator op\<close>
      by (cases o1; cases o2) (auto simp: IsExpr_iff split: body.split)
  qed
next
  case False
  then show ?thesis by (auto simp: holds_comparison wf_comparison_def wf_operand_sub)
qed

abbreviation literals :: "'v Operand list \<Rightarrow> bool" where
  "literals \<equiv> list_all (\<lambda>o1. wf_operand o1)"

lemma fill_IsExpr: "literals ops \<Longrightarrow> length ops = length (operand_holes o1) \<Longrightarrow> IsExpr (fill_operand o1 ops) = IsExpr o1"
  by (cases o1; cases "operandBody o1") (auto simp: IsExpr_def wf_operand_sub length_Suc_conv)

lemma fill_typed:
  "length ops = length (operand_holes op) \<Longrightarrow> literals ops \<Longrightarrow> wf_sub op \<Longrightarrow> wf_sub (fill_operand op ops)"
  "length ops = length (function_holes f) \<Longrightarrow> literals ops \<Longrightarrow> wf_function f \<Longrightarrow> wf_function (fill_function f ops)"
  "length ops = length (args_holes args) \<Longrightarrow> literals ops \<Longrightarrow> list_all wf_operand args \<Longrightarrow> list_all wf_operand (fill_args args ops)"
  "length ops = length (expr_holes e) \<Longrightarrow> literals ops \<Longrightarrow> wf_expr e \<Longrightarrow> wf_expr (fill_expr e ops)"
proof (induction op ops and f ops and args ops and e ops
    rule: fill_operand_fill_function_fill_args_fill_expr.induct)
  case (3 off ops)
  then show ?case by (cases ops) (auto simp: wf_operand_sub)
next
  case (7 a args ops)
  then show ?case by (auto simp: wf_operand_sub fill_IsExpr)
next
  case (8 off o1 op o2 ops)
  then show ?case unfolding fill_expr.simps wf_expr_sub by (auto simp: fill_IsExpr)
qed (auto simp: IsExpr_def)

lemma converted_literal: "ConvertValueToAnOperand view v off = Inr op \<Longrightarrow> wf_operand op"
  by (auto simp: ConvertValueToAnOperand_def split: vdl_view.splits option.splits)

lemma convert_all_literals: "convert_all view offs vs = Inr ops \<Longrightarrow> literals ops"
  by (induction view offs vs arbitrary: ops rule: convert_all.induct) (auto simp: and_then_Inr_iff dest: converted_literal)

lemma CopyAndSubstitute_typed:
  assumes "CopyAndSubstitute view st vs = Inr st'" "wf_statement st"
  shows "wf_statement st'"
proof (cases "st_where st")
  case None
  then show ?thesis using assms by (auto simp: CopyAndSubstitute_eq split: if_splits)
next
  case (Some w)
  then obtain ops where ops: "convert_all view (expr_holes (whereExpr w)) vs = Inr ops"
      and st': "st' = with_where (w\<lparr>whereExpr := fill_expr (whereExpr w) ops\<rparr>) st"
    using assms(1) by (auto simp: CopyAndSubstitute_eq where_CopyAndSubstitute_eq and_then_Inr_iff split: if_splits)
  have "wf_expr (fill_expr (whereExpr w) ops)"
    using assms(2) Some convert_all_length [OF ops] convert_all_literals [OF ops]
    by (intro fill_typed(4)) (simp_all add: wf_statement_def wf_where_def)
  then show ?thesis using assms(2) by (auto simp: st' wf_statement_def wf_where_def with_where_def st_where_def split: Statement.splits)
qed

subsection \<open>Checked trees do not panic\<close>

text \<open>
  A call of a function in the table with enough arguments; \<open>StrRepeat\<close> can make a string that is too long, and is left out.
\<close>

definition callable :: "'v go_std \<Rightarrow> 'v Function \<Rightarrow> bool" where
  "callable std f \<longleftrightarrow>
     funcName f \<noteq> ''StrRepeat'' \<and>
     (case map_of (function_table std) (funcName f) of
        None \<Rightarrow> False
      | Some entry \<Rightarrow> length (argTypes entry) \<le> length (funcArgs f))"

fun safe_operand :: "'v go_std \<Rightarrow> 'v Operand \<Rightarrow> bool"
and safe_segment :: "'v go_std \<Rightarrow> 'v Segment \<Rightarrow> bool" where
  "safe_operand std (Operand off b) =
     (case b of
        TypField (Field foff segs) \<Rightarrow> segs \<noteq> [] \<and> list_all (safe_segment std) segs
      | TypFunction (Function foff name args ret) \<Rightarrow>
          callable std (Function foff name args ret) \<and> list_all (safe_operand std) args
      | TypExpr e \<Rightarrow> False
      | _ \<Rightarrow> True)"
| "safe_segment std (Segment off name keys) \<longleftrightarrow> list_all (safe_operand std) keys"

definition safe_comparison :: "'v go_std \<Rightarrow> 'v Operand \<Rightarrow> BinaryOperatorType \<Rightarrow> 'v Operand \<Rightarrow> bool" where
  "safe_comparison std o1 ty o2 \<longleftrightarrow>
     safe_operand std o1 \<and> safe_operand std o2 \<and> (ty \<in> {Like, NotLike} \<longrightarrow> op_Pattern o2 \<noteq> None)"

lemma callable_exec: "callable std (Function foff name args ret) \<Longrightarrow> length xs = length args \<Longrightarrow>
  ExecFunction std (Function foff name args ret) xs \<noteq> None"
  using ExecFunction_outcome [of std "Function foff name args ret" _ xs]
  by (auto simp: callable_def f_outcome_def lookup_Inr split: option.splits)

lemma resolveArgs_length: "resolveArgs env k v args = Some (Some xs) \<Longrightarrow> length xs = length args"
  by (induction args arbitrary: xs) (auto split: option.splits)

lemma resolve_safe:
  "safe_operand (env_std env) op \<Longrightarrow> resolveOperand env k (Some x) op \<noteq> None"
  "list_all (safe_operand (env_std env)) args \<Longrightarrow> resolveArgs env k (Some x) args \<noteq> None"
  "fieldSegments f \<noteq> [] \<Longrightarrow> list_all (safe_segment (env_std env)) (fieldSegments f) \<Longrightarrow> ResolveField env k (Some x) f \<noteq> None"
  "list_all (safe_segment (env_std env)) segs \<Longrightarrow> resolveSegments env k (Some x) segs object \<noteq> None"
  "list_all (safe_operand (env_std env)) keys \<Longrightarrow> resolveWithKey env k (Some x) keys object \<noteq> None"
proof (induction env k "Some x" op and env k "Some x" args and env k "Some x" f and env k "Some x" segs object
    and env k "Some x" keys object
    rule: resolveOperand_resolveArgs_ResolveField_resolveSegments_resolveWithKey.induct)
  case (1 env k off b)
  show ?case
  proof (cases b)
    case (TypFunction f)
    then obtain foff name args ret where f: "f = Function foff name args ret" by (cases f)
    have "list_all (safe_operand (env_std env)) args" "callable (env_std env) (Function foff name args ret)"
      using 1(3) by (simp_all add: TypFunction f)
    then show ?thesis using 1(2) [OF TypFunction f] callable_exec resolveArgs_length
      by (fastforce simp: TypFunction f split: option.splits sum.splits)
  next
    case (TypField c)
    then obtain foff segs where "c = Field foff segs" by (cases c)
    then show ?thesis using 1(1) [OF TypField] 1(3) by (auto simp: TypField split: option.splits sum.splits)
  qed (use 1(3) in simp_all)
next
  case (5 env k off soff name keys segs)
  then have "list_all (safe_operand (env_std env)) keys" "list_all (safe_segment (env_std env)) segs" by simp_all
  then show ?case using 5(1) [OF _ refl] 5(2) [OF _ refl] by (cases "name = ''k''") (auto split: option.splits)
qed (auto split: option.splits)

lemma coerce_pattern: "coerceValues l r = Inr (l', r') \<Longrightarrow> op_Pattern r = Some p \<Longrightarrow> r' = r"
  by (auto simp: coerceValues_def Let_def op_Pattern_def operand_type_def ConvertValueToString_def and_then_Inr_iff
      split: body.splits if_splits)

lemma compareStrings_defined: "ty \<in> {Like, NotLike} \<longrightarrow> op_Pattern r \<noteq> None \<Longrightarrow> compareStrings l r ty \<noteq> None"
  by (cases ty) (simp_all add: compareStrings_def Let_def)

lemma compare_values_defined:
  "ty \<in> {Like, NotLike} \<longrightarrow> op_Pattern r \<noteq> None \<Longrightarrow> compare_values env l r ty \<noteq> None"
proof -
  have "compare_values env l r ty = None \<Longrightarrow> compareStrings l r ty = None"
    by (auto simp: compare_values_def split: body.splits if_splits)
  then show "ty \<in> {Like, NotLike} \<longrightarrow> op_Pattern r \<noteq> None \<Longrightarrow> compare_values env l r ty \<noteq> None"
    using compareStrings_defined [of ty r l] by blast
qed

lemma pattern_resolves: "op_Pattern o1 = Some p \<Longrightarrow> resolveOperand env k v o1 = Some (Some o1)"
  by (cases o1) (simp add: op_Pattern_def split: body.splits)

lemma comparison_defined:
  assumes "safe_comparison (env_std env) o1 ty o2"
  shows "evalComparisonOperators env k (Some x) o1 ty o2 \<noteq> None"
proof -
  obtain l where l: "resolveOperand env k (Some x) o1 = Some l"
    using assms resolve_safe(1) [of env o1 k x] by (auto simp: safe_comparison_def)
  obtain r where r: "resolveOperand env k (Some x) o2 = Some r"
    using assms resolve_safe(1) [of env o2 k x] by (auto simp: safe_comparison_def)
  have "compare_values env l'' r'' ty \<noteq> None" if "l = Some l'" "r = Some r'" "coerceValues l' r' = Inr (l'', r'')" for l' r' l'' r''
  proof (rule compare_values_defined, rule impI)
    assume "ty \<in> {Like, NotLike}"
    then obtain p where p: "op_Pattern o2 = Some p" using assms by (auto simp: safe_comparison_def)
    then have "r' = o2" using pattern_resolves [OF p, of env k "Some x"] r that(2) by simp
    then show "op_Pattern r'' \<noteq> None" using coerce_pattern [OF that(3)] p by simp
  qed
  then show ?thesis using l r by (auto simp: evalComparisonOperators_def split: option.splits sum.splits)
qed

lemma Eval_defined:
  assumes "holds_all (safe_comparison (env_std env)) e"
  shows "Eval env k (Some x) e \<noteq> None"
  using assms
proof (induction rule: holds_all_induct)
  case (comparison off o1 op o2)
  then show ?case using comparison_defined [OF comparison(2)] by (simp add: Expression_simps [OF comparison(1)])
next
  case (logical off p1 e1 op p2 e2)
  then show ?case by (auto simp: IsLogicalOperator_def)
qed

subsection \<open>The checker establishes what evaluation needs\<close>

text \<open>
  What the checker does not look at, and the condition on a parsed tree under which that does no harm: the keys of a field are no
  functions, and no function is \<open>StrRepeat\<close>.
\<close>

fun plain_operand :: "'v Operand \<Rightarrow> bool"
and plain_segment :: "'v Segment \<Rightarrow> bool" where
  "plain_operand (Operand off b) =
     (case b of
        TypField (Field foff segs) \<Rightarrow> segs \<noteq> [] \<and> list_all plain_segment segs
      | TypFunction f \<Rightarrow> False
      | TypExpr e \<Rightarrow> False
      | _ \<Rightarrow> True)"
| "plain_segment (Segment off name keys) \<longleftrightarrow> list_all plain_operand keys"

fun benign :: "'v Operand \<Rightarrow> bool" where
  "benign (Operand off b) =
     (case b of
        TypField (Field foff segs) \<Rightarrow> segs \<noteq> [] \<and> list_all plain_segment segs
      | TypFunction (Function foff name args ret) \<Rightarrow> name \<noteq> ''StrRepeat'' \<and> ret = None \<and> list_all benign args
      | TypExpr e \<Rightarrow> False
      | _ \<Rightarrow> True)"

definition benign_comparison :: "'v Operand \<Rightarrow> BinaryOperatorType \<Rightarrow> 'v Operand \<Rightarrow> bool" where
  "benign_comparison o1 ty o2 \<longleftrightarrow> benign o1 \<and> benign o2"

lemma plain_safe:
  "plain_operand o1 \<Longrightarrow> safe_operand std o1"
  "plain_segment sg \<Longrightarrow> safe_segment std sg"
proof (induction o1 and sg rule: plain_operand_plain_segment.induct)
  case (1 off b)
  then show ?case by (cases b) (auto simp: list_all_iff split: Field.splits)
next
  case (2 off name keys)
  then show ?case by (auto simp: list_all_iff)
qed

definition good_operand :: "'v go_std \<Rightarrow> 'v Operand \<Rightarrow> bool" where
  "good_operand std o1 \<longleftrightarrow> safe_operand std o1 \<and> known_field o1 \<and> \<not> IsExpr o1"

lemma table_return_types:
  "list_all (\<lambda>(name, entry). returnType entry \<in> {OTime, OInt, OFloat, OStr, OObject, OBool}) (function_table std)"
  by (simp add: function_table_def time_functions_def string_functions_def math_functions_def Let_def)

lemma value_good: "operand_type o1 \<in> {OTime, OInt, OFloat, OStr, OObject, OBool} \<Longrightarrow> good_operand std o1"
  by (cases o1; cases "operandBody o1")
    (auto simp: good_operand_def known_field_def operand_field_def IsExpr_def)

text \<open>The outcome of a check: no panic, and a result with a property.\<close>

definition checks_to :: "('a \<Rightarrow> bool) \<Rightarrow> 'a checked \<Rightarrow> bool" where
  "checks_to P m \<longleftrightarrow> (case m of None \<Rightarrow> False | Some (Inl e) \<Rightarrow> True | Some (Inr x) \<Rightarrow> P x)"

lemma checks_to_simps [simp]: "\<not> checks_to P None" "checks_to P (c_err e)" "checks_to P (c_ok x) = P x" "checks_to P (err_or err x) \<longleftrightarrow> err \<noteq> None \<or> P x"
  by (simp_all add: checks_to_def err_or_def split: option.split)

lemma checks_to_bind: "checks_to P m \<Longrightarrow> (\<And>x. P x \<Longrightarrow> m = c_ok x \<Longrightarrow> checks_to Q (f x)) \<Longrightarrow> checks_to Q (c_bind m f)"
  by (fastforce simp: checks_to_def c_bind_def split: option.splits sum.splits)

lemma check_fn_checks:
  assumes "funcName f \<noteq> ''StrRepeat''" "funcRet f = None"
  shows "checks_to (\<lambda>f'. case funcRet f' of Some r \<Rightarrow> good_operand std r | None \<Rightarrow> f' = f \<and> callable std f) (check_fn std f)"
proof -
  note sound = function_outcome [of std f]
  have good: "good_operand std op" if "map_of (function_table std) (funcName f) = Some entry" "operand_type op = returnType entry" for entry op
    using map_of_list_all [OF table_return_types that(1)] that(2) by (intro value_good) simp
  show ?thesis
  proof (cases "CheckFunction std f")
    case None
    then show ?thesis using sound assms by simp
  next
    case (Some r)
    then show ?thesis using sound assms good
      by (cases r) (auto simp: check_fn_def callable_def)
  qed
qed

lemma check_field_checks: "fieldSegments f \<noteq> [] \<Longrightarrow> checks_to (\<lambda>_. IsKeyField f \<or> IsValueField f) (check_field err f)"
  by (auto simp: check_field_def IsKeyField_def IsValueField_def first_segment_def split: list.splits)

lemma checkOperand_checks:
  fixes std :: "'v go_std" and e :: "'v Expression"
  shows "e = e"
  and "benign op \<Longrightarrow> checks_to (good_operand std) (checkOperand std ec op)"
  and "list_all benign args \<Longrightarrow>
    checks_to (\<lambda>args'. length args' = length args \<and> list_all (good_operand std) args') (check_args std ec args)"
proof (induction std ec e and std ec op and std ec args rule: checkExpression_checkOperand_check_args.induct)
  case (3 std ec off f)
  then obtain foff segs where f: "f = Field foff segs" "segs \<noteq> []" "list_all plain_segment segs" by (cases f) auto
  have "list_all (safe_segment std) segs" using f(3) plain_safe(2) by (auto simp: list_all_iff)
  then show ?case
    unfolding checkOperand.simps
    by (intro checks_to_bind [OF check_field_checks])
      (auto simp: f good_operand_def known_field_def operand_field_def IsExpr_def)
next
  case (4 std ec off foff name args ret)
  then have b: "name \<noteq> ''StrRepeat''" "ret = None" "list_all benign args" by simp_all
  show ?case
    unfolding checkOperand.simps
  proof (rule checks_to_bind [OF 4(1) [OF b(3)]], elim conjE, rule checks_to_bind [OF check_fn_checks])
    fix args' :: "'v Operand list" and f'
    assume args': "list_all (good_operand std) args'"
      and f': "case funcRet f' of None \<Rightarrow> f' = Function foff name args' ret \<and> callable std (Function foff name args' ret)
        | Some r \<Rightarrow> good_operand std r"
    show "checks_to (good_operand std) (c_ok (case funcRet f' of None \<Rightarrow> Operand off (TypFunction f') | Some r \<Rightarrow> r))"
    proof (cases "funcRet f'")
      case None
      have "list_all (safe_operand std) args'" using args' by (simp add: list_all_iff good_operand_def)
      then show ?thesis using f' None by (simp add: good_operand_def known_field_def operand_field_def IsExpr_def)
    qed (use f' in simp)
  qed (simp_all add: b)
next
  case (7 std ec a args)
  then show ?case
    unfolding check_args.simps
    by (intro checks_to_bind [OF 7(1)] checks_to_bind [OF 7(2)]) simp_all
qed (auto simp: good_operand_def known_field_def operand_field_def IsExpr_def)

definition checked_comparison :: "'v go_std \<Rightarrow> 'v Operand \<Rightarrow> BinaryOperatorType \<Rightarrow> 'v Operand \<Rightarrow> bool" where
  "checked_comparison std o1 ty o2 \<longleftrightarrow>
     good_operand std o1 \<and> good_operand std o2 \<and> (ty \<in> {Like, NotLike} \<longrightarrow> op_Pattern o2 \<noteq> None \<and> checked_pattern o2)"

lemma check_like_outcome:
  assumes "good_operand std o2" "check_like op o2 ec = Inr (op', o2')"
  shows "good_operand std o2'" "IsLogicalOperator op' = IsLogicalOperator op"
    "opType op' \<in> {Like, NotLike} \<longrightarrow> op_Pattern o2' \<noteq> None \<and> checked_pattern o2'"
proof -
  have pat: "p = pattern_of (regex p)" if "parseLikePattern off s ec = Inr p" for off s p
    using that by (auto simp: parseLikePattern_def split: sum.splits elim!: ParseWithEscapeChar_Inr) (simp add: pattern_of_def)
  have good: "good_operand std (Operand off (TypPattern a b p))" for off a b p
    by (simp add: good_operand_def known_field_def operand_field_def IsExpr_def)
  show "good_operand std o2'" "IsLogicalOperator op' = IsLogicalOperator op"
    "opType op' \<in> {Like, NotLike} \<longrightarrow> op_Pattern o2' \<noteq> None \<and> checked_pattern o2'"
    using assms pat good
    by (auto simp: check_like_def and_then_Inr_iff IsLogicalOperator_def op_Pattern_def checked_pattern_def FixedPrefix_def
        split: if_splits)
qed

lemma checkExpression_comparison:
  assumes "benign_comparison o1 (opType op) o2" "\<not> IsLogicalOperator op"
  shows "checks_to (holds_all (checked_comparison std)) (checkExpression std ec (Expression off o1 op o2))"
proof -
  have b: "benign o1" "benign o2" using assms(1) by (simp_all add: benign_comparison_def)
  show ?thesis
    unfolding checkExpression.simps
  proof (rule checks_to_bind [OF checkOperand_checks(2) [OF b(1)]], rule checks_to_bind [OF checkOperand_checks(2) [OF b(2)]])
    fix o1' o2' :: "'a Operand"
    assume g: "good_operand std o1'" "good_operand std o2'"
    show "checks_to (holds_all (checked_comparison std))
       (case check_like op o2' ec of
          Inl e \<Rightarrow> c_err e
        | Inr (op', o2'') \<Rightarrow> err_or (check_operands o1' op' o2'') (Expression off o1' op' o2''))"
      using check_like_outcome [OF g(2)] g(1) assms(2)
      by (auto simp: holds_comparison checked_comparison_def split: sum.split)
  qed
qed

lemma check_safe:
  assumes "holds_all benign_comparison e"
  shows "checks_to (holds_all (checked_comparison std)) (checkExpression std ec e)"
  using assms
proof (induction rule: holds_all_induct)
  case (comparison off o1 op o2)
  then show ?case by (intro checkExpression_comparison) auto
next
  case (logical off p1 e1 op p2 e2)
  have like: "check_like op o2 ec = Inr (op, o2)" for o2 :: "'a Operand"
    using logical(1) by (auto simp: check_like_def)
  show ?case
    unfolding checkExpression.simps checkOperand.simps
    by (intro checks_to_bind [where P = "\<lambda>o1. \<exists>e p. o1 = Operand p (TypExpr e) \<and> holds_all (checked_comparison std) e"]
        checks_to_bind [OF logical(4)] checks_to_bind [OF logical(5)])
      (use logical(1) in \<open>auto simp: like IsLogicalOperator_def\<close>)
qed

lemma checked_parts:
  assumes "holds_all (checked_comparison std) e"
  shows "holds_all known_fields e" "holds_all (\<lambda>o1 ty o2. ty = Like \<longrightarrow> checked_pattern o2) e" "holds_all (safe_comparison std) e"
  by (rule holds_all_mono [OF assms]; simp add: checked_comparison_def good_operand_def known_fields_def safe_comparison_def)+



definition like_where :: "vvalue Expression" where
  "like_where = Expression 0 (Operand 0 (TypExpr (comparison k_operand Like (str_operand ''a%''))))
     \<lparr>opType = And, opOff = 8\<rparr> (Operand 12 (TypExpr (comparison v_operand Is (Operand 5 TypNil))))"


end
