(* ===== verification/QueryExec.thy ===== *)
theory QueryExec
  imports QueryTyped
begin

text \<open>
  Execution of statements: query/engine/internal/query.go and result_streams.go.

  The data source is the interface of query/engine/datasource/model.go, a record of its methods: \<open>'t\<close> is a table, \<open>'s\<close> the state of
  an open stream with the store below it, \<open>'e\<close> an error of the data source. A result is \<open>None\<close> when the code panics; for the loops
  over a stream the outer \<open>None\<close> stands for a loop that does not end. \<open>text/scanner\<close>, which the parsers of
  statements and index fields call, is the argument \<open>tokens\<close>.
\<close>

subsection \<open>The data source\<close>

record ds_index =
  ixFieldName :: string
  ixKind :: Kind

record ('t, 's, 'e) data_source =
  GetTable :: "string \<Rightarrow> bool \<Rightarrow> 't option"
  GetIndexFields :: "'t \<Rightarrow> ds_index list"
  Scan :: "'t \<Rightarrow> IndexRanges list \<Rightarrow> 'e + 's"
  Delete :: "'t \<Rightarrow> string \<Rightarrow> 's \<Rightarrow> ('e + bool) \<times> 's"
  kvAdvance :: "'s \<Rightarrow> bool \<times> 's"
  kvKeyValue :: "'s \<Rightarrow> string \<times> vvalue"
  kvErr :: "'s \<Rightarrow> 'e option"
  kvCancel :: "'s \<Rightarrow> 's"

datatype 'e exec_error =
    ParseError q_error
  | CheckError check_error
  | IndexKindNotSupported int Kind string string
  | ScanError int 'e
  | KeyValueStreamError int 'e
  | PreparedStatementNotFound
  | ParameterError

type_synonym ('e, 'a) exec_result = "('e exec_error + 'a) option"

definition x_bind :: "('e, 'a) exec_result \<Rightarrow> ('a \<Rightarrow> ('e, 'b) exec_result) \<Rightarrow> ('e, 'b) exec_result" where
  "x_bind m f = (case m of None \<Rightarrow> None | Some (Inl e) \<Rightarrow> Some (Inl e) | Some (Inr x) \<Rightarrow> f x)"

lemma x_bind_simps [simp]:
  "x_bind None f = None" "x_bind (Some (Inl e)) f = Some (Inl e)" "x_bind (Some (Inr x)) f = f x"
  by (simp_all add: x_bind_def)

subsection \<open>Index ranges of a statement\<close>

text \<open>\<open>kField\<close> is the field made at the start of \<open>getIndexRanges\<close>.\<close>

definition index_field :: "eval_env \<Rightarrow> (string \<Rightarrow> scanner) \<Rightarrow> string \<Rightarrow> string \<Rightarrow> ('e, vvalue Field) exec_result" where
  "index_field env tokens fieldName table =
     map_option (map_sum ParseError id) (ParseIndexField (std_parseFloat (env_std env)) fieldName table (tokens fieldName))"

fun secondary_ranges ::
  "eval_env \<Rightarrow> (string \<Rightarrow> scanner) \<Rightarrow> FromClause \<Rightarrow> vvalue WhereClause option \<Rightarrow> ds_index list \<Rightarrow> ('e, IndexRanges list) exec_result" where
  "secondary_ranges env tokens from w [] = Some (Inr [])"
| "secondary_ranges env tokens from w (idx # rest) =
     (if ixKind idx \<noteq> KString
      then Some (Inl (IndexKindNotSupported (tableOff from) (ixKind idx) (ixFieldName idx) (tableName from)))
      else x_bind (index_field env tokens (ixFieldName idx) (tableName from)) (\<lambda>idxField.
        case CompileIndexRanges idxField (ixKind idx) w of
          None \<Rightarrow> None
        | Some r \<Rightarrow> x_bind (secondary_ranges env tokens from w rest) (\<lambda>rs. Some (Inr (r # rs)))))"

definition getIndexRanges ::
  "eval_env \<Rightarrow> (string \<Rightarrow> scanner) \<Rightarrow> FromClause \<Rightarrow> ds_index list \<Rightarrow> vvalue WhereClause option \<Rightarrow> ('e, IndexRanges list) exec_result" where
  "getIndexRanges env tokens from indexFields w =
     (case CompileIndexRanges kField KString w of
        None \<Rightarrow> None
      | Some r \<Rightarrow> x_bind (secondary_ranges env tokens from w indexFields) (\<lambda>rs. Some (Inr (r # rs))))"

subsection \<open>Columns\<close>

text \<open>A column of a result: the Go value that is handed to \<open>vom.RawBytesOf\<close>.\<close>

datatype cell =
    CNil
  | CBool bool
  | CFloat float64
  | CInt int
  | CStr string
  | CTime int
  | CObject vvalue

definition ConvertFunctionRetValueToRawBytes :: "vvalue Operand option \<Rightarrow> cell" where
  "ConvertFunctionRetValueToRawBytes o1 =
     (case o1 of
        None \<Rightarrow> CNil
      | Some op \<Rightarrow>
          (case operandBody op of
             TypBool b \<Rightarrow> CBool b
           | TypFloat f \<Rightarrow> CFloat f
           | TypInt i \<Rightarrow> CInt i
           | TypStr s \<Rightarrow> CStr s
           | TypPattern s _ _ \<Rightarrow> CStr s
           | TypTime t \<Rightarrow> CTime t
           | TypObject v \<Rightarrow> CObject v
           | _ \<Rightarrow> CNil))"

text \<open>
  One column. For a function, \<open>resolveOperand\<close> on a function operand is \<open>resolveArgsAndExecFunction\<close> with nil for an error.
\<close>

definition project :: "eval_env \<Rightarrow> string \<Rightarrow> vvalue \<Rightarrow> vvalue Selector \<Rightarrow> cell option" where
  "project env k v s =
     (case selBody s of
        TypSelField f \<Rightarrow> map_option CObject (ResolveField env k (Some v) f)
      | TypSelFunc f \<Rightarrow>
          (case funcRet f of
             Some r \<Rightarrow> Some (ConvertFunctionRetValueToRawBytes (Some r))
           | None \<Rightarrow> map_option ConvertFunctionRetValueToRawBytes (resolveOperand env k (Some v) (Operand 0 (TypFunction f)))))"

fun compose_loop :: "eval_env \<Rightarrow> string \<Rightarrow> vvalue \<Rightarrow> vvalue Selector list \<Rightarrow> cell list option" where
  "compose_loop env k v [] = Some []"
| "compose_loop env k v (s # ss) =
     (case project env k v s of None \<Rightarrow> None | Some c \<Rightarrow> map_option (Cons c) (compose_loop env k v ss))"

definition ComposeProjection :: "eval_env \<Rightarrow> string \<Rightarrow> vvalue \<Rightarrow> vvalue SelectClause \<Rightarrow> cell list option" where
  "ComposeProjection env k v s = compose_loop env k v (Selectors s)"

text \<open>
  \<open>ExecSelectSingleRow\<close>, which the tests use: it reads the where clause without looking whether there is one.
\<close>

definition ExecSelectSingleRow :: "eval_env \<Rightarrow> string \<Rightarrow> vvalue \<Rightarrow> vvalue SelectStatement \<Rightarrow> cell list option" where
  "ExecSelectSingleRow env k v s =
     (case stWhere s of
        None \<Rightarrow> None
      | Some w \<Rightarrow>
          (case Eval env k (Some v) (whereExpr w) of
             None \<Rightarrow> None
           | Some False \<Rightarrow> Some []
           | Some True \<Rightarrow> ComposeProjection env k v (stSelect s)))"

text \<open>The headings.\<close>

fun getSegmentKeyAsHeading :: "vvalue go_std \<Rightarrow> vvalue Operand \<Rightarrow> string"
and segments_heading :: "vvalue go_std \<Rightarrow> string \<Rightarrow> vvalue Segment list \<Rightarrow> string"
and keys_heading :: "vvalue go_std \<Rightarrow> vvalue Operand list \<Rightarrow> string" where
  "getSegmentKeyAsHeading std (Operand off b) =
     ''['' @
     (case b of
        TypField (Field foff segs) \<Rightarrow> segments_heading std [] segs
      | TypBool x \<Rightarrow> (if x then ''true'' else ''false'')
      | TypInt i \<Rightarrow> std_formatInt std i
      | TypFloat f \<Rightarrow> std_formatFloat std f
      | TypFunction f \<Rightarrow> funcName f
      | TypStr s \<Rightarrow> s
      | TypPattern s _ _ \<Rightarrow> s
      | TypTime t \<Rightarrow> std_formatTime std t
      | TypNil \<Rightarrow> ''<nil>''
      | TypObject v \<Rightarrow> ''<object>''
      | _ \<Rightarrow> ''<?>'') @ '']''"
| "segments_heading std sep [] = []"
| "segments_heading std sep (Segment off name keys # segs) =
     sep @ name @ keys_heading std keys @ segments_heading std ''.'' segs"
| "keys_heading std [] = []"
| "keys_heading std (key # keys) = getSegmentKeyAsHeading std key @ keys_heading std keys"

definition column_heading :: "vvalue go_std \<Rightarrow> vvalue Selector \<Rightarrow> string" where
  "column_heading std s =
     (case selAs s of
        Some (_, name, _) \<Rightarrow> name
      | None \<Rightarrow>
          (case selBody s of
             TypSelField f \<Rightarrow> segments_heading std [] (fieldSegments f)
           | TypSelFunc f \<Rightarrow> funcName f))"

definition getColumnHeadings :: "vvalue go_std \<Rightarrow> vvalue SelectStatement \<Rightarrow> string list" where
  "getColumnHeadings std s = map (column_heading std) (Selectors (stSelect s))"


subsection \<open>The stream of results of SELECT\<close>

text \<open>The decision on a row that both statements make.\<close>

definition row_matches :: "eval_env \<Rightarrow> vvalue WhereClause option \<Rightarrow> string \<Rightarrow> vvalue \<Rightarrow> bool option" where
  "row_matches env w k v =
     (case EvalWhereUsingOnlyKey env w k of
        None \<Rightarrow> None
      | Some INCLUDE \<Rightarrow> Some True
      | Some EXCLUDE \<Rightarrow> Some False
      | Some FETCH_VALUE \<Rightarrow> (case w of None \<Rightarrow> None | Some wh \<Rightarrow> Eval env k (Some v) (whereExpr wh)))"

record ('s, 'e) select_stream =
  ssStatement :: "vvalue SelectStatement"
  resultCount :: int
  skippedCount :: int
  keyValueStream :: 's
  ssK :: string
  ssV :: vvalue
  ssErr :: "'e exec_error option"

text \<open>The loop of \<open>Advance\<close>.\<close>

partial_function (option) advance_loop ::
  "eval_env \<Rightarrow> ('t, 's, 'e) data_source \<Rightarrow> ('s, 'e) select_stream \<Rightarrow> (bool \<times> ('s, 'e) select_stream) option option" where
  "advance_loop env ds rs =
     (case kvAdvance ds (keyValueStream rs) of (more_rows, s) \<Rightarrow>
        if \<not> more_rows then
          Some (Some (False, rs\<lparr>keyValueStream := s,
            ssErr := (case kvErr ds s of None \<Rightarrow> ssErr rs | Some e \<Rightarrow> Some (KeyValueStreamError (selStOff (ssStatement rs)) e))\<rparr>))
        else
          (case kvKeyValue ds s of (k, v) \<Rightarrow>
             (case row_matches env (stWhere (ssStatement rs)) k v of
                None \<Rightarrow> Some None
              | Some match \<Rightarrow>
                  if \<not> match then advance_loop env ds (rs\<lparr>keyValueStream := s\<rparr>)
                  else if case stResultsOffset (ssStatement rs) of None \<Rightarrow> True | Some o1 \<Rightarrow> Limit o1 \<le> skippedCount rs
                  then Some (Some (True, rs\<lparr>keyValueStream := s, ssK := k, ssV := v, resultCount := resultCount rs + 1\<rparr>))
                  else advance_loop env ds (rs\<lparr>keyValueStream := s, skippedCount := skippedCount rs + 1\<rparr>))))"

definition select_Advance ::
  "eval_env \<Rightarrow> ('t, 's, 'e) data_source \<Rightarrow> ('s, 'e) select_stream \<Rightarrow> (bool \<times> ('s, 'e) select_stream) option option" where
  "select_Advance env ds rs =
     (if case stLimit (ssStatement rs) of None \<Rightarrow> False | Some l \<Rightarrow> Limit l \<le> resultCount rs
      then Some (Some (False, rs\<lparr>keyValueStream := kvCancel ds (keyValueStream rs)\<rparr>))
      else advance_loop env ds rs)"

definition select_Result :: "eval_env \<Rightarrow> ('s, 'e) select_stream \<Rightarrow> cell list option" where
  "select_Result env rs = ComposeProjection env (ssK rs) (ssV rs) (stSelect (ssStatement rs))"

definition select_Cancel :: "('t, 's, 'e) data_source \<Rightarrow> ('s, 'e) select_stream \<Rightarrow> ('s, 'e) select_stream" where
  "select_Cancel ds rs = rs\<lparr>keyValueStream := kvCancel ds (keyValueStream rs)\<rparr>"

text \<open>
  A client that reads a stream to its end, as the interface of result streams asks: \<open>Advance\<close> until it returns false, and \<open>Result\<close> after
  each success. A row is \<open>None\<close> if its \<open>Result\<close> panics.
\<close>

partial_function (option) read_results ::
  "eval_env \<Rightarrow> ('t, 's, 'e) data_source \<Rightarrow> ('s, 'e) select_stream \<Rightarrow> (cell list option list \<times> ('s, 'e) select_stream) option option" where
  "read_results env ds rs =
     (case select_Advance env ds rs of
        None \<Rightarrow> None
      | Some None \<Rightarrow> Some None
      | Some (Some (advanced, rs')) \<Rightarrow>
          if \<not> advanced then Some (Some ([], rs'))
          else Option.bind (read_results env ds rs') (\<lambda>res.
            Some (map_option (\<lambda>(rows, final). (select_Result env rs' # rows, final)) res)))"

subsection \<open>DELETE\<close>

text \<open>The loop over the rows, with the count so far; the flag says that the limit was reached and the stream is to be cancelled on return.\<close>

partial_function (option) delete_loop ::
  "eval_env \<Rightarrow> ('t, 's, 'e) data_source \<Rightarrow> 't \<Rightarrow> vvalue DeleteStatement \<Rightarrow> 's \<Rightarrow> int \<Rightarrow> (int \<times> bool \<times> 's) option option" where
  "delete_loop env ds t st s deleteCount =
     (case kvAdvance ds s of (more_rows, s1) \<Rightarrow>
        if \<not> more_rows then Some (Some (deleteCount, False, s1))
        else if case delLimit st of None \<Rightarrow> False | Some l \<Rightarrow> Limit l \<le> deleteCount
        then Some (Some (deleteCount, True, s1))
        else
          (case kvKeyValue ds s1 of (k, v) \<Rightarrow>
             (case row_matches env (delWhere st) k v of
                None \<Rightarrow> Some None
              | Some match \<Rightarrow>
                  if \<not> match then delete_loop env ds t st s1 deleteCount
                  else
                    (case Delete ds t k s1 of (b, s2) \<Rightarrow>
                       delete_loop env ds t st s2 (if b = Inr True then deleteCount + 1 else deleteCount)))))"

record delete_stream =
  deleteCursor :: int
  deleteCount :: int

definition delete_Advance :: "delete_stream \<Rightarrow> bool \<times> delete_stream" where
  "delete_Advance rs = (if deleteCursor rs = 0 then (True, rs\<lparr>deleteCursor := deleteCursor rs + 1\<rparr>) else (False, rs))"

definition delete_Result :: "delete_stream \<Rightarrow> cell list" where
  "delete_Result rs = [CInt (deleteCount rs)]"

definition delete_Cancel :: "delete_stream \<Rightarrow> delete_stream" where
  "delete_Cancel rs = rs\<lparr>deleteCursor := deleteCursor rs + 1\<rparr>"

subsection \<open>Statements\<close>

definition execSelect ::
  "eval_env \<Rightarrow> (string \<Rightarrow> scanner) \<Rightarrow> ('t, 's, 'e) data_source \<Rightarrow> vvalue SelectStatement \<Rightarrow> 't
    \<Rightarrow> ('e, string list \<times> ('s, 'e) select_stream) exec_result" where
  "execSelect env tokens ds st t =
     x_bind (getIndexRanges env tokens (stFrom st) (GetIndexFields ds t) (stWhere st)) (\<lambda>indexes.
       case Scan ds t indexes of
         Inl e \<Rightarrow> Some (Inl (ScanError (selStOff st) e))
       | Inr s \<Rightarrow> Some (Inr (getColumnHeadings (env_std env) st,
           \<lparr>ssStatement = st, resultCount = 0, skippedCount = 0, keyValueStream = s, ssK = [], ssV = nil_value, ssErr = None\<rparr>)))"

text \<open>The result is the stream with the count and the state of the data source, which the loop has changed already.\<close>

definition execDelete ::
  "eval_env \<Rightarrow> (string \<Rightarrow> scanner) \<Rightarrow> ('t, 's, 'e) data_source \<Rightarrow> vvalue DeleteStatement \<Rightarrow> 't
    \<Rightarrow> ('e, string list \<times> delete_stream \<times> 's) exec_result option" where
  "execDelete env tokens ds st t =
     (case getIndexRanges env tokens (delFrom st) (GetIndexFields ds t) (delWhere st) of
        None \<Rightarrow> Some None
      | Some (Inl e) \<Rightarrow> Some (Some (Inl e))
      | Some (Inr indexes) \<Rightarrow>
          (case Scan ds t indexes of
             Inl e \<Rightarrow> Some (Some (Inl (ScanError (delOff st) e)))
           | Inr s \<Rightarrow>
               (case delete_loop env ds t st s 0 of
                  None \<Rightarrow> None
                | Some None \<Rightarrow> Some None
                | Some (Some (n, cancel, s')) \<Rightarrow>
                    Some (Some
                      (case kvErr ds s' of
                         Some e \<Rightarrow> Inl (KeyValueStreamError (delOff st) e)
                       | None \<Rightarrow> Inr ([''Count''], \<lparr>deleteCursor = 0, deleteCount = n\<rparr>, if cancel then kvCancel ds s' else s'))))))"

datatype ('s, 'e) result_stream = SelectResult "('s, 'e) select_stream" | DeleteResult delete_stream 's

definition execStatement ::
  "eval_env \<Rightarrow> (string \<Rightarrow> scanner) \<Rightarrow> ('t, 's, 'e) data_source \<Rightarrow> vvalue Statement \<Rightarrow> 't
    \<Rightarrow> ('e, string list \<times> ('s, 'e) result_stream) exec_result option" where
  "execStatement env tokens ds s t =
     (case s of
        SelectSt st \<Rightarrow> Some (map_option (map_sum id (\<lambda>(hs, rs). (hs, SelectResult rs))) (execSelect env tokens ds st t))
      | DeleteSt st \<Rightarrow>
          map_option (map_option (map_sum id (\<lambda>(hs, rs, s). (hs, DeleteResult rs s)))) (execDelete env tokens ds st t))"

definition checkAndExec ::
  "eval_env \<Rightarrow> (string \<Rightarrow> scanner) \<Rightarrow> ('t, 's, 'e) data_source \<Rightarrow> vvalue Statement
    \<Rightarrow> ('e, string list \<times> ('s, 'e) result_stream) exec_result option" where
  "checkAndExec env tokens ds s =
     (case Check (env_std env) (GetTable ds) s of
        None \<Rightarrow> Some None
      | Some (Inl e) \<Rightarrow> Some (Some (Inl (CheckError e)))
      | Some (Inr (s', t)) \<Rightarrow> execStatement env tokens ds s' t)"

definition Exec ::
  "eval_env \<Rightarrow> (string \<Rightarrow> scanner) \<Rightarrow> ('t, 's, 'e) data_source \<Rightarrow> string
    \<Rightarrow> ('e, string list \<times> ('s, 'e) result_stream) exec_result option" where
  "Exec env tokens ds q =
     (case Parse (std_parseFloat (env_std env)) (length q) (tokens q) of
        None \<Rightarrow> None
      | Some (Inl e) \<Rightarrow> Some (Some (Inl (ParseError e)))
      | Some (Inr s) \<Rightarrow> checkAndExec env tokens ds s)"



subsection \<open>Prepared statements\<close>

record query_engine =
  nextID :: int
  preparedStatements :: "int \<Rightarrow> vvalue Statement option"

definition Create :: query_engine where
  "Create = \<lparr>nextID = 0, preparedStatements = (\<lambda>_. None)\<rparr>"

text \<open>Handles stand for \<open>preparedStatementImpl\<close>, which is a handle and the engine.\<close>

definition PrepareStatement ::
  "eval_env \<Rightarrow> (string \<Rightarrow> scanner) \<Rightarrow> string \<Rightarrow> query_engine \<Rightarrow> ((q_error + int) \<times> query_engine) option" where
  "PrepareStatement env tokens q qe =
     (case Parse (std_parseFloat (env_std env)) (length q) (tokens q) of
        None \<Rightarrow> None
      | Some (Inl e) \<Rightarrow> Some (Inl e, qe)
      | Some (Inr s) \<Rightarrow>
          Some (Inr (nextID qe),
            qe\<lparr>nextID := nextID qe + 1, preparedStatements := (preparedStatements qe)(nextID qe \<mapsto> s)\<rparr>))"

definition GetPreparedStatement :: "int \<Rightarrow> query_engine \<Rightarrow> 'e exec_error + int" where
  "GetPreparedStatement handle qe =
     (case preparedStatements qe handle of None \<Rightarrow> Inl PreparedStatementNotFound | Some _ \<Rightarrow> Inr handle)"

definition ps_Close :: "int \<Rightarrow> query_engine \<Rightarrow> query_engine" where
  "ps_Close p qe = qe\<lparr>preparedStatements := (preparedStatements qe)(p := None)\<rparr>"

text \<open>
  The parameters are the values that the raw bytes decode to, \<open>None\<close> for bytes that do not. A statement that is not there is a
  nil pointer to the code, which panics when it is copied.
\<close>

definition ps_Exec ::
  "eval_env \<Rightarrow> (string \<Rightarrow> scanner) \<Rightarrow> ('t, 's, 'e) data_source \<Rightarrow> query_engine \<Rightarrow> int \<Rightarrow> vvalue option list
    \<Rightarrow> ('e, string list \<times> ('s, 'e) result_stream) exec_result option" where
  "ps_Exec env tokens ds qe p paramValues =
     (if list_ex (\<lambda>v. v = None) paramValues then Some (Some (Inl ParameterError))
      else case preparedStatements qe p of
        None \<Rightarrow> Some None
      | Some s \<Rightarrow>
          (case CopyAndSubstitute (value_view env) s (map the paramValues) of
             Inl e \<Rightarrow> Some (Some (Inl (ParseError e)))
           | Inr sCopy \<Rightarrow> checkAndExec env tokens ds sCopy))"


subsection \<open>Deciding on a row\<close>

text \<open>A row that the where clause of a statement selects.\<close>

definition selected :: "eval_env \<Rightarrow> vvalue WhereClause option \<Rightarrow> string \<times> vvalue \<Rightarrow> bool" where
  "selected env w r \<longleftrightarrow> (case w of None \<Rightarrow> True | Some wh \<Rightarrow> Eval env (fst r) (Some (snd r)) (whereExpr wh) = Some True)"

definition checked_where :: "eval_env \<Rightarrow> vvalue WhereClause option \<Rightarrow> bool" where
  "checked_where env w \<longleftrightarrow> (case w of None \<Rightarrow> True | Some wh \<Rightarrow> holds_all (checked_comparison (env_std env)) (whereExpr wh))"

lemma key_only_defined:
  assumes "holds_all (checked_comparison (env_std env)) e"
  shows "evalExprUsingOnlyKey env e k \<noteq> None"
  using assms
proof (induction rule: holds_all_induct)
  case (comparison off o1 op o2)
  have "evalComparisonOperators env k None o1 (opType op) o2 \<noteq> None"
    if "\<not> IsFunction o1" "\<not> IsFunction o2" "\<not> is_value_operand o1" "\<not> is_value_operand o2"
  proof -
    have "evalComparisonOperators env k None o1 (opType op) o2 = evalComparisonOperators env k (Some nil_value) o1 (opType op) o2"
      using comparison(2) resolve_key_only [of o1 env k None] resolve_key_only [of o2 env k None] that
      by (intro evalComparison_cong) (simp_all add: checked_comparison_def good_operand_def)
    then show ?thesis
      using comparison_defined [of env o1 "opType op" o2 k nil_value] comparison(2)
      by (simp add: safe_comparison_def checked_comparison_def good_operand_def)
  qed
  then show ?case by (simp add: Expression_simps [OF comparison(1)])
next
  case (logical off p1 e1 op p2 e2)
  then show ?case by (auto simp: IsLogicalOperator_def split: option.splits)
qed

lemma row_matches_selected:
  assumes "checked_where env w"
  shows "row_matches env w k v = Some (selected env w (k, v))"
proof (cases w)
  case None
  then show ?thesis by (simp add: row_matches_def selected_def EvalWhereUsingOnlyKey_def)
next
  case (Some wh)
  let ?e = "whereExpr wh"
  have c: "holds_all (checked_comparison (env_std env)) ?e" using assms by (simp add: checked_where_def Some)
  obtain r where r: "evalExprUsingOnlyKey env ?e k = Some r" using key_only_defined [OF c] by blast
  obtain b where b: "Eval env k (Some v) ?e = Some b" using Eval_defined [OF checked_parts(3) [OF c]] by blast
  show ?thesis
    using key_only_agrees [OF checked_parts(1) [OF c], of env k "Some v"] r b
    by (cases r; cases b)
      (simp_all add: row_matches_def selected_def EvalWhereUsingOnlyKey_def Some key_result_sound_def)
qed

subsection \<open>Reading a stream\<close>

text \<open>What the documentation of \<open>KeyValueStream\<close> promises of a stream that delivers some rows and ends with an error or without.\<close>

fun delivers :: "('t, 's, 'e) data_source \<Rightarrow> 's \<Rightarrow> (string \<times> vvalue) list \<Rightarrow> 'e option \<Rightarrow> bool" where
  "delivers ds s [] err \<longleftrightarrow> (case kvAdvance ds s of (b, s') \<Rightarrow> \<not> b \<and> kvErr ds s' = err)"
| "delivers ds s (r # rows) err \<longleftrightarrow> (case kvAdvance ds s of (b, s') \<Rightarrow> b \<and> kvErr ds s' = None \<and> kvKeyValue ds s' = r \<and> delivers ds s' rows err)"

definition offset_of :: "vvalue SelectStatement \<Rightarrow> int" where
  "offset_of st = (case stResultsOffset st of None \<Rightarrow> 0 | Some o1 \<Rightarrow> Limit o1)"

text \<open>The rows that a stream of results still has to give, limit aside.\<close>

definition pending :: "eval_env \<Rightarrow> ('t, 's, 'e) data_source \<Rightarrow> 'e option \<Rightarrow> ('s, 'e) select_stream \<Rightarrow> (string \<times> vvalue) list \<Rightarrow> bool" where
  "pending env ds err rs pend \<longleftrightarrow>
     checked_where env (stWhere (ssStatement rs)) \<and> 0 \<le> skippedCount rs \<and>
     (\<exists>rows. delivers ds (keyValueStream rs) rows err \<and>
        pend = drop (nat (offset_of (ssStatement rs) - skippedCount rs)) (filter (selected env (stWhere (ssStatement rs))) rows))"

definition end_error :: "'e option \<Rightarrow> ('s, 'e) select_stream \<Rightarrow> 'e exec_error option" where
  "end_error err rs = (case err of None \<Rightarrow> ssErr rs | Some e \<Rightarrow> Some (KeyValueStreamError (selStOff (ssStatement rs)) e))"

text \<open>What the loop of \<open>Advance\<close> does to a stream with rows pending.\<close>

definition advanced ::
  "eval_env \<Rightarrow> ('t, 's, 'e) data_source \<Rightarrow> 'e option \<Rightarrow> ('s, 'e) select_stream \<Rightarrow> (string \<times> vvalue) list
    \<Rightarrow> (bool \<times> ('s, 'e) select_stream) option option \<Rightarrow> bool" where
  "advanced env ds err rs pend res \<longleftrightarrow>
     (\<exists>rs'. ssStatement rs' = ssStatement rs \<and>
        (case pend of
           [] \<Rightarrow> res = Some (Some (False, rs')) \<and> resultCount rs' = resultCount rs \<and> ssErr rs' = end_error err rs
         | r # pend' \<Rightarrow> res = Some (Some (True, rs')) \<and> resultCount rs' = resultCount rs + 1 \<and>
             (ssK rs', ssV rs') = r \<and> ssErr rs' = ssErr rs \<and> pending env ds err rs' pend'))"

lemma advanced_cong:
  "ssStatement rs = ssStatement rs' \<Longrightarrow> resultCount rs = resultCount rs' \<Longrightarrow> ssErr rs = ssErr rs' \<Longrightarrow>
   advanced env ds err rs pend res = advanced env ds err rs' pend res"
  by (cases pend; cases err) (simp_all add: advanced_def end_error_def)

lemma advance_loop_delivered:
  assumes "delivers ds (keyValueStream rs) rows err" "checked_where env (stWhere (ssStatement rs))" "0 \<le> skippedCount rs"
    "pend = drop (nat (offset_of (ssStatement rs) - skippedCount rs)) (filter (selected env (stWhere (ssStatement rs))) rows)"
  shows "advanced env ds err rs pend (advance_loop env ds rs)"
  using assms
proof (induction rows arbitrary: rs)
  case Nil
  then show ?case
    unfolding advanced_def
    by (auto simp: advance_loop.simps end_error_def split: prod.splits option.splits
        intro!: exI [of _ "rs\<lparr>keyValueStream := snd (kvAdvance ds (keyValueStream rs)), ssErr := end_error err rs\<rparr>"])
next
  case (Cons r rows)
  let ?st = "ssStatement rs"
  obtain k v where r: "r = (k, v)" by (cases r)
  obtain s' where s': "kvAdvance ds (keyValueStream rs) = (True, s')" "kvKeyValue ds s' = (k, v)" "delivers ds s' rows err"
    using Cons.prems(1) by (auto simp: r split: prod.splits)
  have match: "row_matches env (stWhere ?st) k v = Some (selected env (stWhere ?st) r)"
    using row_matches_selected [OF Cons.prems(2)] by (simp add: r)
  have off: "(case stResultsOffset ?st of None \<Rightarrow> True | Some o1 \<Rightarrow> Limit o1 \<le> skippedCount rs) \<longleftrightarrow> offset_of ?st \<le> skippedCount rs"
    using Cons.prems(3) by (simp add: offset_of_def split: option.split)
  note step = advance_loop.simps [of env ds rs, unfolded s'(1) prod.case s'(2) match option.case off]
  show ?case
  proof (cases "selected env (stWhere ?st) r")
    case False
    then show ?thesis
      using Cons.IH [of "rs\<lparr>keyValueStream := s'\<rparr>"] Cons.prems(2-4) s'(3)
      by (simp add: step False advanced_cong [of "rs\<lparr>keyValueStream := s'\<rparr>" rs])
  next
    case True
    show ?thesis
    proof (cases "offset_of ?st \<le> skippedCount rs")
      case True
      let ?rs = "rs\<lparr>keyValueStream := s', ssK := k, ssV := v, resultCount := resultCount rs + 1\<rparr>"
      have "pending env ds err ?rs (filter (selected env (stWhere ?st)) rows)"
        using s'(3) Cons.prems(2,3) True by (auto simp: pending_def)
      then show ?thesis
        using \<open>selected _ _ r\<close> True Cons.prems(4) unfolding advanced_def by (intro exI [of _ ?rs]) (simp add: r step)
    next
      case False
      let ?rs = "rs\<lparr>keyValueStream := s', skippedCount := skippedCount rs + 1\<rparr>"
      have "nat (offset_of ?st - skippedCount rs) = Suc (nat (offset_of ?st - (skippedCount rs + 1)))" using False by simp
      then have "pend = drop (nat (offset_of ?st - skippedCount ?rs)) (filter (selected env (stWhere ?st)) rows)"
        using Cons.prems(4) \<open>selected _ _ r\<close> by simp
      then show ?thesis
        using Cons.IH [of ?rs] Cons.prems(2,3) s'(3) \<open>selected _ _ r\<close> False
        by (simp add: step advanced_cong [of ?rs rs])
    qed
  qed
qed


text \<open>The limit of a statement on rows, when some have been given already.\<close>

definition take_limit :: "vvalue SelectStatement \<Rightarrow> int \<Rightarrow> 'a list \<Rightarrow> 'a list" where
  "take_limit st given xs = (case stLimit st of None \<Rightarrow> xs | Some l \<Rightarrow> take (nat (Limit l - given)) xs)"

definition limit_reached :: "vvalue SelectStatement \<Rightarrow> int \<Rightarrow> bool" where
  "limit_reached st given \<longleftrightarrow> (case stLimit st of None \<Rightarrow> False | Some l \<Rightarrow> Limit l \<le> given)"

definition columns :: "eval_env \<Rightarrow> vvalue SelectStatement \<Rightarrow> (string \<times> vvalue) list \<Rightarrow> cell list option list" where
  "columns env st rows = map (\<lambda>(k, v). ComposeProjection env k v (stSelect st)) rows"

lemma read_results_pending:
  assumes "pending env ds err rs pend"
  shows "\<exists>final. read_results env ds rs = Some (Some (columns env (ssStatement rs) (take_limit (ssStatement rs) (resultCount rs) pend), final)) \<and>
    ssErr final = (if limit_reached (ssStatement rs) (resultCount rs + int (length pend)) then ssErr rs else end_error err rs)"
  using assms
proof (induction pend arbitrary: rs)
  case Nil
  show ?case
  proof (cases "limit_reached (ssStatement rs) (resultCount rs)")
    case True
    then show ?thesis
      by (subst read_results.simps)
        (auto simp: select_Advance_def limit_reached_def take_limit_def columns_def split: option.splits)
  next
    case False
    have "advanced env ds err rs [] (advance_loop env ds rs)"
      using Nil by (auto simp: pending_def intro: advance_loop_delivered)
    then show ?thesis
      using False by (subst read_results.simps)
        (auto simp: advanced_def select_Advance_def limit_reached_def take_limit_def columns_def split: option.splits)
  qed
next
  case (Cons r pend)
  let ?st = "ssStatement rs"
  show ?case
  proof (cases "limit_reached ?st (resultCount rs)")
    case True
    then have "limit_reached ?st (resultCount rs + int (length (r # pend)))" "take_limit ?st (resultCount rs) (r # pend) = []"
      by (auto simp: limit_reached_def take_limit_def split: option.splits)
    then show ?thesis using True
      by (subst read_results.simps) (auto simp: select_Advance_def limit_reached_def columns_def split: option.splits)
  next
    case False
    have "advanced env ds err rs (r # pend) (advance_loop env ds rs)"
      using Cons.prems by (auto simp: pending_def intro: advance_loop_delivered)
    then obtain rs' where rs': "ssStatement rs' = ?st" "advance_loop env ds rs = Some (Some (True, rs'))"
        "resultCount rs' = resultCount rs + 1" "(ssK rs', ssV rs') = r" "ssErr rs' = ssErr rs" "pending env ds err rs' pend"
      by (auto simp: advanced_def)
    obtain final where final: "read_results env ds rs' =
        Some (Some (columns env ?st (take_limit ?st (resultCount rs + 1) pend), final))"
      "ssErr final = (if limit_reached ?st (resultCount rs + 1 + int (length pend)) then ssErr rs else end_error err rs')"
      using Cons.IH [OF rs'(6)] rs'(1,3,5) by auto
    have "take_limit ?st (resultCount rs) (r # pend) = r # take_limit ?st (resultCount rs + 1) pend"
      using False by (auto simp: limit_reached_def take_limit_def take_Cons' nat_diff_distrib' split: option.split)
        (rule arg_cong [where f = "\<lambda>n. take n pend"], arith)
    moreover have "select_Result env rs' = ComposeProjection env (fst r) (snd r) (stSelect ?st)"
      using rs'(1,4) by (auto simp: select_Result_def)
    moreover have "select_Advance env ds rs = Some (Some (True, rs'))"
      using False rs'(2) by (auto simp: select_Advance_def limit_reached_def split: option.splits)
    moreover have "end_error err rs' = end_error err rs" using rs'(1,5) by (cases err) (simp_all add: end_error_def)
    ultimately show ?thesis using final
      by (subst read_results.simps) (auto simp: columns_def case_prod_beta add_ac)
  qed
qed


subsection \<open>Scanning\<close>

text \<open>
  What the documentation of \<open>Scan\<close> promises. A row is excluded by the ranges of a field if the field has a string value outside
  of them, or no value although nil is not allowed. The stream delivers rows of the table in their order, and all those that no
  range excludes.
\<close>

definition excluded :: "eval_env \<Rightarrow> vvalue Field \<Rightarrow> IndexRanges \<Rightarrow> string \<times> vvalue \<Rightarrow> bool" where
  "excluded env idx r row \<longleftrightarrow>
     (\<exists>s. index_is env (fst row) (Some (snd row)) idx s \<and> \<not> in_ranges s (StringRanges r)) \<or>
     index_is_nil env (fst row) (Some (snd row)) idx \<and> \<not> NilAllowed r"

definition honours_scan ::
  "eval_env \<Rightarrow> ('t, 's, 'e) data_source \<Rightarrow> 't \<Rightarrow> vvalue Field list \<Rightarrow> (string \<times> vvalue) list \<Rightarrow> 'e option \<Rightarrow> ('s \<Rightarrow> bool) \<Rightarrow> bool" where
  "honours_scan env ds t idxs rows err fresh \<longleftrightarrow>
     (\<forall>ranges. length ranges = length idxs \<longrightarrow>
        (\<exists>s keep. Scan ds t ranges = Inr s \<and> fresh s \<and> delivers ds s (filter keep rows) err \<and>
           (\<forall>row \<in> set rows. list_all2 (\<lambda>idx r. \<not> excluded env idx r row) idxs ranges \<longrightarrow> keep row)))"

text \<open>The conditions of \<open>index_ranges_sound\<close>, for all indexes of a table.\<close>

definition ranges_right :: "vvalue WhereClause option \<Rightarrow> vvalue Field \<Rightarrow> bool" where
  "ranges_right w idx \<longleftrightarrow> keyless_field idx \<and> (case w of None \<Rightarrow> True | Some wh \<Rightarrow> holds_all (range_safe idx) (whereExpr wh))"

definition utf8_row :: "eval_env \<Rightarrow> vvalue Field list \<Rightarrow> string \<times> vvalue \<Rightarrow> bool" where
  "utf8_row env idxs row \<longleftrightarrow> (\<forall>idx \<in> set idxs. \<forall>s. index_is env (fst row) (Some (snd row)) idx s \<longrightarrow> valid_utf8 s)"

definition parses_to :: "eval_env \<Rightarrow> (string \<Rightarrow> scanner) \<Rightarrow> FromClause \<Rightarrow> ds_index list \<Rightarrow> vvalue Field list \<Rightarrow> bool" where
  "parses_to env tokens from = list_all2 (\<lambda>idx f. ixKind idx = KString \<and>
     ParseIndexField (std_parseFloat (env_std env)) (ixFieldName idx) (tableName from) (tokens (ixFieldName idx)) = Some (Inr f))"

lemma holds_all_conj: "holds_all P e \<Longrightarrow> holds_all Q e \<Longrightarrow> holds_all (\<lambda>o1 ty o2. P o1 ty o2 \<and> Q o1 ty o2) e"
  by (induction rule: holds_all_induct) (auto simp: holds_comparison IsLogicalOperator_def)

lemma compile_covers:
  assumes "checked_where env w" "ranges_right w idx"
  shows "\<exists>r. CompileIndexRanges idx kind w = Some r \<and>
    (\<forall>row. selected env w row \<longrightarrow> utf8_row env [idx] row \<longrightarrow> \<not> excluded env idx r row)"
proof (cases w)
  case None
  then show ?thesis by (simp add: CompileIndexRanges_def Let_def excluded_def in_ranges_def)
next
  case (Some wh)
  have safe: "holds_all (range_safe_comparison idx) (whereExpr wh)" and k: "keyless_field idx"
    using assms holds_all_mono [OF holds_all_conj [of "range_safe idx" _ "\<lambda>o1 ty o2. ty = Like \<longrightarrow> checked_pattern o2"]]
      checked_parts(2)
    by (fastforce simp: checked_where_def ranges_right_def Some range_safe_comparison_def)+
  have wf: "holds_all (\<lambda>o1 ty o2. \<not> IsExpr o1) (whereExpr wh)"
    by (rule holds_all_mono [OF safe]) (simp add: range_safe_comparison_def range_safe_def)
  obtain r where r: "CompileIndexRanges idx kind w = Some r"
    using collect_covers [OF safe, of env] nil_decided [OF wf, of idx] by (auto simp: CompileIndexRanges_def Let_def Some)
  have "\<not> excluded env idx r row" if "selected env w row" "utf8_row env [idx] row" for row
    using index_ranges_cover [OF safe k, of env "fst row" "Some (snd row)" kind] that r
    by (auto simp: selected_def Some excluded_def utf8_row_def)
  then show ?thesis using r by blast
qed

lemma secondary_ranges_cover:
  assumes "checked_where env w" "list_all (ranges_right w) idxs" "parses_to env tokens from ixs idxs"
  shows "\<exists>ranges. (secondary_ranges env tokens from w ixs :: ('e, IndexRanges list) exec_result) = Some (Inr ranges) \<and> length ranges = length idxs \<and>
    (\<forall>row. selected env w row \<longrightarrow> utf8_row env idxs row \<longrightarrow> list_all2 (\<lambda>idx r. \<not> excluded env idx r row) idxs ranges)"
  using assms(3,2) unfolding parses_to_def
proof (induction ixs idxs rule: list_all2_induct)
  case (Cons ix ixs idx idxs)
  obtain r where r: "CompileIndexRanges idx KString w = Some r"
    "\<And>row. selected env w row \<Longrightarrow> utf8_row env [idx] row \<Longrightarrow> \<not> excluded env idx r row"
    using compile_covers [OF assms(1), of idx KString] Cons.prems by auto
  obtain ranges where "(secondary_ranges env tokens from w ixs :: ('e, IndexRanges list) exec_result) = Some (Inr ranges)"
    "length ranges = length idxs"
    "\<And>row. selected env w row \<Longrightarrow> utf8_row env idxs row \<Longrightarrow> list_all2 (\<lambda>idx r. \<not> excluded env idx r row) idxs ranges"
    using Cons.IH Cons.prems by (metis list.pred_inject(2))
  then show ?case using Cons.hyps(1) r by (simp add: index_field_def utf8_row_def)
qed simp

lemma getIndexRanges_cover:
  assumes "checked_where env w" "list_all (ranges_right w) (kField # idxs)" "parses_to env tokens from ixs idxs"
  obtains ranges where "(getIndexRanges env tokens from ixs w :: ('e, IndexRanges list) exec_result) = Some (Inr ranges)" "length ranges = length (kField # idxs)"
    "\<And>row. selected env w row \<Longrightarrow> utf8_row env (kField # idxs) row \<Longrightarrow>
       list_all2 (\<lambda>idx r. \<not> excluded env idx r row) (kField # idxs) ranges"
proof -
  obtain r where r: "CompileIndexRanges kField KString w = Some r"
    "\<And>row. selected env w row \<Longrightarrow> utf8_row env [kField] row \<Longrightarrow> \<not> excluded env kField r row"
    using compile_covers [OF assms(1), of kField KString] assms(2) by auto
  obtain ranges where "(secondary_ranges env tokens from w ixs :: ('e, IndexRanges list) exec_result) = Some (Inr ranges)"
    "length ranges = length idxs"
    "\<And>row. selected env w row \<Longrightarrow> utf8_row env idxs row \<Longrightarrow> list_all2 (\<lambda>idx r. \<not> excluded env idx r row) idxs ranges"
    using secondary_ranges_cover [where ?'e = 'e, OF assms(1) _ assms(3)] assms(2) by (metis list.pred_inject(2))
  with r show thesis by (intro that [of "r # ranges"]) (auto simp: getIndexRanges_def utf8_row_def)
qed

text \<open>What a statement gets from its scan: all the rows that it selects.\<close>

lemma scan_selected:
  assumes "checked_where env w" "list_all (ranges_right w) (kField # idxs)" "parses_to env tokens from ixs idxs"
    "honours_scan env ds t (kField # idxs) rows err fresh" "list_all (utf8_row env (kField # idxs)) rows"
  obtains ranges s delivered where
    "(getIndexRanges env tokens from ixs w :: ('e, IndexRanges list) exec_result) = Some (Inr ranges)" "Scan ds t ranges = Inr s" "fresh s"
    "delivers ds s delivered err" "filter (selected env w) delivered = filter (selected env w) rows"
proof -
  obtain ranges where ranges: "(getIndexRanges env tokens from ixs w :: ('e, IndexRanges list) exec_result) = Some (Inr ranges)" "length ranges = length (kField # idxs)"
    "\<And>row. selected env w row \<Longrightarrow> utf8_row env (kField # idxs) row \<Longrightarrow>
       list_all2 (\<lambda>idx r. \<not> excluded env idx r row) (kField # idxs) ranges"
    by (rule getIndexRanges_cover [where ?'e = 'e, OF assms(1-3)]) blast
  obtain s keep where s: "Scan ds t ranges = Inr s" "fresh s" "delivers ds s (filter keep rows) err"
    "\<And>row. row \<in> set rows \<Longrightarrow> list_all2 (\<lambda>idx r. \<not> excluded env idx r row) (kField # idxs) ranges \<Longrightarrow> keep row"
    using assms(4) ranges(2) unfolding honours_scan_def by blast
  have "filter (selected env w) (filter keep rows) = filter (selected env w) rows"
    using s(4) ranges(3) assms(5) by (auto simp: filter_filter list_all_iff intro!: filter_cong)
  then show thesis by (rule that [OF ranges(1) s(1-3)])
qed


lemma checked_statement_where:
  assumes "checkWhereClause (env_std env) w ec = c_ok w'" "\<And>wh. w = Some wh \<Longrightarrow> holds_all benign_comparison (whereExpr wh)"
  shows "checked_where env w'"
proof (cases w)
  case (Some wh)
  then obtain e where e: "checkExpression (env_std env) ec (whereExpr wh) = c_ok e" "w' = Some (wh\<lparr>whereExpr := e\<rparr>)"
    using assms(1) by (auto simp: checkWhereClause_def c_bind_Inr)
  then show ?thesis
    using check_safe [OF assms(2) [OF Some], of "env_std env" ec] by (simp add: checked_where_def)
qed (use assms(1) in \<open>simp add: checkWhereClause_def checked_where_def\<close>)

lemma checked_select:
  assumes "Check (env_std env) get_table (SelectSt st0) = c_ok (SelectSt st, t)"
    "\<And>wh. stWhere st0 = Some wh \<Longrightarrow> holds_all benign_comparison (whereExpr wh)"
  shows "checked_where env (stWhere st)"
proof -
  obtain w where "checkWhereClause (env_std env) (stWhere st0) (stEscape st0) = c_ok w" "stWhere st = w"
    using assms(1) by (auto simp: Check_def checkSelectStatement_def c_bind_Inr)
  then show ?thesis using checked_statement_where assms(2) by blast
qed

lemma checked_delete:
  assumes "Check (env_std env) get_table (DeleteSt st0) = c_ok (DeleteSt st, t)"
    "\<And>wh. delWhere st0 = Some wh \<Longrightarrow> holds_all benign_comparison (whereExpr wh)"
  shows "checked_where env (delWhere st)"
proof -
  obtain w where "checkWhereClause (env_std env) (delWhere st0) (delEscape st0) = c_ok w" "delWhere st = w"
    using assms(1) by (auto simp: Check_def checkDeleteStatement_def c_bind_Inr)
  then show ?thesis using checked_statement_where assms(2) by blast
qed


subsection \<open>Deleting\<close>

text \<open>
  What is relied on when rows are deleted while they are read: \<open>deleted\<close> are the keys that have been deleted, \<open>may\<close> the keys
  that the caller may delete; deleting a key does not disturb the stream, and cancelling the stream does not undo it.
\<close>

definition honours_delete :: "('t, 's, 'e) data_source \<Rightarrow> 't \<Rightarrow> ('s \<Rightarrow> string list) \<Rightarrow> (string \<Rightarrow> bool) \<Rightarrow> bool" where
  "honours_delete ds t deleted may \<longleftrightarrow>
     (\<forall>s. deleted (snd (kvAdvance ds s)) = deleted s \<and> deleted (kvCancel ds s) = deleted s \<and>
        (\<forall>k. (fst (Delete ds t k s) = Inr True \<longleftrightarrow> may k) \<and>
           deleted (snd (Delete ds t k s)) = (if may k then deleted s @ [k] else deleted s) \<and>
           (\<forall>rows err. delivers ds s rows err \<longrightarrow> delivers ds (snd (Delete ds t k s)) rows err)))"

definition delete_limit :: "vvalue DeleteStatement \<Rightarrow> int \<Rightarrow> 'a list \<Rightarrow> 'a list" where
  "delete_limit st given xs = (case delLimit st of None \<Rightarrow> xs | Some l \<Rightarrow> take (nat (Limit l - given)) xs)"

definition deletable :: "eval_env \<Rightarrow> vvalue WhereClause option \<Rightarrow> (string \<Rightarrow> bool) \<Rightarrow> (string \<times> vvalue) list \<Rightarrow> string list" where
  "deletable env w may rows = filter may (map fst (filter (selected env w) rows))"

lemma delete_loop_delivered:
  assumes "delivers ds s rows err" "checked_where env (delWhere st)" "honours_delete ds t deleted may"
    "ks = delete_limit st n (deletable env (delWhere st) may rows)"
  shows "\<exists>stopped s'. delete_loop env ds t st s n = Some (Some (n + int (length ks), stopped, s')) \<and>
    deleted s' = deleted s @ ks \<and> kvErr ds s' = (if stopped then None else err) \<and>
    (stopped \<longrightarrow> (\<exists>l. delLimit st = Some l \<and> Limit l \<le> n + int (length ks)))"
  using assms(1,4)
proof (induction rows arbitrary: s n ks)
  case Nil
  obtain s1 where s1: "kvAdvance ds s = (False, s1)" "kvErr ds s1 = err" using Nil.prems(1) by (auto split: prod.splits)
  have "deleted s1 = deleted s" using assms(3) s1(1) by (metis honours_delete_def snd_conv)
  moreover have "ks = []" using Nil.prems(2) by (simp add: delete_limit_def deletable_def split: option.splits)
  ultimately show ?case using s1 by (subst delete_loop.simps) auto
next
  case (Cons r rows)
  obtain k v where r: "r = (k, v)" by (cases r)
  obtain s1 where s1: "kvAdvance ds s = (True, s1)" "kvErr ds s1 = None" "kvKeyValue ds s1 = (k, v)" "delivers ds s1 rows err"
    using Cons.prems(1) by (auto simp: r split: prod.splits)
  have del: "deleted s1 = deleted s" using assms(3) s1(1) by (metis honours_delete_def snd_conv)
  note step = delete_loop.simps [of env ds t st s n]
  show ?case
  proof (cases "case delLimit st of None \<Rightarrow> False | Some l \<Rightarrow> Limit l \<le> n")
    case True
    then have "ks = []" using Cons.prems(2) by (auto simp: delete_limit_def split: option.splits)
    then show ?thesis using True s1 del by (subst step) (auto split: option.splits)
  next
    case False
    show ?thesis
    proof (cases "selected env (delWhere st) r")
      case no: False
      then have "ks = delete_limit st n (deletable env (delWhere st) may rows)" using Cons.prems(2) by (simp add: deletable_def)
      from Cons.IH [OF s1(4) this] show ?thesis
        using False no s1 del row_matches_selected [OF assms(2), of k v] by (subst step) (simp add: r)
    next
      case yes: True
      obtain b s2 where s2: "Delete ds t k s1 = (b, s2)" by (cases "Delete ds t k s1")
      have h: "b = Inr True \<longleftrightarrow> may k" "deleted s2 = (if may k then deleted s @ [k] else deleted s)" "delivers ds s2 rows err"
        using assms(3) s1(4) s2 del unfolding honours_delete_def by (metis fst_conv snd_conv)+
      let ?n = "if may k then n + 1 else n" and ?rest = "deletable env (delWhere st) may rows"
      have ks: "ks = (if may k then k # delete_limit st ?n ?rest else delete_limit st ?n ?rest)"
      proof (cases "delLimit st")
        case (Some l)
        then have "nat (Limit l - n) = Suc (nat (Limit l - (n + 1)))" using False by simp
        then show ?thesis using Cons.prems(2) yes by (simp add: delete_limit_def deletable_def r Some)
      qed (use Cons.prems(2) yes in \<open>simp add: delete_limit_def deletable_def r\<close>)
      have "delete_loop env ds t st s n = delete_loop env ds t st s2 ?n"
        using False yes s1 s2 h(1) row_matches_selected [OF assms(2), of k v] by (subst step) (simp add: r)
      then show ?thesis using Cons.IH [OF h(3) refl, of ?n] h(2) ks by (auto simp: add_ac)
    qed
  qed
qed



subsection \<open>Handles of prepared statements\<close>

datatype engine_call = CallPrepare string | CallClose int

definition engine_step :: "eval_env \<Rightarrow> (string \<Rightarrow> scanner) \<Rightarrow> engine_call \<Rightarrow> query_engine \<Rightarrow> query_engine" where
  "engine_step env tokens c qe =
     (case c of
        CallPrepare q \<Rightarrow> (case PrepareStatement env tokens q qe of None \<Rightarrow> qe | Some (_, qe') \<Rightarrow> qe')
      | CallClose h \<Rightarrow> ps_Close h qe)"

text \<open>Engines after any sequence of calls.\<close>

definition engine_after :: "eval_env \<Rightarrow> (string \<Rightarrow> scanner) \<Rightarrow> engine_call list \<Rightarrow> query_engine \<Rightarrow> query_engine" where
  "engine_after env tokens calls qe = fold (engine_step env tokens) calls qe"

definition handles_issued :: "query_engine \<Rightarrow> bool" where
  "handles_issued qe \<longleftrightarrow> (\<forall>h s. preparedStatements qe h = Some s \<longrightarrow> h < nextID qe)"

lemma engine_step_cases:
  "nextID qe \<le> nextID (engine_step env tokens c qe)"
  "h < nextID qe \<Longrightarrow> preparedStatements (engine_step env tokens c qe) h = (if c = CallClose h then None else preparedStatements qe h)"
  "handles_issued qe \<Longrightarrow> handles_issued (engine_step env tokens c qe)"
  by (auto simp: engine_step_def PrepareStatement_def ps_Close_def handles_issued_def
      split: engine_call.split option.split sum.split if_splits)

lemma engine_after_issued: "handles_issued qe \<Longrightarrow> handles_issued (engine_after env tokens calls qe)"
  unfolding engine_after_def by (induction calls arbitrary: qe) (simp_all add: engine_step_cases(3))

lemma engine_after_kept:
  "h < nextID qe \<Longrightarrow> preparedStatements (engine_after env tokens calls qe) h =
     (if CallClose h \<in> set calls then None else preparedStatements qe h)"
  unfolding engine_after_def
proof (induction calls arbitrary: qe)
  case (Cons c calls)
  have "h < nextID (engine_step env tokens c qe)" using engine_step_cases(1) [of qe env tokens c] Cons.prems by simp
  from Cons.IH [OF this] show ?case using engine_step_cases(2) [OF Cons.prems, of env tokens c] by auto
qed simp



subsection \<open>Examples\<close>

text \<open>A data source over a list of rows that scans the ranges of the key and lets everything be deleted.\<close>

type_synonym sample_state = "(string \<times> vvalue) list \<times> (string \<times> vvalue) option \<times> string list"

fun sample_advance :: "sample_state \<Rightarrow> bool \<times> sample_state" where
  "sample_advance ([], c, d) = (False, [], None, d)"
| "sample_advance (r # rs, c, d) = (True, rs, Some r, d)"

definition sample_source :: "(string \<times> vvalue) list \<Rightarrow> (unit, sample_state, string) data_source" where
  "sample_source rows = \<lparr>GetTable = (\<lambda>_ _. Some ()), GetIndexFields = (\<lambda>_. []),
     Scan = (\<lambda>_ ranges. Inr (filter (\<lambda>r. in_ranges (fst r) (StringRanges (hd ranges))) rows, None, [])),
     Delete = (\<lambda>_ k (rs, c, d). (Inr True, rs, c, d @ [k])), kvAdvance = sample_advance,
     kvKeyValue = (\<lambda>(_, c, _). case c of None \<Rightarrow> ([], nil_value) | Some r \<Rightarrow> r), kvErr = (\<lambda>_. None),
     kvCancel = (\<lambda>(_, _, d). ([], None, d))\<rparr>"

lemma sample_delivers: "delivers (sample_source rows0) (rs, c, d) rows err \<longleftrightarrow> rows = rs \<and> err = None"
  by (induction rows arbitrary: rs c) (case_tac rs; auto simp: sample_source_def)+

lemma sample_scan: "honours_scan env (sample_source rows) t [kField] rows None (\<lambda>s. snd (snd s) = [])"
proof -
  have "in_ranges (fst row) (StringRanges r)" if "\<not> excluded env kField r row" for row r
    using that key_index [of env "fst row" "Some (snd row)"] by (auto simp: excluded_def)
  then show ?thesis
    unfolding honours_scan_def
    by (auto simp: sample_source_def sample_delivers [unfolded sample_source_def] length_Suc_conv)
qed

lemma sample_scan_any: "honours_scan env (sample_source rows) t [kField] rows None (\<lambda>_. True)"
  using sample_scan [of env rows t] unfolding honours_scan_def by blast

lemma sample_advance_deleted: "snd (snd (snd (sample_advance s))) = snd (snd s)"
  by (cases s rule: sample_advance.cases) simp_all

lemma sample_source_simps [simp]:
  "kvAdvance (sample_source rows) = sample_advance" "kvCancel (sample_source rows) (rs, c, d) = ([], None, d)"
  "Delete (sample_source rows) t k (rs, c, d) = (Inr True, rs, c, d @ [k])"
  by (simp_all add: sample_source_def)

lemma sample_delete: "honours_delete (sample_source rows) t (\<lambda>s. snd (snd s)) (\<lambda>_. True)"
  unfolding honours_delete_def split_paired_All sample_source_simps by (simp add: sample_advance_deleted sample_delivers)

definition sample_rows :: "(string \<times> vvalue) list" where
  "sample_rows = [(''a'', VvInt 1), (''b'', VvInt 2), (''c'', VvInt 3), (''d'', VvInt 4)]"

definition sample_from :: FromClause where
  "sample_from = \<lparr>fromOff = 0, tableOff = 0, tableName = ''t''\<rparr>"

definition one :: LimitClause where
  "one = \<lparr>limOff = 0, limValueOff = 0, Limit = 1\<rparr>"

text \<open>\<open>select k from t where k > 'a' and k <> 'c' limit 1 offset 1\<close>, and \<open>delete from t where k > 'a' and k <> 'c' limit 1\<close>\<close>

definition sample_select :: "vvalue SelectStatement" where
  "sample_select = \<lparr>selStOff = 0, stSelect = \<lparr>scOff = 0, Selectors = [\<lparr>selOff = 0, selBody = TypSelField kField, selAs = None\<rparr>]\<rparr>,
     stFrom = sample_from, stWhere = Some \<lparr>whereOff = 0, whereExpr = sample_where\<rparr>, stEscape = None, stLimit = Some one,
     stResultsOffset = Some one\<rparr>"

definition sample_delete_statement :: "vvalue DeleteStatement" where
  "sample_delete_statement = \<lparr>delOff = 0, delFrom = sample_from, delWhere = Some \<lparr>whereOff = 0, whereExpr = sample_where\<rparr>,
     delEscape = None, delLimit = Some one\<rparr>"

lemma sample_facts:
  "holds_all benign_comparison sample_where" "ranges_right (Some \<lparr>whereOff = 0, whereExpr = sample_where\<rparr>) kField"
  "checkExpression (env_std sample_env) None sample_where = c_ok sample_where"
  "filter (selected sample_env (Some \<lparr>whereOff = 0, whereExpr = sample_where\<rparr>)) sample_rows = [(''b'', VvInt 2), (''d'', VvInt 4)]"
  by code_simp+

lemma sample_utf8: "list_all (utf8_row sample_env [kField]) sample_rows"
  using key_index by (auto simp: sample_rows_def utf8_row_def index_is_def ascii_simps kField_def)

text \<open>The tokens of \<open>select k from t\<close>, a statement to prepare.\<close>

definition sample_tokens :: scanner where
  "sample_tokens = \<lparr>sc_toks = [ident ''select'' 0, ident ''k'' 7, ident ''from'' 9, ident ''t'' 14], sc_eof = (15, False)\<rparr>"




definition prepared_select :: "vvalue Statement" where
  "prepared_select = SelectSt \<lparr>selStOff = 0, stSelect = \<lparr>scOff = 0, Selectors = [\<lparr>selOff = 7, selBody = TypSelField (Field 7 [Segment 7 ''k'' []]), selAs = None\<rparr>]\<rparr>,
     stFrom = \<lparr>fromOff = 9, tableOff = 14, tableName = ''t''\<rparr>, stWhere = None, stEscape = None, stLimit = None, stResultsOffset = None\<rparr>"


end
