(* ===== verification/Conventions.thy ===== *)
theory Conventions
  imports SecurityPattern
begin

text \<open>
  Package conventions (src/conventions/conventions.go, uid.go): the structure that blessing names have by
  convention, \<open>idp:u:user\<close> and \<open>idp:o:app:user\<close>, the patterns made from it, and the ids of the users of a
  call. Strings are byte strings; what the security package answers (the blessing names of the peer, whether both
  ends have the same key) is an argument of \<open>GetClientUserIds\<close>.
\<close>

section \<open>Structured blessing names\<close>

record ConvBlessing =
  IdentityProvider :: string
  User :: string
  Application :: string
  RestOf :: string

datatype conv_format = formatInfer | formatUser | formatAppUser

definition inferFormat :: "ConvBlessing \<Rightarrow> conv_format" where
  "inferFormat b = (if length (Application b) = 0 then formatUser else formatAppUser)"

definition conv_join :: "string list \<Rightarrow> string" where
  "conv_join elems =
     join ChainSeparator (if 0 < length elems \<and> last elems = [] then butlast elems else elems)"

definition conv_pattern :: "string list \<Rightarrow> BlessingPattern" where
  "conv_pattern elems = (if list_ex (\<lambda>e. length e = 0) elems then NoExtension else conv_join elems)"

definition BlessingString :: "ConvBlessing \<Rightarrow> string" where
  "BlessingString b =
     (case inferFormat b of
        formatUser \<Rightarrow> conv_join [IdentityProvider b, ''u'', User b, RestOf b]
      | formatAppUser \<Rightarrow> conv_join [IdentityProvider b, ''o'', Application b, User b, RestOf b]
      | _ \<Rightarrow> [])"

definition Home :: "ConvBlessing \<Rightarrow> string" where
  "Home b =
     (case inferFormat b of
        formatUser \<Rightarrow> Join [''home'', EncodeAsNameElement (conv_join [IdentityProvider b, ''u'', User b])]
      | formatAppUser \<Rightarrow> Join [''home'', EncodeAsNameElement (conv_join [IdentityProvider b, ''o'', Application b, User b])]
      | _ \<Rightarrow> [])"

definition UserPattern :: "ConvBlessing \<Rightarrow> BlessingPattern" where
  "UserPattern b = conv_pattern [IdentityProvider b, ''u'', User b]"

definition AppUserPattern :: "ConvBlessing \<Rightarrow> BlessingPattern" where
  "AppUserPattern b = conv_pattern [IdentityProvider b, ''o'', Application b, User b]"

definition AppPattern :: "ConvBlessing \<Rightarrow> BlessingPattern" where
  "AppPattern b = conv_pattern [IdentityProvider b, ''o'', Application b]"

text \<open>\<open>None\<close> is the false second result.\<close>

definition parseOne :: "string \<Rightarrow> ConvBlessing option" where
  "parseOne blessingName =
     (let ps = split_n 4 (CHR '':'') blessingName in
      if length ps < 3 then None
      else
        let rest = (if 3 < length ps then ps ! 3 else []) in
        if ps ! 1 = ''u'' then
          Some \<lparr>IdentityProvider = ps ! 0, User = ps ! 2, Application = [], RestOf = rest\<rparr>
        else if ps ! 1 = ''o'' then
          (if length rest = 0 then None
           else
             let moreparts = split_n 2 (CHR '':'') rest in
             Some \<lparr>IdentityProvider = ps ! 0, User = moreparts ! 0, Application = ps ! 2,
                   RestOf = (if 1 < length moreparts then moreparts ! 1 else [])\<rparr>)
        else None)"

definition ParseBlessingNames :: "string list \<Rightarrow> ConvBlessing list" where
  "ParseBlessingNames blessingNames = List.map_filter parseOne blessingNames"

section \<open>User ids\<close>

definition ServerUser :: string where
  "ServerUser = ''self:?:ServerUser''"

definition UnauthenticatedUser :: string where
  "UnauthenticatedUser = ''self:?:Unauthenticated''"

text \<open>An empty result is nil.\<close>

definition ParseUserId :: "string \<Rightarrow> string list" where
  "ParseUserId s =
     (let c = split_on (CHR '':'') s in
      if 3 \<le> length c \<and> length (c ! 1) = 1 then take 3 c
      else if 1 \<le> length c then take 1 c
      else [])"

text \<open>
  The call, when there is one: the blessing names of the remote end, and whether its public key is the
  local one, which exists.
\<close>

fun GetClientUserIds :: "(string list \<times> bool) option \<Rightarrow> string list" where
  "GetClientUserIds None = [ServerUser]"
| "GetClientUserIds (Some (rbn, sameKey)) =
     (let ids = map (join ChainSeparator) (filter (\<lambda>c. c \<noteq> []) (map ParseUserId rbn));
          ids' = (if sameKey then ids @ [ServerUser] else ids) in
      if 0 < length ids' then ids' else [UnauthenticatedUser])"

section \<open>Reading the conventional forms\<close>

text \<open>The two forms, by the components of the name.\<close>

definition conventional :: "string list \<Rightarrow> ConvBlessing \<Rightarrow> bool" where
  "conventional cs b \<longleftrightarrow>
     (\<exists>ms. cs = [IdentityProvider b, ''u'', User b] @ ms \<and> Application b = [] \<and> RestOf b = join '':'' ms) \<or>
     (\<exists>ms. cs = [IdentityProvider b, ''o'', Application b, User b] @ ms \<and> RestOf b = join '':'' ms \<and>
        (User b = [] \<longrightarrow> ms \<noteq> []))"

lemma split_once_parts:
  "split_once '':'' s = None \<longleftrightarrow> tl (parts s) = []"
  "split_once '':'' s = Some (a, r) \<Longrightarrow> parts s = a # parts r"
proof -
  show "split_once '':'' s = None \<longleftrightarrow> tl (parts s) = []"
  proof (cases "CHR '':'' \<in> set s")
    case True
    then obtain a r where "s = a @ CHR '':'' # r" "CHR '':'' \<notin> set a" by (metis split_list_first)
    then show ?thesis by (auto simp: split_once_None_char parts_def split_on_append)
  qed (simp add: split_once_None_char parts_def split_on_no_sep)
  assume h: "split_once '':'' s = Some (a, r)"
  from split_once_SomeD [OF h] split_once_char_notin [OF h] show "parts s = a # parts r"
    by (simp add: parts_def split_on_append)
qed

lemma split_n_parts:
  "split_n (Suc n) (CHR '':'') s =
     (if length (parts s) \<le> Suc n then parts s else take n (parts s) @ [join '':'' (drop n (parts s))])"
proof (induction n arbitrary: s)
  case 0
  have "length (parts s) \<le> 1 \<Longrightarrow> parts s = [s]"
    using join_parts [of s] by (cases "parts s") auto
  then show ?case by (auto simp: join_parts)
next
  case (Suc n)
  show ?case
  proof (cases "split_once '':'' s")
    case None
    then have "parts s = [s]" using split_once_parts(1) [of s] join_parts [of s] by (cases "parts s") auto
    with None show ?thesis by simp
  next
    case (Some p)
    obtain a r where p: "p = (a, r)" by (cases p)
    have "parts s = a # parts r" using Some split_once_parts(2) p by blast
    then show ?thesis using Some p Suc.IH [of r] by auto
  qed
qed

lemma parseOne_parts:
  "parseOne n =
     (case parts n of
        idp # t # x # ms \<Rightarrow>
          if t = ''u'' then
            Some \<lparr>IdentityProvider = idp, User = x, Application = [], RestOf = join '':'' ms\<rparr>
          else if t = ''o'' then
            (case ms of
               [] \<Rightarrow> None
             | u # ms' \<Rightarrow>
                 if u = [] \<and> ms' = [] then None
                 else Some \<lparr>IdentityProvider = idp, User = u, Application = x, RestOf = join '':'' ms'\<rparr>)
          else None
      | _ \<Rightarrow> None)"
proof -
  have s4: "split_n 4 (CHR '':'') n =
      (if length (parts n) \<le> 4 then parts n else take 3 (parts n) @ [join '':'' (drop 3 (parts n))])"
    using split_n_parts [of 3 n] by (simp add: eval_nat_numeral)
  have s2: "split_n 2 (CHR '':'') s =
      (if length (parts s) \<le> 2 then parts s else take 1 (parts s) @ [join '':'' (drop 1 (parts s))])" for s
    using split_n_parts [of 1 s] by (simp add: eval_nat_numeral)
  have no: "list_all (\<lambda>x. CHR '':'' \<notin> set x) (parts n)" by (rule parts_no_sep)
  have pj: "parts (join '':'' xs) = xs" if "xs \<noteq> []" "list_all (\<lambda>x. CHR '':'' \<notin> set x) xs" for xs
    using that by (simp add: parts_def split_on_join)
  show ?thesis
  proof (cases "length (parts n) \<le> 3")
    case True
    then consider "length (parts n) < 3" | idp t x where "parts n = [idp, t, x]"
      by (metis (no_types, opaque_lifting) le_neq_implies_less length_0_conv length_Suc_conv numeral_3_eq_3)
    then show ?thesis
      by cases (auto simp: parseOne_def s4 Let_def split: list.split)
  next
    case False
    then obtain idp t x u ms where p: "parts n = idp # t # x # u # ms"
      by (metis (no_types, opaque_lifting) Suc_le_length_iff not_less_eq_eq numeral_3_eq_3)
    define rest where "rest = join '':'' (u # ms)"
    have r: "split_n 4 (CHR '':'') n = [idp, t, x, rest]"
      unfolding s4 p rest_def by (cases ms) simp_all
    have "parts rest = u # ms" using no pj [of "u # ms"] by (simp add: p rest_def)
    then have m: "split_n 2 (CHR '':'') rest = u # (if ms = [] then [] else [join '':'' ms])"
      unfolding s2 by (cases ms; cases "tl ms") auto
    have z: "rest = [] \<longleftrightarrow> u = [] \<and> ms = []" unfolding rest_def by (cases ms) (simp_all add: join_Cons)
    show ?thesis
      by (simp add: parseOne_def r m z Let_def p split: list.split) (simp add: rest_def join_Cons)
  qed
qed

lemma parseOne_conventional:
  assumes "parseOne n = Some b"
  shows "conventional (parts n) b"
  using assms by (auto simp: parseOne_parts conventional_def split: list.splits if_splits)

text \<open>A blessing name that the security package accepts: no component is empty.\<close>

definition full_name :: "string \<Rightarrow> bool" where
  "full_name n \<longleftrightarrow> list_all (\<lambda>e. e \<noteq> []) (parts n)"

lemma ext_ok_full: "list_all ext_ok (parts n) \<Longrightarrow> full_name n"
  unfolding full_name_def by (erule list.pred_mono_strong) auto

lemma conv_join_snoc: "conv_join (es @ [e]) = (if e = [] then join '':'' es else join '':'' (es @ [e]))"
  by (simp add: conv_join_def ChainSeparator_def)

lemma conv_join_rest:
  assumes "es \<noteq> []" "list_all (\<lambda>e. e \<noteq> []) ms"
  shows "conv_join (es @ [join '':'' ms]) = join '':'' (es @ ms)"
proof (cases "ms = []")
  case False
  then have "join '':'' ms \<noteq> []" using assms(2) by (cases ms; cases "tl ms") auto
  with False assms(1) show ?thesis by (simp add: conv_join_snoc join_append)
qed (simp add: conv_join_snoc)

lemma BlessingString_eq:
  "BlessingString b =
     (if Application b = [] then conv_join ([IdentityProvider b, ''u'', User b] @ [RestOf b])
      else conv_join ([IdentityProvider b, ''o'', Application b, User b] @ [RestOf b]))"
  by (simp add: BlessingString_def inferFormat_def)

text \<open>The patterns of a name that has the conventional form are prefixes of its components.\<close>

lemma conv_pattern_full: "es \<noteq> [] \<Longrightarrow> list_all (\<lambda>e. e \<noteq> []) es \<Longrightarrow> conv_pattern es = join '':'' es"
  by (auto simp: conv_pattern_def conv_join_def ChainSeparator_def list_ex_iff list_all_iff)

lemma conventional_app:
  assumes "conventional (parts n) b" "full_name n"
  shows "Application b = [] \<longleftrightarrow> (\<exists>ms. parts n = [IdentityProvider b, ''u'', User b] @ ms)"
  using assms unfolding conventional_def full_name_def by auto

lemma base_of_plain:
  assumes "p \<noteq> ''$''" "\<not> suffix '':$'' p"
  shows "pattern_base p = p" "extendable p"
  using open_ended_base [OF assms] by simp_all

text \<open>Components that are no blessing name's make an open pattern; the names that extend them match it.\<close>

lemma join_prefix_matches:
  assumes "prefix es (parts n)" "list_all ext_ok (parts n)" "es \<noteq> []" "2 \<le> length es"
  shows "MatchedBy (join '':'' es) [n]"
proof -
  have no: "list_all (\<lambda>x. CHR '':'' \<notin> set x) es"
    using parts_no_sep [of n] assms(1) by (auto simp: prefix_def)
  then have p: "parts (join '':'' es) = es" using assms(3) by (simp add: parts_def split_on_join)
  have no_char: "parts ''$'' = [''$'']" "parts ''...'' = [''...'']" "\<not> ext_ok ''$''" by code_simp+
  have long: "es \<noteq> [e]" for e using assms(4) by auto
  have ok: "list_all ext_ok es" using assms(1,2) by (auto simp: prefix_def)
  have l: "last es \<noteq> ''$''" using ok assms(3) no_char(3) by (metis last_in_set list_all_iff)
  have "join '':'' es \<noteq> ''$''" "join '':'' es \<noteq> ''...''" "join '':'' es \<noteq> []"
    using long p no_char(1,2) parts_Nil by metis+
  moreover have "\<not> suffix '':$'' (join '':'' es)"
  proof
    assume "suffix '':$'' (join '':'' es)"
    then obtain q where "join '':'' es = q @ CHR '':'' # ''$''" by (auto simp: suffix_def)
    then have "es = parts q @ [''$'']" using p parts_sep [of q "''$''"] no_char(1) by metis
    with l show False by simp
  qed
  ultimately show ?thesis using assms(1) ok by (simp add: MatchedBy_iff IsValid_iff open_ended_base p)
qed

text \<open>The parts of a conventional name, as a list.\<close>

definition conv_components :: "ConvBlessing \<Rightarrow> string list" where
  "conv_components b =
     (if Application b = [] then [IdentityProvider b, ''u'', User b]
      else [IdentityProvider b, ''o'', Application b, User b])"

definition rest_components :: "ConvBlessing \<Rightarrow> string list" where
  "rest_components b = (if RestOf b = [] then [] else parts (RestOf b))"

definition conv_ok :: "ConvBlessing \<Rightarrow> bool" where
  "conv_ok b \<longleftrightarrow> list_all (\<lambda>e. e \<noteq> [] \<and> CHR '':'' \<notin> set e) (conv_components b) \<and> list_all (\<lambda>e. e \<noteq> []) (rest_components b)"

lemma rest_components_join:
  "list_all (\<lambda>e. CHR '':'' \<notin> set e) ms \<Longrightarrow> list_all (\<lambda>e. e \<noteq> []) ms \<Longrightarrow> RestOf b = join '':'' ms \<Longrightarrow> rest_components b = ms"
  by (cases "ms = []") (auto simp: rest_components_def join_eq_Nil parts_def split_on_join)

lemma rest_components_no_sep: "list_all (\<lambda>e. CHR '':'' \<notin> set e) (rest_components b)"
  by (simp add: rest_components_def parts_no_sep)

lemma join_rest_components: "join '':'' (rest_components b) = RestOf b"
  by (simp add: rest_components_def join_parts)

lemma parseOne_full:
  assumes "full_name n"
  shows "parseOne n = Some b \<longleftrightarrow> conv_ok b \<and> parts n = conv_components b @ rest_components b"
proof
  assume "parseOne n = Some b"
  from parseOne_conventional [OF this]
  obtain ms where ms: "RestOf b = join '':'' ms"
    "parts n = [IdentityProvider b, ''u'', User b] @ ms \<and> Application b = [] \<or>
     parts n = [IdentityProvider b, ''o'', Application b, User b] @ ms"
    unfolding conventional_def by blast
  have all: "list_all (\<lambda>e. e \<noteq> []) (parts n)" "list_all (\<lambda>e. CHR '':'' \<notin> set e) (parts n)"
    using assms parts_no_sep [of n] by (simp_all add: full_name_def)
  have "rest_components b = ms" using ms all by (intro rest_components_join) auto
  then show "conv_ok b \<and> parts n = conv_components b @ rest_components b"
    using ms all by (auto simp: conv_ok_def conv_components_def)
next
  assume h: "conv_ok b \<and> parts n = conv_components b @ rest_components b"
  then show "parseOne n = Some b"
    by (cases "Application b = []") (simp_all add: parseOne_parts conv_components_def conv_ok_def join_rest_components)
qed

lemma conv_components_not_Nil [simp]: "conv_components b \<noteq> []"
  by (simp add: conv_components_def)

lemma BlessingString_components:
  assumes "conv_ok b"
  shows "BlessingString b = join '':'' (conv_components b @ rest_components b)"
proof -
  have "BlessingString b = conv_join (conv_components b @ [join '':'' (rest_components b)])"
    by (simp add: BlessingString_eq conv_components_def join_rest_components)
  then show ?thesis using assms by (simp only: conv_ok_def conv_join_rest conv_components_not_Nil simp_thms)
qed

lemma conv_no_sep: "conv_ok b \<Longrightarrow> list_all (\<lambda>e. CHR '':'' \<notin> set e) (conv_components b @ rest_components b)"
  using rest_components_no_sep [of b] unfolding conv_ok_def by (auto elim: list.pred_mono_strong)

lemma parts_BlessingString: "conv_ok b \<Longrightarrow> parts (BlessingString b) = conv_components b @ rest_components b"
  unfolding BlessingString_components parts_def by (rule split_on_join) (simp_all add: conv_no_sep del: list_all_append)

text \<open>The patterns of a conventional blessing are joined prefixes of the components of its name.\<close>

lemma conv_patterns:
  assumes "conv_ok b"
  shows "Application b = [] \<Longrightarrow> UserPattern b = join '':'' [IdentityProvider b, ''u'', User b]"
    "Application b \<noteq> [] \<Longrightarrow> AppUserPattern b = join '':'' [IdentityProvider b, ''o'', Application b, User b]"
    "Application b \<noteq> [] \<Longrightarrow> AppPattern b = join '':'' [IdentityProvider b, ''o'', Application b]"
    "Application b = [] \<Longrightarrow> AppUserPattern b = NoExtension" "Application b = [] \<Longrightarrow> AppPattern b = NoExtension"
  using assms
  by (auto simp: UserPattern_def AppUserPattern_def AppPattern_def conv_ok_def conv_components_def conv_pattern_full)
    (simp_all add: conv_pattern_def)

lemma conv_patterns_match:
  assumes "conv_ok b" "parts n = conv_components b @ rest_components b" "list_all ext_ok (parts n)"
  shows "Application b = [] \<Longrightarrow> MatchedBy (UserPattern b) [n]"
    "Application b \<noteq> [] \<Longrightarrow> MatchedBy (AppUserPattern b) [n]"
    "Application b \<noteq> [] \<Longrightarrow> MatchedBy (AppPattern b) [n]"
proof -
  show "MatchedBy (UserPattern b) [n]" if "Application b = []"
    unfolding conv_patterns(1) [OF assms(1) that]
    by (rule join_prefix_matches) (use assms(2,3) that in \<open>simp_all add: conv_components_def\<close>)
  show "MatchedBy (AppUserPattern b) [n]" if "Application b \<noteq> []"
    unfolding conv_patterns(2) [OF assms(1) that]
    by (rule join_prefix_matches) (use assms(2,3) that in \<open>simp_all add: conv_components_def\<close>)
  show "MatchedBy (AppPattern b) [n]" if "Application b \<noteq> []"
    unfolding conv_patterns(3) [OF assms(1) that]
    by (rule join_prefix_matches) (use assms(2,3) that in \<open>simp_all add: conv_components_def\<close>)
qed

section \<open>Properties\<close>

text \<open>
  A blessing name without empty components is read as a structured blessing exactly when that blessing is
  well formed and writes itself as the name: reading and writing conventional names are inverse.
\<close>

theorem conventional_names_roundtrip:
  assumes "full_name n"
  shows "parseOne n = Some b \<longleftrightarrow> conv_ok b \<and> BlessingString b = n"
proof -
  have "BlessingString b = n \<longleftrightarrow> parts n = conv_components b @ rest_components b" if "conv_ok b"
    using parts_BlessingString [OF that] parts_inject by metis
  then show ?thesis using parseOne_full [OF assms] by blast
qed

theorem conventional_names_roundtrip_witness:
  "parseOne ''i:o:app:al:x'' =
     Some \<lparr>IdentityProvider = ''i'', User = ''al'', Application = ''app'', RestOf = ''x''\<rparr>"
proof -
  let ?b = "\<lparr>IdentityProvider = ''i'', User = ''al'', Application = ''app'', RestOf = ''x''\<rparr>"
  have "full_name ''i:o:app:al:x''" by (simp add: full_name_def parts_def)
  moreover have "conv_ok ?b \<and> BlessingString ?b = ''i:o:app:al:x''"
    by (simp add: conv_ok_def conv_components_def rest_components_def parts_def BlessingString_eq conv_join_def ChainSeparator_def)
  ultimately show ?thesis using conventional_names_roundtrip [of "''i:o:app:al:x''" ?b] by simp
qed

text \<open>The ids of a caller are never empty, and the server's own id is among them exactly when the keys agree or a blessing gives it.\<close>

lemma ParseUserId_not_Nil: "ParseUserId s \<noteq> []"
  by (simp add: ParseUserId_def Let_def)

lemma GetClientUserIds_cases:
  "GetClientUserIds (Some (rbn, same)) =
     (if rbn = [] \<and> \<not> same then [UnauthenticatedUser]
      else map (\<lambda>b. join '':'' (ParseUserId b)) rbn @ (if same then [ServerUser] else []))"
proof -
  have "filter (\<lambda>c. c \<noteq> []) (map ParseUserId rbn) = map ParseUserId rbn"
    by (rule filter_True) (auto simp: ParseUserId_not_Nil)
  then show ?thesis by (simp add: Let_def ChainSeparator_def comp_def)
qed

end
