(* ===== verification/SyncbaseNames.thy ===== *)
theory SyncbaseNames
  imports Conventions QueryRanges SecurityAccess
begin

text \<open>
  Names of the Syncbase client library: ids and their encoding in object names, the validity of ids and
  row keys, ranges of rows and the patterns of a watch (src/syncbase/util/util.go, list_child_ids.go,
  src/syncbase/rowrange.go, src/services/syncbase/types.go), the names of the handles (service.go,
  database_batch.go, collection.go, row.go), and the patterns inferred from blessings.

  Strings are byte strings. The namespace is not code of the package: what \<open>ns.Glob\<close> replies is an argument.
\<close>

section \<open>Ids and their names\<close>

record Id =
  idBlessing :: string
  idName :: string

datatype name_error =
    DecodeFailed string
  | ParseIdFailed string
  | EmptyBlessing
  | BlessingTooLong
  | EmptyName
  | NameTooLong
  | BlessingMatchesNothing
  | BlessingNotPattern
  | BlessingReserved
  | NameControl
  | NameReserved
  | EmptyRowKey
  | RowKeyControl
  | RowKeyReserved
  | BadArg string
  | InvalidName string name_error
  | FoundMultipleAppUserBlessings string string
  | FoundMultipleUserBlessings string string
  | FoundNoConventionalBlessings

definition Id_String :: "Id \<Rightarrow> string" where
  "Id_String i = idBlessing i @ '','' @ idName i"

definition ParseId :: "string \<Rightarrow> name_error + Id" where
  "ParseId s =
     (let ps = split_n 2 (CHR '','') s in
      if length ps \<noteq> 2 then Inl (ParseIdFailed s)
      else Inr \<lparr>idBlessing = ps ! 0, idName = ps ! 1\<rparr>)"

definition EncodeName :: "string \<Rightarrow> string" where
  "EncodeName s = EncodeAsNameElement s"

definition DecodeName :: "string \<Rightarrow> name_error + string" where
  "DecodeName s = (case DecodeFromNameElement s of (res, ok) \<Rightarrow> if \<not> ok then Inl (DecodeFailed s) else Inr res)"

definition EncodeId :: "Id \<Rightarrow> string" where
  "EncodeId i = EncodeName (Id_String i)"

definition DecodeId :: "string \<Rightarrow> name_error + Id" where
  "DecodeId s = and_then (DecodeName s) ParseId"

definition reservedBytes :: "string list" where
  "reservedBytes = [[CHR 0x00], [CHR 0xFC], [CHR 0xFD], [CHR 0xFE], [CHR 0xFF]]"

definition containsAnyOf :: "string \<Rightarrow> string list \<Rightarrow> bool" where
  "containsAnyOf s needles = list_ex (\<lambda>v. sublist v s) needles"

definition maxBlessingLen :: nat where
  "maxBlessingLen = 1024"

definition maxNameLen :: nat where
  "maxNameLen = 1024"

text \<open>\<open>None\<close> is a nil error.\<close>

definition ValidateId :: "Id \<Rightarrow> name_error option" where
  "ValidateId i =
     (if length (idBlessing i) = 0 then Some EmptyBlessing
      else if maxBlessingLen < length (idBlessing i) then Some BlessingTooLong
      else if length (idName i) = 0 then Some EmptyName
      else if maxNameLen < length (idName i) then Some NameTooLong
      else if idBlessing i = NoExtension then Some BlessingMatchesNothing
      else if \<not> IsValid (idBlessing i) then Some BlessingNotPattern
      else if containsAnyOf (idBlessing i) reservedBytes then Some BlessingReserved
      else if has_control (idName i) then Some NameControl
      else if containsAnyOf (idName i) reservedBytes then Some NameReserved
      else None)"

definition ValidateRowKey :: "string \<Rightarrow> name_error option" where
  "ValidateRowKey s =
     (if s = [] then Some EmptyRowKey
      else if has_control s then Some RowKeyControl
      else if containsAnyOf s reservedBytes then Some RowKeyReserved
      else None)"

definition ParseCollectionRowPair :: "string \<Rightarrow> name_error + (Id \<times> string)" where
  "ParseCollectionRowPair pattern =
     (let ps = split_n 2 (CHR ''/'') pattern in
      if length ps \<noteq> 2 then Inl (BadArg pattern)
      else
        let collectionEnc = ps ! 0; row = ps ! 1 in
        case and_then (DecodeId (ps ! 0)) (\<lambda>c. case ValidateId c of None \<Rightarrow> Inr c | Some e \<Rightarrow> Inl e) of
          Inl err \<Rightarrow> Inl (InvalidName collectionEnc err)
        | Inr collection \<Rightarrow>
            if row \<noteq> [] then
              (case ValidateRowKey row of
                 Some err \<Rightarrow> Inl (InvalidName row err)
               | None \<Rightarrow> Inr (collection, row))
            else Inr (collection, row))"

section \<open>Ranges and patterns of rows\<close>

definition PrefixRangeStart :: "string \<Rightarrow> string" where
  "PrefixRangeStart p = p"

text \<open>The loop takes bytes off the end of the string, so it runs over the reversed bytes.\<close>

fun limit_loop :: "string \<Rightarrow> string" where
  "limit_loop [] = []"
| "limit_loop (c # x) = (if of_char c = (255 :: nat) then limit_loop x else char_of (of_char c + 1 :: nat) # x)"

definition PrefixRangeLimit :: "string \<Rightarrow> string" where
  "PrefixRangeLimit p = rev (limit_loop (rev p))"

definition IsPrefix :: "string \<Rightarrow> string \<Rightarrow> bool" where
  "IsPrefix start limit \<longleftrightarrow> PrefixRangeLimit start = limit"

text \<open>The two implementations of \<open>RowRange\<close>, and their constructors.\<close>

datatype RowRange = RowRange (range_start: string) (range_limit: string) | PrefixRange string

fun Start :: "RowRange \<Rightarrow> string" where
  "Start (RowRange s l) = s"
| "Start (PrefixRange p) = PrefixRangeStart p"

fun Limit :: "RowRange \<Rightarrow> string" where
  "Limit (RowRange s l) = l"
| "Limit (PrefixRange p) = PrefixRangeLimit p"

definition SingleRow :: "string \<Rightarrow> RowRange" where
  "SingleRow row = RowRange row (row @ [CHR 0x00])"

definition Range :: "string \<Rightarrow> string \<Rightarrow> RowRange" where
  "Range start limit = RowRange start limit"

definition Prefix :: "string \<Rightarrow> RowRange" where
  "Prefix p = PrefixRange p"

record CollectionRowPattern =
  CollectionBlessing :: string
  CollectionName :: string
  RowKey :: string

text \<open>\<open>None\<close> is a panic of \<open>pattern.Escape\<close>.\<close>

definition RowPrefixPattern :: "Id \<Rightarrow> string \<Rightarrow> CollectionRowPattern option" where
  "RowPrefixPattern cxId keyPrefix =
     (case (EscapePattern (idBlessing cxId), EscapePattern (idName cxId), EscapePattern keyPrefix) of
        (Some b, Some n, Some k) \<Rightarrow> Some \<lparr>CollectionBlessing = b, CollectionName = n, RowKey = k @ ''%''\<rparr>
      | _ \<Rightarrow> None)"

section \<open>Patterns from blessings and tags\<close>

text \<open>The two loops: a pair of patterns is fixed by the first blessing that gives one, and another pair is an error.\<close>

fun app_user_loop :: "ConvBlessing list \<Rightarrow> (BlessingPattern \<times> BlessingPattern) option \<Rightarrow>
    name_error + (BlessingPattern \<times> BlessingPattern) option" where
  "app_user_loop [] found = Inr found"
| "app_user_loop (b # bs) found =
     (let a = AppPattern b; au = AppUserPattern b in
      if a \<noteq> NoExtension \<and> au \<noteq> NoExtension then
        (case found of
           Some (app, user) \<Rightarrow>
             if a \<noteq> app \<or> au \<noteq> user then Inl (FoundMultipleAppUserBlessings user au)
             else app_user_loop bs (Some (a, au))
         | None \<Rightarrow> app_user_loop bs (Some (a, au)))
      else app_user_loop bs found)"

fun user_loop :: "ConvBlessing list \<Rightarrow> BlessingPattern option \<Rightarrow> name_error + BlessingPattern option" where
  "user_loop [] found = Inr found"
| "user_loop (b # bs) found =
     (let u = UserPattern b in
      if u \<noteq> NoExtension then
        (case found of
           Some user \<Rightarrow>
             if u \<noteq> user then Inl (FoundMultipleUserBlessings user u) else user_loop bs (Some u)
         | None \<Rightarrow> user_loop bs (Some u))
      else user_loop bs found)"

definition AppAndUserPatternFromBlessings :: "string list \<Rightarrow> name_error + (BlessingPattern \<times> BlessingPattern)" where
  "AppAndUserPatternFromBlessings blessings =
     (let pbs = ParseBlessingNames blessings in
      and_then (app_user_loop pbs None) (\<lambda>found.
        case found of
          Some p \<Rightarrow> Inr p
        | None \<Rightarrow>
            and_then (user_loop pbs None) (\<lambda>found.
              case found of
                Some user \<Rightarrow> Inr (AllPrincipals, user)
              | None \<Rightarrow> Inl FoundNoConventionalBlessings)))"

fun filter_tags :: "Permissions \<Rightarrow> string list \<Rightarrow> Permissions \<Rightarrow> Permissions" where
  "filter_tags perms [] filtered = filtered"
| "filter_tags perms (t # ts) filtered =
     filter_tags perms ts (case perms t of Some acl \<Rightarrow> filtered(t \<mapsto> acl) | None \<Rightarrow> filtered)"

definition FilterTags :: "Permissions \<Rightarrow> string list \<Rightarrow> Permissions" where
  "FilterTags perms allowTags = perm_Copy (filter_tags perms allowTags Map.empty)"

section \<open>Handles\<close>

record service_handle =
  svcFullName :: string

record database_handle =
  dbParent :: string
  dbFullName :: string
  dbId :: Id
  dbBatch :: string

record collection_handle =
  cxFullName :: string
  cxId :: Id
  cxBatch :: string

record row_handle =
  rowFullName :: string
  rowKey :: string
  rowBatch :: string

definition NewService :: "string \<Rightarrow> service_handle" where
  "NewService fullName = \<lparr>svcFullName = fullName\<rparr>"

definition newDatabaseBatch :: "string \<Rightarrow> Id \<Rightarrow> string \<Rightarrow> database_handle" where
  "newDatabaseBatch parentFullName i batchHandle =
     \<lparr>dbParent = parentFullName, dbFullName = Join [parentFullName, EncodeId i], dbId = i, dbBatch = batchHandle\<rparr>"

text \<open>\<open>None\<close> is the panic for an empty handle.\<close>

definition newBatch :: "string \<Rightarrow> Id \<Rightarrow> string \<Rightarrow> database_handle option" where
  "newBatch parentFullName i batchHandle =
     (if batchHandle = [] then None else Some (newDatabaseBatch parentFullName i batchHandle))"

definition newCollection :: "string \<Rightarrow> Id \<Rightarrow> string \<Rightarrow> collection_handle" where
  "newCollection parentFullName i bh = \<lparr>cxFullName = Join [parentFullName, EncodeId i], cxId = i, cxBatch = bh\<rparr>"

definition newRow :: "string \<Rightarrow> string \<Rightarrow> string \<Rightarrow> row_handle" where
  "newRow parentFullName key bh = \<lparr>rowFullName = Join [parentFullName, EncodeName key], rowKey = key, rowBatch = bh\<rparr>"

text \<open>
  A handle made by name takes its blessing from the blessings of the principal. When that fails, the code logs
  the error and goes on with the no-match pattern.
\<close>

definition inferred_user :: "string list \<Rightarrow> BlessingPattern" where
  "inferred_user blessings = (case AppAndUserPatternFromBlessings blessings of Inr (app, user) \<Rightarrow> user | Inl _ \<Rightarrow> NoExtension)"

definition inferred_app :: "string list \<Rightarrow> BlessingPattern" where
  "inferred_app blessings = (case AppAndUserPatternFromBlessings blessings of Inr (app, user) \<Rightarrow> app | Inl _ \<Rightarrow> NoExtension)"

definition DatabaseForId :: "service_handle \<Rightarrow> Id \<Rightarrow> database_handle" where
  "DatabaseForId s i = newDatabaseBatch (svcFullName s) i []"

definition Database :: "string list \<Rightarrow> service_handle \<Rightarrow> string \<Rightarrow> database_handle" where
  "Database blessings s name = newDatabaseBatch (svcFullName s) \<lparr>idBlessing = inferred_app blessings, idName = name\<rparr> []"

definition CollectionForId :: "database_handle \<Rightarrow> Id \<Rightarrow> collection_handle" where
  "CollectionForId d i = newCollection (dbFullName d) i (dbBatch d)"

definition Collection :: "string list \<Rightarrow> database_handle \<Rightarrow> string \<Rightarrow> collection_handle" where
  "Collection blessings d name =
     newCollection (dbFullName d) \<lparr>idBlessing = inferred_user blessings, idName = name\<rparr> (dbBatch d)"

definition Row :: "collection_handle \<Rightarrow> string \<Rightarrow> row_handle" where
  "Row c key = newRow (cxFullName c) key (cxBatch c)"

section \<open>Listing the ids below a name\<close>

datatype 'e glob_reply = GlobReplyEntry string | GlobReplyError 'e

definition after_last_slash :: "string \<Rightarrow> string" where
  "after_last_slash s = rev (takeWhile (\<lambda>c. c \<noteq> CHR ''/'') (rev s))"

datatype 'e list_error = GlobFailed 'e | ListInternal name_error

fun collect_ids :: "'e glob_reply list \<Rightarrow> Id list \<Rightarrow> 'e list_error + Id list" where
  "collect_ids [] ids = Inr ids"
| "collect_ids (GlobReplyEntry name # ch) ids =
     (case DecodeId (after_last_slash name) of
        Inl err \<Rightarrow> Inl (ListInternal err)
      | Inr i \<Rightarrow> collect_ids ch (ids @ [i]))"
| "collect_ids (GlobReplyError e # ch) ids = Inl (GlobFailed e)"

definition ListChildIds :: "(string \<Rightarrow> 'e + 'e glob_reply list) \<Rightarrow> string \<Rightarrow> 'e list_error + Id list" where
  "ListChildIds glob parentFullName =
     (case glob (Join [parentFullName, ''*'']) of
        Inl err \<Rightarrow> Inl (GlobFailed err)
      | Inr ch \<Rightarrow> collect_ids ch [])"

section \<open>Ids and names\<close>

lemma ext_ok_no_comma:
  assumes "ext_ok e"
  shows "CHR '','' \<notin> set e"
proof
  assume "CHR '','' \<in> set e"
  then have "sublist '','' e" by (auto simp: sublist_def dest: split_list)
  with assms show False
    by (auto simp: ext_ok_def validateExtension_def find_None_iff invalidBlessingSubStrings_def split: if_splits)
qed

lemma valid_no_comma:
  assumes "IsValid p"
  shows "CHR '','' \<notin> set p"
proof -
  have base: "CHR '','' \<notin> set q" if "list_all ext_ok (parts q)" for q
  proof
    assume "CHR '','' \<in> set q"
    then have "CHR '','' \<in> set (join '':'' (parts q))" by (simp add: join_parts)
    from set_join [OF this] that show False by (auto simp: list_all_iff dest: ext_ok_no_comma)
  qed
  show ?thesis
    by (cases p rule: trimNoExtension_cases) (use assms base in \<open>auto simp: IsValid_iff pattern_base_def\<close>)
qed

lemma ParseId_String: "CHR '','' \<notin> set (idBlessing i) \<Longrightarrow> ParseId (Id_String i) = Inr i"
  by (simp add: ParseId_def Id_String_def split_n_2 split_once_char)

lemma ParseId_Inr: "ParseId s = Inr i \<Longrightarrow> Id_String i = s \<and> CHR '','' \<notin> set (idBlessing i)"
  by (auto simp: ParseId_def Id_String_def split_n_2 Let_def dest: split_once_SomeD split_once_char_notin split: option.splits if_splits)

lemma DecodeName_Encode [simp]: "DecodeName (EncodeName s) = Inr s"
  by (simp add: DecodeName_def EncodeName_def DecodeFromNameElement_def EncodeAsNameElement_def Unescape_Escape_pair)

lemma DecodeId_Encode: "CHR '','' \<notin> set (idBlessing i) \<Longrightarrow> DecodeId (EncodeId i) = Inr i"
  by (simp add: DecodeId_def EncodeId_def ParseId_String)

lemma EncodeName_no_slash: "CHR ''/'' \<notin> set (EncodeName s)"
  unfolding EncodeName_def EncodeAsNameElement_def by (rule Escape_avoids) (simp_all add: hex_digits_def)

lemma EncodeName_Nil [simp]: "EncodeName s = [] \<longleftrightarrow> s = []"
  by (simp add: EncodeName_def EncodeAsNameElement_def)

lemma EncodeId_facts: "CHR ''/'' \<notin> set (EncodeId i)" "EncodeId i \<noteq> []"
  by (simp_all add: EncodeId_def EncodeName_no_slash Id_String_def)

lemma ValidateId_no_comma: "ValidateId i = None \<Longrightarrow> CHR '','' \<notin> set (idBlessing i)"
  by (rule valid_no_comma) (auto simp: ValidateId_def split: if_splits)

lemma ParseCollectionRowPair_Inr:
  "ParseCollectionRowPair p = Inr (c, row) \<longleftrightarrow>
     (\<exists>enc. p = enc @ ''/'' @ row \<and> CHR ''/'' \<notin> set enc \<and> DecodeId enc = Inr c \<and> ValidateId c = None \<and>
        (row = [] \<or> ValidateRowKey row = None))"
proof (cases "split_once ''/'' p")
  case None
  then have "CHR ''/'' \<notin> set p" by (simp add: split_once_None_char)
  moreover have "ParseCollectionRowPair p = Inl (BadArg p)" using None by (simp add: ParseCollectionRowPair_def split_n_2 Let_def)
  ultimately show ?thesis by auto
next
  case (Some q)
  obtain a b where q: "q = (a, b)" by (cases q)
  have p: "p = a @ ''/'' @ b" "CHR ''/'' \<notin> set a"
    using Some q split_once_SomeD split_once_char_notin by blast+
  have u: "p = enc @ ''/'' @ row \<and> CHR ''/'' \<notin> set enc \<longleftrightarrow> enc = a \<and> row = b" for enc
    using p split_once_char [of "CHR ''/''" enc row] split_once_char [of "CHR ''/''" a b] by auto
  show ?thesis
    unfolding conj_assoc [symmetric] u
    by (auto simp: ParseCollectionRowPair_def split_n_2 Some q Let_def split: sum.splits option.splits if_splits)
      (auto simp: and_then_def split: sum.splits option.splits if_splits)
qed

text \<open>A name element joined to a name is its last component.\<close>

lemma components_element: "CHR ''/'' \<notin> set e \<Longrightarrow> components e = (if e = [] then [] else [e])"
  by (simp add: components_def split_on_no_sep)

lemma components_Join_element:
  "CHR ''/'' \<notin> set e \<Longrightarrow> components (Join [n, e]) = components n @ (if e = [] then [] else [e])"
  by (simp add: components_Join components_element)

section \<open>Ranges and patterns\<close>

lemma limit_loop_eq: "limit_loop x = after_rev x"
proof (induction x)
  case (Cons c x)
  have "c = CHR 0xFF \<longleftrightarrow> of_char c = (255 :: nat)"
  proof
    assume "of_char c = (255 :: nat)"
    then have "(char_of (of_char c :: nat) :: char) = char_of (255 :: nat)" by simp
    moreover have "(char_of (255 :: nat) :: char) = CHR 0xFF" by code_simp
    ultimately show "c = CHR 0xFF" by simp
  qed simp
  with Cons show ?case by simp
qed simp

lemma PrefixRangeLimit_after: "PrefixRangeLimit p = afterPrefix p"
  by (simp add: PrefixRangeLimit_def afterPrefix_def limit_loop_eq)

text \<open>The keys of a range, as the documentation of \<open>RowRange\<close> has them.\<close>

definition in_row_range :: "RowRange \<Rightarrow> string \<Rightarrow> bool" where
  "in_row_range r k \<longleftrightarrow> Start r \<le> k \<and> (Limit r = [] \<or> k < Limit r)"

lemma prefix_row_range: "in_row_range (Prefix p) k \<longleftrightarrow> prefix p k"
  using prefix_range_iff [of p k] by (simp add: in_row_range_def Prefix_def PrefixRangeStart_def PrefixRangeLimit_after)

lemma single_row_range: "in_row_range (SingleRow r) k \<longleftrightarrow> k = r"
proof -
  have "k < r @ [CHR 0x00] \<longleftrightarrow> k \<le> r"
  proof (induction k arbitrary: r)
    case (Cons c k)
    have zero: "CHR 0x00 \<le> d" for d by (simp add: less_eq_char_def)
    from Cons show ?case using zero [of c] by (cases r) (auto simp: not_less)
  next
    case Nil
    show ?case by (cases r) simp_all
  qed
  then show ?thesis by (auto simp: in_row_range_def SingleRow_def)
qed

text \<open>What a pattern of a watch matches, as the documentation of \<open>CollectionRowPattern\<close> has it.\<close>

definition like_string :: "string \<Rightarrow> string \<Rightarrow> bool" where
  "like_string pat s = (case ParsePattern pat of Inr p \<Rightarrow> MatchString p s | Inl _ \<Rightarrow> False)"

definition pattern_matches :: "CollectionRowPattern \<Rightarrow> Id \<Rightarrow> string \<Rightarrow> bool" where
  "pattern_matches p i row \<longleftrightarrow>
     like_string (CollectionBlessing p) (idBlessing i) \<and> like_string (CollectionName p) (idName i) \<and> like_string (RowKey p) row"

lemma decode_rune_newline:
  assumes "fst (decode_rune (a # r)) = newline"
  shows "a = newline"
proof -
  have three: "224 \<le> a \<Longrightarrow> 128 \<le> b \<Longrightarrow> 128 \<le> c \<Longrightarrow> (a = 224 \<longrightarrow> 160 \<le> b) \<Longrightarrow> (a - 224) * 4096 + (b - 128) * 64 + c - 128 \<noteq> newline" for b c
    by (cases "a = 224") linarith+
  have four: "240 \<le> a \<Longrightarrow> 128 \<le> b \<Longrightarrow> 128 \<le> c \<Longrightarrow> 128 \<le> d \<Longrightarrow> (a = 240 \<longrightarrow> 144 \<le> b) \<Longrightarrow>
      (a - 240) * 262144 + (b - 128) * 4096 + (c - 128) * 64 + d - 128 \<noteq> newline" for b c d
    by (cases "a = 240") linarith+
  show ?thesis
    using assms unfolding decode_rune.simps Let_def
    by (simp add: is_cont_def RuneError_def three four split: if_splits list.splits)
qed

lemma runes_newline:
  assumes "newline \<in> set (runes s)"
  shows "newline \<in> set (codes s)"
proof -
  have "newline \<in> set (rune_list bs) \<Longrightarrow> newline \<in> set bs" for bs
  proof (induction bs rule: rune_list.induct)
    case (2 b bs)
    then show ?case using decode_rune_newline [of b bs] by (auto dest: in_set_dropD)
  qed simp
  then show ?thesis using assms by (simp add: runes_def)
qed

lemma control_newline: "\<not> has_control s \<Longrightarrow> newline \<notin> set (codes s)"
  by (induction s) (auto simp: codes_def)

section \<open>Inferred patterns\<close>

text \<open>The pairs of patterns and the user patterns that blessings give.\<close>

definition app_user_pairs :: "ConvBlessing list \<Rightarrow> (BlessingPattern \<times> BlessingPattern) set" where
  "app_user_pairs bs = {(AppPattern b, AppUserPattern b) | b. b \<in> set bs \<and> AppPattern b \<noteq> NoExtension \<and> AppUserPattern b \<noteq> NoExtension}"

definition user_patterns :: "ConvBlessing list \<Rightarrow> BlessingPattern set" where
  "user_patterns bs = {UserPattern b | b. b \<in> set bs \<and> UserPattern b \<noteq> NoExtension}"

lemma app_user_pairs_Cons:
  "app_user_pairs (b # bs) =
     (if AppPattern b \<noteq> NoExtension \<and> AppUserPattern b \<noteq> NoExtension then insert (AppPattern b, AppUserPattern b) (app_user_pairs bs)
      else app_user_pairs bs)"
  by (auto simp: app_user_pairs_def)

lemma user_patterns_Cons:
  "user_patterns (b # bs) = (if UserPattern b \<noteq> NoExtension then insert (UserPattern b) (user_patterns bs) else user_patterns bs)"
  by (auto simp: user_patterns_def)

lemma app_user_loop_Inr:
  "app_user_loop bs found = Inr r \<longleftrightarrow>
     (case found of Some p \<Rightarrow> app_user_pairs bs \<subseteq> {p} \<and> r = Some p
      | None \<Rightarrow> (case r of None \<Rightarrow> app_user_pairs bs = {} | Some p \<Rightarrow> app_user_pairs bs = {p}))"
proof (induction bs arbitrary: found)
  case Nil
  then show ?case by (auto simp: app_user_pairs_def split: option.splits)
next
  case (Cons b bs)
  show ?case
  proof (cases "AppPattern b \<noteq> NoExtension \<and> AppUserPattern b \<noteq> NoExtension")
    case False
    then have "app_user_loop (b # bs) found = app_user_loop bs found" "app_user_pairs (b # bs) = app_user_pairs bs"
      by (auto simp: app_user_pairs_Cons Let_def)
    then show ?thesis by (simp only: Cons.IH)
  next
    case True
    then have all: "app_user_pairs (b # bs) = insert (AppPattern b, AppUserPattern b) (app_user_pairs bs)" by (simp add: app_user_pairs_Cons)
    show ?thesis
    proof (cases found)
      case None
      have "app_user_loop (b # bs) found = app_user_loop bs (Some (AppPattern b, AppUserPattern b))" using True by (simp add: None Let_def)
      then have "app_user_loop (b # bs) found = Inr r \<longleftrightarrow> app_user_pairs bs \<subseteq> {(AppPattern b, AppUserPattern b)} \<and> r = Some (AppPattern b, AppUserPattern b)"
        by (simp only: Cons.IH option.case)
      then show ?thesis unfolding None all by (cases r) auto
    next
      case (Some p)
      have "app_user_loop (b # bs) found = (if p = (AppPattern b, AppUserPattern b) then app_user_loop bs (Some p) else Inl (FoundMultipleAppUserBlessings (snd p) (AppUserPattern b)))"
        using True by (cases p) (simp add: Some Let_def)
      then have "app_user_loop (b # bs) found = Inr r \<longleftrightarrow> p = (AppPattern b, AppUserPattern b) \<and> app_user_pairs bs \<subseteq> {p} \<and> r = Some p"
        by (simp only: Cons.IH option.case split: if_split) blast
      then show ?thesis unfolding Some all by auto
    qed
  qed
qed

lemma user_loop_Inr:
  "user_loop bs found = Inr r \<longleftrightarrow>
     (case found of Some p \<Rightarrow> user_patterns bs \<subseteq> {p} \<and> r = Some p
      | None \<Rightarrow> (case r of None \<Rightarrow> user_patterns bs = {} | Some p \<Rightarrow> user_patterns bs = {p}))"
proof (induction bs arbitrary: found)
  case Nil
  then show ?case by (auto simp: user_patterns_def split: option.splits)
next
  case (Cons b bs)
  show ?case
  proof (cases "UserPattern b \<noteq> NoExtension")
    case False
    then have "user_loop (b # bs) found = user_loop bs found" "user_patterns (b # bs) = user_patterns bs"
      by (auto simp: user_patterns_Cons Let_def)
    then show ?thesis by (simp only: Cons.IH)
  next
    case True
    then have all: "user_patterns (b # bs) = insert (UserPattern b) (user_patterns bs)" by (simp add: user_patterns_Cons)
    show ?thesis
    proof (cases found)
      case None
      have "user_loop (b # bs) found = user_loop bs (Some (UserPattern b))" using True by (simp add: None Let_def)
      then have "user_loop (b # bs) found = Inr r \<longleftrightarrow> user_patterns bs \<subseteq> {(UserPattern b)} \<and> r = Some (UserPattern b)"
        by (simp only: Cons.IH option.case)
      then show ?thesis unfolding None all by (cases r) auto
    next
      case (Some p)
      have "user_loop (b # bs) found = (if p = (UserPattern b) then user_loop bs (Some p) else Inl (FoundMultipleUserBlessings p (UserPattern b)))"
        using True by (simp add: Some Let_def)
      then have "user_loop (b # bs) found = Inr r \<longleftrightarrow> p = (UserPattern b) \<and> user_patterns bs \<subseteq> {p} \<and> r = Some p"
        by (simp only: Cons.IH option.case split: if_split) blast
      then show ?thesis unfolding Some all by auto
    qed
  qed
qed

lemma AppAndUser_Inr:
  "AppAndUserPatternFromBlessings ns = Inr (a, u) \<longleftrightarrow>
     app_user_pairs (ParseBlessingNames ns) = {(a, u)} \<or>
     app_user_pairs (ParseBlessingNames ns) = {} \<and> a = AllPrincipals \<and> user_patterns (ParseBlessingNames ns) = {u}"
  by (auto simp: AppAndUserPatternFromBlessings_def and_then_Inr_iff app_user_loop_Inr user_loop_Inr Let_def split: option.splits)

lemma ParseBlessingNames_mem: "b \<in> set (ParseBlessingNames ns) \<longleftrightarrow> (\<exists>n \<in> set ns. parseOne n = Some b)"
  by (induction ns) (auto simp: ParseBlessingNames_def map_filter_simps split: option.splits)

lemma conv_join_NoExtension: "conv_ok b \<Longrightarrow> Application b \<noteq> [] \<Longrightarrow> AppPattern b \<noteq> NoExtension \<and> AppUserPattern b \<noteq> NoExtension"
  by (auto simp: conv_patterns NoExtension_def append_eq_Cons_conv)

section \<open>Properties\<close>

text \<open>C35: 
  The client and the server agree on object names: whatever name the service has, the last three components of the
  full name of a row handle decode to the id of its database, the id of its collection and its key, and the two
  last parse as a pair of a valid collection id and a row key. Ids and keys are those that the library's own
  validation accepts.
\<close>

theorem row_names_roundtrip:
  assumes "ValidateId db = None" "ValidateId cx = None" "ValidateRowKey key = None"
  shows "\<exists>e1 e2 e3. components (rowFullName (Row (CollectionForId (DatabaseForId svc db) cx) key)) =
      components (svcFullName svc) @ [e1, e2, e3] \<and>
    DecodeId e1 = Inr db \<and> DecodeId e2 = Inr cx \<and> DecodeName e3 = Inr key \<and>
    ParseCollectionRowPair (e2 @ ''/'' @ key) = Inr (cx, key)"
proof (intro exI conjI)
  have "key \<noteq> []" using assms(3) by (auto simp: ValidateRowKey_def)
  then show "components (rowFullName (Row (CollectionForId (DatabaseForId svc db) cx) key)) =
      components (svcFullName svc) @ [EncodeId db, EncodeId cx, EncodeName key]"
    by (simp add: Row_def newRow_def CollectionForId_def newCollection_def DatabaseForId_def newDatabaseBatch_def
        components_Join_element EncodeName_no_slash EncodeId_facts)
  show "DecodeId (EncodeId db) = Inr db" "DecodeId (EncodeId cx) = Inr cx"
    using assms ValidateId_no_comma DecodeId_Encode by blast+
  then show "ParseCollectionRowPair (EncodeId cx @ ''/'' @ key) = Inr (cx, key)"
    using assms(2,3) EncodeId_facts(1) by (simp add: ParseCollectionRowPair_Inr)
qed simp

text \<open>C36: 
  A prefix watch, a prefix scan and a prefix delete pick the same rows: the pattern that
  \<open>RowPrefixPattern\<close> makes is never a panic and matches, among the valid rows, those of its collection that start
  with the prefix, which are the rows of the range \<open>Prefix\<close>.
\<close>

theorem RowPrefixPattern_matches:
  assumes "valid_utf8 (idBlessing cx)" "valid_utf8 (idName cx)" "valid_utf8 p"
    "valid_utf8 (idBlessing i)" "valid_utf8 (idName i)" "valid_utf8 row" "ValidateRowKey row = None"
  shows "\<exists>pat. RowPrefixPattern cx p = Some pat \<and>
    (pattern_matches pat i row \<longleftrightarrow> i = cx \<and> in_row_range (Prefix p) row)"
proof -
  have some: "\<exists>t. EscapePattern s = Some t" for s
    by (simp add: EscapePattern_def EscapeWithEscapeChar_def DefaultEscapeChar_def percent_def underscore_def)
  have lit: "like_string t s \<longleftrightarrow> s = w" if e: "EscapePattern w = Some t" and w: "valid_utf8 w" and v: "valid_utf8 s" for t s w
  proof -
    have "valid_rune DefaultEscapeChar" by (simp add: DefaultEscapeChar_def valid_rune_def)
    then obtain q where q: "ParseWithEscapeChar t DefaultEscapeChar = Inr q" "FixedPrefix q = (w, True)"
      using Escape_roundtrip [OF e [unfolded EscapePattern_def] _ w] by blast
    then show ?thesis using FixedPrefix_facts [OF q(1) v] q by (auto simp: like_string_def ParsePattern_def)
  qed
  obtain b n k where e: "EscapePattern (idBlessing cx) = Some b" "EscapePattern (idName cx) = Some n" "EscapePattern p = Some k"
    using some by metis
  have "\<not> has_control row" using assms(7) by (auto simp: ValidateRowKey_def split: if_splits)
  then have "newline \<notin> set (runes row)" using runes_newline control_newline by blast
  then have nl: "newline \<notin> set (drop (length (runes p)) (runes row))" by (auto dest: in_set_dropD)
  obtain q where q: "ParsePattern (k @ ''%'') = Inr q"
    "MatchString q row \<longleftrightarrow> prefix p row \<and> newline \<notin> set (drop (length (runes p)) (runes row))"
    using prefix_pattern_matches [OF e(3) assms(3,6)] by blast
  have "like_string (k @ ''%'') row \<longleftrightarrow> prefix p row" using q nl by (simp add: like_string_def)
  then show ?thesis
    using e lit [OF e(1) assms(1,4)] lit [OF e(2) assms(2,5)]
    by (auto simp: RowPrefixPattern_def pattern_matches_def prefix_row_range)
qed


text \<open>The name of an id in a listing is what follows the last slash.\<close>

lemma no_slash_takeWhile: "CHR ''/'' \<notin> set e \<Longrightarrow> takeWhile (\<lambda>c. c \<noteq> CHR ''/'') (rev e) = rev e"
  unfolding takeWhile_eq_all_conv by auto

lemma after_last_slash_append: "CHR ''/'' \<notin> set e \<Longrightarrow> after_last_slash (s @ CHR ''/'' # e) = e"
  by (simp add: after_last_slash_def takeWhile_tail no_slash_takeWhile)

lemma after_last_slash_none: "CHR ''/'' \<notin> set e \<Longrightarrow> after_last_slash e = e"
  by (simp add: after_last_slash_def no_slash_takeWhile)

lemma after_last_slash_Join:
  assumes "CHR ''/'' \<notin> set e" "e \<noteq> []"
  shows "after_last_slash (Join [n, e]) = e"
proof -
  let ?s = "join ''/'' (dropWhile (\<lambda>e. e = []) [n, e])"
  have cs: "components ?s = components n @ [e]"
    using components_Join_element [OF assms(1), of n] assms(2) by (simp add: Join_def)
  have "Join [n, e] = (if Rooted ?s then ''/'' else []) @ join ''/'' (components n @ [e])"
    unfolding Join_def Clean_canonical canonical_def cs ..
  moreover have "join ''/'' (components n @ [e]) = (if components n = [] then e else join ''/'' (components n) @ CHR ''/'' # e)"
    by (simp add: join_append)
  ultimately show ?thesis
    using after_last_slash_append [OF assms(1), of "[]"] after_last_slash_append [OF assms(1)]
      after_last_slash_append [OF assms(1), of "CHR ''/'' # _"] by (auto simp: after_last_slash_none [OF assms(1)])
qed

text \<open>
  Listing gives back the ids: when the namespace answers the query for the children of a name with the names that the
  ids have below it, \<open>ListChildIds\<close> returns these ids in the order of the answer; and an error among the
  answers is returned whatever came before it.
\<close>

theorem ListChildIds_correct:
  assumes "list_all (\<lambda>i. ValidateId i = None) is"
    "glob (Join [parent, ''*'']) = Inr (map (\<lambda>i. GlobReplyEntry (Join [parent, EncodeId i])) is @ rest)"
  shows "(rest = [] \<longrightarrow> ListChildIds glob parent = Inr is) \<and>
    (\<forall>e more. rest = GlobReplyError e # more \<longrightarrow> ListChildIds glob parent = Inl (GlobFailed e))"
proof -
  have ok: "list_all (\<lambda>i. CHR '','' \<notin> set (idBlessing i)) is"
    using assms(1) by (auto simp: list_all_iff ValidateId_no_comma)
  have step: "collect_ids (map (\<lambda>i. GlobReplyEntry (Join [parent, EncodeId i])) is @ ch) acc = collect_ids ch (acc @ is)" for ch acc
    using ok by (induction "is" arbitrary: acc) (simp_all add: after_last_slash_Join EncodeId_facts DecodeId_Encode)
  show ?thesis using step [of "[]" "[]"] by (auto simp: ListChildIds_def assms(2) step)
qed

text \<open>
  The patterns inferred from blessings: an answer means that the blessings of the form app and user all give one
  pair, which it is, or that there is none and the blessings of a user all give one pattern, with every app allowed. So the
  answer does not depend on the order of the blessings, and for blessing names that the security package accepts
  one of them matches both patterns: what the principal creates with them is its own.
\<close>

theorem inferred_patterns_correct:
  assumes "\<forall>n \<in> set ns. list_all ext_ok (parts n)"
  shows "(AppAndUserPatternFromBlessings ns = Inr (a, u) \<longleftrightarrow>
      app_user_pairs (ParseBlessingNames ns) = {(a, u)} \<or>
      app_user_pairs (ParseBlessingNames ns) = {} \<and> a = AllPrincipals \<and> user_patterns (ParseBlessingNames ns) = {u}) \<and>
    (set ms = set ns \<longrightarrow> (AppAndUserPatternFromBlessings ms = Inr (a, u)) = (AppAndUserPatternFromBlessings ns = Inr (a, u))) \<and>
    (AppAndUserPatternFromBlessings ns = Inr (a, u) \<longrightarrow> (\<exists>n \<in> set ns. MatchedBy a [n] \<and> MatchedBy u [n]))"
proof (intro conjI impI)
  show "AppAndUserPatternFromBlessings ns = Inr (a, u) \<longleftrightarrow>
      app_user_pairs (ParseBlessingNames ns) = {(a, u)} \<or>
      app_user_pairs (ParseBlessingNames ns) = {} \<and> a = AllPrincipals \<and> user_patterns (ParseBlessingNames ns) = {u}"
    by (rule AppAndUser_Inr)
  show "(AppAndUserPatternFromBlessings ms = Inr (a, u)) = (AppAndUserPatternFromBlessings ns = Inr (a, u))" if "set ms = set ns"
    unfolding AppAndUser_Inr app_user_pairs_def user_patterns_def by (simp add: ParseBlessingNames_mem that)
  assume h: "AppAndUserPatternFromBlessings ns = Inr (a, u)"
  have of_name: "\<exists>n \<in> set ns. conv_ok b \<and> parts n = conv_components b @ rest_components b \<and> list_all ext_ok (parts n)"
    if "b \<in> set (ParseBlessingNames ns)" for b
    using that assms parseOne_full ext_ok_full by (fastforce simp: ParseBlessingNames_mem)
  have none: "AppPattern b = NoExtension" if "conv_ok b" "Application b = []" for b using conv_patterns(5) that by blast
  have all: "MatchedBy AllPrincipals [n]" for n by (simp add: MatchedBy_def IsValid_def AllPrincipals_def)
  show "\<exists>n \<in> set ns. MatchedBy a [n] \<and> MatchedBy u [n]"
  proof (cases "app_user_pairs (ParseBlessingNames ns) = {}")
    case False
    then have "(a, u) \<in> app_user_pairs (ParseBlessingNames ns)" using h by (auto simp: AppAndUser_Inr)
    then obtain b where b: "b \<in> set (ParseBlessingNames ns)" "a = AppPattern b" "u = AppUserPattern b" "AppPattern b \<noteq> NoExtension"
      by (auto simp: app_user_pairs_def)
    then show ?thesis using of_name [OF b(1)] conv_patterns_match none by metis
  next
    case True
    then have u: "a = AllPrincipals" "u \<in> user_patterns (ParseBlessingNames ns)" using h by (auto simp: AppAndUser_Inr)
    then obtain b where b: "b \<in> set (ParseBlessingNames ns)" "u = UserPattern b" by (auto simp: user_patterns_def)
    obtain n where n: "n \<in> set ns" "conv_ok b" "parts n = conv_components b @ rest_components b" "list_all ext_ok (parts n)"
      using of_name [OF b(1)] by blast
    have "Application b = []"
      using True b(1) conv_join_NoExtension [OF n(2)] by (auto simp: app_user_pairs_def)
    then show ?thesis using n conv_patterns_match(1) all u(1) b(2) by metis
  qed
qed


section \<open>Witnesses\<close>

definition sample_id :: Id where
  "sample_id = \<lparr>idBlessing = ''a'', idName = ''c,d''\<rparr>"

lemma ext_ok_a: "ext_ok ''a''"
  by code_simp

lemma sample_facts_names:
  "ValidateId sample_id = None" "ValidateRowKey ''k/1'' = None" "valid_utf8 (idBlessing sample_id)" "valid_utf8 (idName sample_id)"
proof -
  have v: "IsValid ''a''" by code_simp
  have r: "\<not> containsAnyOf ''a'' reservedBytes" "\<not> containsAnyOf ''c,d'' reservedBytes" "\<not> containsAnyOf ''k/1'' reservedBytes"
    by (simp_all add: containsAnyOf_def reservedBytes_def sublist_Cons_right)
  show "ValidateId sample_id = None" "ValidateRowKey ''k/1'' = None"
    by (simp_all add: ValidateId_def ValidateRowKey_def sample_id_def maxBlessingLen_def maxNameLen_def NoExtension_def v r)
  show "valid_utf8 (idBlessing sample_id)" "valid_utf8 (idName sample_id)" by (simp_all add: sample_id_def ascii_simps)
qed

theorem row_names_roundtrip_witness:
  "\<exists>e1 e2 e3. components (rowFullName (Row (CollectionForId (DatabaseForId (NewService ''/h:1/sb'') sample_id) sample_id) ''k/1'')) =
      components ''/h:1/sb'' @ [e1, e2, e3] \<and> DecodeId e2 = Inr sample_id \<and> DecodeName e3 = Inr ''k/1''"
  using row_names_roundtrip [OF sample_facts_names(1) sample_facts_names(1) sample_facts_names(2), of "NewService ''/h:1/sb''"]
  by (auto simp: NewService_def)

theorem RowPrefixPattern_matches_witness:
  "\<exists>pat. RowPrefixPattern sample_id ''k'' = Some pat \<and> pattern_matches pat sample_id ''k/1''"
proof -
  have "valid_utf8 ''k''" "valid_utf8 ''k/1''" by (simp_all add: ascii_simps)
  moreover have "in_row_range (Prefix ''k'') ''k/1''" by (simp add: prefix_row_range)
  ultimately show ?thesis
    using RowPrefixPattern_matches [of sample_id "''k''" sample_id "''k/1''"] sample_facts_names by auto
qed

theorem ListChildIds_correct_witness:
  "ListChildIds (\<lambda>_. Inr [GlobReplyEntry (Join [''sb'', EncodeId sample_id])] :: string + string glob_reply list) ''sb'' = Inr [sample_id]"
proof -
  let ?g = "\<lambda>_. Inr [GlobReplyEntry (Join [''sb'', EncodeId sample_id])] :: string + string glob_reply list"
  show ?thesis
    using ListChildIds_correct [of "[sample_id]" ?g "''sb''" "[]"] sample_facts_names(1) by simp
qed

theorem inferred_patterns_correct_witness:
  "\<exists>n \<in> set [''i:u:a'', ''i:u:a:d'']. MatchedBy ''...'' [n] \<and> MatchedBy ''i:u:a'' [n]"
proof -
  let ?ns = "[''i:u:a'', ''i:u:a:d'']"
  have "\<forall>n \<in> set ?ns. list_all ext_ok (parts n)" by code_simp
  moreover have "AppAndUserPatternFromBlessings ?ns = Inr (''...'', ''i:u:a'')" by code_simp
  ultimately show ?thesis using inferred_patterns_correct [of ?ns "''...''" "''i:u:a''" ?ns] by blast
qed

end
