(* ===== verification/SyncbaseStreams.thy ===== *)
theory SyncbaseStreams
  imports SyncbaseNames
begin

text \<open>
  Batches and streams of the Syncbase client (src/syncbase/batch.go, scan_stream.go, result_stream.go,
  watch_stream.go, invalid_types.go, and the changes of model.go).

  The RPCs are not code of the package. The service is a state \<open>'s\<close> and functions on it; a streaming call
  is the list of the values that the server sends and the errors it ends with, and it counts how often it was
  finished. Cancelling the context of a call cuts the values that were not yet received at a place that is an
  argument of the step. The methods of a stream hold its lock, so a run is a sequence of steps; \<open>Cancel\<close> is two steps,
  because it cancels the context before it takes the lock, and other methods may come in between.
\<close>

section \<open>Batches\<close>

record ('s, 'e) batch_service =
  svc_begin :: "'s \<Rightarrow> ('e + string) \<times> 's"
  svc_commit :: "string \<Rightarrow> 's \<Rightarrow> 'e option \<times> 's"
  svc_abort :: "string \<Rightarrow> 's \<Rightarrow> 'e option \<times> 's"

text \<open>What the function given to \<open>RunInBatch\<close> does: it returns an error or nil, or panics.\<close>

datatype 'e outcome = Panicked | Returned "'e option"

text \<open>What the client did, in order.\<close>

datatype 'e batch_event =
    NotBegun 'e
  | Begun string
  | Ran string "'e outcome"
  | Committed string "'e option"
  | Aborted string

definition attemptInBatch ::
    "('s, 'e) batch_service \<Rightarrow> bool \<Rightarrow> (string \<Rightarrow> 's \<Rightarrow> 'e outcome \<times> 's) \<Rightarrow> 's \<Rightarrow> 'e outcome \<times> 'e batch_event list \<times> 's" where
  "attemptInBatch svc readOnly fn s0 =
     (case svc_begin svc s0 of
        (Inl err, s1) \<Rightarrow> (Returned (Some err), [NotBegun err], s1)
      | (Inr h, s1) \<Rightarrow>
          if h = [] then (Panicked, [Begun h], s1)
          else
            (case fn h s1 of
               (Panicked, s2) \<Rightarrow> (Panicked, [Begun h, Ran h Panicked, Aborted h], snd (svc_abort svc h s2))
             | (Returned (Some err), s2) \<Rightarrow>
                 (Returned (Some err), [Begun h, Ran h (Returned (Some err)), Aborted h], snd (svc_abort svc h s2))
             | (Returned None, s2) \<Rightarrow>
                 if readOnly then (Returned None, [Begun h, Ran h (Returned None), Aborted h], snd (svc_abort svc h s2))
                 else
                   (case svc_commit svc h s2 of
                      (r, s3) \<Rightarrow> (Returned r, [Begun h, Ran h (Returned None), Committed h r], s3))))"

text \<open>The attempts that are left; \<open>concurrent\<close> tells an error whose id is that of \<open>ErrConcurrentBatch\<close>.\<close>

fun batch_loop ::
    "nat \<Rightarrow> ('e \<Rightarrow> bool) \<Rightarrow> ('s \<Rightarrow> 'e outcome \<times> 'e batch_event list \<times> 's) \<Rightarrow> 'e option \<Rightarrow> 's \<Rightarrow> 'e outcome \<times> 'e batch_event list \<times> 's" where
  "batch_loop 0 concurrent attempt err s = (Returned err, [], s)"
| "batch_loop (Suc n) concurrent attempt err s =
     (case attempt s of
        (Panicked, log, s') \<Rightarrow> (Panicked, log, s')
      | (Returned r, log, s') \<Rightarrow>
          if \<not> (case r of Some e \<Rightarrow> concurrent e | None \<Rightarrow> False) then (Returned r, log, s')
          else
            (case batch_loop n concurrent attempt r s' of
               (r', log', s'') \<Rightarrow> (r', log @ log', s'')))"

definition RunInBatch ::
    "('s, 'e) batch_service \<Rightarrow> ('e \<Rightarrow> bool) \<Rightarrow> bool \<Rightarrow> (string \<Rightarrow> 's \<Rightarrow> 'e outcome \<times> 's) \<Rightarrow> 's \<Rightarrow> 'e outcome \<times> 'e batch_event list \<times> 's" where
  "RunInBatch svc concurrent readOnly fn s = batch_loop 3 concurrent (attemptInBatch svc readOnly fn) None s"

section \<open>Calls and streams\<close>

record ('v, 'e) call =
  pending :: "'v list"
  recvErr :: "'e option"
  finishErr :: "'e option"
  finishes :: nat
  cancelled :: bool

text \<open>\<open>RecvStream().Advance()\<close> with \<open>Value()\<close>, \<open>Finish()\<close> and the cancelling of the context.\<close>

definition recv_Advance :: "('v, 'e) call \<Rightarrow> ('v \<times> ('v, 'e) call) option" where
  "recv_Advance c = (case pending c of [] \<Rightarrow> None | v # vs \<Rightarrow> Some (v, c\<lparr>pending := vs\<rparr>))"

definition call_Finish :: "('v, 'e) call \<Rightarrow> 'e option \<times> ('v, 'e) call" where
  "call_Finish c = (finishErr c, c\<lparr>finishes := Suc (finishes c)\<rparr>)"

definition call_cancel :: "nat \<Rightarrow> ('v, 'e) call \<Rightarrow> ('v, 'e) call" where
  "call_cancel k c = c\<lparr>pending := take k (pending c), cancelled := True\<rparr>"

record ('v, 'w, 'e) stream =
  stCall :: "('v, 'e) call"
  stCurr :: "'w option"
  stErr :: "'e option"
  stFinished :: bool

definition new_stream :: "('v, 'e) call \<Rightarrow> ('v, 'w, 'e) stream" where
  "new_stream c = \<lparr>stCall = c, stCurr = None, stErr = None, stFinished = False\<rparr>"

subsection \<open>Scans\<close>

type_synonym ('v, 'e) scan_stream = "(string \<times> 'v, string \<times> 'v, 'e) stream"

text \<open>The end of the values, with the error that \<open>Finish\<close> returns.\<close>

definition scan_end :: "('v, 'w, 'e) stream \<Rightarrow> ('v, 'w, 'e) stream" where
  "scan_end s =
     (case call_Finish (stCall s) of
        (err, c) \<Rightarrow> s\<lparr>stErr := err, stCall := c\<lparr>cancelled := True\<rparr>, stFinished := True\<rparr>)"

definition scan_Advance :: "('v, 'e) scan_stream \<Rightarrow> (bool \<times> ('v, 'e) scan_stream) option" where
  "scan_Advance s =
     (if stFinished s then Some (False, s)
      else
        (case recv_Advance (stCall s) of
           None \<Rightarrow> Some (False, scan_end s)
         | Some (v, c) \<Rightarrow> Some (True, s\<lparr>stCall := c, stCurr := Some v\<rparr>)))"

text \<open>\<open>None\<close> is the panic when nothing is staged.\<close>

definition scan_Key :: "('v, 'e) scan_stream \<Rightarrow> string option" where
  "scan_Key s = map_option fst (stCurr s)"

definition scan_Value :: "('v \<Rightarrow> 'r) \<Rightarrow> ('v, 'e) scan_stream \<Rightarrow> 'r option" where
  "scan_Value toValue s = map_option (\<lambda>kv. toValue (snd kv)) (stCurr s)"

definition stream_Err :: "('e \<Rightarrow> 'e) \<Rightarrow> ('v, 'w, 'e) stream \<Rightarrow> 'e option" where
  "stream_Err convert s = (case stErr s of None \<Rightarrow> None | Some e \<Rightarrow> Some (convert e))"

definition cancel_context :: "nat \<Rightarrow> ('v, 'w, 'e) stream \<Rightarrow> ('v, 'w, 'e) stream" where
  "cancel_context k s = s\<lparr>stCall := call_cancel k (stCall s)\<rparr>"

definition scan_cancel_locked :: "('v, 'w, 'e) stream \<Rightarrow> ('v, 'w, 'e) stream" where
  "scan_cancel_locked s =
     (if \<not> stFinished s then
        (case call_Finish (stCall s) of (err, c) \<Rightarrow> s\<lparr>stErr := err, stCall := c, stFinished := True\<rparr>)
      else s)"

subsection \<open>Query results\<close>

type_synonym ('v, 'e) query_stream = "('v list, 'v list, 'e) stream"

definition result_finish :: "('v, 'e) query_stream \<Rightarrow> ('v, 'e) query_stream" where
  "result_finish s =
     (let e = recvErr (stCall s) in
      case call_Finish (stCall s) of
        (err, c) \<Rightarrow> s\<lparr>stErr := (if e = None then err else e), stCall := c, stFinished := True\<rparr>)"

definition result_Advance :: "('v, 'e) query_stream \<Rightarrow> (bool \<times> ('v, 'e) query_stream) option" where
  "result_Advance s =
     (if stFinished s then Some (False, s)
      else
        (case recv_Advance (stCall s) of
           None \<Rightarrow> (let s' = result_finish s in Some (False, s'\<lparr>stCall := (stCall s')\<lparr>cancelled := True\<rparr>\<rparr>))
         | Some (v, c) \<Rightarrow> Some (True, s\<lparr>stCall := c, stCurr := Some v\<rparr>)))"

definition result_cancel_locked :: "('v, 'e) query_stream \<Rightarrow> ('v, 'e) query_stream" where
  "result_cancel_locked s = (if \<not> stFinished s then result_finish s else s)"

text \<open>\<open>curr\<close> is a nil slice at first.\<close>

definition ResultCount :: "('v, 'e) query_stream \<Rightarrow> nat" where
  "ResultCount s = (case stCurr s of None \<Rightarrow> 0 | Some row \<Rightarrow> length row)"

text \<open>\<open>None\<close> is the panic of an index out of range.\<close>

definition stream_Result :: "('v \<Rightarrow> 'r) \<Rightarrow> nat \<Rightarrow> ('v, 'e) query_stream \<Rightarrow> 'r option" where
  "stream_Result toValue i s = (if i < ResultCount s then Some (toValue (the (stCurr s) ! i)) else None)"

subsection \<open>Changes\<close>

datatype EntityType = EntityRoot | EntityCollection | EntityRow

datatype ChangeType = PutChange | DeleteChange

definition Exists :: int where "Exists = 0"
definition DoesNotExist :: int where "DoesNotExist = 1"
definition InitialStateSkipped :: int where "InitialStateSkipped = 2"

record 'r watch_change =
  wcName :: string
  wcState :: int
  wcValue :: 'r
  wcMarker :: string
  wcContinued :: bool

record 'r WatchChange =
  chEntity :: EntityType
  chCollection :: Id
  chRow :: string
  chType :: ChangeType
  chValue :: 'r
  chMarker :: string
  chFromSync :: bool
  chContinued :: bool

text \<open>
  \<open>None\<close> is a panic. Decoding a store change (its value and whether it came from sync) and a collection info are
  VOM decodings of raw bytes: \<open>storeChange\<close> and \<open>isCollectionInfo\<close>.
\<close>

definition ToWatchChange :: "('r \<Rightarrow> ('r \<times> bool) option) \<Rightarrow> ('r \<Rightarrow> bool) \<Rightarrow> 'r watch_change \<Rightarrow> 'r WatchChange option" where
  "ToWatchChange storeChange isCollectionInfo c =
     (case storeChange (wcValue c) of
        None \<Rightarrow> None
      | Some (v, fromSync) \<Rightarrow>
          (case (if wcState c = Exists then Some PutChange
                 else if wcState c = DoesNotExist then Some DeleteChange
                 else None) of
             None \<Rightarrow> None
           | Some t \<Rightarrow>
               let res = \<lparr>chEntity = EntityRoot, chCollection = \<lparr>idBlessing = [], idName = []\<rparr>, chRow = [], chType = t,
                          chValue = v, chMarker = wcMarker c, chFromSync = fromSync, chContinued = wcContinued c\<rparr> in
               if wcName c = [] then Some res
               else if CHR ''/'' \<in> set (wcName c) then
                 (case ParseCollectionRowPair (wcName c) of
                    Inl err \<Rightarrow> None
                  | Inr (cx, row) \<Rightarrow>
                      if row = [] then None
                      else Some (res\<lparr>chEntity := EntityRow, chCollection := cx, chRow := row\<rparr>))
               else
                 (case DecodeId (wcName c) of
                    Inl err \<Rightarrow> None
                  | Inr cx \<Rightarrow>
                      if t = PutChange \<and> \<not> isCollectionInfo v then None
                      else Some (res\<lparr>chEntity := EntityCollection, chCollection := cx\<rparr>))))"

text \<open>The methods of a change; \<open>None\<close> is a panic.\<close>

definition change_Value :: "('r \<Rightarrow> 'a) \<Rightarrow> 'r WatchChange \<Rightarrow> 'a option" where
  "change_Value toValue c =
     (if chType c \<noteq> PutChange then None
      else if chEntity c \<noteq> EntityRow then None
      else Some (toValue (chValue c)))"

definition change_CollectionInfo :: "('r \<Rightarrow> 'i option) \<Rightarrow> 'r WatchChange \<Rightarrow> 'i option" where
  "change_CollectionInfo toInfo c =
     (if chType c \<noteq> PutChange then None
      else if chEntity c \<noteq> EntityCollection then None
      else toInfo (chValue c))"

type_synonym ('r, 'e) watch_stream = "('r watch_change, 'r WatchChange, 'e) stream"

text \<open>The loop of \<open>Advance\<close> skips changes; it runs over what the call has pending.\<close>

fun watch_skip :: "'r watch_change list \<Rightarrow> ('r watch_change \<times> 'r watch_change list) option" where
  "watch_skip [] = None"
| "watch_skip (c # cs) = (if wcState c = InitialStateSkipped then watch_skip cs else Some (c, cs))"

definition watch_Advance :: "('r watch_change \<Rightarrow> 'r WatchChange option) \<Rightarrow> ('r, 'e) watch_stream \<Rightarrow> (bool \<times> ('r, 'e) watch_stream) option" where
  "watch_Advance toChange s =
     (if stFinished s then Some (False, s)
      else
        (case watch_skip (pending (stCall s)) of
           None \<Rightarrow> Some (False, scan_end (s\<lparr>stCall := (stCall s)\<lparr>pending := []\<rparr>\<rparr>))
         | Some (c, cs) \<Rightarrow>
             (case toChange c of
                None \<Rightarrow> None
              | Some ch \<Rightarrow> Some (True, s\<lparr>stCall := (stCall s)\<lparr>pending := cs\<rparr>, stCurr := Some ch\<rparr>))))"

text \<open>\<open>None\<close> is the panic when nothing is staged.\<close>

definition watch_Change :: "('r, 'e) watch_stream \<Rightarrow> 'r WatchChange option" where
  "watch_Change s = stCurr s"

section \<open>The attempts of a batch\<close>

text \<open>
  What one attempt may do, with what it returns: it fails to begin; or the service gives an empty handle, a
  panic; or the function runs once and the batch is aborted, because of its error or panic or because the batch
  only reads; or the function succeeds and the batch is committed.
\<close>

definition attempt_shape :: "bool \<Rightarrow> 'e outcome \<Rightarrow> 'e batch_event list \<Rightarrow> bool" where
  "attempt_shape readOnly r log \<longleftrightarrow>
     (\<exists>e. log = [NotBegun e] \<and> r = Returned (Some e)) \<or>
     (log = [Begun []] \<and> r = Panicked) \<or>
     (\<exists>h. h \<noteq> [] \<and> log = [Begun h, Ran h r, Aborted h] \<and> (r = Returned None \<longrightarrow> readOnly)) \<or>
     (\<exists>h c. h \<noteq> [] \<and> log = [Begun h, Ran h (Returned None), Committed h c] \<and> r = Returned c \<and> \<not> readOnly)"

lemma attempt_has_shape: "attemptInBatch svc readOnly fn s = (r, log, s') \<Longrightarrow> attempt_shape readOnly r log"
  by (auto simp: attemptInBatch_def attempt_shape_def split: prod.splits sum.splits if_splits outcome.splits option.splits)

definition retried :: "('e \<Rightarrow> bool) \<Rightarrow> 'e outcome \<Rightarrow> bool" where
  "retried concurrent r \<longleftrightarrow> (case r of Returned (Some e) \<Rightarrow> concurrent e | _ \<Rightarrow> False)"

lemma batch_loop_attempts:
  assumes "batch_loop (Suc n) concurrent (attemptInBatch svc readOnly fn) err s = (r, log, s')"
  shows "\<exists>as. as \<noteq> [] \<and> length as \<le> Suc n \<and> log = concat (map snd as) \<and> r = fst (last as) \<and>
    list_all (\<lambda>a. attempt_shape readOnly (fst a) (snd a)) as \<and>
    list_all (\<lambda>a. retried concurrent (fst a)) (butlast as) \<and> (length as \<le> n \<longrightarrow> \<not> retried concurrent r)"
  using assms
proof (induction n arbitrary: err s r log s')
  case (0 err s r log s')
  obtain r1 log1 s1 where a: "attemptInBatch svc readOnly fn s = (r1, log1, s1)" by (rule prod_cases3)
  have "r = r1 \<and> log = log1" using 0 a by (auto split: outcome.splits option.splits if_splits)
  then show ?case using attempt_has_shape [OF a] by (intro exI [of _ "[(r1, log1)]"]) simp
next
  case (Suc n err s r log s')
  obtain r1 log1 s1 where a: "attemptInBatch svc readOnly fn s = (r1, log1, s1)" by (rule prod_cases3)
  show ?case
  proof (cases "retried concurrent r1")
    case False
    then have "r = r1 \<and> log = log1"
      using Suc.prems a by (auto simp: retried_def split: outcome.splits option.splits if_splits)
    then show ?thesis using attempt_has_shape [OF a] False by (intro exI [of _ "[(r1, log1)]"]) simp
  next
    case True
    then obtain e where r1: "r1 = Returned (Some e)" "concurrent e"
      by (auto simp: retried_def split: outcome.splits option.splits)
    obtain r2 log2 s2 where rest: "batch_loop (Suc n) concurrent (attemptInBatch svc readOnly fn) (Some e) s1 = (r2, log2, s2)"
      by (rule prod_cases3)
    have r: "r = r2" "log = log1 @ log2" using Suc.prems a r1 rest by (simp_all del: batch_loop.simps(2) add: batch_loop.simps(2) [of "Suc n"])
    obtain as where "as \<noteq> [] \<and> length as \<le> Suc n \<and> log2 = concat (map snd as) \<and> r2 = fst (last as) \<and>
        list_all (\<lambda>a. attempt_shape readOnly (fst a) (snd a)) as \<and>
        list_all (\<lambda>a. retried concurrent (fst a)) (butlast as) \<and> (length as \<le> n \<longrightarrow> \<not> retried concurrent r2)"
      using Suc.IH [OF rest] by blast
    then show ?thesis using attempt_has_shape [OF a] True r by (intro exI [of _ "(r1, log1) # as"]) auto
  qed
qed

section \<open>The contract of a stream\<close>

text \<open>
  What the three streams share. \<open>wanted\<close> is what \<open>Advance\<close> will stage for the values that are pending, \<open>None\<close>
  for a value it panics on, and \<open>final\<close> the error of a finished call.
\<close>

locale client_stream =
  fixes advance :: "('v, 'w, 'e) stream \<Rightarrow> (bool \<times> ('v, 'w, 'e) stream) option"
    and cancel_locked :: "('v, 'w, 'e) stream \<Rightarrow> ('v, 'w, 'e) stream"
    and wanted :: "'v list \<Rightarrow> 'w option list"
    and final :: "('v, 'e) call \<Rightarrow> 'e option"
  assumes advance_finished: "stFinished s \<Longrightarrow> advance s = Some (False, s)"
    and advance_end: "\<not> stFinished s \<Longrightarrow> wanted (pending (stCall s)) = [] \<Longrightarrow>
      advance s = Some (False, s\<lparr>stErr := final (stCall s), stFinished := True,
        stCall := (stCall s)\<lparr>pending := [], finishes := Suc (finishes (stCall s)), cancelled := True\<rparr>\<rparr>)"
    and advance_value: "\<not> stFinished s \<Longrightarrow> wanted (pending (stCall s)) = Some w # ws \<Longrightarrow>
      \<exists>vs. wanted vs = ws \<and> advance s = Some (True, s\<lparr>stCall := (stCall s)\<lparr>pending := vs\<rparr>, stCurr := Some w\<rparr>)"
    and advance_panic: "\<not> stFinished s \<Longrightarrow> wanted (pending (stCall s)) = None # ws \<Longrightarrow> advance s = None"
    and cancel_finished: "stFinished s \<Longrightarrow> cancel_locked s = s"
    and cancel_running: "\<not> stFinished s \<Longrightarrow> cancel_locked s = s\<lparr>stErr := final (stCall s), stFinished := True,
      stCall := (stCall s)\<lparr>finishes := Suc (finishes (stCall s))\<rparr>\<rparr>"
    and wanted_take: "\<exists>n. wanted (take k vs) = take n (wanted vs)"
    and final_cong: "recvErr c = recvErr c' \<Longrightarrow> finishErr c = finishErr c' \<Longrightarrow> final c = final c'"

text \<open>A run: the values that successful calls of \<open>Advance\<close> stage, and the stream afterwards; \<open>None\<close> is a panic.\<close>

datatype stream_op = OpAdvance | OpCancelContext nat | OpCancelLocked

fun run_stream ::
    "(('v, 'w, 'e) stream \<Rightarrow> (bool \<times> ('v, 'w, 'e) stream) option) \<Rightarrow> (('v, 'w, 'e) stream \<Rightarrow> ('v, 'w, 'e) stream) \<Rightarrow>
      stream_op list \<Rightarrow> ('v, 'w, 'e) stream \<Rightarrow> ('w list \<times> ('v, 'w, 'e) stream) option" where
  "run_stream adv cancel [] s = Some ([], s)"
| "run_stream adv cancel (OpAdvance # ops) s =
     (case adv s of
        None \<Rightarrow> None
      | Some (ok, s') \<Rightarrow>
          map_option (\<lambda>(ws, t). ((if ok then the (stCurr s') # ws else ws), t)) (run_stream adv cancel ops s'))"
| "run_stream adv cancel (OpCancelContext k # ops) s = run_stream adv cancel ops (cancel_context k s)"
| "run_stream adv cancel (OpCancelLocked # ops) s = run_stream adv cancel ops (cancel s)"

definition uncancelled :: "stream_op list \<Rightarrow> bool" where
  "uncancelled ops \<longleftrightarrow> list_all (\<lambda>op. op = OpAdvance) ops"

definition stream_promise ::
    "('v list \<Rightarrow> 'w option list) \<Rightarrow> (('v, 'e) call \<Rightarrow> 'e option) \<Rightarrow> stream_op list \<Rightarrow>
      ('v, 'w, 'e) stream \<Rightarrow> 'w list \<Rightarrow> ('v, 'w, 'e) stream \<Rightarrow> bool" where
  "stream_promise wanted final ops s ws t \<longleftrightarrow>
     prefix (map Some ws) (if stFinished s then [] else wanted (pending (stCall s))) \<and>
     (stFinished s \<longrightarrow> stFinished t) \<and>
     finishes (stCall t) = finishes (stCall s) + (if stFinished t \<and> \<not> stFinished s then 1 else 0) \<and>
     stErr t = (if stFinished t \<and> \<not> stFinished s then final (stCall s) else stErr s) \<and>
     stCurr t = (if ws = [] then stCurr s else Some (last ws)) \<and>
     (uncancelled ops \<and> \<not> stFinished s \<and> stFinished t \<longrightarrow> map Some ws = wanted (pending (stCall s))) \<and>
     (OpCancelLocked \<in> set ops \<longrightarrow> stFinished t) \<and>
     (length (wanted (pending (stCall s))) < count_list ops OpAdvance \<longrightarrow> stFinished t)"

context client_stream begin

lemma run_promise:
  "run_stream advance cancel_locked ops s = Some (ws, t) \<Longrightarrow> stream_promise wanted final ops s ws t"
proof (induction ops arbitrary: s ws)
  case Nil
  then show ?case by (auto simp: stream_promise_def uncancelled_def)
next
  case (Cons op ops)
  show ?case
  proof (cases "stFinished s")
    case True
    have s': "stFinished (cancel_context k s)" "stErr (cancel_context k s) = stErr s" "stCurr (cancel_context k s) = stCurr s"
      "finishes (stCall (cancel_context k s)) = finishes (stCall s)" for k
      using True by (simp_all add: cancel_context_def call_cancel_def)
    have "ws = [] \<and> stFinished t \<and> stErr t = stErr s \<and> stCurr t = stCurr s \<and> finishes (stCall t) = finishes (stCall s)"
    proof (cases op)
      case OpAdvance
      then show ?thesis using Cons.prems Cons.IH [of s ws] True by (simp add: advance_finished stream_promise_def)
    next
      case (OpCancelContext k)
      then show ?thesis using Cons.prems Cons.IH [of "cancel_context k s" ws] True s' by (simp add: stream_promise_def)
    next
      case OpCancelLocked
      then show ?thesis using Cons.prems Cons.IH [of s ws] True by (simp add: cancel_finished stream_promise_def)
    qed
    then show ?thesis using True by (simp add: stream_promise_def)
  next
    case False
    show ?thesis
    proof (cases op)
      case OpAdvance
      consider "wanted (pending (stCall s)) = []" | ws' where "wanted (pending (stCall s)) = None # ws'"
        | w ws' where "wanted (pending (stCall s)) = Some w # ws'"
        by (metis (full_types) neq_Nil_conv option.exhaust)
      then show ?thesis
      proof cases
        case 1
        show ?thesis
          using Cons.prems False 1
          by (auto simp: OpAdvance advance_end stream_promise_def dest!: Cons.IH)
      next
        case 2
        then show ?thesis using Cons.prems False by (simp add: OpAdvance advance_panic)
      next
        case (3 w ws')
        obtain vs where vs: "wanted vs = ws'"
          "advance s = Some (True, s\<lparr>stCall := (stCall s)\<lparr>pending := vs\<rparr>, stCurr := Some w\<rparr>)"
          using advance_value [OF False 3] by blast
        obtain us where us: "ws = w # us"
          "run_stream advance cancel_locked ops (s\<lparr>stCall := (stCall s)\<lparr>pending := vs\<rparr>, stCurr := Some w\<rparr>) = Some (us, t)"
          using Cons.prems vs by (auto simp: OpAdvance)
        have f: "final ((stCall s)\<lparr>pending := vs\<rparr>) = final (stCall s)" by (rule final_cong) simp_all
        show ?thesis
          using Cons.IH [OF us(2)] False 3 vs(1)
          by (auto simp: OpAdvance stream_promise_def us(1) uncancelled_def f)
      qed
    next
      case (OpCancelContext k)
      have f: "final (stCall (cancel_context k s)) = final (stCall s)"
        by (rule final_cong) (simp_all add: cancel_context_def call_cancel_def)
      obtain n where n: "wanted (pending (stCall (cancel_context k s))) = take n (wanted (pending (stCall s)))"
        using wanted_take [of k "pending (stCall s)"] by (auto simp: cancel_context_def call_cancel_def)
      have fin: "stFinished (cancel_context k s) = stFinished s" "stErr (cancel_context k s) = stErr s"
        "stCurr (cancel_context k s) = stCurr s" "finishes (stCall (cancel_context k s)) = finishes (stCall s)"
        by (simp_all add: cancel_context_def call_cancel_def)
      have "stream_promise wanted final ops (cancel_context k s) ws t" using Cons.prems Cons.IH by (simp add: OpCancelContext)
      moreover have "prefix xs (take n ys) \<Longrightarrow> prefix xs ys" for xs and ys :: "'w option list"
        using prefix_order.trans take_is_prefix by blast
      ultimately show ?thesis
        using False by (simp add: stream_promise_def uncancelled_def OpCancelContext n f fin)
    next
      case OpCancelLocked
      then show ?thesis
        using Cons.prems Cons.IH [of "cancel_locked s" ws] False
        by (auto simp: stream_promise_def uncancelled_def cancel_running)
    qed
  qed
qed

end

section \<open>The three streams keep the contract\<close>

lemma take_filter: "\<exists>n. filter P (take k xs) = take n (filter P xs)"
proof -
  have "filter P xs = filter P (take k xs) @ filter P (drop k xs)" by (metis append_take_drop_id filter_append)
  then show ?thesis by (intro exI [of _ "length (filter P (take k xs))"]) simp
qed

interpretation scan: client_stream scan_Advance scan_cancel_locked "map Some" finishErr
  by unfold_locales
    (auto simp: scan_Advance_def recv_Advance_def scan_end_def scan_cancel_locked_def call_Finish_def take_map split: list.splits)

definition result_error :: "('v, 'e) call \<Rightarrow> 'e option" where
  "result_error c = (if recvErr c = None then finishErr c else recvErr c)"

interpretation result: client_stream result_Advance result_cancel_locked "map Some" result_error
  by unfold_locales
    (auto simp: result_Advance_def recv_Advance_def result_finish_def result_error_def result_cancel_locked_def
      call_Finish_def take_map Let_def split: list.splits)

definition changes_of :: "('r watch_change \<Rightarrow> 'r WatchChange option) \<Rightarrow> 'r watch_change list \<Rightarrow> 'r WatchChange option list" where
  "changes_of toChange cs = map toChange (filter (\<lambda>c. wcState c \<noteq> InitialStateSkipped) cs)"

lemma watch_skip_None: "changes_of toChange cs = [] \<longleftrightarrow> watch_skip cs = None"
  by (induction cs) (simp_all add: changes_of_def)

lemma watch_skip_Some: "changes_of toChange cs = ch # chs \<Longrightarrow> \<exists>c cs'. watch_skip cs = Some (c, cs') \<and> toChange c = ch \<and> changes_of toChange cs' = chs"
  by (induction cs) (auto simp: changes_of_def split: if_splits)

lemma changes_of_take: "\<exists>n. changes_of toChange (take k cs) = take n (changes_of toChange cs)"
  using take_filter [of "\<lambda>c. wcState c \<noteq> InitialStateSkipped" k cs] by (auto simp: changes_of_def take_map)

interpretation watch: client_stream "watch_Advance toChange" scan_cancel_locked "changes_of toChange" finishErr
  for toChange :: "'r watch_change \<Rightarrow> 'r WatchChange option"
proof unfold_locales
  fix s :: "('r, 'e) watch_stream" and w ws
  show "\<exists>vs. changes_of toChange vs = ws \<and> watch_Advance toChange s = Some (True, s\<lparr>stCall := (stCall s)\<lparr>pending := vs\<rparr>, stCurr := Some w\<rparr>)"
    if "\<not> stFinished s" "changes_of toChange (pending (stCall s)) = Some w # ws"
    using watch_skip_Some [OF that(2)] that(1) by (auto simp: watch_Advance_def)
  show "watch_Advance toChange s = None" if "\<not> stFinished s" "changes_of toChange (pending (stCall s)) = None # ws"
    using watch_skip_Some [OF that(2)] that(1) by (auto simp: watch_Advance_def)
  show "watch_Advance toChange s = Some (False, s\<lparr>stErr := finishErr (stCall s), stFinished := True,
      stCall := (stCall s)\<lparr>pending := [], finishes := Suc (finishes (stCall s)), cancelled := True\<rparr>\<rparr>)"
    if "\<not> stFinished s" "changes_of toChange (pending (stCall s)) = []"
    using that by (simp add: watch_skip_None watch_Advance_def scan_end_def call_Finish_def)
qed (auto simp: watch_Advance_def scan_cancel_locked_def call_Finish_def changes_of_take)

section \<open>Changes and their names\<close>

lemma watch_row_change:
  assumes "ValidateId cx = None" "ValidateRowKey row = None" "wcName c = EncodeId cx @ ''/'' @ row"
    "storeChange (wcValue c) = Some (v, fs)" "wcState c = Exists \<or> wcState c = DoesNotExist"
  shows "\<exists>ch. ToWatchChange storeChange isInfo c = Some ch \<and> chEntity ch = EntityRow \<and> chCollection ch = cx \<and> chRow ch = row \<and>
    chType ch = (if wcState c = Exists then PutChange else DeleteChange) \<and> chValue ch = v \<and> chFromSync ch = fs \<and>
    chMarker ch = wcMarker c \<and> chContinued ch = wcContinued c"
proof -
  have "ParseCollectionRowPair (wcName c) = Inr (cx, row)"
    using assms(1-3) DecodeId_Encode ValidateId_no_comma EncodeId_facts(1) by (fastforce simp: ParseCollectionRowPair_Inr)
  moreover have "row \<noteq> []" using assms(2) by (auto simp: ValidateRowKey_def)
  ultimately show ?thesis using assms(3-5)
    by (auto simp: ToWatchChange_def Let_def EncodeId_facts Exists_def DoesNotExist_def)
qed

lemma watch_collection_change:
  assumes "ValidateId cx = None" "wcName c = EncodeId cx" "storeChange (wcValue c) = Some (v, fs)"
    "wcState c = Exists \<and> isInfo v \<or> wcState c = DoesNotExist"
  shows "\<exists>ch. ToWatchChange storeChange isInfo c = Some ch \<and> chEntity ch = EntityCollection \<and> chCollection ch = cx \<and>
    chType ch = (if wcState c = Exists then PutChange else DeleteChange) \<and> chValue ch = v"
proof -
  have "DecodeId (wcName c) = Inr cx" using assms(1,2) DecodeId_Encode ValidateId_no_comma by simp
  then show ?thesis using assms(2-4)
    by (auto simp: ToWatchChange_def Let_def EncodeId_facts Exists_def DoesNotExist_def)
qed

section \<open>Properties\<close>

text \<open>C37: 
  \<open>RunInBatch\<close> ends every batch it begins exactly once, and retries only concurrent batches: what it does is one to
  three attempts, each of which begins a batch, runs the function once and then either aborts or commits that
  batch (or could not begin one); an attempt is followed by another only when it returned a concurrent
  batch error, and the result is the last attempt's. So nil is returned only when the function succeeded and the
  commit after it did, or the batch was aborted because it only reads.
\<close>

theorem RunInBatch_correct:
  assumes "RunInBatch svc concurrent readOnly fn s = (r, log, s')"
  shows "\<exists>as. as \<noteq> [] \<and> length as \<le> 3 \<and> log = concat (map snd as) \<and> r = fst (last as) \<and>
    list_all (\<lambda>a. attempt_shape readOnly (fst a) (snd a)) as \<and>
    list_all (\<lambda>a. retried concurrent (fst a)) (butlast as) \<and> (length as < 3 \<longrightarrow> \<not> retried concurrent r)"
proof -
  have "batch_loop (Suc 2) concurrent (attemptInBatch svc readOnly fn) None s = (r, log, s')"
    using assms by (simp add: RunInBatch_def numeral_3_eq_3 numeral_2_eq_2)
  from batch_loop_attempts [OF this] obtain as where "as \<noteq> []" "length as \<le> 3" "log = concat (map snd as)" "r = fst (last as)"
    "list_all (\<lambda>a. attempt_shape readOnly (fst a) (snd a)) as" "list_all (\<lambda>a. retried concurrent (fst a)) (butlast as)"
    "length as \<le> 2 \<longrightarrow> \<not> retried concurrent r" by auto
  then show ?thesis by (intro exI [of _ as]) auto
qed

text \<open>
  A scan, under any interleaving of \<open>Advance\<close> with the two steps of \<open>Cancel\<close>: it never panics, stages the rows of the call
  in order and without a gap, all of them when it ends without having been cancelled; it finishes the call exactly once, when
  it ends, and only then has an error, which is the call's; and it ends when \<open>Cancel\<close> returns or \<open>Advance\<close> has been
  called once more than there are rows.
\<close>

theorem scan_stream_correct:
  assumes "finishes c = 0"
  shows "\<exists>ws t. run_stream scan_Advance scan_cancel_locked ops (new_stream c) = Some (ws, t) \<and>
    prefix ws (pending c) \<and> (uncancelled ops \<and> stFinished t \<longrightarrow> ws = pending c) \<and>
    finishes (stCall t) = (if stFinished t then 1 else 0) \<and> stErr t = (if stFinished t then finishErr c else None) \<and>
    scan_Key t = (if ws = [] then None else Some (fst (last ws))) \<and>
    (OpCancelLocked \<in> set ops \<or> length (pending c) < count_list ops OpAdvance \<longrightarrow> stFinished t)"
proof -
  have total: "\<exists>ws t. run_stream scan_Advance scan_cancel_locked ops s = Some (ws, t)" for s :: "('a, 'b) scan_stream"
  proof (induction ops arbitrary: s)
    case (Cons op ops)
    have "\<exists>b s'. scan_Advance s = Some (b, s')" by (auto simp: scan_Advance_def split: option.split)
    then obtain b s' where "scan_Advance s = Some (b, s')" by blast
    moreover obtain ws t where "run_stream scan_Advance scan_cancel_locked ops s' = Some (ws, t)" using Cons by blast
    ultimately show ?case using Cons by (cases op) auto
  qed simp
  obtain ws t where r: "run_stream scan_Advance scan_cancel_locked ops (new_stream c) = Some (ws, t)" using total by blast
  have inj: "prefix (map Some ws) (map Some (pending c)) \<longleftrightarrow> prefix ws (pending c)" "map Some ws = map Some (pending c) \<longleftrightarrow> ws = pending c"
    by (auto simp: prefix_def map_eq_append_conv inj_map_eq_map)
  show ?thesis
    using scan.run_promise [OF r] assms r inj by (auto simp: stream_promise_def new_stream_def scan_Key_def)
qed

text \<open>C38: 
  A watch stages exactly the changes that were not skipped, converted, in order and under any interleaving with
  \<open>Cancel\<close>; a change that the server made for a row of a valid collection comes out with that
  collection and key, as a put or delete with its value and resume marker.
\<close>

theorem watch_stream_correct:
  fixes c :: "('r watch_change, 'e) call"
  assumes "finishes c = 0" "run_stream (watch_Advance (ToWatchChange storeChange isInfo)) scan_cancel_locked ops (new_stream c) = Some (ws, t)"
  shows "prefix (map Some ws) (changes_of (ToWatchChange storeChange isInfo) (pending c)) \<and>
    (uncancelled ops \<and> stFinished t \<longrightarrow> map Some ws = changes_of (ToWatchChange storeChange isInfo) (pending c)) \<and>
    finishes (stCall t) = (if stFinished t then 1 else 0) \<and> watch_Change t = (if ws = [] then None else Some (last ws)) \<and>
    (\<forall>d cx row v fs. ValidateId cx = None \<and> ValidateRowKey row = None \<and> wcName d = EncodeId cx @ ''/'' @ row \<and>
      storeChange (wcValue d) = Some (v, fs) \<and> (wcState d = Exists \<or> wcState d = DoesNotExist) \<longrightarrow>
      (\<exists>ch. ToWatchChange storeChange isInfo d = Some ch \<and> chEntity ch = EntityRow \<and> chCollection ch = cx \<and> chRow ch = row \<and>
        chType ch = (if wcState d = Exists then PutChange else DeleteChange) \<and> chValue ch = v \<and> chMarker ch = wcMarker d))"
proof (intro conjI allI impI)
  note p = watch.run_promise [OF assms(2)]
  show "prefix (map Some ws) (changes_of (ToWatchChange storeChange isInfo) (pending c))"
    "finishes (stCall t) = (if stFinished t then 1 else 0)" "watch_Change t = (if ws = [] then None else Some (last ws))"
    using p assms(1) by (simp_all add: stream_promise_def new_stream_def watch_Change_def)
  show "map Some ws = changes_of (ToWatchChange storeChange isInfo) (pending c)" if "uncancelled ops \<and> stFinished t"
    using p that by (simp add: stream_promise_def new_stream_def)
  fix d :: "'r watch_change" and cx row v fs
  assume h: "ValidateId cx = None \<and> ValidateRowKey row = None \<and> wcName d = EncodeId cx @ ''/'' @ row \<and>
      storeChange (wcValue d) = Some (v, fs) \<and> (wcState d = Exists \<or> wcState d = DoesNotExist)"
  then obtain ch where "ToWatchChange storeChange isInfo d = Some ch" "chEntity ch = EntityRow" "chCollection ch = cx" "chRow ch = row"
    "chType ch = (if wcState d = Exists then PutChange else DeleteChange)" "chValue ch = v" "chMarker ch = wcMarker d"
    using watch_row_change [of cx row d storeChange v fs isInfo] by blast
  then show "\<exists>ch. ToWatchChange storeChange isInfo d = Some ch \<and> chEntity ch = EntityRow \<and> chCollection ch = cx \<and> chRow ch = row \<and>
      chType ch = (if wcState d = Exists then PutChange else DeleteChange) \<and> chValue ch = v \<and> chMarker ch = wcMarker d"
    by blast
qed

section \<open>Witnesses\<close>

text \<open>A service that gives the handles 1, 2, 3, \<dots> and whose first commit meets a concurrent batch.\<close>

definition sample_service :: "(nat, string) batch_service" where
  "sample_service = \<lparr>svc_begin = (\<lambda>n. (Inr (replicate (Suc n) (CHR ''h'')), Suc n)),
     svc_commit = (\<lambda>h n. (if n = 1 then Some ''concurrent'' else None, n)), svc_abort = (\<lambda>h n. (None, n))\<rparr>"

theorem RunInBatch_correct_witness:
  "\<exists>log. RunInBatch sample_service (\<lambda>e. e = ''concurrent'') False (\<lambda>h n. (Returned None, n)) 0 = (Returned None, log, 2) \<and>
    (\<exists>as. length as \<le> 3 \<and> log = concat (map snd as) \<and> list_all (\<lambda>a. attempt_shape False (fst a) (snd a)) as)"
proof -
  let ?log = "[Begun ''h'', Ran ''h'' (Returned None), Committed ''h'' (Some ''concurrent''),
    Begun ''hh'', Ran ''hh'' (Returned None), Committed ''hh'' None]"
  have "RunInBatch sample_service (\<lambda>e. e = ''concurrent'') False (\<lambda>h n. (Returned None, n)) 0 = (Returned None, ?log, 2)"
    by (simp add: RunInBatch_def numeral_3_eq_3 attemptInBatch_def sample_service_def)
  from RunInBatch_correct [OF this] this show ?thesis by blast
qed

definition sample_call :: "(string \<times> string, string) call" where
  "sample_call = \<lparr>pending = [(''a'', ''1''), (''b'', ''2'')], recvErr = None, finishErr = Some ''aborted'', finishes = 0, cancelled = False\<rparr>"

theorem scan_stream_correct_witness:
  "\<exists>ws t. run_stream scan_Advance scan_cancel_locked [OpAdvance, OpCancelContext 0, OpAdvance, OpCancelLocked] (new_stream sample_call) = Some (ws, t) \<and>
    prefix ws (pending sample_call) \<and> stFinished t \<and> finishes (stCall t) = 1 \<and> stErr t = Some ''aborted''"
  using scan_stream_correct [of sample_call "[OpAdvance, OpCancelContext 0, OpAdvance, OpCancelLocked]"]
  by (auto simp: sample_call_def)

definition sample_change :: "string watch_change" where
  "sample_change = \<lparr>wcName = EncodeId sample_id @ ''/'' @ ''k/1'', wcState = 0, wcValue = ''v'', wcMarker = ''m'', wcContinued = False\<rparr>"

theorem watch_stream_correct_witness:
  "\<exists>ch. map Some [ch] = changes_of (ToWatchChange (\<lambda>v. Some (v, True)) (\<lambda>_. True))
      [sample_change\<lparr>wcState := 2\<rparr>, sample_change] \<and> chRow ch = ''k/1'' \<and> chCollection ch = sample_id"
proof -
  let ?to = "ToWatchChange (\<lambda>v. Some (v, True)) (\<lambda>_. True) :: string watch_change \<Rightarrow> _"
  let ?c = "\<lparr>pending = [sample_change\<lparr>wcState := 2\<rparr>, sample_change], recvErr = None, finishErr = None, finishes = 0, cancelled = False\<rparr>
    :: (string watch_change, string) call"
  obtain ch where ch: "?to sample_change = Some ch" "chRow ch = ''k/1''" "chCollection ch = sample_id"
    using watch_row_change [of sample_id "''k/1''" sample_change "\<lambda>v. Some (v, True)" "''v''" True "\<lambda>_. True"] sample_facts_names(1,2)
    by (auto simp: sample_change_def Exists_def)
  let ?ops = "[OpAdvance, OpAdvance]"
  have "\<exists>t. run_stream (watch_Advance ?to) scan_cancel_locked ?ops (new_stream ?c) = Some ([ch], t) \<and> stFinished t"
    using ch(1) by (simp add: new_stream_def watch_Advance_def scan_end_def call_Finish_def InitialStateSkipped_def sample_change_def)
  then obtain t where "run_stream (watch_Advance ?to) scan_cancel_locked ?ops (new_stream ?c) = Some ([ch], t)" "stFinished t" by blast
  from watch_stream_correct [OF _ this(1)] this(2) ch(2,3) show ?thesis by (auto simp: uncancelled_def)
qed

end
