(* ===== verification/SyncbaseConflict.thy ===== *)
theory SyncbaseConflict
  imports SyncbaseNames
begin

text \<open>
  Conflict resolution of the Syncbase client (src/syncbase/database.go, schema.go, with the data of
  src/syncbase/syncbase.vdl.go and src/services/syncbase/syncbase.vdl.go): the rows of a conflict are collected
  from a stream, the resolver of the app is called, and its resolution is sent row by row; the schema of the
  database is enforced.

  Pointers that may be nil are options. The streams of the call are the list of what it receives with the error it ends
  with, and a function that sends on a state. The resolver is a function of the app; the order in which Go walks
  through the map it returns is that of the list \<open>ResultSet\<close>. A panic is \<open>None\<close>.
\<close>

section \<open>Data\<close>

datatype ValueState = ValueStateExists | ValueStateNoExists | ValueStateDeleted | ValueStateUnknown

datatype ValueSelection = ValueSelectionLocal | ValueSelectionRemote | ValueSelectionOther

record 'b wire_value =
  wvState :: ValueState
  wvBytes :: 'b
  wvWriteTs :: int

record 'b RowOp =
  ropKey :: string
  ropLocal :: "'b wire_value option"
  ropRemote :: "'b wire_value option"
  ropAncestor :: "'b wire_value option"

record ScanOp =
  scanStart :: string
  scanLimit :: string

datatype 'b Operation = OperationRead "'b RowOp" | OperationWrite "'b RowOp" | OperationScan ScanOp

datatype BatchSource = BatchSourceLocal | BatchSourceRemote

record BatchInfo =
  batchId :: nat
  batchHint :: string
  batchSource :: BatchSource

record 'b RowInfo =
  riOp :: "'b Operation"
  riBatchIds :: "nat list"

datatype 'b ConflictData = ConflictDataBatch BatchInfo | ConflictDataRow "'b RowInfo"

record 'b ConflictInfo =
  ciData :: "'b ConflictData"
  ciContinued :: bool

record 'b ConflictValue =
  vState :: ValueState
  vVal :: 'b
  vWriteTs :: int
  vSelection :: ValueSelection

record 'b ConflictRow =
  crKey :: string
  crLocal :: "'b ConflictValue"
  crRemote :: "'b ConflictValue"
  crAncestor :: "'b ConflictValue"
  crBatchIds :: "nat list"

record 'b ConflictRowSet =
  ByKey :: "string \<rightharpoonup> 'b ConflictRow"
  ByBatch :: "nat \<rightharpoonup> 'b ConflictRow list"

record 'b Conflict =
  ReadSet :: "'b ConflictRowSet option"
  WriteSet :: "'b ConflictRowSet option"
  ScanSet :: "(nat \<rightharpoonup> ScanOp list) option"
  Batches :: "(nat \<rightharpoonup> BatchInfo) option"

record 'b ResolvedRow =
  rrKey :: string
  rrResult :: "'b ConflictValue option"

text \<open>A wire value made for a resolution: its state is the zero of its type, and a nil value has nil bytes.\<close>

record 'b ResolutionInfo =
  resKey :: string
  resSelection :: ValueSelection
  resResult :: "'b wire_value option"
  resContinued :: bool

section \<open>Collecting a conflict\<close>

definition no_conflict :: "'b Conflict" where
  "no_conflict = \<lparr>ReadSet = None, WriteSet = None, ScanSet = None, Batches = None\<rparr>"

definition to_value :: "ValueSelection \<Rightarrow> 'b wire_value \<Rightarrow> 'b ConflictValue" where
  "to_value sel w = \<lparr>vState = wvState w, vVal = wvBytes w, vWriteTs = wvWriteTs w, vSelection = sel\<rparr>"

text \<open>The three pointers are followed without a check.\<close>

definition toConflictRow :: "'b RowOp \<Rightarrow> nat list \<Rightarrow> 'b ConflictRow option" where
  "toConflictRow op batchIds =
     (case (ropLocal op, ropRemote op, ropAncestor op) of
        (Some l, Some r, Some a) \<Rightarrow>
          Some \<lparr>crKey = ropKey op, crLocal = to_value ValueSelectionLocal l, crRemote = to_value ValueSelectionRemote r,
                crAncestor = to_value ValueSelectionOther a, crBatchIds = batchIds\<rparr>
      | _ \<Rightarrow> None)"

text \<open>\<open>m[bid] = append(m[bid], x)\<close> for every id.\<close>

fun append_batches :: "'x \<Rightarrow> nat list \<Rightarrow> (nat \<rightharpoonup> 'x list) \<Rightarrow> (nat \<rightharpoonup> 'x list)" where
  "append_batches x [] m = m"
| "append_batches x (bid # bids) m = append_batches x bids (m(bid \<mapsto> (case m bid of None \<Rightarrow> [] | Some xs \<Rightarrow> xs) @ [x]))"

definition empty_rows :: "'b ConflictRowSet" where
  "empty_rows = \<lparr>ByKey = Map.empty, ByBatch = Map.empty\<rparr>"

definition add_row :: "'b ConflictRowSet option \<Rightarrow> nat list \<Rightarrow> 'b ConflictRow \<Rightarrow> 'b ConflictRowSet" where
  "add_row rs bids cr =
     (let set0 = (case rs of None \<Rightarrow> empty_rows | Some s \<Rightarrow> s) in
      \<lparr>ByKey = (ByKey set0)(crKey cr \<mapsto> cr), ByBatch = append_batches cr bids (ByBatch set0)\<rparr>)"

definition addRowToConflict :: "'b Conflict \<Rightarrow> 'b ConflictInfo \<Rightarrow> 'b Conflict option" where
  "addRowToConflict c ci =
     (case ciData ci of
        ConflictDataBatch v \<Rightarrow>
          Some (c\<lparr>Batches := Some ((case Batches c of None \<Rightarrow> Map.empty | Some m \<Rightarrow> m)(batchId v \<mapsto> v))\<rparr>)
      | ConflictDataRow rowInfo \<Rightarrow>
          (case riOp rowInfo of
             OperationWrite op \<Rightarrow>
               map_option (\<lambda>cr. c\<lparr>WriteSet := Some (add_row (WriteSet c) (riBatchIds rowInfo) cr)\<rparr>)
                 (toConflictRow op (riBatchIds rowInfo))
           | OperationRead op \<Rightarrow>
               map_option (\<lambda>cr. c\<lparr>ReadSet := Some (add_row (ReadSet c) (riBatchIds rowInfo) cr)\<rparr>)
                 (toConflictRow op (riBatchIds rowInfo))
           | OperationScan op \<Rightarrow>
               Some (c\<lparr>ScanSet := Some (append_batches op (riBatchIds rowInfo)
                 (case ScanSet c of None \<Rightarrow> Map.empty | Some m \<Rightarrow> m))\<rparr>)))"

section \<open>Resolving\<close>

definition toResolutionInfo :: "'b \<Rightarrow> 'b ResolvedRow \<Rightarrow> bool \<Rightarrow> 'b ResolutionInfo" where
  "toResolutionInfo nilBytes r lastRow =
     (case rrResult r of
        None \<Rightarrow> \<lparr>resKey = rrKey r, resSelection = ValueSelectionOther, resResult = None, resContinued = lastRow\<rparr>
      | Some v \<Rightarrow>
          \<lparr>resKey = rrKey r, resSelection = vSelection v,
           resResult = Some \<lparr>wvState = ValueStateExists, wvBytes = vVal v, wvWriteTs = vWriteTs v\<rparr>, resContinued = lastRow\<rparr>)"

text \<open>The loop over the result set; \<open>send\<close> acts on the state of the stream.\<close>

fun send_loop :: "'b \<Rightarrow> ('b ResolutionInfo \<Rightarrow> 's \<Rightarrow> 'e option \<times> 's) \<Rightarrow> nat \<Rightarrow> nat \<Rightarrow> 'b ResolvedRow list \<Rightarrow> 's \<Rightarrow> 'e option \<times> 's" where
  "send_loop nilBytes send sz cnt [] s = (None, s)"
| "send_loop nilBytes send sz cnt (v # vs) s =
     (let cnt' = cnt + 1 in
      case send (toResolutionInfo nilBytes v (cnt' \<noteq> sz)) s of
        (Some err, s') \<Rightarrow> (Some err, s')
      | (None, s') \<Rightarrow> send_loop nilBytes send sz cnt' vs s')"

definition sendResolution :: "'b \<Rightarrow> ('b ResolutionInfo \<Rightarrow> 's \<Rightarrow> 'e option \<times> 's) \<Rightarrow> 'b ResolvedRow list \<Rightarrow> 's \<Rightarrow> 'e option \<times> 's" where
  "sendResolution nilBytes send ResultSet s = send_loop nilBytes send (length ResultSet) 0 ResultSet s"

text \<open>
  The loop of \<open>listenForConflicts\<close> over the conflict stream, then the errors of the stream and of the call. \<open>None\<close> is a
  panic.
\<close>

fun listen_loop :: "'b \<Rightarrow> ('b Conflict \<Rightarrow> 'b ResolvedRow list) \<Rightarrow> ('b ResolutionInfo \<Rightarrow> 's \<Rightarrow> 'e option \<times> 's) \<Rightarrow>
    'b Conflict \<Rightarrow> 'b ConflictInfo list \<Rightarrow> 's \<Rightarrow> ('e option \<times> 's) option" where
  "listen_loop nilBytes OnConflict send c [] s = Some (None, s)"
| "listen_loop nilBytes OnConflict send c (row # rows) s =
     (case addRowToConflict c row of
        None \<Rightarrow> None
      | Some c' \<Rightarrow>
          if \<not> ciContinued row then
            (case sendResolution nilBytes send (OnConflict c') s of
               (Some err, s') \<Rightarrow> Some (Some err, s')
             | (None, s') \<Rightarrow> listen_loop nilBytes OnConflict send no_conflict rows s')
          else listen_loop nilBytes OnConflict send c' rows s)"

definition listenForConflicts :: "'b \<Rightarrow> 'e option \<Rightarrow> 'e option \<Rightarrow> 'e option \<Rightarrow> ('b Conflict \<Rightarrow> 'b ResolvedRow list) \<Rightarrow>
    ('b ResolutionInfo \<Rightarrow> 's \<Rightarrow> 'e option \<times> 's) \<Rightarrow> 'b ConflictInfo list \<Rightarrow> 's \<Rightarrow> ('e option \<times> 's) option" where
  "listenForConflicts nilBytes startErr recvError finishError OnConflict send rows s =
     (case startErr of
        Some err \<Rightarrow> Some (Some err, s)
      | None \<Rightarrow>
          (case listen_loop nilBytes OnConflict send no_conflict rows s of
             None \<Rightarrow> None
           | Some (Some err, s') \<Rightarrow> Some (Some err, s')
           | Some (None, s') \<Rightarrow> Some (if recvError \<noteq> None then recvError else finishError, s')))"

section \<open>Schemas and the state of the connection\<close>

datatype ResolverType = ResolverTypeLastWins | ResolverTypeAppResolves | ResolverTypeDefer

record SchemaMetadata =
  schemaVersion :: int
  schemaResolvers :: "ResolverType list"

record Schema =
  schMetadata :: SchemaMetadata
  schHasResolver :: bool

definition needsResolver :: "SchemaMetadata \<Rightarrow> bool" where
  "needsResolver metadata = list_ex (\<lambda>r. r = ResolverTypeAppResolves) (schemaResolvers metadata)"

text \<open>The requests of the schema manager, on the state of the server; \<open>noExist\<close> tells an error whose id is \<open>ErrNoExist\<close>.\<close>

record ('s, 'e) schema_manager =
  getSchemaMetadata :: "'s \<Rightarrow> ('e + SchemaMetadata) \<times> 's"
  setSchemaMetadata :: "SchemaMetadata \<Rightarrow> 's \<Rightarrow> 'e option \<times> 's"

definition updateSchemaMetadata :: "('s, 'e) schema_manager \<Rightarrow> ('e \<Rightarrow> bool) \<Rightarrow> SchemaMetadata \<Rightarrow> 's \<Rightarrow> ('e + bool) \<times> 's" where
  "updateSchemaMetadata mgr noExist metadata s0 =
     (case getSchemaMetadata mgr s0 of
        (Inl err, s1) \<Rightarrow>
          if noExist err then
            (case setSchemaMetadata mgr metadata s1 of
               (Some err2, s2) \<Rightarrow> if \<not> noExist err2 then (Inl err2, s2) else (Inr False, s2)
             | (None, s2) \<Rightarrow> (Inr False, s2))
          else (Inl err, s1)
      | (Inr currMeta, s1) \<Rightarrow>
          if schemaVersion metadata \<le> schemaVersion currMeta then (Inr False, s1)
          else
            (case setSchemaMetadata mgr metadata s1 of
               (Some err, s2) \<Rightarrow> (Inl err, s2)
             | (None, s2) \<Rightarrow> (Inr True, s2)))"

datatype 'e schema_error = NilSchema | NegativeVersion | MissingResolver | SchemaManager 'e

text \<open>The part of \<open>conflictResolutionState\<close> that is read: whether there is a cancel function, and whether it was closed.\<close>

record cr_state =
  crCancelFn :: bool
  crClosed :: bool

text \<open>The third component of the result: whether the goroutine that resolves conflicts was started.\<close>

definition EnforceSchema :: "('s, 'e) schema_manager \<Rightarrow> ('e \<Rightarrow> bool) \<Rightarrow> Schema option \<Rightarrow> cr_state \<Rightarrow> 's \<Rightarrow>
    ('e schema_error option \<times> cr_state \<times> bool) \<times> 's" where
  "EnforceSchema mgr noExist schema crs s =
     (case schema of
        None \<Rightarrow> ((Some NilSchema, crs, False), s)
      | Some sch \<Rightarrow>
          if schemaVersion (schMetadata sch) < 0 then ((Some NegativeVersion, crs, False), s)
          else if needsResolver (schMetadata sch) \<and> \<not> schHasResolver sch then ((Some MissingResolver, crs, False), s)
          else
            (case updateSchemaMetadata mgr noExist (schMetadata sch) s of
               (Inl err, s') \<Rightarrow> ((Some (SchemaManager err), crs, False), s')
             | (Inr _, s') \<Rightarrow>
                 if \<not> schHasResolver sch then ((None, crs, False), s')
                 else ((None, crs\<lparr>crCancelFn := True\<rparr>, True), s')))"

text \<open>\<open>disconnect\<close>, which \<open>Close\<close> calls; calling a nil function is a panic, with \<open>isClosed\<close> already set.\<close>

definition disconnect :: "cr_state \<Rightarrow> cr_state option" where
  "disconnect crs = (if crCancelFn crs then Some (crs\<lparr>crClosed := True\<rparr>) else None)"

definition isDisconnected :: "cr_state \<Rightarrow> bool" where
  "isDisconnected crs = crClosed crs"

definition new_cr_state :: cr_state where
  "new_cr_state = \<lparr>crCancelFn = False, crClosed = False\<rparr>"

text \<open>
  \<open>establishConflictResolution\<close>: each entry of the list is one connection, with whether the database was found closed after
  it; the result is the number of connections that were made, \<open>None\<close> while the loop goes on.
\<close>

fun reconnect_loop :: "bool list \<Rightarrow> nat option" where
  "reconnect_loop [] = None"
| "reconnect_loop (closed # rest) = (if closed then Some 1 else map_option Suc (reconnect_loop rest))"

section \<open>What a conflict holds\<close>

fun collect_rows :: "'b Conflict \<Rightarrow> 'b ConflictInfo list \<Rightarrow> 'b Conflict option" where
  "collect_rows c [] = Some c"
| "collect_rows c (ci # cis) = Option.bind (addRowToConflict c ci) (\<lambda>c'. collect_rows c' cis)"

lemma collect_rows_append: "collect_rows c (xs @ ys) = Option.bind (collect_rows c xs) (\<lambda>c'. collect_rows c' ys)"
  by (induction xs arbitrary: c) (simp_all add: bind_assoc)

text \<open>The operations of one kind, with the batches they belong to.\<close>

definition row_infos :: "'b ConflictInfo list \<Rightarrow> 'b RowInfo list" where
  "row_infos cis = List.map_filter (\<lambda>ci. case ciData ci of ConflictDataRow ri \<Rightarrow> Some ri | _ \<Rightarrow> None) cis"

definition writes_of :: "'b ConflictInfo list \<Rightarrow> ('b RowOp \<times> nat list) list" where
  "writes_of cis = List.map_filter (\<lambda>ri. case riOp ri of OperationWrite op \<Rightarrow> Some (op, riBatchIds ri) | _ \<Rightarrow> None) (row_infos cis)"

definition reads_of :: "'b ConflictInfo list \<Rightarrow> ('b RowOp \<times> nat list) list" where
  "reads_of cis = List.map_filter (\<lambda>ri. case riOp ri of OperationRead op \<Rightarrow> Some (op, riBatchIds ri) | _ \<Rightarrow> None) (row_infos cis)"

definition scans_of :: "'b ConflictInfo list \<Rightarrow> (ScanOp \<times> nat list) list" where
  "scans_of cis = List.map_filter (\<lambda>ri. case riOp ri of OperationScan op \<Rightarrow> Some (op, riBatchIds ri) | _ \<Rightarrow> None) (row_infos cis)"

definition batches_in :: "'b ConflictInfo list \<Rightarrow> BatchInfo list" where
  "batches_in cis = List.map_filter (\<lambda>ci. case ciData ci of ConflictDataBatch b \<Rightarrow> Some b | _ \<Rightarrow> None) cis"

text \<open>The items of each batch, in the order they came; an item is there once for every time its batches name it.\<close>

definition by_batch :: "('x \<times> nat list) list \<Rightarrow> (nat \<rightharpoonup> 'x list)" where
  "by_batch l = (\<lambda>b. let xs = concat (map (\<lambda>(x, bids). replicate (count_list bids b) x) l) in if xs = [] then None else Some xs)"

definition conflict_row :: "'b RowOp \<times> nat list \<Rightarrow> 'b ConflictRow" where
  "conflict_row p = the (toConflictRow (fst p) (snd p))"

definition row_set :: "('b RowOp \<times> nat list) list \<Rightarrow> 'b ConflictRowSet option" where
  "row_set l =
     (if l = [] then None
      else Some \<lparr>ByKey = map_of (rev (map (\<lambda>p. (ropKey (fst p), conflict_row p)) l)),
                 ByBatch = by_batch (map (\<lambda>p. (conflict_row p, snd p)) l)\<rparr>)"

definition conflict_of :: "'b ConflictInfo list \<Rightarrow> 'b Conflict" where
  "conflict_of cis =
     \<lparr>ReadSet = row_set (reads_of cis), WriteSet = row_set (writes_of cis),
      ScanSet = (if scans_of cis = [] then None else Some (by_batch (scans_of cis))),
      Batches = (if batches_in cis = [] then None else Some (map_of (rev (map (\<lambda>b. (batchId b, b)) (batches_in cis)))))\<rparr>"

text \<open>A row operation has all three values.\<close>

definition has_values :: "'b RowOp \<Rightarrow> bool" where
  "has_values op \<longleftrightarrow> ropLocal op \<noteq> None \<and> ropRemote op \<noteq> None \<and> ropAncestor op \<noteq> None"

definition complete_info :: "'b ConflictInfo \<Rightarrow> bool" where
  "complete_info ci \<longleftrightarrow> list_all (\<lambda>p. has_values (fst p)) (writes_of [ci] @ reads_of [ci])"

lemmas of_simps = row_infos_def writes_of_def reads_of_def scans_of_def batches_in_def map_filter_simps

lemma of_append:
  "writes_of (xs @ ys) = writes_of xs @ writes_of ys" "reads_of (xs @ ys) = reads_of xs @ reads_of ys"
  "scans_of (xs @ ys) = scans_of xs @ scans_of ys" "batches_in (xs @ ys) = batches_in xs @ batches_in ys"
  by (simp_all add: of_simps List.map_filter_def)

lemma append_batches_apply:
  "append_batches x bids m b =
     (if count_list bids b = 0 then m b
      else Some ((case m b of None \<Rightarrow> [] | Some xs \<Rightarrow> xs) @ replicate (count_list bids b) x))"
  by (induction bids arbitrary: m) (auto simp: replicate_append_same split: option.split)

lemma append_batches_by_batch: "append_batches x bids (by_batch l) = by_batch (l @ [(x, bids)])"
  by (rule ext) (auto simp: append_batches_apply by_batch_def Let_def)

lemma by_batch_Nil: "by_batch [] = Map.empty"
  by (simp add: by_batch_def)

lemma toConflictRow_None: "toConflictRow op bids = None \<longleftrightarrow> \<not> has_values op"
  by (auto simp: toConflictRow_def has_values_def split: option.splits)

lemma toConflictRow_key: "toConflictRow op bids = Some cr \<Longrightarrow> crKey cr = ropKey op"
  by (auto simp: toConflictRow_def split: option.splits)

lemma add_row_set:
  assumes "toConflictRow op bids = Some cr"
  shows "Some (add_row (row_set l) bids cr) = row_set (l @ [(op, bids)])"
proof -
  have cr: "conflict_row (op, bids) = cr" by (simp add: conflict_row_def assms)
  show ?thesis
    by (cases "l = []")
      (simp_all add: row_set_def add_row_def empty_rows_def Let_def cr toConflictRow_key [OF assms]
        append_batches_by_batch by_batch_Nil [symmetric] del: by_batch_Nil)
qed

lemma of_single:
  "ciData ci = ConflictDataBatch b \<Longrightarrow>
     writes_of [ci] = [] \<and> reads_of [ci] = [] \<and> scans_of [ci] = [] \<and> batches_in [ci] = [b]"
  "ciData ci = ConflictDataRow ri \<Longrightarrow> riOp ri = OperationRead op \<Longrightarrow>
     writes_of [ci] = [] \<and> reads_of [ci] = [(op, riBatchIds ri)] \<and> scans_of [ci] = [] \<and> batches_in [ci] = []"
  "ciData ci = ConflictDataRow ri \<Longrightarrow> riOp ri = OperationWrite op \<Longrightarrow>
     writes_of [ci] = [(op, riBatchIds ri)] \<and> reads_of [ci] = [] \<and> scans_of [ci] = [] \<and> batches_in [ci] = []"
  "ciData ci = ConflictDataRow ri \<Longrightarrow> riOp ri = OperationScan sop \<Longrightarrow>
     writes_of [ci] = [] \<and> reads_of [ci] = [] \<and> scans_of [ci] = [(sop, riBatchIds ri)] \<and> batches_in [ci] = []"
  by (simp_all add: of_simps)

lemma add_batches_map:
  "(case (if bs = [] then None else Some (map_of (rev (map (\<lambda>b. (batchId b, b)) bs)))) of None \<Rightarrow> Map.empty | Some m \<Rightarrow> m)
     (batchId v \<mapsto> v) = map_of (rev (map (\<lambda>b. (batchId b, b)) (bs @ [v])))"
  by simp

lemma add_scans_map:
  "append_batches op bids (case (if l = [] then None else Some (by_batch l)) of None \<Rightarrow> Map.empty | Some m \<Rightarrow> m) =
     by_batch (l @ [(op, bids)])"
  using append_batches_by_batch [of op bids l] by (cases "l = []") (simp_all add: by_batch_Nil)

lemma add_row_case:
  "map_option (\<lambda>cr. f (Some (add_row (row_set l) bids cr))) (toConflictRow op bids) =
     (if has_values op then Some (f (row_set (l @ [(op, bids)]))) else None)"
proof (cases "toConflictRow op bids")
  case (Some cr)
  then have "has_values op" by (metis option.distinct(1) toConflictRow_None)
  then show ?thesis using add_row_set [OF Some, of l] by (simp add: Some)
qed (simp add: toConflictRow_None)

lemma collect_one:
  "addRowToConflict (conflict_of cis) ci = (if complete_info ci then Some (conflict_of (cis @ [ci])) else None)"
proof (cases "ciData ci")
  case (ConflictDataBatch v)
  note one = of_single(1) [OF this]
  show ?thesis
    using add_batches_map [of "batches_in cis" v]
    by (simp add: addRowToConflict_def ConflictDataBatch conflict_of_def complete_info_def of_append one del: rev_append rev_map)
next
  case (ConflictDataRow ri)
  show ?thesis
  proof (cases "riOp ri")
    case (OperationRead op)
    note one = of_single(2) [OF ConflictDataRow this]
    show ?thesis
      using add_row_case [of "\<lambda>r. conflict_of cis\<lparr>ReadSet := r\<rparr>" "reads_of cis" "riBatchIds ri" op]
      by (simp add: addRowToConflict_def ConflictDataRow OperationRead complete_info_def conflict_of_def of_append one)
  next
    case (OperationWrite op)
    note one = of_single(3) [OF ConflictDataRow this]
    show ?thesis
      using add_row_case [of "\<lambda>r. conflict_of cis\<lparr>WriteSet := r\<rparr>" "writes_of cis" "riBatchIds ri" op]
      by (simp add: addRowToConflict_def ConflictDataRow OperationWrite complete_info_def conflict_of_def of_append one)
  next
    case (OperationScan op)
    note one = of_single(4) [OF ConflictDataRow this]
    show ?thesis
      using add_scans_map [of op "riBatchIds ri" "scans_of cis"]
      by (simp add: addRowToConflict_def ConflictDataRow OperationScan complete_info_def conflict_of_def of_append one)
  qed
qed

lemma conflict_of_Nil: "conflict_of [] = no_conflict"
  by (simp add: conflict_of_def no_conflict_def row_set_def of_simps)

lemma collect_eq:
  "collect_rows no_conflict cis = (if list_all complete_info cis then Some (conflict_of cis) else None)"
proof (induction cis rule: rev_induct)
  case Nil
  then show ?case by (simp add: conflict_of_Nil)
next
  case (snoc ci cis)
  then show ?case by (simp add: collect_rows_append collect_one)
qed

section \<open>What is sent\<close>

text \<open>The groups of a conflict stream: each ends with the first item that is not continued; what comes after the last such item is no group.\<close>

fun groups :: "'b ConflictInfo list \<Rightarrow> 'b ConflictInfo list \<Rightarrow> 'b ConflictInfo list list" where
  "groups acc [] = []"
| "groups acc (ci # cis) = (if ciContinued ci then groups (acc @ [ci]) cis else (acc @ [ci]) # groups [] cis)"

text \<open>The messages of a resolution: one for each row, continued except the last.\<close>

definition resolution_infos :: "'b \<Rightarrow> 'b ResolvedRow list \<Rightarrow> 'b ResolutionInfo list" where
  "resolution_infos nilBytes rs =
     map (\<lambda>r. toResolutionInfo nilBytes r True) (butlast rs) @ (if rs = [] then [] else [toResolutionInfo nilBytes (last rs) False])"

definition record_send :: "'b ResolutionInfo \<Rightarrow> 'b ResolutionInfo list \<Rightarrow> 'e option \<times> 'b ResolutionInfo list" where
  "record_send ri sent = (None, sent @ [ri])"

lemma send_loop_records:
  "sz = cnt + length rs \<Longrightarrow> send_loop nilBytes record_send sz cnt rs sent = (None, sent @ resolution_infos nilBytes rs)"
proof (induction rs arbitrary: cnt sent)
  case (Cons r rs)
  then show ?case
    by (cases "rs = []") (simp_all add: record_send_def resolution_infos_def)
qed (simp add: resolution_infos_def)

lemma sendResolution_records: "sendResolution nilBytes record_send rs sent = (None, sent @ resolution_infos nilBytes rs)"
  by (simp add: sendResolution_def send_loop_records)

lemma listen_loop_records:
  assumes "list_all complete_info cis"
  shows "listen_loop nilBytes OnConflict record_send (conflict_of acc) cis sent =
    Some (None :: 'e option, sent @ concat (map (\<lambda>g. resolution_infos nilBytes (OnConflict (conflict_of g))) (groups acc cis)))"
  using assms
proof (induction cis arbitrary: acc sent)
  case (Cons ci cis)
  then show ?case
    using Cons.IH [of "[]"] by (simp add: collect_one sendResolution_records conflict_of_Nil)
qed simp

text \<open>Closing a database whose schema was not enforced with a resolver calls a nil function.\<close>

lemma close_without_resolver_panics: "disconnect new_cr_state = None"
  by (simp add: disconnect_def new_cr_state_def)

lemma enforced_schema_closes:
  assumes "EnforceSchema mgr noExist schema crs s = ((r, crs', True), s')"
  shows "r = None \<and> (\<exists>d. disconnect crs' = Some d \<and> isDisconnected d)"
  using assms
  by (auto simp: EnforceSchema_def disconnect_def isDisconnected_def split: option.splits if_splits prod.splits sum.splits)

text \<open>The stored version never goes down: metadata is only sent to a server that has none or an older one.\<close>

lemma updateSchemaMetadata_monotone:
  assumes "getSchemaMetadata mgr s = (Inr cur, s)" "updateSchemaMetadata mgr noExist m s = (r, s')"
  shows "(s' = s \<and> r = Inr False \<and> schemaVersion m \<le> schemaVersion cur) \<or>
    (schemaVersion cur < schemaVersion m \<and> s' = snd (setSchemaMetadata mgr m s))"
  using assms by (auto simp: updateSchemaMetadata_def split: if_splits prod.splits option.splits)

lemma reconnect_loop_stops: "reconnect_loop cs = Some n \<longleftrightarrow> 0 < n \<and> n \<le> length cs \<and> cs ! (n - 1) \<and> (\<forall>i < n - 1. \<not> cs ! i)"
proof (induction cs arbitrary: n)
  case (Cons c cs)
  show ?case
  proof (cases c)
    case False
    have "reconnect_loop (c # cs) = Some n \<longleftrightarrow> (\<exists>m. n = Suc m \<and> reconnect_loop cs = Some m)" using False by auto
    also have "\<dots> \<longleftrightarrow> (\<exists>m. n = Suc m \<and> 0 < m \<and> m \<le> length cs \<and> cs ! (m - 1) \<and> (\<forall>i < m - 1. \<not> cs ! i))"
      by (simp add: Cons.IH)
    also have "\<dots> \<longleftrightarrow> 0 < n \<and> n \<le> length (c # cs) \<and> (c # cs) ! (n - 1) \<and> (\<forall>i < n - 1. \<not> (c # cs) ! i)"
      using False by (cases n; cases "n - 1") (auto simp: nth_Cons less_Suc_eq_0_disj split: nat.splits)
    finally show ?thesis .
  next
    case True
    have "0 < n \<and> (\<forall>i < n - 1. \<not> (c # cs) ! i) \<longleftrightarrow> n = 1" if "(c # cs) ! (n - 1)"
      using True by (cases n; cases "n - 1") auto
    then show ?thesis using True by (cases n) auto
  qed
qed auto

section \<open>Properties\<close>

text \<open>
  The conflict that the resolver of the app sees is what the stream said: the rows read and written by key, the
  last one of a key counting, the rows and scans of every batch in the order they came, and the
  batches by their ids; a set that no item belongs to is nil. Collecting panics exactly when some row lacks one of its
  three values, which the protocol allows.
\<close>

theorem conflict_collected:
  "collect_rows no_conflict cis = (if list_all complete_info cis then Some (conflict_of cis) else None) \<and>
   (complete_info ci \<longleftrightarrow> (\<forall>p \<in> set (writes_of [ci]) \<union> set (reads_of [ci]). has_values (fst p)))"
  by (simp add: collect_eq complete_info_def list_all_iff ball_Un)


definition sample_value :: "string wire_value" where
  "sample_value = \<lparr>wvState = ValueStateExists, wvBytes = ''v'', wvWriteTs = 1\<rparr>"

definition sample_write :: "string ConflictInfo" where
  "sample_write = \<lparr>ciData = ConflictDataRow \<lparr>riOp = OperationWrite \<lparr>ropKey = ''k'', ropLocal = Some sample_value,
     ropRemote = Some sample_value, ropAncestor = Some sample_value\<rparr>, riBatchIds = [1]\<rparr>, ciContinued = False\<rparr>"

theorem conflict_collected_witness:
  "collect_rows no_conflict [sample_write\<lparr>ciData := ConflictDataRow \<lparr>riOp = OperationRead \<lparr>ropKey = ''k'', ropLocal = Some sample_value,
     ropRemote = Some sample_value, ropAncestor = None\<rparr>, riBatchIds = [1]\<rparr>\<rparr>] = None"
proof -
  let ?r = "sample_write\<lparr>ciData := ConflictDataRow \<lparr>riOp = OperationRead \<lparr>ropKey = ''k'', ropLocal = Some sample_value,
     ropRemote = Some sample_value, ropAncestor = None\<rparr>, riBatchIds = [1]\<rparr>\<rparr>"
  have "\<not> complete_info ?r" by (simp add: complete_info_def of_simps has_values_def)
  then show ?thesis using conflict_collected [of "[?r]" ?r] by simp
qed


end
