(* ===== verification/GlobPattern.thy ===== *)
theory GlobPattern
  imports GoUtf8 GoStrings
begin

text \<open>
  Package glob (src/glob/glob.go): patterns for names, as sequences of patterns for their elements, with the functions of
  Go's package path that it uses, \<open>path.Match\<close> on one element and \<open>path.Join\<close>.

  Strings are byte strings. \<open>path.Match\<close> reads a pattern in chunks, each after any number of stars, and tries the places
  where a chunk can match; \<open>None\<close> is \<open>ErrBadPattern\<close>, which it finds only when it gets to the bad part.
\<close>

section \<open>Package path\<close>

definition star :: char where "star = CHR ''*''"
definition backslash :: char where "backslash = CHR 0x5C"

lemmas glob_chars = star_def backslash_def

text \<open>A chunk ends at a star that is neither escaped nor in a class.\<close>

fun chunk_of :: "bool \<Rightarrow> string \<Rightarrow> string \<times> string" where
  "chunk_of inrange [] = ([], [])"
| "chunk_of inrange (c # s) =
     (if c = backslash then
        (case s of
           [] \<Rightarrow> ([c], [])
         | d # s' \<Rightarrow> (case chunk_of inrange s' of (a, b) \<Rightarrow> (c # d # a, b)))
      else if c = CHR ''['' then (case chunk_of True s of (a, b) \<Rightarrow> (c # a, b))
      else if c = CHR '']'' then (case chunk_of False s of (a, b) \<Rightarrow> (c # a, b))
      else if c = star \<and> \<not> inrange then ([], c # s)
      else (case chunk_of inrange s of (a, b) \<Rightarrow> (c # a, b)))"

definition scanChunk :: "string \<Rightarrow> bool \<times> string \<times> string" where
  "scanChunk pattern =
     (let rest = dropWhile (\<lambda>c. c = star) pattern in
      (pattern \<noteq> [] \<and> hd pattern = star, chunk_of False rest))"

definition getEsc :: "string \<Rightarrow> (rune \<times> string) option" where
  "getEsc chunk =
     (if chunk = [] \<or> hd chunk = CHR ''-'' \<or> hd chunk = CHR '']'' then None
      else
        let chunk = (if hd chunk = backslash then tl chunk else chunk) in
        if chunk = [] then None
        else
          (case decode_rune (codes chunk) of
             (r, n) \<Rightarrow>
               if r = RuneError \<and> n = 1 then None
               else let nchunk = drop n chunk in if nchunk = [] then None else Some (r, nchunk)))"

lemma getEsc_shorter: "getEsc chunk = Some (r, rest) \<Longrightarrow> length rest < length chunk"
proof -
  assume h: "getEsc chunk = Some (r, rest)"
  define c where "c = (if hd chunk = backslash then tl chunk else chunk)"
  have "chunk \<noteq> []" "c \<noteq> []" "rest = drop (snd (decode_rune (codes c))) c"
    using h by (auto simp: getEsc_def c_def Let_def split: if_splits prod.splits)
  moreover have "1 \<le> snd (decode_rune (codes c))"
    using \<open>c \<noteq> []\<close> by (intro decode_rune_width) (simp add: codes_def)
  moreover have "length c \<le> length chunk" by (simp add: c_def)
  ultimately show ?thesis by (cases c) auto
qed

text \<open>The ranges of a class, up to its closing bracket.\<close>

function class_ranges :: "rune \<Rightarrow> nat \<Rightarrow> bool \<Rightarrow> string \<Rightarrow> (bool \<times> string) option" where
  "class_ranges r nrange m chunk =
     (if chunk \<noteq> [] \<and> hd chunk = CHR '']'' \<and> 0 < nrange then Some (m, tl chunk)
      else
        (case getEsc chunk of
           None \<Rightarrow> None
         | Some (lo, chunk1) \<Rightarrow>
             if hd chunk1 = CHR ''-'' then
               (case getEsc (tl chunk1) of
                  None \<Rightarrow> None
                | Some (hi, chunk2) \<Rightarrow> class_ranges r (nrange + 1) (m \<or> lo \<le> r \<and> r \<le> hi) chunk2)
             else class_ranges r (nrange + 1) (m \<or> lo \<le> r \<and> r \<le> lo) chunk1))"
  by pat_completeness auto
termination
  by (relation "measure (\<lambda>(r, n, m, chunk). length chunk)") (fastforce dest: getEsc_shorter)+

declare class_ranges.simps [simp del]

lemma class_ranges_shorter: "class_ranges r n m chunk = Some (m', rest) \<Longrightarrow> length rest < length chunk"
proof (induction r n m chunk rule: class_ranges.induct)
  case (1 r n m chunk)
  show ?case
  proof (cases "chunk \<noteq> [] \<and> hd chunk = CHR '']'' \<and> 0 < n")
    case True
    then show ?thesis using 1(3) by (subst (asm) class_ranges.simps) (auto simp: neq_Nil_conv)
  next
    case False
    then obtain lo chunk1 where e: "getEsc chunk = Some (lo, chunk1)"
      using 1(3) by (subst (asm) class_ranges.simps) (auto split: option.splits if_splits)
    show ?thesis
    proof (cases "hd chunk1 = CHR ''-''")
      case True
      then obtain hi chunk2 where e2: "getEsc (tl chunk1) = Some (hi, chunk2)"
        using 1(3) False e by (subst (asm) class_ranges.simps) (auto split: option.splits if_splits)
      have "class_ranges r (n + 1) (m \<or> lo \<le> r \<and> r \<le> hi) chunk2 = Some (m', rest)"
        using 1(3) False e e2 True by (subst (asm) class_ranges.simps) auto
      then have "length rest < length chunk2" using 1(1) False e e2 True by blast
      then show ?thesis using getEsc_shorter [OF e] getEsc_shorter [OF e2] by simp
    next
      case no: False
      have "class_ranges r (n + 1) (m \<or> lo \<le> r \<and> r \<le> lo) chunk1 = Some (m', rest)"
        using 1(3) False e no by (subst (asm) class_ranges.simps) auto
      then have "length rest < length chunk1" using 1(2) False e no by blast
      then show ?thesis using getEsc_shorter [OF e] by simp
    qed
  qed
qed

text \<open>The result of matching a chunk: a bad pattern, no match, or what is left of the string.\<close>

datatype chunk_result = BadChunk | NoMatch | Rest string

function matchChunk :: "string \<Rightarrow> string \<Rightarrow> chunk_result" where
  "matchChunk [] s = Rest s"
| "matchChunk (c # chunk) [] = NoMatch"
| "matchChunk (c # chunk) (x # s) =
     (if c = CHR ''['' then
        (case decode_rune (codes (x # s)) of
           (r, n) \<Rightarrow>
             let negated = (chunk \<noteq> [] \<and> hd chunk = CHR ''^'') in
             (case class_ranges r 0 False (if negated then tl chunk else chunk) of
                None \<Rightarrow> BadChunk
              | Some (m, chunk') \<Rightarrow> if m = negated then NoMatch else matchChunk chunk' (drop n (x # s))))
      else if c = CHR ''?'' then
        (if x = CHR ''/'' then NoMatch
         else matchChunk chunk (drop (snd (decode_rune (codes (x # s)))) (x # s)))
      else if c = backslash then
        (case chunk of
           [] \<Rightarrow> BadChunk
         | d # chunk' \<Rightarrow> if d \<noteq> x then NoMatch else matchChunk chunk' s)
      else if c \<noteq> x then NoMatch
      else matchChunk chunk s)"
  by pat_completeness auto
termination
  by (relation "measure (\<lambda>(chunk, s). length chunk)") (fastforce dest: class_ranges_shorter split: if_splits)+

text \<open>The places after the start of the string where the chunk may match, up to a slash; \<open>last\<close> when the pattern ends with it.\<close>

fun match_later :: "bool \<Rightarrow> string \<Rightarrow> string \<Rightarrow> chunk_result" where
  "match_later lst chunk [] = NoMatch"
| "match_later lst chunk (x # s) =
     (if x = CHR ''/'' then NoMatch
      else
        (case matchChunk chunk s of
           Rest t \<Rightarrow> if lst \<and> t \<noteq> [] then match_later lst chunk s else Rest t
         | BadChunk \<Rightarrow> BadChunk
         | NoMatch \<Rightarrow> match_later lst chunk s))"

lemma chunk_of_append: "chunk_of r s = (a, b) \<Longrightarrow> s = a @ b"
  by (induction r s arbitrary: a b rule: chunk_of.induct) (auto split: if_splits prod.splits list.splits)

lemma chunk_of_progress: "chunk_of False s = (a, b) \<Longrightarrow> s \<noteq> [] \<Longrightarrow> hd s \<noteq> star \<Longrightarrow> a \<noteq> []"
  by (cases s) (auto split: if_splits prod.splits list.splits)

lemma scanChunk_shorter:
  assumes "scanChunk pattern = (st, chunk, rest)" "pattern \<noteq> []"
  shows "length rest < length pattern"
proof -
  let ?p = "dropWhile (\<lambda>c. c = star) pattern"
  have c: "chunk_of False ?p = (chunk, rest)" using assms(1) by (simp add: scanChunk_def Let_def)
  have l: "length ?p \<le> length pattern" by (rule length_dropWhile_le)
  have p: "?p = chunk @ rest" by (rule chunk_of_append [OF c])
  show ?thesis
  proof (cases "hd pattern = star")
    case True
    then have "length ?p < length pattern" using assms(2) length_dropWhile_le [of "\<lambda>c. c = star" "tl pattern"] by (cases pattern) auto
    moreover have "length rest \<le> length ?p" by (simp add: p)
    ultimately show ?thesis by simp
  next
    case False
    then have "?p = pattern" using assms(2) by (cases pattern) auto
    then have "chunk \<noteq> []" using chunk_of_progress [of pattern chunk rest] c assms(2) False by simp
    then show ?thesis using p \<open>?p = pattern\<close> by (cases chunk) auto
  qed
qed

text \<open>\<open>None\<close> is an error.\<close>

function path_Match :: "string \<Rightarrow> string \<Rightarrow> bool option" where
  "path_Match pattern name =
     (if pattern = [] then Some (name = [])
      else
        (case scanChunk pattern of
           (st, chunk, rest) \<Rightarrow>
             if st \<and> chunk = [] then Some (CHR ''/'' \<notin> set name)
             else
               let later = (if st then match_later (rest = []) chunk name else NoMatch);
                   later_result = (case later of Rest t \<Rightarrow> path_Match rest t | BadChunk \<Rightarrow> None | NoMatch \<Rightarrow> Some False)
               in
               (case matchChunk chunk name of
                  Rest t \<Rightarrow> if t = [] \<or> rest \<noteq> [] then path_Match rest t else later_result
                | BadChunk \<Rightarrow> None
                | NoMatch \<Rightarrow> later_result)))"
  by pat_completeness auto
termination
  by (relation "measure (\<lambda>(pattern, name). length pattern)") (auto dest: scanChunk_shorter [OF sym])

declare path_Match.simps [simp del]

text \<open>
  \<open>path.Clean\<close> of a relative path, on its elements: empty elements and dots are dropped, and \<open>..\<close> takes the
  element before it away when there is one. \<open>path.Join\<close> drops empty elements, joins and cleans.
\<close>

fun clean_loop :: "string list \<Rightarrow> string list \<Rightarrow> string list" where
  "clean_loop out [] = rev out"
| "clean_loop out (e # es) =
     (if e = [] \<or> e = ''.'' then clean_loop out es
      else if e = ''..'' then
        (case out of
           [] \<Rightarrow> clean_loop [e] es
         | o1 # out' \<Rightarrow> if o1 = ''..'' then clean_loop (e # out) es else clean_loop out' es)
      else clean_loop (e # out) es)"

definition path_Clean :: "string \<Rightarrow> string" where
  "path_Clean s = (let es = clean_loop [] (split_on (CHR ''/'') s) in if es = [] then ''.'' else join ''/'' es)"

definition path_Join :: "string list \<Rightarrow> string" where
  "path_Join elems = (let es = filter (\<lambda>e. e \<noteq> []) elems in if es = [] then [] else path_Clean (join ''/'' es))"

section \<open>Globs\<close>

record Element =
  elPattern :: string
  alwaysMatch :: bool
  neverMatch :: bool

record Glob =
  elems :: "Element list"
  recursive :: bool
  restricted :: bool

definition element :: "string \<Rightarrow> Element" where
  "element p = \<lparr>elPattern = p, alwaysMatch = False, neverMatch = False\<rparr>"

text \<open>The loop of \<open>validate\<close> over the runes, and \<open>True\<close> for a nil error.\<close>

fun validate_loop :: "bool \<Rightarrow> bool \<Rightarrow> rune list \<Rightarrow> bool \<times> bool" where
  "validate_loop escape inrange [] = (escape, inrange)"
| "validate_loop escape inrange (c # cs) =
     (if escape then validate_loop False inrange cs
      else if c = 92 then validate_loop True inrange cs
      else if c = 91 then validate_loop escape True cs
      else if c = 93 then validate_loop escape False cs
      else validate_loop escape inrange cs)"

definition validate_element :: "Element \<Rightarrow> bool" where
  "validate_element m \<longleftrightarrow>
     length (elPattern m) \<noteq> 0 \<and>
     (case validate_loop False False (runes (elPattern m)) of (escape, inrange) \<Rightarrow> \<not> (escape \<or> inrange))"

text \<open>\<open>None\<close> is \<open>ErrBadPattern\<close>.\<close>

definition Glob_Parse :: "string \<Rightarrow> Glob option" where
  "Glob_Parse pattern =
     (if 0 < length pattern \<and> hd pattern = CHR ''/'' then None
      else if pattern = [] then Some \<lparr>elems = [], recursive = False, restricted = False\<rparr>
      else
        let es0 = split_on (CHR ''/'') pattern;
            (es, rec, restr) =
              (if last es0 = ''...'' then (butlast es0, True, False)
               else if last es0 = ''***'' then (butlast es0, True, True)
               else (es0, False, False)) in
        if list_all (\<lambda>e. validate_element (element e)) es
        then Some \<lparr>elems = map element es, recursive = rec, restricted = restr\<rparr>
        else None)"

definition Glob_Len :: "Glob \<Rightarrow> nat" where
  "Glob_Len g = length (elems g)"

definition Glob_Empty :: "Glob \<Rightarrow> bool" where
  "Glob_Empty g \<longleftrightarrow> \<not> recursive g \<and> length (elems g) = 0"

definition Tail :: "Glob \<Rightarrow> Glob" where
  "Tail g =
     (if length (elems g) \<le> 1 then \<lparr>elems = [], recursive = recursive g, restricted = restricted g\<rparr>
      else \<lparr>elems = tl (elems g), recursive = recursive g, restricted = restricted g\<rparr>)"

definition Head :: "Glob \<Rightarrow> Element" where
  "Head g =
     (if length (elems g) = 0 then
        (if recursive g then \<lparr>elPattern = [], alwaysMatch = True, neverMatch = False\<rparr>
         else \<lparr>elPattern = [], alwaysMatch = False, neverMatch = True\<rparr>)
      else hd (elems g))"

definition Match :: "Element \<Rightarrow> string \<Rightarrow> bool" where
  "Match m segment =
     (if neverMatch m then False
      else if alwaysMatch m then True
      else path_Match (elPattern m) segment = Some True)"

fun fixed_loop :: "bool \<Rightarrow> rune list \<Rightarrow> rune list \<Rightarrow> rune list \<times> bool" where
  "fixed_loop escape [] unescaped = (unescaped, True)"
| "fixed_loop escape (c # cs) unescaped =
     (if escape then fixed_loop False cs (unescaped @ [c])
      else if c \<in> set [42, 63, 91] then (unescaped, False)
      else if c = 92 then fixed_loop True cs unescaped
      else fixed_loop escape cs (unescaped @ [c]))"

definition Element_FixedPrefix :: "Element \<Rightarrow> string \<times> bool" where
  "Element_FixedPrefix m =
     (if neverMatch m then ([], True)
      else if alwaysMatch m then ([], False)
      else (case fixed_loop False (runes (elPattern m)) [] of (u, fixed) \<Rightarrow> (string_of_runes u, fixed)))"

fun split_loop :: "Element list \<Rightarrow> string list \<Rightarrow> Glob \<Rightarrow> string list \<times> Glob" where
  "split_loop [] pre tail = (pre, tail)"
| "split_loop (e # es) pre tail =
     (case Element_FixedPrefix e of
        (pfx, fixed) \<Rightarrow> if fixed then split_loop es (pre @ [pfx]) (Tail tail) else (pre, tail))"

definition SplitFixedElements :: "Glob \<Rightarrow> string list \<times> Glob" where
  "SplitFixedElements g = split_loop (elems g) [] g"

definition Glob_String :: "Glob \<Rightarrow> string" where
  "Glob_String g =
     (let es = map elPattern (elems g) in
      path_Join (if recursive g then es @ [if restricted g then ''***'' else ''...''] else es))"

section \<open>The fixed part of a pattern\<close>

text \<open>
  The same reading on bytes: the literal bytes up to the first wildcard, whether there is none, and whether an
  escape is left open at the end.
\<close>

fun lit :: "bool \<Rightarrow> string \<Rightarrow> string \<times> bool \<times> bool" where
  "lit e [] = ([], True, e)"
| "lit e (c # s) =
     (if e then (case lit False s of (f, r) \<Rightarrow> (c # f, r))
      else if c \<in> {star, CHR ''?'', CHR ''[''} then ([], False, False)
      else if c = backslash then lit True s
      else (case lit False s of (f, r) \<Rightarrow> (c # f, r)))"

abbreviation esc :: "bool \<Rightarrow> string" where
  "esc e \<equiv> (if e then [backslash] else [])"

lemma glob_chars_distinct [simp]: "backslash \<noteq> CHR ''['' \<and> backslash \<noteq> CHR ''?'' \<and> backslash \<noteq> star \<and> backslash \<noteq> CHR '']'' \<and> star \<noteq> backslash"
  by (simp add: glob_chars)

lemma matchChunk_backslash:
  "matchChunk (backslash # d # chunk) s = (case s of [] \<Rightarrow> NoMatch | x # s' \<Rightarrow> if d \<noteq> x then NoMatch else matchChunk chunk s')"
  by (cases s) simp_all

lemma matchChunk_plain:
  "c \<notin> {CHR ''['', CHR ''?'', backslash} \<Longrightarrow>
     matchChunk (c # chunk) s = (case s of [] \<Rightarrow> NoMatch | x # s' \<Rightarrow> if c \<noteq> x then NoMatch else matchChunk chunk s')"
  by (cases s) simp_all

lemma matchChunk_literal:
  "lit e p = (f, True, False) \<Longrightarrow> matchChunk (esc e @ p) s = (if prefix f s then Rest (drop (length f) s) else NoMatch)"
proof (induction e p arbitrary: f s rule: lit.induct)
  case (2 e c p)
  show ?case
  proof (cases "\<not> e \<and> c = backslash")
    case True
    then show ?thesis using 2 by simp
  next
    case False
    then obtain f' where f: "f = c # f'" "lit False p = (f', True, False)" "e \<or> c \<notin> {star, CHR ''?'', CHR ''['', backslash}"
      using 2(4) by (auto split: if_splits prod.splits)
    have "matchChunk (esc e @ c # p) s = (case s of [] \<Rightarrow> NoMatch | x # s' \<Rightarrow> if c \<noteq> x then NoMatch else matchChunk p s')"
      using f(3) by (auto simp: matchChunk_backslash matchChunk_plain)
    moreover have "matchChunk p s' = (if prefix f' s' then Rest (drop (length f') s') else NoMatch)" for s'
      using 2(1,3) f(2,3) False by (cases e) auto
    ultimately show ?thesis by (cases s) (auto simp: f(1))
  qed
qed simp

lemma chunk_of_plain:
  "c \<noteq> star \<Longrightarrow> c \<noteq> CHR ''['' \<Longrightarrow> c \<noteq> backslash \<Longrightarrow> chunk_of False (c # s) = (c # fst (chunk_of False s), snd (chunk_of False s))"
  by (auto split: prod.split)

lemma chunk_of_escaped: "chunk_of r (backslash # d # s) = (backslash # d # fst (chunk_of r s), snd (chunk_of r s))"
  by (auto split: prod.split)

lemma chunk_of_literal: "lit e p = (f, True, x) \<Longrightarrow> chunk_of False (esc e @ p) = (esc e @ p, [])"
proof (induction e p arbitrary: f rule: lit.induct)
  case (2 e c p)
  show ?case
  proof (cases "\<not> e \<and> c = backslash")
    case True
    then show ?thesis using 2 by simp
  next
    case False
    then obtain f' where f: "lit False p = (f', True, x)" "e \<or> c \<notin> {star, CHR ''?'', CHR ''['', backslash}"
      using 2(4) by (auto split: if_splits prod.splits)
    have "chunk_of False p = (p, [])" using 2(1,3) f False by (cases e) auto
    then show ?thesis using f(2) by (cases e) (simp_all add: chunk_of_escaped chunk_of_plain del: chunk_of.simps(2))
  qed
qed simp

lemma matchChunk_prefix:
  "lit e p = (f, False, x) \<Longrightarrow> matchChunk (fst (chunk_of False (esc e @ p))) s = Rest t \<Longrightarrow> prefix f s"
proof (induction e p arbitrary: f s rule: lit.induct)
  case (2 e c p)
  consider "\<not> e \<and> c = backslash" | "\<not> e \<and> c \<in> {star, CHR ''?'', CHR ''[''}"
    | "e \<or> c \<notin> {star, CHR ''?'', CHR ''['', backslash}" by blast
  then show ?case
  proof cases
    case 1
    then show ?thesis using 2 by simp
  next
    case 2
    then show ?thesis using "2.prems" by auto
  next
    case 3
    then obtain f' where f: "f = c # f'" "lit False p = (f', False, x)"
      using 2(4) by (auto split: if_splits prod.splits)
    let ?a = "fst (chunk_of False p)"
    have "fst (chunk_of False (esc e @ c # p)) = esc e @ c # ?a"
      using 3 by (cases e) (simp_all add: chunk_of_escaped chunk_of_plain del: chunk_of.simps(2))
    then have "matchChunk (esc e @ c # ?a) s = Rest t" using 2(5) by simp
    then obtain s' where s: "s = c # s'" "matchChunk ?a s' = Rest t"
      using 3 by (cases e) (auto simp: matchChunk_backslash matchChunk_plain split: list.splits if_splits)
    have "prefix f' s'" using 2(1,3) f(2) s(2) 3 by (cases e) auto
    then show ?thesis by (simp add: f(1) s(1))
  qed
qed simp

lemma scanChunk_plain: "p \<noteq> [] \<Longrightarrow> hd p \<noteq> star \<Longrightarrow> scanChunk p = (False, chunk_of False p)"
  by (cases p) (simp_all add: scanChunk_def)

lemma path_Match_literal:
  assumes "lit False p = (f, True, False)"
  shows "path_Match p s = Some (s = f)"
proof (cases "p = []")
  case True
  then show ?thesis using assms by (simp add: path_Match.simps)
next
  case False
  have "hd p \<noteq> star" using assms False by (cases p) auto
  then have "scanChunk p = (False, p, [])" using scanChunk_plain [OF False] chunk_of_literal [OF assms] by simp
  moreover have "matchChunk p s = (if prefix f s then Rest (drop (length f) s) else NoMatch)" using matchChunk_literal [OF assms] by simp
  moreover have "path_Match [] [] = Some True" by (simp add: path_Match.simps)
  moreover have "prefix f s \<and> drop (length f) s = [] \<longleftrightarrow> s = f" by (auto simp: prefix_def)
  ultimately show ?thesis using False by (subst path_Match.simps) (auto split: if_splits)
qed

lemma path_Match_prefix:
  assumes "lit False p = (f, False, x)" "path_Match p s = Some True"
  shows "prefix f s"
proof (cases "f = []")
  case False
  then have p: "p \<noteq> []" "hd p \<noteq> star" using assms(1) by (cases p; auto)+
  obtain a b where c: "chunk_of False p = (a, b)" by (cases "chunk_of False p")
  have "scanChunk p = (False, a, b)" using scanChunk_plain [OF p] c by simp
  then obtain t where "matchChunk a s = Rest t"
    using assms(2) p(1) by (subst (asm) path_Match.simps) (auto simp: Let_def split: chunk_result.splits)
  then show ?thesis using matchChunk_prefix [OF assms(1), of s t] c by simp
qed simp

text \<open>On UTF-8, reading runes and reading bytes agree: the special characters are ASCII.\<close>

lemma string_of_runes_Cons: "string_of_runes (r # rs) = map char_of (encode_rune r) @ string_of_runes rs"
  by (simp add: string_of_runes_def)

lemma char_of_eq: "r < 256 \<Longrightarrow> char_of r = c \<longleftrightarrow> r = (of_char c :: nat)"
  by (metis char_of_char nat_of_char_less_256 of_char_of mod_less)

lemma encode_high:
  assumes "valid_rune r" "128 \<le> r"
  shows "encode_rune r \<noteq> [] \<and> list_all (\<lambda>b. 128 \<le> b \<and> b < 256) (encode_rune r)"
proof -
  have "list_all (\<lambda>b. 128 \<le> b) (encode_valid r)" using assms(2) by (simp add: encode_valid_def)
  then show ?thesis using encode_valid_shape [OF assms(1)] assms(1) by (auto simp: encode_rune_valid list_all_iff)
qed

lemma lit_high:
  fixes bs :: "nat list"
  shows "bs \<noteq> [] \<Longrightarrow> list_all (\<lambda>b. 128 \<le> b \<and> b < 256) bs \<Longrightarrow>
     lit e (map char_of bs @ s) = (case lit False s of (f, r) \<Rightarrow> (map char_of bs @ f, r))"
proof (induction bs arbitrary: e)
  case (Cons b bs)
  have b: "char_of b \<notin> {star, CHR ''?'', CHR ''['', backslash}" using Cons.prems by (auto simp: glob_chars char_of_eq)
  show ?case
  proof (cases "bs = []")
    case True
    then show ?thesis using b by (auto split: prod.split)
  next
    case False
    then have "lit False (map char_of bs @ s) = (case lit False s of (f, r) \<Rightarrow> (map char_of bs @ f, r))"
      using Cons by simp
    then show ?thesis using b by (auto split: prod.split)
  qed
qed simp

lemma fixed_loop_lit:
  assumes "list_all valid_rune rs" "lit e (string_of_runes rs) = (f, w, x)" "fixed_loop e rs acc = (u, w')"
  shows "string_of_runes u = string_of_runes acc @ f \<and> w' = w \<and> (w \<longrightarrow> x = fst (validate_loop e ir rs))"
  using assms
proof (induction rs arbitrary: e f acc ir)
  case Nil
  then show ?case by (simp add: string_of_runes_def)
next
  case (Cons r rs)
  let ?s = "string_of_runes rs"
  have v: "valid_rune r" "list_all valid_rune rs" using Cons.prems by simp_all
  have snoc: "string_of_runes (acc @ [r]) = string_of_runes acc @ map char_of (encode_rune r)"
    by (simp add: string_of_runes_append string_of_runes_def)
  show ?case
  proof (cases "r < 128")
    case True
    then have enc: "encode_rune r = [r]" by (rule encode_rune_ascii)
    have special: "char_of r = star \<longleftrightarrow> r = 42" "char_of r = CHR ''?'' \<longleftrightarrow> r = 63" "char_of r = CHR ''['' \<longleftrightarrow> r = 91"
      "char_of r = backslash \<longleftrightarrow> r = 92" using True by (simp_all add: glob_chars char_of_eq)
    have l: "lit e (string_of_runes (r # rs)) =
        (if e then (case lit False ?s of (f, x) \<Rightarrow> (char_of r # f, x))
         else if r \<in> {42, 63, 91} then ([], False, False)
         else if r = 92 then lit True ?s
         else (case lit False ?s of (f, x) \<Rightarrow> (char_of r # f, x)))"
      using special by (simp add: string_of_runes_Cons enc)
    show ?thesis
    proof (cases "\<not> e \<and> r \<in> {42, 63, 91, 92}")
      case True
      then show ?thesis using Cons.prems(2,3) Cons.IH [OF v(2), of True f acc ir] unfolding l by (auto split: if_splits)
    next
      case False
      obtain f' where f: "f = char_of r # f'" "lit False ?s = (f', w, x)"
        using Cons.prems(2) False unfolding l by (auto split: if_splits prod.splits)
      have "fixed_loop False rs (acc @ [r]) = (u, w')" using Cons.prems(3) False by (auto split: if_splits)
      from Cons.IH [OF v(2) f(2) this] show ?thesis using False by (auto simp: snoc enc f(1))
    qed
  next
    case False
    then have h: "128 \<le> r" by simp
    obtain f' where f: "f = map char_of (encode_rune r) @ f'" "lit False ?s = (f', w, x)"
      using Cons.prems(2) lit_high [of "encode_rune r" e ?s] encode_high [OF v(1) h]
      by (auto simp: string_of_runes_Cons split: prod.splits)
    have "fixed_loop False rs (acc @ [r]) = (u, w')" using Cons.prems(3) h by (auto split: if_splits)
    from Cons.IH [OF v(2) f(2) this] show ?thesis using h by (auto simp: snoc f(1))
  qed
qed

text \<open>The promise of \<open>FixedPrefix\<close> on an element that \<open>Parse\<close> makes.\<close>

lemma FixedPrefix_element:
  assumes "validate_element (element p)" "valid_utf8 p" "Element_FixedPrefix (element p) = (f, fixed)"
  shows "fixed \<Longrightarrow> Match (element p) s \<longleftrightarrow> s = f" "Match (element p) s \<Longrightarrow> prefix f s"
proof -
  obtain u where u: "fixed_loop False (runes p) [] = (u, fixed)" "f = string_of_runes u"
    using assms(3) by (auto simp: Element_FixedPrefix_def element_def split: prod.splits)
  obtain g w x where l: "lit False p = (g, w, x)" by (rule prod_cases3)
  have "f = g \<and> fixed = w \<and> (w \<longrightarrow> x = fst (validate_loop False False (runes p)))"
    using fixed_loop_lit [OF runes_valid, of False p g w x "[]" u fixed False] l u valid_utf8_runes [OF assms(2)]
    by (simp add: string_of_runes_def)
  moreover have "\<not> fst (validate_loop False False (runes p))"
    using assms(1) by (auto simp: validate_element_def element_def split: prod.splits)
  ultimately show "fixed \<Longrightarrow> Match (element p) s \<longleftrightarrow> s = f" "Match (element p) s \<Longrightarrow> prefix f s"
    using l path_Match_literal path_Match_prefix by (auto simp: Match_def element_def)
qed

section \<open>Walking a name\<close>

text \<open>
  A name, as the list of its elements, is matched by walking: the head of the glob matches the first element and the tail of the
  glob the rest; at the end of the name no element may be left.
\<close>

fun walk :: "Glob \<Rightarrow> string list \<Rightarrow> bool" where
  "walk g [] \<longleftrightarrow> Glob_Len g = 0"
| "walk g (x # xs) \<longleftrightarrow> Match (Head g) x \<and> walk (Tail g) xs"

lemma elems_Tail: "elems (Tail g) = tl (elems g)"
  by (cases "elems g"; cases "tl (elems g)") (auto simp: Tail_def)

lemma recursive_Tail [simp]: "recursive (Tail g) = recursive g" "restricted (Tail g) = restricted g"
  by (simp_all add: Tail_def)

lemma walk_iff:
  "walk g xs \<longleftrightarrow>
     list_all2 Match (elems g) (take (length (elems g)) xs) \<and> (recursive g \<or> length xs = length (elems g))"
proof (induction g xs rule: walk.induct)
  case (1 g)
  then show ?case by (auto simp: Glob_Len_def)
next
  case (2 g x xs)
  show ?case
  proof (cases "elems g")
    case Nil
    then show ?thesis using 2 by (auto simp: Head_def Match_def elems_Tail)
  next
    case (Cons e es)
    then show ?thesis using 2 by (auto simp: Head_def elems_Tail)
  qed
qed

definition good_element :: "Element \<Rightarrow> bool" where
  "good_element e \<longleftrightarrow> (\<exists>p. e = element p \<and> validate_element e \<and> valid_utf8 p)"

lemma split_loop_elems:
  assumes "split_loop es pre t = (ps, t')" "elems t = es"
  shows "\<exists>fs. ps = pre @ fs \<and> length fs \<le> length es \<and> elems t' = drop (length fs) es \<and>
    list_all2 (\<lambda>e f. Element_FixedPrefix e = (f, True)) (take (length fs) es) fs \<and>
    recursive t' = recursive t \<and> restricted t' = restricted t \<and>
    (elems t' \<noteq> [] \<longrightarrow> \<not> snd (Element_FixedPrefix (hd (elems t'))))"
  using assms
proof (induction es arbitrary: pre t)
  case Nil
  then show ?case by (intro exI [of _ "[]"]) simp
next
  case (Cons e es)
  obtain f fixed where e: "Element_FixedPrefix e = (f, fixed)" by (cases "Element_FixedPrefix e")
  show ?case
  proof (cases fixed)
    case False
    then have "ps = pre \<and> t' = t" using Cons.prems(1) e by simp
    then show ?thesis using e False Cons.prems(2) by (intro exI [of _ "[]"]) simp
  next
    case True
    then have "split_loop es (pre @ [f]) (Tail t) = (ps, t')" "elems (Tail t) = es"
      using Cons.prems e by (simp_all add: elems_Tail)
    from Cons.IH [OF this] obtain fs where "ps = (pre @ [f]) @ fs \<and> length fs \<le> length es \<and> elems t' = drop (length fs) es \<and>
        list_all2 (\<lambda>e f. Element_FixedPrefix e = (f, True)) (take (length fs) es) fs \<and>
        recursive t' = recursive (Tail t) \<and> restricted t' = restricted (Tail t) \<and>
        (elems t' \<noteq> [] \<longrightarrow> \<not> snd (Element_FixedPrefix (hd (elems t'))))" by blast
    then show ?thesis using e True by (intro exI [of _ "f # fs"]) auto
  qed
qed

lemma fixed_matches:
  "list_all2 (\<lambda>e f. Element_FixedPrefix e = (f, True)) es fs \<Longrightarrow> list_all good_element es \<Longrightarrow> list_all2 Match es xs \<longleftrightarrow> xs = fs"
proof (induction es fs arbitrary: xs rule: list_all2_induct)
  case (Cons e es f fs)
  then obtain p where "e = element p" "validate_element e" "valid_utf8 p" by (auto simp: good_element_def)
  then have "Match e x \<longleftrightarrow> x = f" for x using FixedPrefix_element(1) Cons.hyps(1) by blast
  then show ?case using Cons by (auto simp: list_all2_Cons1)
qed simp

lemma Parse_good:
  assumes "Glob_Parse p = Some g" "list_all valid_utf8 (split_on (CHR ''/'') p)"
  shows "list_all good_element (elems g)"
proof -
  have "x \<in> set (butlast es) \<Longrightarrow> x \<in> set es" for x :: string and es by (rule in_set_butlastD)
  then show ?thesis
    using assms
    by (auto simp: Glob_Parse_def list_all_iff good_element_def element_def Let_def split: if_splits prod.splits)
qed

section \<open>Text\<close>

lemma clean_loop_plain:
  "list_all (\<lambda>e. e \<noteq> [] \<and> e \<noteq> ''.'' \<and> e \<noteq> ''..'') es \<Longrightarrow> clean_loop out es = rev out @ es"
  by (induction es arbitrary: out) simp_all

lemma path_Join_plain:
  assumes "list_all (\<lambda>e. e \<noteq> [] \<and> e \<noteq> ''.'' \<and> e \<noteq> ''..'' \<and> CHR ''/'' \<notin> set e) es"
  shows "path_Join es = join ''/'' es"
proof (cases "es = []")
  case False
  have e: "list_all (\<lambda>e. CHR ''/'' \<notin> set e) es" "list_all (\<lambda>e. e \<noteq> [] \<and> e \<noteq> ''.'' \<and> e \<noteq> ''..'') es"
    using assms by (simp_all add: list_all_iff)
  have "filter (\<lambda>e. e \<noteq> []) es = es" using assms by (simp add: list_all_iff)
  moreover have "split_on (CHR ''/'') (join ''/'' es) = es" using split_on_join [OF False e(1)] by simp
  ultimately show ?thesis using False by (simp add: path_Join_def path_Clean_def clean_loop_plain [OF e(2)])
qed (simp add: path_Join_def)

section \<open>Properties\<close>

text \<open>C40: 
  Splitting the fixed elements off a parsed glob keeps what it matches: a name matches the glob exactly when it starts with the
  fixed elements and the rest matches the glob that follows, whose first element, if it has one, is not fixed. So a server may go straight to the
  name that the fixed elements spell.
\<close>

theorem SplitFixedElements_correct:
  assumes "Glob_Parse p = Some g" "list_all valid_utf8 (split_on (CHR ''/'') p)" "SplitFixedElements g = (pre, t)"
  shows "(walk g xs \<longleftrightarrow> take (length pre) xs = pre \<and> walk t (drop (length pre) xs)) \<and>
    (elems t \<noteq> [] \<longrightarrow> \<not> snd (Element_FixedPrefix (Head t)))"
proof -
  obtain fs where fs: "pre = fs" "length fs \<le> length (elems g)" "elems t = drop (length fs) (elems g)"
    "list_all2 (\<lambda>e f. Element_FixedPrefix e = (f, True)) (take (length fs) (elems g)) fs"
    "recursive t = recursive g" "elems t \<noteq> [] \<longrightarrow> \<not> snd (Element_FixedPrefix (hd (elems t)))"
    using split_loop_elems [OF assms(3) [unfolded SplitFixedElements_def]] by auto
  let ?n = "length fs" and ?m = "length (elems g)"
  have good: "list_all good_element (take ?n (elems g))"
    using Parse_good [OF assms(1,2)] by (auto simp: list_all_iff dest: in_set_takeD)
  have "list_all2 Match (elems g) (take ?m xs) \<longleftrightarrow>
      list_all2 Match (take ?n (elems g)) (take ?n xs) \<and> list_all2 Match (elems t) (take (length (elems t)) (drop ?n xs))"
    (is "?l \<longleftrightarrow> ?a \<and> ?b")
  proof
    assume h: ?l
    then have "?m \<le> length xs" using list_all2_lengthD by force
    moreover have "list_all2 Match (take ?n (elems g) @ drop ?n (elems g)) (take ?n xs @ take (?m - ?n) (drop ?n xs))"
      using h fs(2) by (simp add: take_add [symmetric] flip: take_drop)
    ultimately show "?a \<and> ?b" using fs(2,3) by (subst (asm) list_all2_append) auto
  next
    assume h: "?a \<and> ?b"
    then have "list_all2 Match (take ?n (elems g) @ drop ?n (elems g)) (take ?n xs @ take (?m - ?n) (drop ?n xs))"
      using fs(3) by (intro list_all2_appendI) auto
    then show ?l using fs(2) by (simp add: take_add [symmetric] flip: take_drop)
  qed
  moreover have "list_all2 Match (take ?n (elems g)) (take ?n xs) \<longleftrightarrow> take ?n xs = fs"
    using fixed_matches [OF fs(4) good] by blast
  moreover have "take ?n xs = fs \<Longrightarrow> length xs = ?m \<longleftrightarrow> length (drop ?n xs) = length (elems t)"
    using fs(2,3) by (auto dest: arg_cong [of _ _ length])
  ultimately show ?thesis using fs(1,5,6) by (auto simp: walk_iff Head_def)
qed

text \<open>
  A glob prints as the pattern it was parsed from, when no element of the pattern is one or two dots, which
  \<open>path.Join\<close> would resolve.
\<close>

theorem Glob_String_Parse:
  assumes "Glob_Parse p = Some g" "list_all (\<lambda>e. e \<noteq> ''.'' \<and> e \<noteq> ''..'') (split_on (CHR ''/'') p)"
  shows "Glob_String g = p"
proof (cases "p = []")
  case True
  then show ?thesis using assms(1) by (auto simp: Glob_Parse_def Glob_String_def path_Join_def)
next
  case False
  let ?es0 = "split_on (CHR ''/'') p"
  obtain es rec restr where e: "(if last ?es0 = ''...'' then (butlast ?es0, True, False)
      else if last ?es0 = ''***'' then (butlast ?es0, True, True) else (?es0, False, False)) = (es, rec, restr)"
    by (rule prod_cases3)
  have g: "g = \<lparr>elems = map element es, recursive = rec, restricted = restr\<rparr>" "list_all (\<lambda>e. validate_element (element e)) es"
    using assms(1) False e by (auto simp: Glob_Parse_def split: if_splits)
  have all: "map elPattern (elems g) = es" by (simp add: g(1) element_def comp_def)
  have whole: "(if rec then es @ [if restr then ''***'' else ''...''] else es) = ?es0"
  proof -
    have b: "butlast ?es0 @ [l] = ?es0" if "last ?es0 = l" for l
      using that append_butlast_last_id [of ?es0] by simp
    show ?thesis using e by (auto simp: b split: if_splits)
  qed
  have "list_all (\<lambda>e. e \<noteq> []) es" using g(2) by (auto simp: list_all_iff validate_element_def element_def)
  then have "list_all (\<lambda>e. e \<noteq> []) ?es0" unfolding whole [symmetric] by simp
  then have plain: "list_all (\<lambda>e. e \<noteq> [] \<and> e \<noteq> ''.'' \<and> e \<noteq> ''..'' \<and> CHR ''/'' \<notin> set e) ?es0"
    using assms(2) list_all_split_on [of "CHR ''/''" p] by (simp add: list_all_iff)
  have "Glob_String g = path_Join (if rec then es @ [if restr then ''***'' else ''...''] else es)"
    by (simp add: Glob_String_def all) (simp add: g(1))
  also have "\<dots> = p" unfolding whole path_Join_plain [OF plain] by (rule join_split_on)
  finally show ?thesis .
qed

lemmas glob_eval = Glob_Parse_def element_def validate_element_def ascii_simps Element_FixedPrefix_def Tail_def

lemma dotted_glob_changes: "\<exists>g. Glob_Parse ''a/..'' = Some g \<and> Glob_String g = ''.''"
proof -
  have "Glob_Parse ''a/..'' = Some \<lparr>elems = [element ''a'', element ''..''], recursive = False, restricted = False\<rparr>"
    by (simp add: glob_eval)
  moreover have "path_Join [''a'', ''..''] = ''.''" by (simp add: path_Join_def path_Clean_def)
  ultimately show ?thesis by (simp add: Glob_String_def element_def)
qed

theorem SplitFixedElements_correct_witness:
  "\<exists>g t. Glob_Parse ''a/*'' = Some g \<and> SplitFixedElements g = ([''a''], t) \<and>
    (walk g [''a'', ''b''] \<longleftrightarrow> walk t [''b''])"
proof -
  let ?g = "\<lparr>elems = [element ''a'', element ''*''], recursive = False, restricted = False\<rparr>"
  let ?t = "\<lparr>elems = [element ''*''], recursive = False, restricted = False\<rparr>"
  have p: "Glob_Parse ''a/*'' = Some ?g" by (simp add: glob_eval)
  have "(char_of (97 :: nat) :: char) = CHR ''a''" by code_simp
  then have "string_of_runes [97] = ''a''" using string_of_runes_ascii [of "[97]"] by simp
  then have s: "SplitFixedElements ?g = ([''a''], ?t)"
    by (simp add: SplitFixedElements_def glob_eval)
  have "list_all valid_utf8 (split_on (CHR ''/'') ''a/*'')" by (simp add: ascii_simps)
  from SplitFixedElements_correct [OF p this s, of "[''a'', ''b'']"] p s show ?thesis by auto
qed

theorem Glob_String_Parse_witness:
  "\<exists>g. Glob_Parse ''a/***'' = Some g \<and> Glob_String g = ''a/***''"
proof -
  let ?g = "\<lparr>elems = [element ''a''], recursive = True, restricted = True\<rparr>"
  have "Glob_Parse ''a/***'' = Some ?g" by (simp add: glob_eval)
  from Glob_String_Parse [OF this] this show ?thesis by auto
qed

end
