(* ===== verification/Spec2Isabelle.thy ===== *)
theory Spec2Isabelle
  imports ContextTree NamingEndpoint FlowMessage VomBinary SecurityAccess SecurityCaveat QueryTermination QueryExec
    SyncbaseStreams SyncbaseConflict GlobPattern
begin

text \<open>
  A verification library for the Go repository v.io/v23, the public API of Vanadium: names and endpoints of
  objects, the wire formats below the RPC system, the security model with its blessings, access lists and
  caveats, and the query language of Syncbase.

  The parts and their theories, from the bottom up:

  \<^item> \<open>GoPrelude\<close> (results of fallible calls, bytes and big-endian numbers) and \<open>GoStrings\<close> (the functions of
    package strings that the code calls) are shared by all. \<open>WireCodec\<close> holds the interface of a
    variable-length codec, with interpretations in \<open>FlowVarint\<close> and \<open>VomBinary\<close>.
  \<^item> naming: \<open>NamingParse\<close> (parse.go: cleaning, splitting, joining and escaping of names) and \<open>NamingEndpoint\<close>
    (endpoint.go, routingid.go, util.go: printing and parsing of endpoints). Strings are character lists, one
    character per byte.
  \<^item> flow/message: \<open>FlowVarint\<close> and \<open>FlowMessage\<close>, all messages of a connection with \<open>Append\<close> and \<open>Read\<close>. An
    interface locale for the body of one message type is interpreted for every type.
  \<^item> vom: \<open>VomBuf\<close> (buf.go: the growing write buffer and the read buffer over a reader that delivers the stream in
    pieces) and \<open>VomBinary\<close> (binary_util.go: the primitive values). A buffer is a record of the code's fields,
    every operation returns the updated record.
  \<^item> security: \<open>SecurityPattern\<close> (pattern.go), \<open>SecurityWire\<close> (signature.go, ecdsa.go and the types of
    security.vdl.go), \<open>SecurityCert\<close> (certificate.go with the signature cache), \<open>SecurityBlessings\<close> (blessings.go and
    the operations of principal.go), \<open>SecurityAccess\<close> (access lists, permissions, authorizers), \<open>SecurityCaveat\<close>
    (caveat.go, init.go, discharge.go).
  \<^item> context: \<open>ContextTree\<close> (context.go). Contexts are values; the cells, timers and goroutines that share them are a state
    with a step relation, one step for each section under a lock, so that every interleaving is covered.
  \<^item> query: \<open>GoUtf8\<close> (runes) and \<open>LikePattern\<close> (pattern.go) for LIKE; \<open>QueryParser\<close> (query_parser.go) with \<open>QueryTermination\<close> and
    \<open>QuerySubst\<close>; \<open>GoFloat\<close> and \<open>QueryFunctions\<close> (conversions.go and the functions of the language); \<open>QueryRanges\<close>,
    \<open>QueryChecker\<close> and \<open>QueryIndex\<close> (query_checker.go); \<open>QueryEval\<close> (eval.go), \<open>QuerySound\<close> and \<open>QueryTyped\<close>, which relate the
    checker to the evaluation; \<open>QueryExec\<close> (query.go, result_streams.go).
  \<^item> syncbase: \<open>Conventions\<close> (package conventions), \<open>SyncbaseNames\<close> (ids, ranges, patterns and handles of the client library),
    \<open>SyncbaseStreams\<close> (batches and the streams of scans, queries and watches, one step for each method or locked section), and
    \<open>SyncbaseConflict\<close> (conflict resolution and schemas of database.go).
  \<^item> glob: \<open>GlobPattern\<close> (glob.go).

  How they interact. An endpoint travels inside the messages of a connection (\<open>FlowMessage\<close> uses \<open>NamingEndpoint\<close>).
  Access lists decide on the names that \<open>RemoteBlessingNames\<close> validates: the names come from the certificate chains,
  which \<open>validateCertificateChain\<close> accepts, and from the caveats in them, which \<open>validate\<close> checks with the
  discharges of the call. Certificates and discharges share the signature cache; its state is passed through. Object names
  of Syncbase are built with \<open>Join\<close> and the escaping of \<open>NamingParse\<close>, their ids hold blessing patterns, and the patterns
  of a watch are LIKE patterns.

  What the lemmas show. For formats: decoding inverts encoding, printing a parsed value gives an equal one, the
  length bounds, and which errors come from malformed input. For buffers: an abstraction to the bytes that are
  still unread, and that every operation advances it as a plain stream would, whatever pieces the reader
  delivers. For security: the chains that are accepted are those whose signatures verify, with and without
  the cache; every value of type Blessings that the operations make satisfies the invariant of valid chains
  of one key; when an access list includes names, when a list can be enforced, when a caveat validates. For contexts:
  no reachable state has closed a channel twice, cancelling reaches all descendants and ends, and nothing is
  cancelled without a reason above it. For the
  query parser: it returns on all inputs, and the substitution of parameters equals a two-phase reference. For
  queries: a statement selects or deletes what its where clause says, whatever the index ranges leave out. For
  the Syncbase client: names decode to what they were made from, every batch is ended once, and the streams deliver in order
  under every interleaving with their cancelling; the three streams are interpretations of one locale.

  What stands for code outside the repository is an argument: the hash functions, signing and verification of
  ECDSA, the encoding of keys (record \<open>crypto\<close>), the decoding of caveat parameters, the reader, \<open>net.SplitHostPort\<close> only
  as far as the source relies on it, \<open>strconv.ParseFloat\<close>, the tokens of \<open>text/scanner\<close>, what the query functions take from packages strings,
  math, time and html, and the data source of a query, of which the documented contract is assumed. Properties that need a
  law of such a parameter name it as a hypothesis and have a witness with a concrete function. The iteration
  order of Go maps is an argument too.

  Loops and fuel. Loops over data are structural or have a measure. A loop that may not end in Go (validation of
  caveats, reading from a reader that delivers nothing) has fuel, \<open>None\<close> standing for not having returned.
  \<open>validate_terminates\<close> gives fuel for ranked discharges, and \<open>self_discharge_diverges\<close> shows that there is none without a
  rank; the buffers return after at most 100 empty reads or the number of missing bytes. The parser has the
  number of tokens plus three, which \<open>Parse_returns\<close> shows to be enough.

  Not modelled: methods that only format for people (String methods, package i18n, vtrace, verror), generated
  code and interfaces (the .vdl.go files, model.go), invocation by reflection (rpc), I/O and the methods that only make a
  remote call (syncbase, services, namespace, discovery), and VDL types with the VOM encoder and decoder above the primitive values.
\<close>

lemma reads_agree:
  assumes "dec_inv d"
  shows "(\<exists>d'. binaryDecodeUint d = Some (Inr v, d') \<and> avail d' = rest) \<longleftrightarrow> readVarUint64 (avail d) = (v, rest, True)"
proof
  assume "\<exists>d'. binaryDecodeUint d = Some (Inr v, d') \<and> avail d' = rest"
  then obtain d' where d': "binaryDecodeUint d = Some (Inr v, d')" "avail d' = rest" by blast
  then obtain rest' where r: "varint_dec (avail d) = Some (v, rest')"
    using uint_codec.run_determined [OF assms] by blast
  with uint_codec.run_avail [OF assms r] d' show "readVarUint64 (avail d) = (v, rest, True)"
    by (auto simp: readVarUint64_iff)
next
  assume "readVarUint64 (avail d) = (v, rest, True)"
  then show "\<exists>d'. binaryDecodeUint d = Some (Inr v, d') \<and> avail d' = rest"
    using uint_codec.run_avail [OF assms] by (auto simp: readVarUint64_iff)
qed

text \<open>C9: 
  The two formats for unsigned numbers, of a connection's messages and of VOM, are one, although one writer is a
  loop over the bytes and the other a cascade of comparisons: \<open>writeVarUint64\<close> appends to a slice what
  \<open>binaryEncodeUint\<close> appends to an encbuf, and \<open>readVarUint64\<close> accepts a slice with the same number and the same
  rest with which \<open>binaryDecodeUint\<close> reads the same bytes from a decbuf.
\<close>

theorem number_formats_agree:
  assumes "enc_inv b" "dec_inv d"
  shows "enc_Bytes (binaryEncodeUint v b) = writeVarUint64 v (enc_Bytes b) \<and>
    ((\<exists>d'. binaryDecodeUint d = Some (Inr w, d') \<and> avail d' = rest) \<longleftrightarrow> readVarUint64 (avail d) = (w, rest, True))"
  by (simp add: uint_writer.put_Bytes assms writeVarUint64_eq reads_agree)

theorem number_formats_agree_witness:
  "enc_Bytes (binaryEncodeUint 300 newEncbuf) = writeVarUint64 300 [] \<and>
   (\<exists>d'. binaryDecodeUint (newDecbuf \<lparr>rd_pieces = [[0xfe], [1, 0x2c, 9]], rd_final = EOF\<rparr>) = Some (Inr 300, d') \<and> avail d' = [9])"
proof -
  let ?d = "newDecbuf \<lparr>rd_pieces = [[0xfe], [1, 0x2c, 9]], rd_final = EOF\<rparr>"
  have inv: "enc_inv newEncbuf" "dec_inv ?d" "avail ?d = [0xfe, 1, 0x2c, 9]" by (simp_all add: reader_bytes_def)
  have "readVarUint64 [0xfe, 1, 0x2c, 9] = (300, [9], True)" by code_simp
  with number_formats_agree [OF inv(1,2), of 300 300 "[9]"] inv(3) show ?thesis by simp
qed

end
